(* ===== verification/Inno_Prelude.thy ===== *)
theory Inno_Prelude
  imports Main "HOL-Library.Word"
begin

text \<open>
  The prelude of the development: the machine types the sources use, a byte addressed memory,
  the collection of rewrite rules that move a word equation to the natural numbers, and the
  facts on lists and numbers that the component theories share.
\<close>

section \<open>Machine types\<close>

unbundle bit_operations_syntax

text \<open>
  \<open>byte\<close> is \<open>unsigned char\<close>, \<open>ulint\<close> is \<open>unsigned long int\<close> of \<open>univ.h\<close> on a 64 bit platform.
  A pointer is a natural number and memory a total function of it; the sources never check a
  pointer against the end of an allocation, except where a definition below says so.
\<close>

type_synonym byte = "8 word"
type_synonym u16 = "16 word"
type_synonym u32 = "32 word"
type_synonym u64 = "64 word"
type_synonym ulint = "64 word"
type_synonym ptr = nat
type_synonym mem = "ptr \<Rightarrow> byte"

definition ULINT_UNDEFINED :: ulint where
  "ULINT_UNDEFINED = - 1"

definition UNIV_SQL_NULL :: ulint where
  "UNIV_SQL_NULL = 0xFFFFFFFF"

section \<open>Words as natural numbers\<close>

named_theorems unat_simps \<open>rules that turn a word expression into its natural number\<close>

lemmas nat_bits =
  drop_bit_eq_div [where ?'a = nat] push_bit_eq_mult [where ?'a = nat]
  take_bit_eq_mod [where ?'a = nat]

lemma word_eq_of_nat: "unat (x :: 'a :: len word) = n \<Longrightarrow> x = of_nat n"
  by auto

lemma unat_add_of_nat:
  "unat w + n < 2 ^ LENGTH('a) \<Longrightarrow> unat (w + of_nat n :: 'a :: len word) = unat w + n"
  by (simp add: unat_word_ariths(1) unat_of_nat mod_add_right_eq)

lemma sint_small: "unat b < 2 ^ 31 \<Longrightarrow> sint (b :: 32 word) = int (unat b)"
proof -
  assume l: "unat b < 2 ^ 31"
  have "sint (of_nat (unat b) :: 32 word) = int (unat b)"
    using l by (simp add: signed_of_nat signed_take_bit_int_eq_self del: of_nat_unat)
  then show ?thesis by simp
qed

lemma unat_byte_less: "unat (w :: byte) < 256"
  using unsigned_less [of w] by simp

lemma unat_ulint_less: "unat (w :: 64 word) < 2 ^ 64"
  using unsigned_less [of w] by simp

lemma unat_u16_less: "unat (w :: 16 word) < 65536"
  using unsigned_less [of w] by simp

lemma unat_u32_less: "unat (w :: 32 word) < 4294967296"
  using unsigned_less [of w] by simp

lemma unat_drop [unat_simps]: "unat (drop_bit k (w :: 'a :: len word)) = unat w div 2 ^ k"
  by (simp only: unat_drop_bit_eq nat_bits)

lemma unat_to_byte [unat_simps]: "unat (ucast (w :: ulint) :: byte) = unat w mod 256"
  by (simp add: unsigned_ucast_eq nat_bits)

lemma unat_of_byte [unat_simps]: "unat (ucast (w :: byte) :: ulint) = unat w"
  using unat_byte_less [of w] by (simp add: unsigned_ucast_eq nat_bits)

lemma unat_push_byte [unat_simps]:
  assumes "k \<le> 56"
  shows "unat (push_bit k (ucast (w :: byte) :: ulint)) = unat w * 2 ^ k"
proof -
  have "unat w * 2 ^ k < 256 * 2 ^ k" using unat_byte_less [of w] by simp
  also have "\<dots> \<le> 2 ^ 64"
    using assms power_increasing [of "8 + k" 64 "2 :: nat"] by (simp add: power_add)
  finally show ?thesis
    by (simp only: unsigned_push_bit_eq unat_of_byte nat_bits) simp
qed

lemma unat_plus:
  assumes "unat (a :: 'a :: len word) + unat b < 2 ^ LENGTH('a)"
  shows "unat (a + b) = unat a + unat b"
  using assms by (simp add: unat_word_ariths)

lemma unat_and_mask [unat_simps]:
  "unat ((a :: 'a :: len word) AND mask k) = unat a mod 2 ^ k"
  by (simp only: take_bit_eq_mask [symmetric] unsigned_take_bit_eq nat_bits)

text \<open>A bitwise or with bits above all bits of the other operand is a sum.\<close>

lemma nat_or_push_bit:
  assumes "(a :: nat) < 2 ^ k"
  shows "a OR push_bit k b = a + b * 2 ^ k"
proof -
  have a: "take_bit k a = a" using assms by (simp add: nat_bits)
  have "a AND push_bit k b = 0"
    by (rule bit_eqI, subst a [symmetric]) (auto simp: bit_simps)
  then have "a + push_bit k b = a OR push_bit k b" by (rule disjunctive_add_eq_or)
  then show ?thesis by (simp only: nat_bits)
qed

lemma unat_or_high:
  assumes "unat (n :: 'a :: len word) < 2 ^ k" and "unat (h :: 'a word) = b * 2 ^ k"
  shows "unat (n OR h) = unat n + b * 2 ^ k"
  using nat_or_push_bit [OF assms(1), of b] assms(2)
  by (simp add: unsigned_or_eq nat_bits)

section \<open>Big-endian digits\<close>

lemma div_256_div:
  "(n :: nat) div 2 ^ 16 = n div 256 div 2 ^ 8"
  "n div 2 ^ 24 = n div 256 div 2 ^ 16"
  "n div 2 ^ 8 = n div 256"
  by (simp_all add: div_mult2_eq [symmetric])

lemma digits_2:
  assumes "(n :: nat) < 2 ^ 16"
  shows "n div 2 ^ 8 mod 256 * 256 + n mod 256 = n"
proof -
  have "n div 256 < 256" using assms by (simp add: less_mult_imp_div_less)
  then show ?thesis by simp
qed

lemma digits_3:
  assumes "(n :: nat) < 2 ^ 24"
  shows "n div 2 ^ 16 mod 256 * 65536 + n div 2 ^ 8 mod 256 * 256 + n mod 256 = n"
proof -
  define m where "m = n div 256"
  have "m < 2 ^ 16" using assms by (simp add: m_def less_mult_imp_div_less)
  from digits_2 [OF this] have "m div 2 ^ 8 mod 256 * 256 + m mod 256 = m" .
  moreover have "n = n mod 256 + 256 * m" by (simp add: m_def)
  ultimately show ?thesis unfolding div_256_div m_def [symmetric] by linarith
qed

lemma digits_4:
  assumes "(n :: nat) < 2 ^ 32"
  shows "n div 2 ^ 24 mod 256 * 16777216 + n div 2 ^ 16 mod 256 * 65536
    + n div 2 ^ 8 mod 256 * 256 + n mod 256 = n"
proof -
  define m where "m = n div 256"
  have "m < 2 ^ 24" using assms by (simp add: m_def less_mult_imp_div_less)
  from digits_3 [OF this]
  have "m div 2 ^ 16 mod 256 * 65536 + m div 2 ^ 8 mod 256 * 256 + m mod 256 = m" .
  moreover have "n = n mod 256 + 256 * m" by (simp add: m_def)
  ultimately show ?thesis unfolding div_256_div m_def [symmetric] by linarith
qed

section \<open>Memory\<close>

text \<open>
  \<open>mem_bytes m p n\<close> reads the \<open>n\<close> bytes at \<open>p\<close>; \<open>mem_put m p bs\<close> stores a byte string
  (\<open>memcpy\<close> into \<open>p\<close>).
\<close>

definition mem_bytes :: "mem \<Rightarrow> ptr \<Rightarrow> nat \<Rightarrow> byte list" where
  "mem_bytes m p n = map (\<lambda>i. m (p + i)) [0..<n]"

fun mem_put :: "mem \<Rightarrow> ptr \<Rightarrow> byte list \<Rightarrow> mem" where
  "mem_put m p [] = m"
| "mem_put m p (x # xs) = mem_put (m(p := x)) (Suc p) xs"

named_theorems mem_simps \<open>reading back stored bytes\<close>

lemma length_mem_bytes [simp]: "length (mem_bytes m p n) = n"
  by (simp add: mem_bytes_def)

lemma nth_mem_bytes [simp]: "i < n \<Longrightarrow> mem_bytes m p n ! i = m (p + i)"
  by (simp add: mem_bytes_def)

lemma mem_put_outside [mem_simps]: "i < p \<or> p + length xs \<le> i \<Longrightarrow> mem_put m p xs i = m i"
  by (induction xs arbitrary: m p) auto

lemma mem_put_inside [mem_simps]: "i < length xs \<Longrightarrow> mem_put m p xs (p + i) = xs ! i"
proof (induction xs arbitrary: m p i)
  case (Cons x xs)
  show ?case
  proof (cases i)
    case 0
    then show ?thesis by (simp add: mem_put_outside)
  next
    case (Suc j)
    with Cons.prems have "j < length xs" by simp
    from Cons.IH [OF this, of "m(p := x)" "Suc p"] Suc show ?thesis by (simp del: fun_upd_apply)
  qed
qed simp

lemma mem_bytes_put [mem_simps]: "mem_bytes (mem_put m p xs) p (length xs) = xs"
  by (rule nth_equalityI) (simp_all add: mem_put_inside)

lemma mem_bytes_cong:
  "(\<And>i. p \<le> i \<Longrightarrow> i < p + n \<Longrightarrow> m i = m' i) \<Longrightarrow> mem_bytes m p n = mem_bytes m' p n"
  by (simp add: mem_bytes_def)

lemma mem_bytes_append: "mem_bytes m p (a + b) = mem_bytes m p a @ mem_bytes m (p + a) b"
  by (rule nth_equalityI) (auto simp: nth_append)

text \<open>A buffer that ends at \<open>e\<close> and holds the bytes \<open>bs\<close> at \<open>p\<close> as far as it reaches.\<close>

definition mem_holds :: "mem \<Rightarrow> ptr \<Rightarrow> ptr \<Rightarrow> byte list \<Rightarrow> bool" where
  "mem_holds m p e bs \<longleftrightarrow> (\<forall>j < length bs. p + j < e \<longrightarrow> m (p + j) = bs ! j)"

lemma mem_holds_append:
  "mem_holds m p e (xs @ ys) \<longleftrightarrow> mem_holds m p e xs \<and> mem_holds m (p + length xs) e ys"
proof (intro iffI conjI)
  assume h: "mem_holds m p e (xs @ ys)"
  show "mem_holds m p e xs"
    unfolding mem_holds_def
  proof (intro allI impI)
    fix j assume "j < length xs" "p + j < e"
    with h show "m (p + j) = xs ! j" by (auto simp: mem_holds_def nth_append dest!: spec [of _ j])
  qed
  show "mem_holds m (p + length xs) e ys"
    unfolding mem_holds_def
  proof (intro allI impI)
    fix j assume "j < length ys" "p + length xs + j < e"
    with h show "m (p + length xs + j) = ys ! j"
      by (auto simp: mem_holds_def nth_append add.assoc dest!: spec [of _ "length xs + j"])
  qed
next
  assume h: "mem_holds m p e xs \<and> mem_holds m (p + length xs) e ys"
  show "mem_holds m p e (xs @ ys)"
    unfolding mem_holds_def
  proof (intro allI impI)
    fix j assume j: "j < length (xs @ ys)" "p + j < e"
    show "m (p + j) = (xs @ ys) ! j"
    proof (cases "j < length xs")
      case False
      then obtain k where "j = length xs + k" using le_Suc_ex by (auto simp: not_less)
      with h j show ?thesis by (simp add: mem_holds_def nth_append add.assoc)
    qed (use h j in \<open>simp add: mem_holds_def nth_append\<close>)
  qed
qed

lemma mem_holds_full: "p + length bs \<le> e \<Longrightarrow> mem_holds m p e bs \<longleftrightarrow> mem_bytes m p (length bs) = bs"
  by (auto simp: mem_holds_def list_eq_iff_nth_eq)

text \<open>\<open>d'\<close> is \<open>d\<close> with the bytes \<open>bs\<close> written at \<open>p\<close>, and nothing changed before \<open>p\<close>.\<close>

definition writes :: "mem \<Rightarrow> ptr \<Rightarrow> mem \<Rightarrow> byte list \<Rightarrow> bool" where
  "writes d p d' bs \<longleftrightarrow> (\<forall>i < p. d' i = d i) \<and> mem_bytes d' p (length bs) = bs"

lemma writes_Nil [simp]: "writes d p d []"
  by (simp add: writes_def mem_bytes_def)

end
