(* ===== verification/Codec.thy ===== *)
theory Codec
  imports Inno_Prelude
begin

text \<open>
  The interface of a fixed-position encoding: a writer, the number of bytes it takes, and the
  reader that gets the value back. Its laws say that a write touches its own bytes only and
  that any memory which agrees with the written one on those bytes reads the value back, so
  later writes elsewhere do not disturb it. Two encodings laid one after the other are again
  an encoding; the composite formats of \<open>mach0data.cc\<close> are instances of that construction.
\<close>

section \<open>One encoding\<close>

locale codec =
  fixes wr :: "mem \<Rightarrow> ptr \<Rightarrow> 'a \<Rightarrow> mem"
    and sz :: "'a \<Rightarrow> nat"
    and rd :: "mem \<Rightarrow> ptr \<Rightarrow> 'a"
    and ok :: "'a \<Rightarrow> bool"
  assumes wr_frame: "ok x \<Longrightarrow> i < b \<or> b + sz x \<le> i \<Longrightarrow> wr m b x i = m i"
    and rd_back:
      "ok x \<Longrightarrow> (\<And>i. b \<le> i \<Longrightarrow> i < b + sz x \<Longrightarrow> m' i = wr m b x i) \<Longrightarrow> rd m' b = x"
    and wr_shift: "ok x \<Longrightarrow> j < sz x \<Longrightarrow> wr m b x (b + j) = wr m' b' x (b' + j)"
begin

text \<open>The bytes of a value; they do not depend on where it is written.\<close>

definition enc :: "'a \<Rightarrow> byte list" where
  "enc x = mem_bytes (wr (\<lambda>_. 0) 0 x) 0 (sz x)"

lemma length_enc [simp]: "length (enc x) = sz x"
  by (simp add: enc_def)

lemma mem_bytes_wr: "ok x \<Longrightarrow> mem_bytes (wr m b x) b (sz x) = enc x"
  using wr_shift [of x _ m b "\<lambda>_. 0" 0] by (auto simp: enc_def intro: nth_equalityI)

lemma rd_enc:
  assumes "ok x" and "mem_bytes m b (sz x) = enc x"
  shows "rd m b = x"
proof (rule rd_back [OF assms(1), of b m m])
  fix i assume i: "b \<le> i" "i < b + sz x"
  have "mem_bytes m b (sz x) ! (i - b) = mem_bytes (wr m b x) b (sz x) ! (i - b)"
    using assms mem_bytes_wr by simp
  with i show "m i = wr m b x i" by simp
qed

lemma writes_wr:
  assumes "ok x" and "writes d p d' bs" and "q = p + length bs"
  shows "writes d p (wr d' q x) (bs @ enc x)"
proof -
  have "mem_bytes (wr d' q x) p (length bs) = mem_bytes d' p (length bs)"
    by (rule mem_bytes_cong) (simp add: wr_frame assms)
  with assms show ?thesis by (simp add: writes_def mem_bytes_append mem_bytes_wr wr_frame)
qed

lemma rd_wr: "ok x \<Longrightarrow> rd (wr m b x) b = x"
  by (rule rd_back [of x b _ m]) simp_all

text \<open>The same write at the same offset of two equal regions leaves them equal.\<close>

lemma wr_image:
  assumes "ok x" and "\<And>j. j < n \<Longrightarrow> m (f + j) = m' (f' + j)" and "j < n"
  shows "wr m (f + off) x (f + j) = wr m' (f' + off) x (f' + j)"
proof (cases "off \<le> j \<and> j < off + sz x")
  case True
  then obtain k where "j = off + k" "k < sz x" using le_Suc_ex by force
  with wr_shift [OF assms(1), of k m "f + off" m' "f' + off"] show ?thesis by (simp add: add.assoc)
next
  case False
  then have "wr m (f + off) x (f + j) = m (f + j)" "wr m' (f' + off) x (f' + j) = m' (f' + j)"
    using assms(1) by (auto intro!: wr_frame)
  with assms(2,3) show ?thesis by simp
qed

text \<open>A value survives a later write of another value that does not overlap it.\<close>

lemma rd_wr_other:
  assumes "ok x" "ok y" and "b' + sz y \<le> b \<or> b + sz x \<le> b'"
  shows "rd (wr (wr m b x) b' y) b = x"
  using assms by (intro rd_back [of x b _ m]) (auto intro!: wr_frame)

text \<open>Equal encodings are encodings of equal values.\<close>

lemma wr_inj:
  assumes "ok x" "ok y" and "enc x = enc y"
  shows "x = y"
proof -
  have "sz x = sz y" using arg_cong [OF assms(3), of length] by simp
  with assms(2,3) have "mem_bytes (wr (\<lambda>_. 0) 0 y) 0 (sz x) = enc x" by (simp add: mem_bytes_wr)
  from rd_enc [OF assms(1) this] rd_wr [OF assms(2)] show ?thesis by simp
qed

end

section \<open>Two encodings in sequence\<close>

locale codec_pair = fst: codec wa sa ra oa + snd: codec wb sb rb ob
  for wa :: "mem \<Rightarrow> ptr \<Rightarrow> 'a \<Rightarrow> mem" and sa ra oa
    and wb :: "mem \<Rightarrow> ptr \<Rightarrow> 'b \<Rightarrow> mem" and sb rb ob
begin

definition wp :: "mem \<Rightarrow> ptr \<Rightarrow> 'a \<times> 'b \<Rightarrow> mem" where
  "wp m b xy = (case xy of (x, y) \<Rightarrow> wb (wa m b x) (b + sa x) y)"

definition sp :: "'a \<times> 'b \<Rightarrow> nat" where
  "sp xy = (case xy of (x, y) \<Rightarrow> sa x + sb y)"

definition rp :: "mem \<Rightarrow> ptr \<Rightarrow> 'a \<times> 'b" where
  "rp m b = (let x = ra m b in (x, rb m (b + sa x)))"

definition okp :: "'a \<times> 'b \<Rightarrow> bool" where
  "okp xy = (oa (fst xy) \<and> ob (snd xy))"

lemma pair_frame: "okp xy \<Longrightarrow> i < b \<or> b + sp xy \<le> i \<Longrightarrow> wp m b xy i = m i"
  by (auto simp: okp_def sp_def wp_def fst.wr_frame snd.wr_frame split: prod.splits)

lemma pair_back:
  assumes "okp xy" and agree: "\<And>i. b \<le> i \<Longrightarrow> i < b + sp xy \<Longrightarrow> m' i = wp m b xy i"
  shows "rp m' b = xy"
proof (cases xy)
  case (Pair x y)
  with assms(1) have ok: "oa x" "ob y" by (simp_all add: okp_def)
  have "ra m' b = x"
    by (rule fst.rd_back [OF ok(1), of b _ m])
      (use agree Pair ok in \<open>simp add: sp_def wp_def snd.wr_frame\<close>)
  moreover have "rb m' (b + sa x) = y"
    by (rule snd.rd_back [OF ok(2), of _ _ "wa m b x"])
      (use agree Pair in \<open>simp add: sp_def wp_def\<close>)
  ultimately show ?thesis by (simp add: rp_def Pair)
qed

lemma pair_shift:
  assumes "okp xy" and "j < sp xy"
  shows "wp m b xy (b + j) = wp m' b' xy (b' + j)"
proof (cases xy)
  case (Pair x y)
  with assms(1) have ok: "oa x" "ob y" by (simp_all add: okp_def)
  show ?thesis
  proof (cases "j < sa x")
    case True
    then show ?thesis
      using fst.wr_shift [OF ok(1), of j m b m' b'] by (simp add: Pair wp_def snd.wr_frame ok)
  next
    case False
    then obtain k where "j = sa x + k" using le_Suc_ex by (auto simp: not_less)
    with assms(2) snd.wr_shift [OF ok(2), of k "wa m b x" "b + sa x" "wa m' b' x" "b' + sa x"]
    show ?thesis by (simp add: Pair wp_def sp_def add.assoc)
  qed
qed

sublocale pair: codec wp sp rp okp
  by unfold_locales (auto intro: pair_frame pair_back pair_shift)

lemma pair_enc: "okp (x, y) \<Longrightarrow> pair.enc (x, y) = fst.enc x @ snd.enc y"
proof -
  assume ok: "okp (x, y)"
  then have ok': "oa x" "ob y" by (simp_all add: okp_def)
  let ?m = "wa (\<lambda>_. 0) 0 x"
  have "mem_bytes (wb ?m (sa x) y) 0 (sa x) = mem_bytes ?m 0 (sa x)"
    by (intro mem_bytes_cong) (simp add: snd.wr_frame ok')
  then show ?thesis
    by (simp add: pair.enc_def sp_def wp_def mem_bytes_append fst.mem_bytes_wr snd.mem_bytes_wr ok')
qed

end

section \<open>An encoding seen through a conversion\<close>

text \<open>
  A value that is taken apart before it is written and put together after it is read, as the
  high and the low half of a 64 bit number.
\<close>

locale codec_via = codec wr sz rd ok
  for wr :: "mem \<Rightarrow> ptr \<Rightarrow> 'a \<Rightarrow> mem" and sz rd ok +
  fixes split :: "'c \<Rightarrow> 'a" and join :: "'a \<Rightarrow> 'c"
  assumes join_split: "ok (split x) \<Longrightarrow> join (split x) = x"
begin

sublocale via: codec "\<lambda>m b x. wr m b (split x)" "\<lambda>x. sz (split x)" "\<lambda>m b. join (rd m b)"
  "\<lambda>x. ok (split x)"
proof
  fix x m m' b
  assume "ok (split x)" and "\<And>i. b \<le> i \<Longrightarrow> i < b + sz (split x) \<Longrightarrow> m' i = wr m b (split x) i"
  then have "rd m' b = split x" by (rule rd_back)
  with \<open>ok (split x)\<close> show "join (rd m' b) = x" by (simp add: join_split)
qed (assumption | rule wr_frame wr_shift)+

end

end
