(* ===== verification/Ut_Byte.thy ===== *)
theory Ut_Byte
  imports Inno_Prelude
begin

text \<open>
  \<open>ut0byte.h\<close> and \<open>ut0byte.cc\<close>: the 64 bit integer as a pair of \<open>ulint\<close>s, alignment of
  numbers and addresses, and single bits of a word.
\<close>

section \<open>Double-length integers\<close>

text \<open>
  The struct \<open>dulint_struct\<close> is in \<open>ut0byte.h\<close>. The functions \<open>ut_dulint_create\<close>,
  \<open>ut_dulint_get_high\<close>, \<open>ut_dulint_get_low\<close> and \<open>ut_dulint_cmp\<close> that the sources call are
  not in the repository; they are an argument of the definitions that use them, and
  \<open>dulint_api_ok\<close> states their documented behaviour.
\<close>

record dulint =
  high :: ulint
  low :: ulint

record dulint_api =
  ut_dulint_create :: "ulint \<Rightarrow> ulint \<Rightarrow> dulint"
  ut_dulint_get_high :: "dulint \<Rightarrow> ulint"
  ut_dulint_get_low :: "dulint \<Rightarrow> ulint"
  ut_dulint_cmp :: "dulint \<Rightarrow> dulint \<Rightarrow> int"

definition dulint_val :: "dulint \<Rightarrow> nat" where
  "dulint_val d = unat (high d) * 2 ^ 32 + unat (low d)"

text \<open>A dulint as the sources use it: both halves are 32 bit numbers.\<close>

definition dulint_wf :: "dulint \<Rightarrow> bool" where
  "dulint_wf d \<longleftrightarrow> unat (high d) < 2 ^ 32 \<and> unat (low d) < 2 ^ 32"

definition dulint_api_ok :: "dulint_api \<Rightarrow> bool" where
  "dulint_api_ok D \<longleftrightarrow>
     (\<forall>h l. ut_dulint_create D h l = \<lparr>high = h, low = l\<rparr>)
   \<and> (\<forall>d. ut_dulint_get_high D d = high d)
   \<and> (\<forall>d. ut_dulint_get_low D d = low d)
   \<and> (\<forall>a b. dulint_wf a \<longrightarrow> dulint_wf b \<longrightarrow>
        (ut_dulint_cmp D a b < 0 \<longleftrightarrow> dulint_val a < dulint_val b)
      \<and> (ut_dulint_cmp D a b = 0 \<longleftrightarrow> dulint_val a = dulint_val b))"

text \<open>A concrete instance, for the witnesses.\<close>

definition dulint_ref :: dulint_api where
  "dulint_ref = \<lparr>ut_dulint_create = (\<lambda>h l. \<lparr>high = h, low = l\<rparr>),
     ut_dulint_get_high = high, ut_dulint_get_low = low,
     ut_dulint_cmp = (\<lambda>a b. int (dulint_val a) - int (dulint_val b))\<rparr>"

lemma dulint_ref_ok: "dulint_api_ok dulint_ref"
  by (simp add: dulint_api_ok_def dulint_ref_def)

lemma dulint_val_inj:
  assumes "dulint_wf a" "dulint_wf b" and "dulint_val a = dulint_val b"
  shows "a = b"
proof -
  have a: "dulint_val a div 2 ^ 32 = unat (high a)" "dulint_val a mod 2 ^ 32 = unat (low a)"
    using assms(1) by (simp_all add: dulint_val_def dulint_wf_def)
  have b: "dulint_val b div 2 ^ 32 = unat (high b)" "dulint_val b mod 2 ^ 32 = unat (low b)"
    using assms(2) by (simp_all add: dulint_val_def dulint_wf_def)
  from a b assms(3) have "high a = high b" "low a = low b"
    by (simp_all add: word_unat_eq_iff)
  then show ?thesis by simp
qed

section \<open>Alignment\<close>

text \<open>The second argument is a power of two in every use (\<open>ut_is_2pow\<close>).\<close>

definition ut_ull_create :: "ulint \<Rightarrow> ulint \<Rightarrow> u64" where
  "ut_ull_create h l = push_bit 32 h OR l"

definition ut_uint64_algin_down :: "u64 \<Rightarrow> ulint \<Rightarrow> u64" where
  "ut_uint64_algin_down n align_no = n AND NOT (align_no - 1)"

definition ut_uint64_algin_up :: "u64 \<Rightarrow> ulint \<Rightarrow> u64" where
  "ut_uint64_algin_up n algin_no = (let align_1 = algin_no - 1 in (n + align_1) AND NOT align_1)"

definition ut_align :: "ulint \<Rightarrow> ulint \<Rightarrow> ulint" where
  "ut_align p align_no = (p + align_no - 1) AND (align_no - 1)"

definition ut_align_down :: "ulint \<Rightarrow> ulint \<Rightarrow> ulint" where
  "ut_align_down p align_no = p AND NOT (align_no - 1)"

definition ut_align_offset :: "ulint \<Rightarrow> ulint \<Rightarrow> ulint" where
  "ut_align_offset p align_no = p AND (align_no - 1)"

lemma pow2_minus_1: "(2 ^ k :: ulint) - 1 = mask k"
  by (simp add: mask_eq_exp_minus_1)

lemma and_not_mask: "(n :: 'a :: len word) AND NOT (mask k) = n - (n AND mask k)"
proof -
  have "(n AND NOT (mask k)) AND (n AND mask k) = 0"
    by (rule bit_eqI) (simp add: bit_simps)
  then have "(n AND NOT (mask k)) + (n AND mask k) = (n AND NOT (mask k)) OR (n AND mask k)"
    by (rule disjunctive_add_eq_or)
  also have "\<dots> = n" by (rule bit_eqI) (auto simp: bit_simps)
  finally show ?thesis by (simp add: algebra_simps)
qed

lemma unat_and_not_mask:
  "unat ((n :: 'a :: len word) AND NOT (mask k)) = unat n - unat n mod 2 ^ k"
proof -
  have "n AND mask k \<le> n" by (rule word_and_le2)
  then show ?thesis by (simp add: and_not_mask unat_sub unat_and_mask)
qed

lemma unat_align_down:
  "unat (ut_uint64_algin_down n (2 ^ k)) = unat n - unat n mod 2 ^ k"
  by (simp add: ut_uint64_algin_down_def pow2_minus_1 unat_and_not_mask)

section \<open>Single bits\<close>

text \<open>The literal \<open>1\<close> of \<open>1 << n\<close> is a 32 bit \<open>int\<close>, converted to \<open>ulint\<close> after the shift.\<close>

definition int_one_shl :: "nat \<Rightarrow> ulint" where
  "int_one_shl n = scast (push_bit n (1 :: 32 word))"

definition ut_bit_get_nth :: "ulint \<Rightarrow> nat \<Rightarrow> ulint" where
  "ut_bit_get_nth a n = 1 AND drop_bit n a"

definition ut_bit_set_nth :: "ulint \<Rightarrow> nat \<Rightarrow> bool \<Rightarrow> ulint" where
  "ut_bit_set_nth a n val = (if val then int_one_shl n OR a else NOT (int_one_shl n) AND a)"

lemma bit_int_one_shl: "n < 31 \<Longrightarrow> bit (int_one_shl n) j \<longleftrightarrow> j = n"
  by (auto simp: int_one_shl_def bit_simps)

lemma ut_bit_get_nth_bit: "ut_bit_get_nth a n = of_bool (bit a n)"
  by (rule bit_eqI) (auto simp: ut_bit_get_nth_def bit_simps)

lemma bit_ut_bit_set_nth:
  "n < 31 \<Longrightarrow> bit (ut_bit_set_nth a n val) j \<longleftrightarrow> (if j = n then val else bit a j)"
  by (auto simp: ut_bit_set_nth_def bit_simps bit_int_one_shl dest: bit_imp_le_length)

end
