(* ===== verification/Mach_Data.thy ===== *)
theory Mach_Data
  imports Codec Ut_Byte
begin

text \<open>
  \<open>mach0data.cc\<close>: the machine-independent storage format of the database files. Integers are
  stored big-endian in one to four bytes, in a compressed form whose first byte tells its
  length, and, for 64 bit numbers, as two such parts. Each format is an instance of the
  \<open>codec\<close> interface; the parsers used by recovery check the end of the buffer as well.
\<close>

section \<open>Fixed-size big-endian integers\<close>

definition mach_write_to_1 :: "mem \<Rightarrow> ptr \<Rightarrow> ulint \<Rightarrow> mem" where
  "mach_write_to_1 m b n = m(b := ucast n)"

definition mach_read_from_1 :: "mem \<Rightarrow> ptr \<Rightarrow> ulint" where
  "mach_read_from_1 m b = ucast (m b)"

definition mach_write_to_2 :: "mem \<Rightarrow> ptr \<Rightarrow> ulint \<Rightarrow> mem" where
  "mach_write_to_2 m b n = m(b := ucast (drop_bit 8 n), b + 1 := ucast n)"

definition mach_read_from_2 :: "mem \<Rightarrow> ptr \<Rightarrow> ulint" where
  "mach_read_from_2 m b = push_bit 8 (ucast (m b)) + ucast (m (b + 1))"

definition mach_write_to_3 :: "mem \<Rightarrow> ptr \<Rightarrow> ulint \<Rightarrow> mem" where
  "mach_write_to_3 m b n =
     m(b := ucast (drop_bit 16 n), b + 1 := ucast (drop_bit 8 n), b + 2 := ucast n)"

definition mach_read_from_3 :: "mem \<Rightarrow> ptr \<Rightarrow> ulint" where
  "mach_read_from_3 m b =
     push_bit 16 (ucast (m b)) + push_bit 8 (ucast (m (b + 1))) + ucast (m (b + 2))"

definition mach_write_to_4 :: "mem \<Rightarrow> ptr \<Rightarrow> ulint \<Rightarrow> mem" where
  "mach_write_to_4 m b n =
     m(b := ucast (drop_bit 24 n), b + 1 := ucast (drop_bit 16 n),
       b + 2 := ucast (drop_bit 8 n), b + 3 := ucast n)"

definition mach_read_from_4 :: "mem \<Rightarrow> ptr \<Rightarrow> ulint" where
  "mach_read_from_4 m b =
     push_bit 24 (ucast (m b)) + push_bit 16 (ucast (m (b + 1)))
     + push_bit 8 (ucast (m (b + 2))) + ucast (m (b + 3))"

definition mach_write :: "mem \<Rightarrow> ptr \<Rightarrow> ulint \<Rightarrow> mem" where
  "mach_write m b n =
     m(b := ucast (drop_bit 24 n), b + 1 := ucast (drop_bit 16 n),
       b + 2 := ucast (drop_bit 8 n), b + 3 := ucast n)"

definition mach_read :: "mem \<Rightarrow> ptr \<Rightarrow> ulint" where
  "mach_read m b =
     push_bit 24 (ucast (m b)) + push_bit 16 (ucast (m (b + 1)))
     + push_bit 8 (ucast (m (b + 2))) + ucast (m (b + 3))"

lemma unat_read_2 [unat_simps]:
  "unat (mach_read_from_2 m b) = unat (m b) * 256 + unat (m (b + 1))"
  using unat_byte_less [of "m b"] unat_byte_less [of "m (b + 1)"]
  by (simp add: mach_read_from_2_def unat_plus unat_simps)

lemma unat_read_3 [unat_simps]:
  "unat (mach_read_from_3 m b) =
     unat (m b) * 65536 + unat (m (b + 1)) * 256 + unat (m (b + 2))"
  using unat_byte_less [of "m b"] unat_byte_less [of "m (b + 1)"] unat_byte_less [of "m (b + 2)"]
  by (simp add: mach_read_from_3_def unat_plus unat_simps)

lemma unat_read_4 [unat_simps]:
  "unat (mach_read_from_4 m b) =
     unat (m b) * 16777216 + unat (m (b + 1)) * 65536 + unat (m (b + 2)) * 256 + unat (m (b + 3))"
  using unat_byte_less [of "m b"] unat_byte_less [of "m (b + 1)"] unat_byte_less [of "m (b + 2)"]
    unat_byte_less [of "m (b + 3)"]
  by (simp add: mach_read_from_4_def unat_plus unat_simps)

lemma mach_write_eq_4: "mach_write = mach_write_to_4" "mach_read = mach_read_from_4"
  by (simp_all add: fun_eq_iff mach_write_def mach_write_to_4_def mach_read_def mach_read_from_4_def)

lemma small_cases:
  "(j :: nat) < 2 \<longleftrightarrow> j = 0 \<or> j = 1" "j < 3 \<longleftrightarrow> j = 0 \<or> j = 1 \<or> j = 2"
  "j < 4 \<longleftrightarrow> j = 0 \<or> j = 1 \<or> j = 2 \<or> j = 3"
  by auto

interpretation c1: codec mach_write_to_1 "\<lambda>_. 1" mach_read_from_1 "\<lambda>n. unat n < 2 ^ 8"
proof
  fix x m m' b
  assume "unat x < 2 ^ 8" and "\<And>i. b \<le> i \<Longrightarrow> i < b + 1 \<Longrightarrow> m' i = mach_write_to_1 m b x i"
  then show "mach_read_from_1 m' b = x"
    by (simp add: mach_write_to_1_def mach_read_from_1_def word_unat_eq_iff unat_simps)
qed (auto simp: mach_write_to_1_def)

interpretation c2: codec mach_write_to_2 "\<lambda>_. 2" mach_read_from_2 "\<lambda>n. unat n < 2 ^ 16"
proof
  fix x m m' b
  assume "unat x < 2 ^ 16" and "\<And>i. b \<le> i \<Longrightarrow> i < b + 2 \<Longrightarrow> m' i = mach_write_to_2 m b x i"
  then show "mach_read_from_2 m' b = x"
    using digits_2 [of "unat x"]
    by (simp add: mach_write_to_2_def word_unat_eq_iff unat_simps)
qed (auto simp: mach_write_to_2_def small_cases)

interpretation c3: codec mach_write_to_3 "\<lambda>_. 3" mach_read_from_3 "\<lambda>n. unat n < 2 ^ 24"
proof
  fix x m m' b
  assume "unat x < 2 ^ 24" and "\<And>i. b \<le> i \<Longrightarrow> i < b + 3 \<Longrightarrow> m' i = mach_write_to_3 m b x i"
  then show "mach_read_from_3 m' b = x"
    using digits_3 [of "unat x"]
    by (simp add: mach_write_to_3_def word_unat_eq_iff unat_simps)
qed (auto simp: mach_write_to_3_def small_cases)

interpretation c4: codec mach_write_to_4 "\<lambda>_. 4" mach_read_from_4 "\<lambda>n. unat n < 2 ^ 32"
proof
  fix x m m' b
  assume "unat x < 2 ^ 32" and "\<And>i. b \<le> i \<Longrightarrow> i < b + 4 \<Longrightarrow> m' i = mach_write_to_4 m b x i"
  then show "mach_read_from_4 m' b = x"
    using digits_4 [of "unat x"]
    by (simp add: mach_write_to_4_def word_unat_eq_iff unat_simps)
qed (auto simp: mach_write_to_4_def small_cases)

text \<open>The value of a read is bounded by the width of the field.\<close>

lemma mach_read_bounds:
  "unat (mach_read_from_2 m b) < 2 ^ 16" "unat (mach_read_from_3 m b) < 2 ^ 24"
  "unat (mach_read_from_4 m b) < 2 ^ 32"
  using unat_byte_less [of "m b"] unat_byte_less [of "m (b + 1)"] unat_byte_less [of "m (b + 2)"]
    unat_byte_less [of "m (b + 3)"]
  by (simp_all add: unat_simps)

section \<open>Compressed integers\<close>

definition mach_write_compressed :: "mem \<Rightarrow> ptr \<Rightarrow> ulint \<Rightarrow> mem \<times> nat" where
  "mach_write_compressed m b n =
     (if n < 0x80 then (mach_write_to_1 m b n, 1)
      else if n < 0x4000 then (mach_write_to_2 m b (n OR 0x8000), 2)
      else if n < 0x200000 then (mach_write_to_3 m b (n OR 0xC00000), 3)
      else if n < 0x10000000 then (mach_write_to_4 m b (n OR 0xE0000000), 4)
      else (mach_write_to_4 (mach_write_to_1 m b 0xF0) (b + 1) n, 5))"

definition mach_get_compressed_size :: "ulint \<Rightarrow> nat" where
  "mach_get_compressed_size n =
     (if n < 0x80 then 1 else if n < 0x4000 then 2 else if n < 0x200000 then 3
      else if n < 0x10000000 then 4 else 5)"

definition mach_read_compressed :: "mem \<Rightarrow> ptr \<Rightarrow> ulint" where
  "mach_read_compressed m b =
     (let flag = mach_read_from_1 m b in
      if flag < 0x80 then flag
      else if flag < 0xC0 then mach_read_from_2 m b AND 0x7FFF
      else if flag < 0xE0 then mach_read_from_3 m b AND 0x3FFFFF
      else if flag < 0xF0 then mach_read_from_4 m b AND 0x1FFFFFFF
      else mach_read_from_4 m (b + 1))"

text \<open>
  The cases of the encoder: the size class of \<open>n\<close>, the number that is stored and the number
  of its first byte.
\<close>

lemma mach_write_compressed_size: "snd (mach_write_compressed m b n) = mach_get_compressed_size n"
  by (simp add: mach_write_compressed_def mach_get_compressed_size_def)

lemma compressed_size_bounds: "1 \<le> mach_get_compressed_size n" "mach_get_compressed_size n \<le> 5"
  by (simp_all add: mach_get_compressed_size_def)

lemma unat_or_flags:
  assumes "unat (n :: ulint) < 2 ^ k"
  shows "k = 14 \<Longrightarrow> unat (n OR 0x8000) = unat n + 0x8000"
    and "k = 21 \<Longrightarrow> unat (n OR 0xC00000) = unat n + 0xC00000"
    and "k = 28 \<Longrightarrow> unat (n OR 0xE0000000) = unat n + 0xE0000000"
  using unat_or_high [OF assms, of "0x8000" 2] unat_or_high [OF assms, of "0xC00000" 6]
    unat_or_high [OF assms, of "0xE0000000" 14] by simp_all

lemma flag_masks:
  "(0x7FFF :: ulint) = mask 15" "(0x3FFFFF :: ulint) = mask 22" "(0x1FFFFFFF :: ulint) = mask 29"
  by (simp_all add: mask_eq_exp_minus_1)

lemma compressed_frame:
  "i < b \<or> b + mach_get_compressed_size x \<le> i \<Longrightarrow> fst (mach_write_compressed m b x) i = m i"
  by (auto simp: mach_write_compressed_def mach_get_compressed_size_def mach_write_to_1_def
      mach_write_to_2_def mach_write_to_3_def mach_write_to_4_def split: if_splits)

lemma unat_read_1 [unat_simps]: "unat (mach_read_from_1 m b) = unat (m b)"
  by (simp add: mach_read_from_1_def unat_simps)

text \<open>The first byte of a stored number.\<close>

lemma first_byte:
  "unat (mach_write_to_2 m b y b) = unat y div 2 ^ 8 mod 256"
  "unat (mach_write_to_3 m b y b) = unat y div 2 ^ 16 mod 256"
  "unat (mach_write_to_4 m b y b) = unat y div 2 ^ 24 mod 256"
  by (simp_all add: mach_write_to_2_def mach_write_to_3_def mach_write_to_4_def unat_simps)

lemma compressed_back:
  assumes x: "unat x < 2 ^ 32"
    and agree: "\<And>i. b \<le> i \<Longrightarrow> i < b + mach_get_compressed_size x \<Longrightarrow>
      m' i = fst (mach_write_compressed m b x) i"
  shows "mach_read_compressed m' b = x"
proof -
  note sizes = mach_write_compressed_def mach_get_compressed_size_def word_less_nat_alt
  note reads = mach_read_compressed_def Let_def word_less_nat_alt unat_read_1 word_unat_eq_iff
    flag_masks unat_and_mask div_less_iff_less_mult
  consider (1) "unat x < 0x80" | (2) "0x80 \<le> unat x" "unat x < 0x4000"
    | (3) "0x4000 \<le> unat x" "unat x < 0x200000"
    | (4) "0x200000 \<le> unat x" "unat x < 0x10000000" | (5) "0x10000000 \<le> unat x" by linarith
  then show ?thesis
  proof cases
    case 1
    have "mach_read_from_1 m' b = x"
      by (rule c1.rd_back [of _ _ _ m]) (use 1 agree in \<open>simp_all add: sizes\<close>)
    with 1 show ?thesis by (simp add: reads)
  next
    case 2
    define y where "y = x OR 0x8000"
    have y: "unat y = unat x + 0x8000" unfolding y_def using 2 by (intro unat_or_flags) simp_all
    have ag: "m' i = mach_write_to_2 m b y i" if "b \<le> i" "i < b + 2" for i
      using 2 agree [of i] that by (simp add: sizes y_def)
    have "mach_read_from_2 m' b = y" by (rule c2.rd_back [OF _ ag]) (use 2 y in simp_all)
    with 2 y ag [of b] show ?thesis by (simp add: reads first_byte)
  next
    case 3
    define y where "y = x OR 0xC00000"
    have y: "unat y = unat x + 0xC00000" unfolding y_def using 3 by (intro unat_or_flags) simp_all
    have ag: "m' i = mach_write_to_3 m b y i" if "b \<le> i" "i < b + 3" for i
      using 3 agree [of i] that by (simp add: sizes y_def)
    have "mach_read_from_3 m' b = y" by (rule c3.rd_back [OF _ ag]) (use 3 y in simp_all)
    moreover have "(unat x + 0xC00000) mod 0x400000 = unat x mod 0x400000"
      using mod_mult_self1 [of "unat x" 3 "0x400000"] by simp
    ultimately show ?thesis using 3 y ag [of b] by (simp add: reads first_byte)
  next
    case 4
    define y where "y = x OR 0xE0000000"
    have y: "unat y = unat x + 0xE0000000" unfolding y_def using 4 by (intro unat_or_flags) simp_all
    have ag: "m' i = mach_write_to_4 m b y i" if "b \<le> i" "i < b + 4" for i
      using 4 agree [of i] that by (simp add: sizes y_def)
    have "mach_read_from_4 m' b = y" by (rule c4.rd_back [OF _ ag]) (use 4 y in simp_all)
    moreover have "(unat x + 0xE0000000) mod 0x20000000 = unat x mod 0x20000000"
      using mod_mult_self1 [of "unat x" 7 "0x20000000"] by simp
    ultimately show ?thesis using 4 y ag [of b] by (simp add: reads first_byte)
  next
    case 5
    let ?m = "mach_write_to_1 m b 0xF0"
    have ag: "m' i = mach_write_to_4 ?m (b + 1) x i" if "b \<le> i" "i < b + 5" for i
      using 5 agree [of i] that by (simp add: sizes)
    have "mach_read_from_4 m' (b + 1) = x" by (rule c4.rd_back [OF x, of _ _ ?m]) (use ag in simp)
    moreover have "m' b = 0xF0" using ag [of b] c4.wr_frame [of x b "b + 1" ?m] x
      by (simp add: mach_write_to_1_def)
    ultimately show ?thesis by (simp add: reads)
  qed
qed

lemma compressed_shift:
  assumes "unat x < 2 ^ 32" and "j < mach_get_compressed_size x"
  shows "fst (mach_write_compressed m b x) (b + j) = fst (mach_write_compressed m' b' x) (b' + j)"
proof (cases "x < 0x10000000")
  case True
  with assms(2) show ?thesis
    by (auto simp: mach_write_compressed_def mach_get_compressed_size_def mach_write_to_1_def
        mach_write_to_2_def mach_write_to_3_def mach_write_to_4_def small_cases split: if_splits)
next
  case False
  then have "mach_get_compressed_size x = 5"
    and w: "mach_write_compressed m b x = (mach_write_to_4 (mach_write_to_1 m b 0xF0) (b + 1) x, 5)" for m b
    by (simp_all add: mach_get_compressed_size_def mach_write_compressed_def word_less_nat_alt)
  with assms(2) have "j = 0 \<or> (\<exists>k < 4. j = 1 + k)" by (cases j) auto
  then show ?thesis
    using c4.wr_shift [OF assms(1), of _ "mach_write_to_1 m b 0xF0" "b + 1" "mach_write_to_1 m' b' 0xF0" "b' + 1"]
      c4.wr_frame [OF assms(1), of b "b + 1"] c4.wr_frame [OF assms(1), of b' "b' + 1"]
    by (auto simp: w mach_write_to_1_def)
qed

interpretation cc: codec "\<lambda>m b n. fst (mach_write_compressed m b n)" mach_get_compressed_size
  mach_read_compressed "\<lambda>n. unat n < 2 ^ 32"
  by unfold_locales (auto intro: compressed_frame compressed_back compressed_shift)

section \<open>Double-length integers\<close>

text \<open>
  The conversions between a \<open>dulint\<close> and its halves are an argument \<open>D\<close> (see \<open>Ut_Byte\<close>).
\<close>

definition mach_write_to_8 :: "dulint_api \<Rightarrow> mem \<Rightarrow> ptr \<Rightarrow> dulint \<Rightarrow> mem" where
  "mach_write_to_8 D m b n =
     mach_write_to_4 (mach_write_to_4 m b (ut_dulint_get_high D n)) (b + 4) (ut_dulint_get_low D n)"

definition mach_read_from_8 :: "dulint_api \<Rightarrow> mem \<Rightarrow> ptr \<Rightarrow> dulint" where
  "mach_read_from_8 D m b =
     (let high = mach_read_from_4 m b; low = mach_read_from_4 m (b + 4)
      in ut_dulint_create D high low)"

definition mach_write_to_7 :: "dulint_api \<Rightarrow> mem \<Rightarrow> ptr \<Rightarrow> dulint \<Rightarrow> mem" where
  "mach_write_to_7 D m b n =
     mach_write_to_4 (mach_write_to_3 m b (ut_dulint_get_high D n)) (b + 3) (ut_dulint_get_low D n)"

definition mach_read_from_7 :: "dulint_api \<Rightarrow> mem \<Rightarrow> ptr \<Rightarrow> dulint" where
  "mach_read_from_7 D m b =
     (let high = mach_read_from_3 m b; low = mach_read_from_4 m (b + 3)
      in ut_dulint_create D high low)"

definition mach_write_to_6 :: "dulint_api \<Rightarrow> mem \<Rightarrow> ptr \<Rightarrow> dulint \<Rightarrow> mem" where
  "mach_write_to_6 D m b n =
     mach_write_to_4 (mach_write_to_2 m b (ut_dulint_get_high D n)) (b + 2) (ut_dulint_get_low D n)"

definition mach_read_from_6 :: "dulint_api \<Rightarrow> mem \<Rightarrow> ptr \<Rightarrow> dulint" where
  "mach_read_from_6 D m b =
     (let high = mach_read_from_2 m b; low = mach_read_from_4 m (b + 2)
      in ut_dulint_create D high low)"

definition mach_dulint_write_compressed :: "dulint_api \<Rightarrow> mem \<Rightarrow> ptr \<Rightarrow> dulint \<Rightarrow> mem \<times> nat" where
  "mach_dulint_write_compressed D m b n =
     (let (m, size) = mach_write_compressed m b (ut_dulint_get_high D n);
          m = mach_write_to_4 m (b + size) (ut_dulint_get_low D n)
      in (m, size + 4))"

definition mach_dulint_get_compressed_size :: "dulint_api \<Rightarrow> dulint \<Rightarrow> nat" where
  "mach_dulint_get_compressed_size D n = 4 + mach_get_compressed_size (ut_dulint_get_high D n)"

definition mach_dulint_read_compressed :: "dulint_api \<Rightarrow> mem \<Rightarrow> ptr \<Rightarrow> dulint" where
  "mach_dulint_read_compressed D m b =
     (let high = mach_read_compressed m b;
          size = mach_get_compressed_size high;
          low = mach_read_from_4 m (b + size)
      in ut_dulint_create D high low)"

definition mach_dulint_write_much_compressed ::
    "dulint_api \<Rightarrow> mem \<Rightarrow> ptr \<Rightarrow> dulint \<Rightarrow> mem \<times> nat" where
  "mach_dulint_write_much_compressed D m b n =
     (if ut_dulint_get_high D n = 0 then mach_write_compressed m b (ut_dulint_get_low D n)
      else
        let m = m(b := 0xFF);
            (m, s) = mach_write_compressed m (b + 1) (ut_dulint_get_high D n);
            size = 1 + s;
            (m, s) = mach_write_compressed m (b + size) (ut_dulint_get_low D n)
        in (m, size + s))"

definition mach_dulint_get_much_compressed_size :: "dulint_api \<Rightarrow> dulint \<Rightarrow> nat" where
  "mach_dulint_get_much_compressed_size D n =
     (if 0 = ut_dulint_get_high D n then mach_get_compressed_size (ut_dulint_get_low D n)
      else 1 + mach_get_compressed_size (ut_dulint_get_high D n)
             + mach_get_compressed_size (ut_dulint_get_low D n))"

definition mach_dulint_read_much_compressed :: "dulint_api \<Rightarrow> mem \<Rightarrow> ptr \<Rightarrow> dulint" where
  "mach_dulint_read_much_compressed D m b =
     (let (high, size) =
        (if m b \<noteq> 0xFF then (0, 0)
         else let high = mach_read_compressed m (b + 1)
              in (high, 1 + mach_get_compressed_size high));
        low = mach_read_compressed m (b + size)
      in ut_dulint_create D high low)"

text \<open>
  Three of the formats are a pair of encodings seen through the halves of the number; the
  interpretation of the pairs gives their laws.
\<close>

interpretation p44: codec_pair mach_write_to_4 "\<lambda>_. 4" mach_read_from_4 "\<lambda>n. unat n < 2 ^ 32"
  mach_write_to_4 "\<lambda>_. 4" mach_read_from_4 "\<lambda>n. unat n < 2 ^ 32" ..

interpretation p34: codec_pair mach_write_to_3 "\<lambda>_. 3" mach_read_from_3 "\<lambda>n. unat n < 2 ^ 24"
  mach_write_to_4 "\<lambda>_. 4" mach_read_from_4 "\<lambda>n. unat n < 2 ^ 32" ..

interpretation p24: codec_pair mach_write_to_2 "\<lambda>_. 2" mach_read_from_2 "\<lambda>n. unat n < 2 ^ 16"
  mach_write_to_4 "\<lambda>_. 4" mach_read_from_4 "\<lambda>n. unat n < 2 ^ 32" ..

interpretation pc4: codec_pair "\<lambda>m b n. fst (mach_write_compressed m b n)"
  mach_get_compressed_size mach_read_compressed "\<lambda>n. unat n < 2 ^ 32"
  mach_write_to_4 "\<lambda>_. 4" mach_read_from_4 "\<lambda>n. unat n < 2 ^ 32" ..

interpretation pcc: codec_pair "\<lambda>m b n. fst (mach_write_compressed m b n)"
  mach_get_compressed_size mach_read_compressed "\<lambda>n. unat n < 2 ^ 32"
  "\<lambda>m b n. fst (mach_write_compressed m b n)"
  mach_get_compressed_size mach_read_compressed "\<lambda>n. unat n < 2 ^ 32" ..

definition dulint_halves :: "dulint \<Rightarrow> ulint \<times> ulint" where
  "dulint_halves d = (high d, low d)"

definition dulint_of_halves :: "ulint \<times> ulint \<Rightarrow> dulint" where
  "dulint_of_halves hl = \<lparr>high = fst hl, low = snd hl\<rparr>"

lemma dulint_of_halves [simp]: "dulint_of_halves (dulint_halves d) = d"
  by (simp add: dulint_of_halves_def dulint_halves_def)

interpretation d8: codec_via p44.wp p44.sp p44.rp p44.okp dulint_halves dulint_of_halves
  by unfold_locales simp

interpretation d7: codec_via p34.wp p34.sp p34.rp p34.okp dulint_halves dulint_of_halves
  by unfold_locales simp

interpretation d6: codec_via p24.wp p24.sp p24.rp p24.okp dulint_halves dulint_of_halves
  by unfold_locales simp

interpretation dc: codec_via pc4.wp pc4.sp pc4.rp pc4.okp dulint_halves dulint_of_halves
  by unfold_locales simp

lemma dulint_api_simps:
  assumes "dulint_api_ok D"
  shows "ut_dulint_create D h l = \<lparr>high = h, low = l\<rparr>" "ut_dulint_get_high D d = high d"
    "ut_dulint_get_low D d = low d"
  using assms by (simp_all add: dulint_api_ok_def)

lemmas mach_dulint_defs =
  mach_write_to_8_def mach_read_from_8_def mach_write_to_7_def mach_read_from_7_def
  mach_write_to_6_def mach_read_from_6_def mach_dulint_write_compressed_def
  mach_dulint_get_compressed_size_def mach_dulint_read_compressed_def

text \<open>The functions of the source are these encodings, for any \<open>D\<close> with the documented laws.\<close>

lemma mach_dulint_eqs:
  assumes "dulint_api_ok D"
  shows "mach_write_to_8 D m b n = p44.wp m b (dulint_halves n)"
    and "mach_read_from_8 D m b = dulint_of_halves (p44.rp m b)"
    and "mach_write_to_7 D m b n = p34.wp m b (dulint_halves n)"
    and "mach_read_from_7 D m b = dulint_of_halves (p34.rp m b)"
    and "mach_write_to_6 D m b n = p24.wp m b (dulint_halves n)"
    and "mach_read_from_6 D m b = dulint_of_halves (p24.rp m b)"
    and "mach_dulint_write_compressed D m b n =
      (pc4.wp m b (dulint_halves n), pc4.sp (dulint_halves n))"
    and "mach_dulint_get_compressed_size D n = pc4.sp (dulint_halves n)"
    and "mach_dulint_read_compressed D m b = dulint_of_halves (pc4.rp m b)"
  by (simp_all add: mach_dulint_defs dulint_api_simps [OF assms] p44.wp_def p44.rp_def p34.wp_def
      p34.rp_def p24.wp_def p24.rp_def pc4.wp_def pc4.rp_def pc4.sp_def dulint_halves_def
      dulint_of_halves_def Let_def case_prod_beta mach_write_compressed_size)

lemma compressed_first_byte:
  assumes "unat x < 2 ^ 32"
  shows "fst (mach_write_compressed m b x) b \<noteq> 0xFF"
proof -
  have "unat (fst (mach_write_compressed m b x) b) < 0xFF"
  proof (cases "x < 0x10000000")
    case True
    then show ?thesis
      using unat_or_flags [of x 14] unat_or_flags [of x 21] unat_or_flags [of x 28]
      by (auto simp: mach_write_compressed_def mach_write_to_1_def first_byte unat_simps
          word_less_nat_alt div_less_iff_less_mult)
  next
    case False
    then show ?thesis using c4.wr_frame [of x b "b + 1"] assms
      by (auto simp: mach_write_compressed_def mach_write_to_1_def word_less_nat_alt)
  qed
  then show ?thesis by auto
qed

text \<open>The much compressed format: a mark \<open>0xFF\<close> before a high half that is not zero.\<close>

lemma much_frame:
  assumes "dulint_wf x" and "i < b \<or> b + mach_dulint_get_much_compressed_size D x \<le> i"
    and D: "dulint_api_ok D"
  shows "fst (mach_dulint_write_much_compressed D m b x) i = m i"
  using assms compressed_frame
  by (auto simp: mach_dulint_write_much_compressed_def mach_dulint_get_much_compressed_size_def
      dulint_api_simps [OF D] Let_def case_prod_beta mach_write_compressed_size split: if_splits)

lemma much_back:
  assumes x: "dulint_wf x" and D: "dulint_api_ok D"
    and agree: "\<And>i. b \<le> i \<Longrightarrow> i < b + mach_dulint_get_much_compressed_size D x \<Longrightarrow>
      m' i = fst (mach_dulint_write_much_compressed D m b x) i"
  shows "mach_dulint_read_much_compressed D m' b = x"
proof (cases "high x = 0")
  case True
  have "mach_read_compressed m' b = low x"
    by (rule cc.rd_back [of _ _ _ m])
      (use x agree True in \<open>simp_all add: dulint_wf_def mach_dulint_write_much_compressed_def
        mach_dulint_get_much_compressed_size_def dulint_api_simps [OF D]\<close>)
  moreover have "m' b \<noteq> 0xFF"
    using agree [of b] True x compressed_first_byte [of "low x" m b] compressed_size_bounds [of "low x"]
    by (simp add: dulint_wf_def mach_dulint_write_much_compressed_def
        mach_dulint_get_much_compressed_size_def dulint_api_simps [OF D])
  ultimately show ?thesis using True
    by (simp add: mach_dulint_read_much_compressed_def dulint_api_simps [OF D])
next
  case False
  let ?m = "m(b := 0xFF)" and ?s = "mach_get_compressed_size (high x)"
  have w: "fst (mach_dulint_write_much_compressed D m b x) = pcc.wp ?m (b + 1) (dulint_halves x)"
    and s: "mach_dulint_get_much_compressed_size D x = 1 + pcc.sp (dulint_halves x)"
    using False by (simp_all add: mach_dulint_write_much_compressed_def Let_def case_prod_beta
        mach_dulint_get_much_compressed_size_def dulint_api_simps [OF D] pcc.wp_def pcc.sp_def
        dulint_halves_def mach_write_compressed_size)
  have ok: "pcc.okp (dulint_halves x)" 
    using x unfolding pcc.okp_def dulint_wf_def dulint_halves_def by simp
  have "pcc.rp m' (b + 1) = dulint_halves x"
    by (rule pcc.pair_back [OF ok, of _ _ ?m]) (use agree in \<open>simp add: w s\<close>)
  moreover have "m' b = 0xFF"
    using agree [of b] pcc.pair_frame [OF ok, of b "b + 1" ?m] by (simp add: w s)
  ultimately show ?thesis
    by (auto simp: mach_dulint_read_much_compressed_def pcc.rp_def dulint_halves_def Let_def
        dulint_api_simps [OF D])
qed

lemma much_size: "dulint_api_ok D \<Longrightarrow> snd (mach_dulint_write_much_compressed D m b x) =
    mach_dulint_get_much_compressed_size D x"
  by (simp add: mach_dulint_write_much_compressed_def mach_dulint_get_much_compressed_size_def
      Let_def case_prod_beta mach_write_compressed_size)

section \<open>Parsing\<close>

text \<open>
  The parsers of recovery: the result is the end of the field and its value, or \<open>None\<close> for
  the null pointer the source returns when the buffer ends inside the field.
\<close>

definition mach_parse_compressed :: "mem \<Rightarrow> ptr \<Rightarrow> ptr \<Rightarrow> (ptr \<times> ulint) option" where
  "mach_parse_compressed m p end_ptr =
     (if p \<ge> end_ptr then None
      else
        let flag = mach_read_from_1 m p in
        if flag < 0x80 then Some (p + 1, flag)
        else if flag < 0xC0 then
          (if end_ptr < p + 2 then None else Some (p + 2, mach_read_from_2 m p AND 0x7FFF))
        else if flag < 0xE0 then
          (if end_ptr < p + 3 then None else Some (p + 3, mach_read_from_3 m p AND 0x3FFFFF))
        else if flag < 0xF0 then
          (if end_ptr < p + 4 then None else Some (p + 4, mach_read_from_4 m p AND 0x1FFFFFFF))
        else (if end_ptr < p + 5 then None else Some (p + 5, mach_read_from_4 m (p + 1))))"

definition mach_dulint_parse_compressed ::
    "dulint_api \<Rightarrow> mem \<Rightarrow> ptr \<Rightarrow> ptr \<Rightarrow> (ptr \<times> dulint) option" where
  "mach_dulint_parse_compressed D m p end_ptr =
     (if end_ptr < p + 5 then None
      else
        let high = mach_read_compressed m p;
            size = mach_get_compressed_size high;
            p = p + size
        in if end_ptr < p + 4 then None
           else let low = mach_read_from_4 m p
                in Some (p + 4, ut_dulint_create D high low))"

lemma mach_read_local:
  "(\<And>i. b \<le> i \<Longrightarrow> i < b + 1 \<Longrightarrow> m i = m' i) \<Longrightarrow> mach_read_from_1 m b = mach_read_from_1 m' b"
  "(\<And>i. b \<le> i \<Longrightarrow> i < b + 2 \<Longrightarrow> m i = m' i) \<Longrightarrow> mach_read_from_2 m b = mach_read_from_2 m' b"
  "(\<And>i. b \<le> i \<Longrightarrow> i < b + 3 \<Longrightarrow> m i = m' i) \<Longrightarrow> mach_read_from_3 m b = mach_read_from_3 m' b"
  "(\<And>i. b \<le> i \<Longrightarrow> i < b + 4 \<Longrightarrow> m i = m' i) \<Longrightarrow> mach_read_from_4 m b = mach_read_from_4 m' b"
  by (simp_all add: mach_read_from_1_def mach_read_from_2_def mach_read_from_3_def
      mach_read_from_4_def)

text \<open>The number of bytes the first byte of a stored number announces.\<close>

definition compressed_length :: "byte \<Rightarrow> nat" where
  "compressed_length x = (if unat x < 0x80 then 1 else if unat x < 0xC0 then 2
     else if unat x < 0xE0 then 3 else if unat x < 0xF0 then 4 else 5)"

lemma compressed_length_bounds: "1 \<le> compressed_length x" "compressed_length x \<le> 5"
  by (simp_all add: compressed_length_def)

lemma mach_parse_compressed_eq:
  "mach_parse_compressed m p e =
     (if p + compressed_length (m p) \<le> e
      then Some (p + compressed_length (m p), mach_read_compressed m p) else None)"
  by (simp add: mach_parse_compressed_def mach_read_compressed_def compressed_length_def Let_def
      word_less_nat_alt unat_read_1)

lemma mach_read_compressed_by_length:
  "mach_read_compressed m p =
     (let k = compressed_length (m p) in
      if k = 1 then mach_read_from_1 m p
      else if k = 2 then mach_read_from_2 m p AND 0x7FFF
      else if k = 3 then mach_read_from_3 m p AND 0x3FFFFF
      else if k = 4 then mach_read_from_4 m p AND 0x1FFFFFFF
      else mach_read_from_4 m (p + 1))"
  by (simp add: mach_read_compressed_def compressed_length_def Let_def word_less_nat_alt unat_read_1)

lemma mach_read_compressed_local:
  assumes "\<And>i. p \<le> i \<Longrightarrow> i < p + compressed_length (m p) \<Longrightarrow> m i = m' i"
  shows "mach_read_compressed m p = mach_read_compressed m' p"
proof -
  have p: "m' p = m p" using assms [of p] compressed_length_bounds [of "m p"] by simp
  consider "compressed_length (m p) = 1" | "compressed_length (m p) = 2"
    | "compressed_length (m p) = 3" | "compressed_length (m p) = 4" | "compressed_length (m p) = 5"
    using compressed_length_bounds [of "m p"] by linarith
  then show ?thesis
    using assms mach_read_local [of p m m'] mach_read_local(4) [of "p + 1" m m']
    unfolding mach_read_compressed_by_length p Let_def by cases simp_all
qed

text \<open>
  A stored number in a buffer that ends at \<open>e\<close>: the parser sees its first byte as soon as one
  byte is there and knows the length from it.
\<close>

lemma stored_length:
  assumes "unat x < 2 ^ 32"
  shows "compressed_length (fst (mach_write_compressed m b x) b) = mach_get_compressed_size x"
proof -
  let ?m = "fst (mach_write_compressed m b x)"
  have "mach_read_compressed ?m b = x" by (rule cc.rd_wr [OF assms])
  consider (1) "unat x < 0x80" | (2) "0x80 \<le> unat x" "unat x < 0x4000"
    | (3) "0x4000 \<le> unat x" "unat x < 0x200000"
    | (4) "0x200000 \<le> unat x" "unat x < 0x10000000" | (5) "0x10000000 \<le> unat x" by linarith
  then show ?thesis
  proof cases
    case 1 then show ?thesis
      by (simp add: mach_write_compressed_def mach_get_compressed_size_def compressed_length_def
          word_less_nat_alt mach_write_to_1_def unat_simps)
  next
    case 2
    then have "unat (x OR 0x8000) = unat x + 0x8000" by (intro unat_or_flags) simp_all
    with 2 show ?thesis
      by (simp add: mach_write_compressed_def mach_get_compressed_size_def compressed_length_def
          word_less_nat_alt first_byte div_less_iff_less_mult)
  next
    case 3
    then have "unat (x OR 0xC00000) = unat x + 0xC00000" by (intro unat_or_flags) simp_all
    with 3 show ?thesis
      by (simp add: mach_write_compressed_def mach_get_compressed_size_def compressed_length_def
          word_less_nat_alt first_byte div_less_iff_less_mult)
  next
    case 4
    then have "unat (x OR 0xE0000000) = unat x + 0xE0000000" by (intro unat_or_flags) simp_all
    with 4 show ?thesis
      by (simp add: mach_write_compressed_def mach_get_compressed_size_def compressed_length_def
          word_less_nat_alt first_byte div_less_iff_less_mult)
  next
    case 5
    then show ?thesis using c4.wr_frame [of x b "b + 1"] assms
      by (simp add: mach_write_compressed_def mach_get_compressed_size_def compressed_length_def
          word_less_nat_alt mach_write_to_1_def)
  qed
qed

lemma parse_stored:
  assumes x: "unat x < 2 ^ 32"
    and agree: "\<And>i. b \<le> i \<Longrightarrow> i < b + mach_get_compressed_size x \<Longrightarrow> i < e \<Longrightarrow>
      m' i = fst (mach_write_compressed m b x) i"
  shows "mach_parse_compressed m' b e =
    (if b + mach_get_compressed_size x \<le> e then Some (b + mach_get_compressed_size x, x) else None)"
proof (cases "b < e")
  case True
  then have "m' b = fst (mach_write_compressed m b x) b"
    using agree [of b] compressed_size_bounds [of x] by simp
  then have len: "compressed_length (m' b) = mach_get_compressed_size x"
    by (simp add: stored_length [OF x])
  moreover have "mach_read_compressed m' b = x" if "b + mach_get_compressed_size x \<le> e"
    by (rule compressed_back [OF x]) (use agree that in simp)
  ultimately show ?thesis by (simp add: mach_parse_compressed_eq)
next
  case False
  then show ?thesis using compressed_size_bounds [of x]
    by (simp add: mach_parse_compressed_def)
qed

lemma dulint_parse_stored:
  assumes x: "dulint_wf x" and D: "dulint_api_ok D"
    and agree: "\<And>i. b \<le> i \<Longrightarrow> i < b + mach_dulint_get_compressed_size D x \<Longrightarrow> i < e \<Longrightarrow>
      m' i = fst (mach_dulint_write_compressed D m b x) i"
  shows "mach_dulint_parse_compressed D m' b e =
    (if b + mach_dulint_get_compressed_size D x \<le> e
     then Some (b + mach_dulint_get_compressed_size D x, x) else None)"
proof (cases "b + 5 \<le> e")
  case False
  then show ?thesis using compressed_size_bounds [of "high x"]
    by (simp add: mach_dulint_parse_compressed_def mach_dulint_get_compressed_size_def
        dulint_api_simps [OF D])
next
  case True
  let ?s = "mach_get_compressed_size (high x)" and ?m = "fst (mach_write_compressed m b (high x))"
  have wf: "unat (high x) < 2 ^ 32" "unat (low x) < 2 ^ 32" using x by (simp_all add: dulint_wf_def)
  have w: "fst (mach_dulint_write_compressed D m b x) = mach_write_to_4 ?m (b + ?s) (low x)"
    by (simp add: mach_dulint_write_compressed_def Let_def case_prod_beta
        mach_write_compressed_size dulint_api_simps [OF D])
  have s: "mach_dulint_get_compressed_size D x = ?s + 4"
    by (simp add: mach_dulint_get_compressed_size_def dulint_api_simps [OF D])
  have "m' i = ?m i" if "b \<le> i" "i < b + ?s" for i
    using agree [of i] that True compressed_size_bounds [of "high x"] c4.wr_frame [OF wf(2), of i]
    by (simp add: w s)
  then have h: "mach_read_compressed m' b = high x" by (rule compressed_back [OF wf(1)])
  have l: "mach_read_from_4 m' (b + ?s) = low x" if "b + (?s + 4) \<le> e"
    by (rule c4.rd_back [OF wf(2), of _ _ ?m]) (use agree that in \<open>simp add: w s\<close>)
  show ?thesis using True l
    by (simp add: mach_dulint_parse_compressed_def h Let_def dulint_api_simps [OF D] s)
qed

lemma parse_enc:
  assumes "unat x < 2 ^ 32" and "mem_holds m p e (cc.enc x)"
  shows "mach_parse_compressed m p e =
    (if p + mach_get_compressed_size x \<le> e then Some (p + mach_get_compressed_size x, x) else None)"
proof (rule parse_stored [OF assms(1), of p e m m])
  fix i assume i: "p \<le> i" "i < p + mach_get_compressed_size x" "i < e"
  then have "m i = cc.enc x ! (i - p)"
    using assms(2) by (auto simp: mem_holds_def dest!: spec [of _ "i - p"])
  also have "\<dots> = mem_bytes (fst (mach_write_compressed m p x)) p (mach_get_compressed_size x) ! (i - p)"
    by (simp add: cc.mem_bytes_wr [OF assms(1)])
  finally show "m i = fst (mach_write_compressed m p x) i" using i by simp
qed

lemma dulint_parse_enc:
  assumes "dulint_wf x" and D: "dulint_api_ok D" and "mem_holds m p e (dc.via.enc x)"
  shows "mach_dulint_parse_compressed D m p e =
    (if p + mach_dulint_get_compressed_size D x \<le> e
     then Some (p + mach_dulint_get_compressed_size D x, x) else None)"
proof (rule dulint_parse_stored [OF assms(1) D, of p e m m])
  have s: "mach_dulint_get_compressed_size D x = pc4.sp (dulint_halves x)"
    by (rule mach_dulint_eqs [OF D])
  have ok: "pc4.okp (dulint_halves x)"
    using assms(1) unfolding pc4.okp_def dulint_wf_def dulint_halves_def by simp
  fix i assume i: "p \<le> i" "i < p + mach_dulint_get_compressed_size D x" "i < e"
  then have "m i = dc.via.enc x ! (i - p)"
    using assms(3) by (auto simp: mem_holds_def s dest!: spec [of _ "i - p"])
  also have "\<dots> = mem_bytes (fst (mach_dulint_write_compressed D m p x)) p
      (mach_dulint_get_compressed_size D x) ! (i - p)"
    by (simp add: mach_dulint_eqs [OF D] dc.via.mem_bytes_wr [OF ok])
  finally show "m i = fst (mach_dulint_write_compressed D m p x) i" using i by simp
qed

text \<open>Neither parser looks at a byte at or behind the end of the buffer.\<close>

lemma parse_local:
  assumes "\<And>i. p \<le> i \<Longrightarrow> i < e \<Longrightarrow> m i = m' i"
  shows "mach_parse_compressed m p e = mach_parse_compressed m' p e"
proof (cases "p < e")
  case True
  then have "m p = m' p" using assms by simp
  then show ?thesis using assms mach_read_compressed_local [of p m m']
    by (auto simp: mach_parse_compressed_eq)
qed (simp add: mach_parse_compressed_def)

lemma dulint_parse_local:
  assumes "\<And>i. p \<le> i \<Longrightarrow> i < e \<Longrightarrow> m i = m' i"
  shows "mach_dulint_parse_compressed D m p e = mach_dulint_parse_compressed D m' p e"
proof (cases "p + 5 \<le> e")
  case True
  have "mach_read_compressed m p = mach_read_compressed m' p"
    by (rule mach_read_compressed_local)
      (use assms True compressed_length_bounds [of "m p"] in simp)
  moreover have "mach_read_from_4 m (p + s) = mach_read_from_4 m' (p + s)" if "p + s + 4 \<le> e" for s
    by (rule mach_read_local(4)) (use assms that in simp)
  ultimately show ?thesis by (simp add: mach_dulint_parse_compressed_def Let_def)
qed (simp add: mach_dulint_parse_compressed_def)

section \<open>Little-endian integers and floating point images\<close>

text \<open>
  The loops of the two functions run \<open>buf_size\<close> times, from the last byte down and from the
  first byte up. A size of zero, which \<open>ut_ad\<close> excludes, would make them run past the buffer:
  the result is then \<open>None\<close>.
\<close>

fun read_le_loop :: "mem \<Rightarrow> ptr \<Rightarrow> nat \<Rightarrow> ulint \<Rightarrow> ulint" where
  "read_le_loop m buf 0 n = n"
| "read_le_loop m buf (Suc k) n = read_le_loop m buf k (push_bit 8 n + ucast (m (buf + k)))"

definition mach_read_from_n_little_endian :: "mem \<Rightarrow> ptr \<Rightarrow> nat \<Rightarrow> ulint option" where
  "mach_read_from_n_little_endian m buf buf_size =
     (if buf_size = 0 then None else Some (read_le_loop m buf buf_size 0))"

fun write_le_loop :: "mem \<Rightarrow> ptr \<Rightarrow> nat \<Rightarrow> ulint \<Rightarrow> mem" where
  "write_le_loop m dest 0 n = m"
| "write_le_loop m dest (Suc k) n =
     write_le_loop (m(dest := ucast (n AND 0xFF))) (dest + 1) k (drop_bit 8 n)"

definition mach_write_to_n_little_endian :: "mem \<Rightarrow> ptr \<Rightarrow> nat \<Rightarrow> ulint \<Rightarrow> mem option" where
  "mach_write_to_n_little_endian m dest dest_size n =
     (if dest_size = 0 then None else Some (write_le_loop m dest dest_size n))"

definition mach_read_from_2_little_endian :: "mem \<Rightarrow> ptr \<Rightarrow> ulint" where
  "mach_read_from_2_little_endian m buf = ucast (m buf) + ucast (m (buf + 1)) * 256"

definition mach_write_to_2_little_endian :: "mem \<Rightarrow> ptr \<Rightarrow> ulint \<Rightarrow> mem" where
  "mach_write_to_2_little_endian m dest n =
     (let m = m(dest := ucast (n AND 0xFF)); n = drop_bit 8 n; dest = dest + 1
      in m(dest := ucast (n AND 0xFF)))"

lemma le_frame: "i < p \<or> p + k \<le> i \<Longrightarrow> write_le_loop m p k n i = m i"
  by (induction k arbitrary: m p n) auto

lemma unat_low_byte: "unat (ucast ((n :: ulint) AND 0xFF) :: byte) = unat n mod 256"
proof -
  have "(0xFF :: ulint) = mask 8" by (simp add: mask_eq_exp_minus_1)
  then show ?thesis by (simp only: unat_to_byte unat_and_mask) simp
qed

lemma write_le_byte:
  "j < k \<Longrightarrow> unat (write_le_loop m p k n (p + j)) = unat n div 256 ^ j mod 256"
proof (induction k arbitrary: m p n j)
  case (Suc k)
  show ?case
  proof (cases j)
    case 0
    then show ?thesis by (simp add: le_frame unat_low_byte)
  next
    case (Suc i)
    with Suc.prems have "i < k" by simp
    from Suc.IH [OF this, of "m(p := ucast (n AND 0xFF))" "p + 1" "drop_bit 8 n"] Suc
    show ?thesis by (simp add: unat_drop div_mult2_eq del: fun_upd_apply)
  qed
qed simp

text \<open>The reader computes the number of the bytes, as long as it fits in eight of them.\<close>

fun le_number :: "mem \<Rightarrow> ptr \<Rightarrow> nat \<Rightarrow> nat" where
  "le_number m p 0 = 0"
| "le_number m p (Suc k) = le_number m p k + unat (m (p + k)) * 256 ^ k"

lemma le_number_less: "le_number m p k < 256 ^ k"
proof (induction k)
  case (Suc k)
  have "unat (m (p + k)) \<le> 255" using unat_byte_less [of "m (p + k)"] by simp
  then have "unat (m (p + k)) * 256 ^ k \<le> 255 * 256 ^ k" by (rule mult_right_mono) simp
  with Suc show ?case unfolding le_number.simps power_Suc by linarith
qed simp

lemma unat_shift_byte:
  assumes "unat (n :: ulint) * 256 + 255 < 2 ^ 64"
  shows "unat (push_bit 8 n + ucast (x :: byte)) = unat n * 256 + unat x"
proof -
  have "unat (push_bit 8 n) = unat n * 256"
    using assms by (simp add: unsigned_push_bit_eq nat_bits)
  with assms unat_byte_less [of x] show ?thesis by (simp add: unat_plus unat_of_byte)
qed

lemma unat_read_le_loop:
  assumes "unat n * 256 ^ k + 256 ^ k \<le> 2 ^ 64"
  shows "unat (read_le_loop m p k n) = unat n * 256 ^ k + le_number m p k"
  using assms
proof (induction k arbitrary: n)
  case (Suc k)
  let ?x = "m (p + k)"
  let ?P = "256 ^ k :: nat"
  have e: "(unat n * 256 + 256) * ?P \<le> 2 ^ 64" using Suc.prems by (simp add: algebra_simps)
  have "unat n * 256 + 256 \<le> (unat n * 256 + 256) * ?P" by simp
  then have "unat n * 256 + 256 \<le> 2 ^ 64" using e by (rule le_trans)
  then have s: "unat (push_bit 8 n + ucast ?x) = unat n * 256 + unat ?x"
    by (intro unat_shift_byte) simp
  have "unat n * 256 + unat ?x + 1 \<le> unat n * 256 + 256" using unat_byte_less [of ?x] by simp
  then have "(unat n * 256 + unat ?x + 1) * ?P \<le> (unat n * 256 + 256) * ?P"
    by (rule mult_right_mono) simp
  then have "(unat n * 256 + unat ?x + 1) * ?P \<le> 2 ^ 64" using e by (rule le_trans)
  then have "unat (push_bit 8 n + ucast ?x) * ?P + ?P \<le> 2 ^ 64"
    unfolding s by (simp only: add_mult_distrib mult_1)
  from Suc.IH [OF this] show ?case
    unfolding read_le_loop.simps le_number.simps s by (simp add: algebra_simps)
qed simp

lemma le_number_write:
  assumes "\<And>j. j < k \<Longrightarrow> unat (m (p + j)) = n div 256 ^ j mod 256"
  shows "le_number m p k = n mod 256 ^ k"
  using assms
proof (induction k)
  case (Suc k)
  then have "le_number m p k = n mod 256 ^ k" and "unat (m (p + k)) = n div 256 ^ k mod 256"
    by simp_all
  then show ?case
    using mod_mult2_eq [of n "256 ^ k" 256] by (simp add: mult.commute)
qed simp

lemma le_back:
  assumes "0 < k" "k \<le> 8" and "unat n < 256 ^ k"
    and agree: "\<And>i. p \<le> i \<Longrightarrow> i < p + k \<Longrightarrow> m' i = write_le_loop m p k n i"
  shows "read_le_loop m' p k 0 = n"
proof -
  have "le_number m' p k = unat n mod 256 ^ k"
    by (rule le_number_write) (simp add: agree write_le_byte)
  moreover have "(256 :: nat) ^ k \<le> 2 ^ 64"
    using power_increasing [OF assms(2), of "256 :: nat"] by simp
  ultimately show ?thesis
    using assms(3) by (simp add: word_unat_eq_iff unat_read_le_loop)
qed

lemma le_shift: "j < k \<Longrightarrow> write_le_loop m p k n (p + j) = write_le_loop m' p' k n (p' + j)"
  by (simp add: word_unat_eq_iff write_le_byte)

interpretation le8: codec "\<lambda>m b n. write_le_loop m b 8 n" "\<lambda>_. 8" "\<lambda>m b. read_le_loop m b 8 0"
  "\<lambda>_. True"
  by unfold_locales (auto intro!: le_back le_frame le_shift simp: unat_ulint_less less_le_trans [OF unat_ulint_less])

lemma little_endian_2:
  "mach_write_to_2_little_endian m p n = write_le_loop m p 2 n"
  "mach_read_from_2_little_endian m p = read_le_loop m p 2 0"
  by (simp_all add: mach_write_to_2_little_endian_def mach_read_from_2_little_endian_def
      numeral_2_eq_2 push_bit_eq_mult add.commute mult.commute)

text \<open>
  A \<open>double\<close> or a \<open>float\<close> is its object representation, a list of eight or four bytes; the
  platform is little-endian (\<open>WORDS_BIGENDIAN\<close> is not defined), so that both loops copy.
\<close>

definition mach_double_read :: "mem \<Rightarrow> ptr \<Rightarrow> byte list" where
  "mach_double_read m b = map (\<lambda>i. m (b + i)) [0..<8]"

definition mach_double_write :: "mem \<Rightarrow> ptr \<Rightarrow> byte list \<Rightarrow> mem" where
  "mach_double_write m b d = fold (\<lambda>i m. m(b + i := d ! i)) [0..<8] m"

definition mach_float_read :: "mem \<Rightarrow> ptr \<Rightarrow> byte list" where
  "mach_float_read m b = map (\<lambda>i. m (b + i)) [0..<4]"

definition mach_float_write :: "mem \<Rightarrow> ptr \<Rightarrow> byte list \<Rightarrow> mem" where
  "mach_float_write m b d = fold (\<lambda>i m. m(b + i := d ! i)) [0..<4] m"

lemma fold_store:
  "fold (\<lambda>i m. m(b + i := d ! i)) [0..<k] m i = (if b \<le> i \<and> i < b + k then d ! (i - b) else m i)"
  by (induction k) auto

interpretation cd: codec mach_double_write "\<lambda>_. 8" mach_double_read "\<lambda>d. length d = 8"
  by unfold_locales
    (auto simp: mach_double_write_def mach_double_read_def fold_store intro!: nth_equalityI)

interpretation cf: codec mach_float_write "\<lambda>_. 4" mach_float_read "\<lambda>d. length d = 4"
  by unfold_locales
    (auto simp: mach_float_write_def mach_float_read_def fold_store intro!: nth_equalityI)

section \<open>Properties\<close>

text \<open>
  A number below \<open>2^32\<close> that \<open>mach_write_compressed\<close> stores takes the size the function
  returns, which is \<open>mach_get_compressed_size\<close>, changes no other byte, and is read back by
  \<open>mach_read_compressed\<close> from any memory that still has those bytes.
\<close>

theorem mach_compressed_roundtrip:
  assumes "unat n < 2 ^ 32"
    and "\<forall>i. b \<le> i \<and> i < b + snd (mach_write_compressed m b n) \<longrightarrow>
      m' i = fst (mach_write_compressed m b n) i"
  shows "mach_read_compressed m' b = n
    \<and> snd (mach_write_compressed m b n) = mach_get_compressed_size n
    \<and> (\<forall>i. i < b \<or> b + mach_get_compressed_size n \<le> i \<longrightarrow>
        fst (mach_write_compressed m b n) i = m i)"
  using assms by (auto simp: mach_write_compressed_size intro: cc.rd_back cc.wr_frame)

theorem mach_compressed_roundtrip_witness:
  "mach_read_compressed (fst (mach_write_compressed (\<lambda>_. 7) 100 0x12345)) 100 = 0x12345"
  using mach_compressed_roundtrip [of "0x12345" 100 "\<lambda>_. 7"
      "fst (mach_write_compressed (\<lambda>_. 7) 100 0x12345)"] by simp

text \<open>
  C29. On a buffer that ends at \<open>e\<close> and holds a stored number as far as it reaches, both parsers
  of recovery are exact: they return the number and its end when the buffer has all of it, and
  report an incomplete field otherwise, whatever bytes follow the end of the buffer.
\<close>

theorem mach_parse_exact:
  assumes "dulint_api_ok D" and "unat n < 2 ^ 32" and "dulint_wf d"
    and "\<forall>i. b \<le> i \<and> i < b + mach_get_compressed_size n \<and> i < e \<longrightarrow>
      m1 i = fst (mach_write_compressed m b n) i"
    and "\<forall>i. b \<le> i \<and> i < b + mach_dulint_get_compressed_size D d \<and> i < e \<longrightarrow>
      m2 i = fst (mach_dulint_write_compressed D m b d) i"
  shows "mach_parse_compressed m1 b e =
      (if b + mach_get_compressed_size n \<le> e then Some (b + mach_get_compressed_size n, n) else None)
    \<and> mach_dulint_parse_compressed D m2 b e =
      (if b + mach_dulint_get_compressed_size D d \<le> e
       then Some (b + mach_dulint_get_compressed_size D d, d) else None)"
  using assms by (blast intro: parse_stored dulint_parse_stored)

theorem mach_parse_exact_witness:
  "mach_parse_compressed (fst (mach_write_compressed (\<lambda>_. 0) 10 300)) 10 11 = None
   \<and> mach_dulint_parse_compressed dulint_ref
       (fst (mach_dulint_write_compressed dulint_ref (\<lambda>_. 0) 10 \<lparr>high = 300, low = 5\<rparr>)) 10 20
     = Some (16, \<lparr>high = 300, low = 5\<rparr>)"
proof -
  have "mach_dulint_get_compressed_size dulint_ref \<lparr>high = 300, low = 5\<rparr> = 6"
    "mach_get_compressed_size 300 = 2"
    by (simp_all add: mach_dulint_get_compressed_size_def dulint_ref_def mach_get_compressed_size_def)
  then show ?thesis
    using mach_parse_exact [OF dulint_ref_ok, of 300 "\<lparr>high = 300, low = 5\<rparr>" 10 11
        "fst (mach_write_compressed (\<lambda>_. 0) 10 300)" "\<lambda>_. 0"
        "fst (mach_dulint_write_compressed dulint_ref (\<lambda>_. 0) 10 \<lparr>high = 300, low = 5\<rparr>)"]
      mach_parse_exact [OF dulint_ref_ok, of 300 "\<lparr>high = 300, low = 5\<rparr>" 10 20
        "fst (mach_write_compressed (\<lambda>_. 0) 10 300)" "\<lambda>_. 0"
        "fst (mach_dulint_write_compressed dulint_ref (\<lambda>_. 0) 10 \<lparr>high = 300, low = 5\<rparr>)"]
    by (simp add: dulint_wf_def)
qed

text \<open>
  The parsers read nothing at or behind the end of the buffer: on two memories that agree
  before it they give the same result.
\<close>

theorem mach_parse_in_bounds:
  assumes "\<forall>i. p \<le> i \<and> i < e \<longrightarrow> m i = m' i"
  shows "mach_parse_compressed m p e = mach_parse_compressed m' p e
    \<and> mach_dulint_parse_compressed D m p e = mach_dulint_parse_compressed D m' p e"
  using assms by (blast intro: parse_local dulint_parse_local)

theorem mach_parse_in_bounds_witness:
  "mach_dulint_parse_compressed dulint_ref (\<lambda>_. 3) 10 15 =
   mach_dulint_parse_compressed dulint_ref (\<lambda>i. if i < 15 then 3 else 9) 10 15"
  using mach_parse_in_bounds [of 10 15 "\<lambda>_. 3" "\<lambda>i. if i < 15 then 3 else 9" dulint_ref] by simp

text \<open>
  The much compressed form of a 64 bit number, with its mark byte for a high half that is
  not zero, is read back from any memory that has its bytes, and has the announced size.
\<close>

theorem mach_much_compressed_roundtrip:
  assumes "dulint_api_ok D" and "dulint_wf d"
    and "\<forall>i. b \<le> i \<and> i < b + mach_dulint_get_much_compressed_size D d \<longrightarrow>
      m' i = fst (mach_dulint_write_much_compressed D m b d) i"
  shows "mach_dulint_read_much_compressed D m' b = d
    \<and> snd (mach_dulint_write_much_compressed D m b d) = mach_dulint_get_much_compressed_size D d"
  using assms by (blast intro: much_back much_size)

theorem mach_much_compressed_roundtrip_witness:
  "mach_dulint_read_much_compressed dulint_ref
    (fst (mach_dulint_write_much_compressed dulint_ref (\<lambda>_. 0) 5 \<lparr>high = 1, low = 2\<rparr>)) 5
   = \<lparr>high = 1, low = 2\<rparr>"
  using mach_much_compressed_roundtrip [OF dulint_ref_ok, of "\<lparr>high = 1, low = 2\<rparr>" 5
      "fst (mach_dulint_write_much_compressed dulint_ref (\<lambda>_. 0) 5 \<lparr>high = 1, low = 2\<rparr>)" "\<lambda>_. 0"]
  by (simp add: dulint_wf_def)

text \<open>
  The fixed formats of a 64 bit number round trip: eight bytes for every number, seven and
  six bytes for the numbers whose high half has 24 and 16 bits.
\<close>

theorem mach_dulint_fixed_roundtrip:
  assumes "dulint_api_ok D" and "dulint_wf d"
  shows "mach_read_from_8 D (mach_write_to_8 D m b d) b = d
    \<and> (unat (high d) < 2 ^ 24 \<longrightarrow> mach_read_from_7 D (mach_write_to_7 D m b d) b = d)
    \<and> (unat (high d) < 2 ^ 16 \<longrightarrow> mach_read_from_6 D (mach_write_to_6 D m b d) b = d)"
  using assms(2) d8.via.rd_wr [of d m b] d7.via.rd_wr [of d m b] d6.via.rd_wr [of d m b]
  unfolding p44.okp_def p34.okp_def p24.okp_def dulint_wf_def mach_dulint_eqs [OF assms(1)]
  by (simp add: dulint_halves_def)

theorem mach_dulint_fixed_roundtrip_witness:
  "mach_read_from_6 dulint_ref (mach_write_to_6 dulint_ref (\<lambda>_. 0) 9 \<lparr>high = 258, low = 2\<rparr>) 9
   = \<lparr>high = 258, low = 2\<rparr>"
  using mach_dulint_fixed_roundtrip [OF dulint_ref_ok, of "\<lparr>high = 258, low = 2\<rparr>" "\<lambda>_. 0" 9]
  by (simp add: dulint_wf_def)

text \<open>
  A number that fits in \<open>k\<close> bytes, \<open>k\<close> from one to eight, survives the little-endian
  writer and reader, and the writer touches those bytes only.
\<close>

theorem mach_little_endian_roundtrip:
  assumes "0 < k" "k \<le> 8" and "unat n < 256 ^ k"
  shows "\<exists>m'. mach_write_to_n_little_endian m p k n = Some m'
    \<and> mach_read_from_n_little_endian m' p k = Some n
    \<and> (\<forall>i. i < p \<or> p + k \<le> i \<longrightarrow> m' i = m i)"
  using assms le_back [OF assms, of p _ m] le_frame
  by (simp add: mach_write_to_n_little_endian_def mach_read_from_n_little_endian_def)

theorem mach_little_endian_roundtrip_witness:
  "\<exists>m'. mach_write_to_n_little_endian (\<lambda>_. 0) 4 3 0x10203 = Some m'
    \<and> mach_read_from_n_little_endian m' 4 3 = Some 0x10203"
  using mach_little_endian_roundtrip [of 3 "0x10203" "\<lambda>_. 0" 4] by auto

end
