(* ===== verification/Dyn_Array.thy ===== *)
theory Dyn_Array
  imports Mach_Data
begin

text \<open>
  \<open>dyn0dyn.h\<close>, \<open>dyn0dyn.inl\<close> and \<open>dyn0dyn.cc\<close>: a byte array that grows by blocks of
  \<open>DYN_ARRAY_DATA_SIZE\<close> bytes. The array is the list of its blocks, the first one being the
  \<open>dyn_array_t\<close> itself; \<open>heap == NULL\<close> is that the list has one element, since
  \<open>dyn_array_add_block\<close>, the only function that sets \<open>heap\<close>, links a second one. The field
  \<open>data\<close> is used as bytes throughout. A pointer into the array is a block and an offset in it.
\<close>

section \<open>The array\<close>

definition DYN_ARRAY_DATA_SIZE :: ulint where "DYN_ARRAY_DATA_SIZE = 512"

definition DYN_BLOCK_FULL_FLAG :: ulint where "DYN_BLOCK_FULL_FLAG = 0x1000000"

record dyn_block =
  used :: ulint
  data :: mem

type_synonym dyn_array = "dyn_block list"
type_synonym dyn_ptr = "nat \<times> nat"

definition dyn_array_create :: dyn_array where
  "dyn_array_create = [\<lparr>used = 0, data = \<lambda>_. 0\<rparr>]"

definition dyn_array_get_last_block :: "dyn_array \<Rightarrow> nat" where
  "dyn_array_get_last_block arr = length arr - 1"

definition dyn_array_get_next_block :: "dyn_array \<Rightarrow> nat \<Rightarrow> nat option" where
  "dyn_array_get_next_block arr i = (if i + 1 < length arr then Some (i + 1) else None)"

definition dyn_block_get_used :: "dyn_block \<Rightarrow> ulint" where
  "dyn_block_get_used b = used b AND NOT DYN_BLOCK_FULL_FLAG"

definition dyn_array_add_block :: "dyn_array \<Rightarrow> dyn_array" where
  "dyn_array_add_block arr =
     (let l = dyn_array_get_last_block arr;
          arr = arr[l := (arr ! l)\<lparr>used := used (arr ! l) OR DYN_BLOCK_FULL_FLAG\<rparr>]
      in arr @ [\<lparr>used = 0, data = \<lambda>_. 0\<rparr>])"

text \<open>
  The block that takes the next \<open>sz\<close> bytes, common to \<open>dyn_array_open\<close> and
  \<open>dyn_array_push\<close>: the first one if it has room, else the last one, else a new one.
\<close>

definition dyn_array_room :: "dyn_array \<Rightarrow> ulint \<Rightarrow> dyn_array \<times> nat" where
  "dyn_array_room arr sz =
     (if used (arr ! 0) + sz > DYN_ARRAY_DATA_SIZE then
        let block = dyn_array_get_last_block arr in
        if used (arr ! block) + sz > DYN_ARRAY_DATA_SIZE
        then (dyn_array_add_block arr, length arr)
        else (arr, block)
      else (arr, 0))"

definition dyn_array_open :: "dyn_array \<Rightarrow> ulint \<Rightarrow> dyn_array \<times> dyn_ptr" where
  "dyn_array_open arr sz =
     (let (arr, block) = dyn_array_room arr sz
      in (arr, (block, unat (used (arr ! block)))))"

definition dyn_array_push :: "dyn_array \<Rightarrow> ulint \<Rightarrow> dyn_array \<times> dyn_ptr" where
  "dyn_array_push arr sz =
     (let (arr, block) = dyn_array_room arr sz; u = used (arr ! block)
      in (arr[block := (arr ! block)\<lparr>used := u + sz\<rparr>], (block, unat u)))"

text \<open>\<open>ptr\<close> is a pointer into the last block, see \<open>dyn_array_room_last\<close>.\<close>

definition dyn_array_close :: "dyn_array \<Rightarrow> dyn_ptr \<Rightarrow> dyn_array" where
  "dyn_array_close arr p =
     (let l = dyn_array_get_last_block arr
      in arr[l := (arr ! l)\<lparr>used := of_nat (snd p)\<rparr>])"

fun sum_used :: "dyn_array \<Rightarrow> ulint \<Rightarrow> ulint" where
  "sum_used [] s = s"
| "sum_used (b # bs) s = sum_used bs (s + dyn_block_get_used b)"

definition dyn_array_get_data_size :: "dyn_array \<Rightarrow> ulint" where
  "dyn_array_get_data_size arr =
     (if length arr = 1 then used (arr ! 0) else sum_used arr 0)"

text \<open>The walk of \<open>dyn_array_get_element\<close>; it runs off the list when \<open>pos\<close> is too big.\<close>

fun element_walk :: "dyn_array \<Rightarrow> nat \<Rightarrow> ulint \<Rightarrow> dyn_ptr option" where
  "element_walk [] i pos = None"
| "element_walk (b # bs) i pos =
     (if pos \<ge> dyn_block_get_used b then element_walk bs (i + 1) (pos - dyn_block_get_used b)
      else Some (i, unat pos))"

definition dyn_array_get_element :: "dyn_array \<Rightarrow> ulint \<Rightarrow> dyn_ptr option" where
  "dyn_array_get_element arr pos =
     (if length arr = 1 then Some (0, unat pos) else element_walk arr 0 pos)"

definition dyn_data :: "dyn_array \<Rightarrow> dyn_ptr \<Rightarrow> mem" where
  "dyn_data arr p = data (arr ! fst p)"

definition dyn_set_data :: "dyn_array \<Rightarrow> dyn_ptr \<Rightarrow> mem \<Rightarrow> dyn_array" where
  "dyn_set_data arr p d = arr[fst p := (arr ! fst p)\<lparr>data := d\<rparr>]"

section \<open>Well-formed arrays and their contents\<close>

text \<open>All blocks but the last are marked full; no block holds more than its 512 bytes.\<close>

fun dyn_wf :: "dyn_array \<Rightarrow> bool" where
  "dyn_wf [] = False"
| "dyn_wf [b] = (unat (used b) \<le> 512)"
| "dyn_wf (b # bs) = ((\<exists>u. unat u \<le> 512 \<and> used b = u OR DYN_BLOCK_FULL_FLAG) \<and> dyn_wf bs)"

definition block_bytes :: "dyn_block \<Rightarrow> byte list" where
  "block_bytes b = mem_bytes (data b) 0 (unat (dyn_block_get_used b))"

definition dyn_bytes :: "dyn_array \<Rightarrow> byte list" where
  "dyn_bytes arr = concat (map block_bytes arr)"

lemma unat_full: "unat u \<le> 512 \<Longrightarrow> unat (u OR DYN_BLOCK_FULL_FLAG) = unat u + 0x1000000"
  using unat_or_high [of u 24 DYN_BLOCK_FULL_FLAG 1] by (simp add: DYN_BLOCK_FULL_FLAG_def)

lemma full_masked: "unat u \<le> 512 \<Longrightarrow> (u OR DYN_BLOCK_FULL_FLAG) AND NOT DYN_BLOCK_FULL_FLAG = u"
  and not_full_masked: "unat u \<le> 512 \<Longrightarrow> u AND NOT DYN_BLOCK_FULL_FLAG = u"
proof -
  assume "unat u \<le> 512"
  then have "take_bit 10 u = u" by (simp add: word_unat_eq_iff unsigned_take_bit_eq nat_bits)
  then have u: "bit u n \<Longrightarrow> n < 10" for n by (metis bit_take_bit_iff)
  have e: "DYN_BLOCK_FULL_FLAG = push_bit 24 1"
    by (simp add: DYN_BLOCK_FULL_FLAG_def push_bit_eq_mult)
  have f: "bit DYN_BLOCK_FULL_FLAG n \<longleftrightarrow> n = 24" for n
    unfolding e bit_push_bit_iff bit_1_iff by auto
  show "(u OR DYN_BLOCK_FULL_FLAG) AND NOT DYN_BLOCK_FULL_FLAG = u"
    by (rule bit_eqI) (auto simp: f bit_simps dest: u)
  show "u AND NOT DYN_BLOCK_FULL_FLAG = u"
    by (rule bit_eqI) (auto simp: f bit_simps dest: u)
qed

lemma dyn_wf_Cons2: "xs \<noteq> [] \<Longrightarrow> dyn_wf (b # xs) \<longleftrightarrow>
    (\<exists>u. unat u \<le> 512 \<and> used b = u OR DYN_BLOCK_FULL_FLAG) \<and> dyn_wf xs"
  by (cases xs) simp_all

lemma dyn_wf_not_Nil [simp]: "dyn_wf arr \<Longrightarrow> arr \<noteq> []"
  by auto

lemma dyn_wf_snoc: "dyn_wf (xs @ [b]) \<longleftrightarrow>
    (\<forall>x\<in>set xs. \<exists>u. unat u \<le> 512 \<and> used x = u OR DYN_BLOCK_FULL_FLAG) \<and> unat (used b) \<le> 512"
  by (induction xs) (auto simp: dyn_wf_Cons2)

lemma dyn_bytes_snoc: "dyn_bytes (xs @ [b]) = dyn_bytes xs @ block_bytes b"
  by (simp add: dyn_bytes_def)

lemma block_bytes_last: "unat (used b) \<le> 512 \<Longrightarrow> block_bytes b = mem_bytes (data b) 0 (unat (used b))"
  by (simp add: block_bytes_def dyn_block_get_used_def not_full_masked)

lemma block_bytes_full:
  "unat (used b) \<le> 512 \<Longrightarrow> block_bytes (b\<lparr>used := used b OR DYN_BLOCK_FULL_FLAG\<rparr>) = block_bytes b"
  by (simp add: block_bytes_def dyn_block_get_used_def full_masked not_full_masked)

lemma create_wf: "dyn_wf dyn_array_create" and create_bytes: "dyn_bytes dyn_array_create = []"
  by (simp_all add: dyn_array_create_def dyn_bytes_def block_bytes_def dyn_block_get_used_def
      mem_bytes_def)

text \<open>
  Room is made in the last block of a well-formed array with the same contents, whose free
  space is at least \<open>sz\<close>.
\<close>

lemma dyn_array_room_last:
  assumes wf: "dyn_wf arr" and "0 < unat sz" "unat sz \<le> 512"
    and r: "dyn_array_room arr sz = (arr', i)"
  obtains xs b where "arr' = xs @ [b]" "i = length xs" "dyn_wf arr'" "dyn_bytes arr' = dyn_bytes arr"
    "unat (used b) + unat sz \<le> 512"
proof -
  from wf obtain xs b where arr: "arr = xs @ [b]" by (metis dyn_wf_not_Nil rev_exhaust)
  have b: "unat (used b) \<le> 512" using wf by (simp add: arr dyn_wf_snoc)
  have plus: "unat (used b + sz) = unat (used b) + unat sz"
    using b assms(3) by (intro unat_plus) simp
  show ?thesis
  proof (cases "unat (used b) + unat sz \<le> 512")
    case True
    have "i = length xs \<and> arr' = arr"
    proof (cases xs)
      case Nil
      with r True plus show ?thesis
        by (simp add: dyn_array_room_def DYN_ARRAY_DATA_SIZE_def arr word_less_nat_alt)
    next
      case (Cons x ys)
      obtain u where u: "unat u \<le> 512" "used x = u OR DYN_BLOCK_FULL_FLAG"
        using wf dyn_wf_snoc [of "x # ys" b] by (auto simp: arr Cons)
      have "unat (used x + sz) = unat u + 0x1000000 + unat sz"
        using u assms(3) unat_full [OF u(1)] by (subst unat_plus) simp_all
      with r True plus Cons show ?thesis
        by (simp add: dyn_array_room_def DYN_ARRAY_DATA_SIZE_def arr word_less_nat_alt
            dyn_array_get_last_block_def nth_append Let_def split: if_splits)
    qed
    with True wf show ?thesis by (intro that [of xs b]) (simp_all add: arr)
  next
    case False
    have add: "arr' = dyn_array_add_block arr \<and> i = length arr"
    proof (cases xs)
      case Nil
      with r False plus show ?thesis
        by (simp add: dyn_array_room_def DYN_ARRAY_DATA_SIZE_def arr word_less_nat_alt
            dyn_array_get_last_block_def Let_def)
    next
      case (Cons x ys)
      obtain u where u: "unat u \<le> 512" "used x = u OR DYN_BLOCK_FULL_FLAG"
        using wf dyn_wf_snoc [of "x # ys" b] by (auto simp: arr Cons)
      have "unat (used x + sz) = unat u + 0x1000000 + unat sz"
        using u assms(3) unat_full [OF u(1)] by (subst unat_plus) simp_all
      with r False plus Cons show ?thesis
        by (simp add: dyn_array_room_def DYN_ARRAY_DATA_SIZE_def arr word_less_nat_alt
            dyn_array_get_last_block_def nth_append Let_def split: if_splits)
    qed
    let ?b = "b\<lparr>used := used b OR DYN_BLOCK_FULL_FLAG\<rparr>"
    let ?n = "\<lparr>used = 0, data = \<lambda>_. 0\<rparr> :: dyn_block"
    have arr': "arr' = (xs @ [?b]) @ [?n]" "i = length (xs @ [?b])"
      using add by (simp_all add: dyn_array_add_block_def dyn_array_get_last_block_def arr Let_def)
    have n: "block_bytes ?n = []"
      by (simp add: block_bytes_def dyn_block_get_used_def mem_bytes_def)
    have "dyn_wf arr'" unfolding arr' dyn_wf_snoc using wf b by (auto simp: arr dyn_wf_snoc)
    moreover have "dyn_bytes arr' = dyn_bytes arr"
      unfolding arr' dyn_bytes_snoc block_bytes_full [OF b] n by (simp add: arr dyn_bytes_snoc)
    ultimately show ?thesis using assms(3) by (intro that [OF arr']) simp_all
  qed
qed

text \<open>
  The use of an opened array: \<open>k\<close> bytes are written at the returned pointer and the array is
  closed behind them. The contents grow by exactly those bytes.
\<close>

lemma dyn_array_open_close:
  assumes wf: "dyn_wf arr" and "0 < unat sz" "unat sz \<le> 512" and k: "k \<le> unat sz"
    and o: "dyn_array_open arr sz = (arr', (i, p))"
    and frame: "\<And>j. j < p \<Longrightarrow> d j = dyn_data arr' (i, p) j"
  shows "dyn_wf (dyn_array_close (dyn_set_data arr' (i, p) d) (i, p + k)) \<and>
    dyn_bytes (dyn_array_close (dyn_set_data arr' (i, p) d) (i, p + k)) = dyn_bytes arr @ mem_bytes d p k"
proof -
  from o obtain r where r: "dyn_array_room arr sz = (arr', i)" and p: "p = unat (used (arr' ! i))"
    by (auto simp: dyn_array_open_def Let_def split: prod.splits)
  obtain xs b where arr': "arr' = xs @ [b]" "i = length xs" and "dyn_wf arr'"
    and eq: "dyn_bytes arr' = dyn_bytes arr" and room: "unat (used b) + unat sz \<le> 512"
    by (rule dyn_array_room_last [OF wf assms(2,3) r])
  let ?b = "b\<lparr>data := d, used := of_nat (p + k)\<rparr>"
  have p': "p = unat (used b)" by (simp add: p arr')
  have c: "dyn_array_close (dyn_set_data arr' (i, p) d) (i, p + k) = xs @ [?b]"
    by (simp add: dyn_array_close_def dyn_set_data_def arr' dyn_array_get_last_block_def Let_def)
  have u: "unat (of_nat (p + k) :: ulint) = p + k"
    using room k unfolding p' by (subst unat_of_nat) simp
  have "block_bytes ?b = mem_bytes d 0 (p + k)"
    using u room k by (subst block_bytes_last) (simp_all add: p')
  also have "\<dots> = mem_bytes d 0 p @ mem_bytes d p k" by (simp add: mem_bytes_append)
  also have "mem_bytes d 0 p = block_bytes b"
    using frame room by (subst block_bytes_last) (auto simp: dyn_data_def arr' p' intro: mem_bytes_cong)
  finally have "dyn_bytes (xs @ [?b]) = dyn_bytes arr @ mem_bytes d p k"
    using eq by (simp add: arr' dyn_bytes_snoc)
  moreover have "dyn_wf (xs @ [?b])"
    using \<open>dyn_wf arr'\<close> u room k by (simp add: arr' dyn_wf_snoc p')
  ultimately show ?thesis by (simp add: c)
qed

text \<open>The walk of \<open>dyn_array_get_element\<close> finds the byte at a position of the contents.\<close>

lemma element_walk_nth:
  assumes "unat pos < length (dyn_bytes bs)"
  shows "\<exists>j off. element_walk bs i pos = Some (i + j, off) \<and> j < length bs
    \<and> off < unat (dyn_block_get_used (bs ! j)) \<and> data (bs ! j) off = dyn_bytes bs ! unat pos"
  using assms
proof (induction bs arbitrary: i pos)
  case (Cons b bs)
  let ?u = "dyn_block_get_used b"
  have len: "length (block_bytes b) = unat ?u" by (simp add: block_bytes_def)
  show ?case
  proof (cases "?u \<le> pos")
    case True
    then have sub: "unat (pos - ?u) = unat pos - unat ?u" by (simp add: unat_sub)
    have "unat ?u \<le> unat pos" using True by (simp add: word_le_nat_alt)
    with Cons.prems len have "unat (pos - ?u) < length (dyn_bytes bs)"
      by (simp add: sub dyn_bytes_def)
    from Cons.IH [OF this, of "i + 1"] obtain j off where j:
      "element_walk bs (i + 1) (pos - ?u) = Some (i + 1 + j, off)" "j < length bs"
      "off < unat (dyn_block_get_used (bs ! j))" "data (bs ! j) off = dyn_bytes bs ! (unat pos - unat ?u)"
      by (auto simp: sub)
    with True \<open>unat ?u \<le> unat pos\<close> len show ?thesis
      by (intro exI [of _ "Suc j"] exI [of _ off]) (simp add: dyn_bytes_def nth_append)
  next
    case False
    then have "unat pos < unat ?u" by (simp add: word_less_nat_alt not_le)
    with False len show ?thesis
      by (intro exI [of _ 0] exI [of _ "unat pos"]) (simp add: dyn_bytes_def nth_append block_bytes_def)
  qed
qed (simp add: dyn_bytes_def)

lemma sum_used_length:
  assumes "unat s + length (dyn_bytes bs) < 2 ^ 64"
  shows "unat (sum_used bs s) = unat s + length (dyn_bytes bs)"
  using assms
proof (induction bs arbitrary: s)
  case (Cons b bs)
  have len: "length (dyn_bytes (b # bs)) = unat (dyn_block_get_used b) + length (dyn_bytes bs)"
    by (simp add: dyn_bytes_def block_bytes_def)
  with Cons.prems have s: "unat (s + dyn_block_get_used b) = unat s + unat (dyn_block_get_used b)"
    by (intro unat_plus) simp
  with Cons.prems len have "unat (s + dyn_block_get_used b) + length (dyn_bytes bs) < 2 ^ 64" by simp
  from Cons.IH [OF this] show ?case by (simp add: s len)
qed (simp add: dyn_bytes_def)

text \<open>
  Opening a well-formed array for \<open>size\<close> bytes, writing at most that many at the returned
  pointer and closing behind them keeps the array well-formed, no block exceeding its 512 bytes,
  and appends exactly the written bytes, in the same block or in a new one.
\<close>

theorem dyn_array_appends:
  assumes "dyn_wf arr" and "0 < unat sz" "unat sz \<le> 512" and "k \<le> unat sz"
    and "dyn_array_open arr sz = (arr', (i, p))"
    and "\<forall>j < p. d j = dyn_data arr' (i, p) j"
  shows "dyn_wf (dyn_array_close (dyn_set_data arr' (i, p) d) (i, p + k))
    \<and> dyn_bytes (dyn_array_close (dyn_set_data arr' (i, p) d) (i, p + k))
      = dyn_bytes arr @ mem_bytes d p k"
  using assms by (intro dyn_array_open_close) auto

theorem dyn_array_appends_witness:
  "dyn_bytes (dyn_array_close (dyn_set_data dyn_array_create (0, 0) (\<lambda>_. 7)) (0, 5)) = replicate 5 7"
proof -
  have o: "dyn_array_open dyn_array_create 30 = (dyn_array_create, (0, 0))"
    by (simp add: dyn_array_open_def dyn_array_room_def dyn_array_create_def DYN_ARRAY_DATA_SIZE_def)
  have "mem_bytes (\<lambda>_. 7) 0 5 = replicate 5 7" by (simp add: mem_bytes_def map_replicate_const)
  then show ?thesis
    using dyn_array_appends [OF create_wf _ _ _ o, of 5 "\<lambda>_. 7"] create_bytes by simp
qed

text \<open>
  On a well-formed array the data size is the number of its bytes and every position below
  it is found in a block, at an offset below what the block holds, with the byte of the contents.
\<close>

theorem dyn_array_lookup:
  assumes "dyn_wf arr" and "length (dyn_bytes arr) < 2 ^ 64"
  shows "unat (dyn_array_get_data_size arr) = length (dyn_bytes arr)
    \<and> (\<forall>pos < dyn_array_get_data_size arr. \<exists>i off. dyn_array_get_element arr pos = Some (i, off)
        \<and> i < length arr \<and> off < unat (dyn_block_get_used (arr ! i))
        \<and> data (arr ! i) off = dyn_bytes arr ! unat pos)"
proof -
  have size: "unat (dyn_array_get_data_size arr) = length (dyn_bytes arr)"
  proof (cases "length arr = 1")
    case True
    then obtain b where "arr = [b]" by (auto simp: length_Suc_conv)
    with assms(1) show ?thesis
      by (simp add: dyn_array_get_data_size_def dyn_bytes_def block_bytes_last)
  next
    case False
    with assms(2) show ?thesis by (simp add: dyn_array_get_data_size_def sum_used_length)
  qed
  moreover have "\<exists>i off. dyn_array_get_element arr pos = Some (i, off)
      \<and> i < length arr \<and> off < unat (dyn_block_get_used (arr ! i))
      \<and> data (arr ! i) off = dyn_bytes arr ! unat pos"
    if "pos < dyn_array_get_data_size arr" for pos
  proof -
    have pos: "unat pos < length (dyn_bytes arr)" using that size by (simp add: word_less_nat_alt)
    show ?thesis
    proof (cases "length arr = 1")
      case True
      then obtain b where "arr = [b]" by (auto simp: length_Suc_conv)
      with pos show ?thesis
        by (simp add: dyn_array_get_element_def dyn_bytes_def block_bytes_def)
    next
      case False
      with element_walk_nth [OF pos, of 0] show ?thesis by (auto simp: dyn_array_get_element_def)
    qed
  qed
  ultimately show ?thesis by blast
qed

theorem dyn_array_lookup_witness:
  "unat (dyn_array_get_data_size [\<lparr>used = 3, data = \<lambda>i. of_nat i\<rparr>]) = 3"
  using dyn_array_lookup [of "[\<lparr>used = 3, data = \<lambda>i. of_nat i\<rparr>]"]
  by (simp add: dyn_bytes_def block_bytes_def dyn_block_get_used_def not_full_masked)

end
