(* ===== verification/Mtr_Log.thy ===== *)
theory Mtr_Log
  imports Dyn_Array
begin

text \<open>
  \<open>mtr0mtr.h\<close>, \<open>mtr0log.inl\<close> and \<open>mtr0log.cc\<close>: a mini-transaction changes pages in the buffer
  pool and appends a redo record for each change to its own log; the parsers of recovery read
  a record and apply it to a page. The buffer pool functions that find the block and the frame
  of an address are those of \<open>buf0buf.inl\<close>.
\<close>

section \<open>The buffer pool\<close>

text \<open>
  \<open>UNIV_PAGE_SIZE\<close> is the default \<open>UNIV_PAGE_SIZE_DEF\<close>. \<open>max_size\<close> is the length of \<open>blocks\<close>.
  A failing \<open>ut_a\<close> stops the server: such a result is \<open>None\<close>.
\<close>

definition UNIV_PAGE_SIZE :: nat where "UNIV_PAGE_SIZE = 16384"

definition UNIV_PAGE_SIZE_SHIFT :: nat where "UNIV_PAGE_SIZE_SHIFT = 14"

record buf_block =
  space :: ulint
  page_no :: ulint
  frame :: ptr

record buf_pool =
  frame_zero :: ptr
  high_end :: ptr
  blocks :: "buf_block list"

text \<open>An address below \<open>frame_zero\<close> gives a huge unsigned difference.\<close>

definition buf_block_align :: "buf_pool \<Rightarrow> ptr \<Rightarrow> buf_block option" where
  "buf_block_align pool p =
     (let i = (p - frame_zero pool) div 2 ^ UNIV_PAGE_SIZE_SHIFT
      in if p < frame_zero pool \<or> i \<ge> length (blocks pool) then None else Some (blocks pool ! i))"

definition buf_frame_align :: "buf_pool \<Rightarrow> ptr \<Rightarrow> ptr option" where
  "buf_frame_align pool p =
     (let f = unat (ut_align_down (of_nat p) (of_nat UNIV_PAGE_SIZE))
      in if f < frame_zero pool \<or> f > frame (blocks pool ! (length (blocks pool) - 1))
         then None else Some f)"

text \<open>The layout that \<open>buf_pool_create\<close> sets up: frames of one page each from an aligned start.\<close>

definition pool_wf :: "buf_pool \<Rightarrow> bool" where
  "pool_wf pool \<longleftrightarrow> frame_zero pool mod UNIV_PAGE_SIZE = 0
     \<and> high_end pool = frame_zero pool + UNIV_PAGE_SIZE * length (blocks pool)
     \<and> high_end pool < 2 ^ 64
     \<and> (\<forall>i < length (blocks pool). frame (blocks pool ! i) = frame_zero pool + UNIV_PAGE_SIZE * i)"

definition in_pool :: "buf_pool \<Rightarrow> ptr \<Rightarrow> bool" where
  "in_pool pool p \<longleftrightarrow> frame_zero pool \<le> p \<and> p < high_end pool"

text \<open>The block of an address and the address in its frame.\<close>

lemma pool_address:
  assumes "pool_wf pool" and "in_pool pool p"
  obtains b off where "buf_block_align pool p = Some b" "buf_frame_align pool p = Some (frame b)"
    "p = frame b + off" "off < UNIV_PAGE_SIZE" "b \<in> set (blocks pool)"
proof -
  define i where "i = (p - frame_zero pool) div UNIV_PAGE_SIZE"
  define off where "off = (p - frame_zero pool) mod UNIV_PAGE_SIZE"
  let ?n = "length (blocks pool)"
  have S: "UNIV_PAGE_SIZE = 2 ^ UNIV_PAGE_SIZE_SHIFT" "UNIV_PAGE_SIZE > 0"
    by (simp_all add: UNIV_PAGE_SIZE_def UNIV_PAGE_SIZE_SHIFT_def)
  have p: "p = frame_zero pool + UNIV_PAGE_SIZE * i + off" "off < UNIV_PAGE_SIZE"
    using assms(2) S(2) by (simp_all add: i_def off_def in_pool_def)
  have "p - frame_zero pool < ?n * UNIV_PAGE_SIZE"
    using assms by (auto simp: in_pool_def pool_wf_def mult.commute)
  then have i: "i < ?n" unfolding i_def by (rule less_mult_imp_div_less)
  obtain k where k: "frame_zero pool = UNIV_PAGE_SIZE * k"
    using assms(1) by (auto simp: pool_wf_def)
  have "p mod UNIV_PAGE_SIZE = off"
    using p(2) unfolding p(1) k by (simp add: mod_add_left_eq [symmetric] distrib_left [symmetric])
  moreover have "unat (of_nat p :: ulint) = p"
    using assms by (simp add: unat_of_nat in_pool_def pool_wf_def)
  moreover have "(of_nat UNIV_PAGE_SIZE :: ulint) = 2 ^ UNIV_PAGE_SIZE_SHIFT"
    by (simp add: UNIV_PAGE_SIZE_def UNIV_PAGE_SIZE_SHIFT_def)
  ultimately have "unat (ut_align_down (of_nat p) (of_nat UNIV_PAGE_SIZE)) = p - off"
    by (simp add: ut_align_down_def pow2_minus_1 unat_and_not_mask S(1) [symmetric])
  then have down: "unat (ut_align_down (of_nat p) (of_nat UNIV_PAGE_SIZE)) =
    frame_zero pool + UNIV_PAGE_SIZE * i" using p(1) by simp
  let ?b = "blocks pool ! i"
  have fr: "frame (blocks pool ! j) = frame_zero pool + UNIV_PAGE_SIZE * j" if "j < ?n" for j
    using assms(1) that by (simp add: pool_wf_def)
  show ?thesis
  proof (rule that [of ?b off])
    show "buf_block_align pool p = Some ?b"
      using i assms(2) by (simp add: buf_block_align_def S(1) [symmetric] i_def in_pool_def)
    have "i \<le> ?n - 1" "?n - 1 < ?n" using i by auto
    then show "buf_frame_align pool p = Some (frame ?b)"
      unfolding buf_frame_align_def down by (simp add: fr i Let_def)
  qed (use i p fr in simp_all)
qed

section \<open>Mini-transactions\<close>

definition MTR_LOG_ALL :: ulint where "MTR_LOG_ALL = 21"
definition MTR_LOG_NONE :: ulint where "MTR_LOG_NONE = 22"
definition MTR_LOG_SHORT_INSERTS :: ulint where "MTR_LOG_SHORT_INSERTS = 24"

definition MLOG_SINGLE_REC_FLAG :: byte where "MLOG_SINGLE_REC_FLAG = 128"

definition MLOG_1BYTE :: byte where "MLOG_1BYTE = 1"
definition MLOG_2BYTES :: byte where "MLOG_2BYTES = 2"
definition MLOG_4BYTES :: byte where "MLOG_4BYTES = 4"
definition MLOG_8BYTES :: byte where "MLOG_8BYTES = 8"
definition MLOG_WRITE_STRING :: byte where "MLOG_WRITE_STRING = 30"
definition MLOG_MULTI_REC_END :: byte where "MLOG_MULTI_REC_END = 31"
definition MLOG_DUMMY_RECORD :: byte where "MLOG_DUMMY_RECORD = 32"

lemmas mlog_types = MLOG_1BYTE_def MLOG_2BYTES_def MLOG_4BYTES_def MLOG_8BYTES_def

definition MTR_ACTIVE :: ulint where "MTR_ACTIVE = 12231"
definition MTR_COMMITTING :: ulint where "MTR_COMMITTING = 56456"
definition MTR_COMMITTED :: ulint where "MTR_COMMITTED = 34676"

record mtr =
  state :: ulint
  log :: dyn_array
  modifications :: bool
  n_log_recs :: ulint
  log_mode :: ulint

text \<open>The memo of latches is not part of the state.\<close>

definition mtr_start :: mtr where
  "mtr_start = \<lparr>state = MTR_ACTIVE, log = dyn_array_create, modifications = False,
     n_log_recs = 0, log_mode = MTR_LOG_ALL\<rparr>"

definition mtr_get_log_mode :: "mtr \<Rightarrow> ulint" where
  "mtr_get_log_mode mtr = log_mode mtr"

definition mlog_open :: "mtr \<Rightarrow> ulint \<Rightarrow> mtr \<times> dyn_ptr option" where
  "mlog_open mtr sz =
     (let mtr = mtr\<lparr>modifications := True\<rparr> in
      if mtr_get_log_mode mtr = MTR_LOG_NONE then (mtr, None)
      else let (arr, p) = dyn_array_open (log mtr) sz in (mtr\<lparr>log := arr\<rparr>, Some p))"

definition mlog_close :: "mtr \<Rightarrow> dyn_ptr \<Rightarrow> mtr" where
  "mlog_close mtr p = mtr\<lparr>log := dyn_array_close (log mtr) p\<rparr>"

text \<open>
  The writers below keep the block they write to as a memory \<open>d\<close> and the pointer in it as an
  offset \<open>o\<close>; \<open>mlog_put\<close> stores the memory back before the log is closed at the new offset.
\<close>

definition mlog_put :: "mtr \<Rightarrow> dyn_ptr \<Rightarrow> mem \<Rightarrow> mtr" where
  "mlog_put mtr p d = mtr\<lparr>log := dyn_set_data (log mtr) p d\<rparr>"

definition mlog_write_initial_log_record_fast ::
    "buf_pool \<Rightarrow> ptr \<Rightarrow> byte \<Rightarrow> mem \<Rightarrow> nat \<Rightarrow> mtr \<Rightarrow> (mem \<times> nat \<times> mtr) option" where
  "mlog_write_initial_log_record_fast pool p ty d off mtr =
     (case buf_block_align pool p of
        None \<Rightarrow> None
      | Some block \<Rightarrow>
          let sp = space block; no = page_no block in
          if sp \<noteq> 0 \<or> no > 0x8FFFFFFF then None
          else
            let d = mach_write_to_1 d off (ucast ty);
                off = off + 1;
                (d, n) = mach_write_compressed d off sp;
                off = off + n;
                (d, n) = mach_write_compressed d off no;
                off = off + n
            in Some (d, off, mtr\<lparr>n_log_recs := n_log_recs mtr + 1\<rparr>))"

definition mlog_write_initial_log_record :: "buf_pool \<Rightarrow> ptr \<Rightarrow> byte \<Rightarrow> mtr \<Rightarrow> mtr option" where
  "mlog_write_initial_log_record pool p ty mtr =
     (if p < frame_zero pool \<or> p \<ge> high_end pool then None
      else case mlog_open mtr 20 of
        (mtr, None) \<Rightarrow> Some mtr
      | (mtr, Some (i, off)) \<Rightarrow>
          (case mlog_write_initial_log_record_fast pool p ty (dyn_data (log mtr) (i, off)) off mtr of
             None \<Rightarrow> None
           | Some (d, off', mtr) \<Rightarrow> Some (mlog_close (mlog_put mtr (i, off) d) (i, off'))))"

definition mlog_write_ulint ::
    "buf_pool \<Rightarrow> mem \<Rightarrow> ptr \<Rightarrow> ulint \<Rightarrow> byte \<Rightarrow> mtr \<Rightarrow> (mem \<times> mtr) option" where
  "mlog_write_ulint pool m p val ty mtr =
     (if p < frame_zero pool \<or> p \<ge> high_end pool then None
      else
        let m = (if ty = MLOG_1BYTE then mach_write_to_1 m p val
                 else if ty = MLOG_2BYTES then mach_write_to_2 m p val
                 else mach_write_to_4 m p val) in
        case mlog_open mtr 30 of
          (mtr, None) \<Rightarrow> Some (m, mtr)
        | (mtr, Some (i, off)) \<Rightarrow>
            (case mlog_write_initial_log_record_fast pool p ty (dyn_data (log mtr) (i, off)) off mtr of
               None \<Rightarrow> None
             | Some (d, off', mtr) \<Rightarrow>
                 (case buf_frame_align pool p of
                    None \<Rightarrow> None
                  | Some fr \<Rightarrow>
                      let d = mach_write_to_2 d off' (of_nat (p - fr));
                          off' = off' + 2;
                          (d, n) = mach_write_compressed d off' val;
                          off' = off' + n
                      in Some (m, mlog_close (mlog_put mtr (i, off) d) (i, off')))))"

definition mlog_write_dulint ::
    "dulint_api \<Rightarrow> buf_pool \<Rightarrow> mem \<Rightarrow> ptr \<Rightarrow> dulint \<Rightarrow> byte \<Rightarrow> mtr \<Rightarrow> (mem \<times> mtr) option" where
  "mlog_write_dulint D pool m p val ty mtr =
     (if p < frame_zero pool \<or> p \<ge> high_end pool then None
      else
        let m = mach_write_to_8 D m p val in
        case mlog_open mtr 30 of
          (mtr, None) \<Rightarrow> Some (m, mtr)
        | (mtr, Some (i, off)) \<Rightarrow>
            (case mlog_write_initial_log_record_fast pool p ty (dyn_data (log mtr) (i, off)) off mtr of
               None \<Rightarrow> None
             | Some (d, off', mtr) \<Rightarrow>
                 (case buf_frame_align pool p of
                    None \<Rightarrow> None
                  | Some fr \<Rightarrow>
                      let d = mach_write_to_2 d off' (of_nat (p - fr));
                          off' = off' + 2;
                          (d, n) = mach_dulint_write_compressed D d off' val;
                          off' = off' + n
                      in Some (m, mlog_close (mlog_put mtr (i, off) d) (i, off')))))"

section \<open>Parsing\<close>

text \<open>The result: the end of the fields, the type without its flag, the space and the page.\<close>

definition mlog_parse_initial_log_record ::
    "mem \<Rightarrow> ptr \<Rightarrow> ptr \<Rightarrow> (ptr \<times> byte \<times> ulint \<times> ulint) option" where
  "mlog_parse_initial_log_record m p end_ptr =
     (if end_ptr < p + 1 then None
      else
        let ty = m p AND NOT MLOG_SINGLE_REC_FLAG;
            p = p + 1
        in if end_ptr < p + 2 then None
           else case mach_parse_compressed m p end_ptr of
             None \<Rightarrow> None
           | Some (p, sp) \<Rightarrow>
               (case mach_parse_compressed m p end_ptr of
                  None \<Rightarrow> None
                | Some (p, no) \<Rightarrow> Some (p, ty, sp, no)))"

text \<open>
  The outcome of applying a record body: the buffer ends inside it, it is corrupt
  (\<open>found_corrupt_log\<close> is set and NULL returned), or the changed memory and its end.
\<close>

datatype parse_result = Incomplete | Corrupt | Parsed mem ptr

definition mlog_parse_nbytes ::
    "dulint_api \<Rightarrow> byte \<Rightarrow> mem \<Rightarrow> ptr \<Rightarrow> ptr \<Rightarrow> ptr option \<Rightarrow> parse_result" where
  "mlog_parse_nbytes D ty m p end_ptr page =
     (if end_ptr < p + 2 then Incomplete
      else
        let off = unat (mach_read_from_2 m p);
            p = p + 2
        in
        if off \<ge> UNIV_PAGE_SIZE then Corrupt
        else if ty = MLOG_8BYTES then
          (case mach_dulint_parse_compressed D m p end_ptr of
             None \<Rightarrow> Incomplete
           | Some (p, dval) \<Rightarrow>
               (case page of None \<Rightarrow> Parsed m p
                | Some pg \<Rightarrow> Parsed (mach_write_to_8 D m (pg + off) dval) p))
        else
          (case mach_parse_compressed m p end_ptr of
             None \<Rightarrow> Incomplete
           | Some (p, val) \<Rightarrow>
               if ty = MLOG_1BYTE \<and> val > 0xFF then Corrupt
               else if ty = MLOG_2BYTES \<and> val > 0xFFFF then Corrupt
               else if ty \<noteq> MLOG_1BYTE \<and> ty \<noteq> MLOG_2BYTES \<and> ty \<noteq> MLOG_4BYTES then Corrupt
               else
                 (case page of None \<Rightarrow> Parsed m p
                  | Some pg \<Rightarrow>
                      if ty = MLOG_1BYTE then Parsed (mach_write_to_1 m (pg + off) val) p
                      else if ty = MLOG_2BYTES then Parsed (mach_write_to_2 m (pg + off) val) p
                      else Parsed (mach_write_to_4 m (pg + off) val) p)))"

definition mlog_parse_string :: "mem \<Rightarrow> ptr \<Rightarrow> ptr \<Rightarrow> ptr option \<Rightarrow> parse_result" where
  "mlog_parse_string m p end_ptr page =
     (if end_ptr < p + 4 then Incomplete
      else
        let off = unat (mach_read_from_2 m p); p = p + 2 in
        if off \<ge> UNIV_PAGE_SIZE then Corrupt
        else
          let len = unat (mach_read_from_2 m p); p = p + 2 in
          if end_ptr < p + len then Incomplete
          else case page of None \<Rightarrow> Parsed m (p + len)
             | Some pg \<Rightarrow> Parsed (mem_put m (pg + off) (mem_bytes m p len)) (p + len))"

section \<open>The bytes of a record\<close>

definition log_header :: "byte \<Rightarrow> ulint \<Rightarrow> byte list" where
  "log_header ty no = [ty] @ cc.enc 0 @ cc.enc no"

definition ulint_record :: "byte \<Rightarrow> ulint \<Rightarrow> nat \<Rightarrow> ulint \<Rightarrow> byte list" where
  "ulint_record ty no off val = log_header ty no @ c2.enc (of_nat off) @ cc.enc val"

definition dulint_record :: "byte \<Rightarrow> ulint \<Rightarrow> nat \<Rightarrow> dulint \<Rightarrow> byte list" where
  "dulint_record ty no off val = log_header ty no @ c2.enc (of_nat off) @ dc.via.enc val"

lemma length_log_header: "length (log_header ty no) = 2 + mach_get_compressed_size no"
  by (simp add: log_header_def mach_get_compressed_size_def)

lemma enc1: "c1.enc (ucast ty) = [ty]"
  using unat_byte_less [of ty] unfolding c1.enc_def by (simp add: mem_bytes_def mach_write_to_1_def word_unat_eq_iff unat_simps)

text \<open>A page of the tablespace that the writers accept.\<close>

definition loggable :: "buf_block \<Rightarrow> bool" where
  "loggable b \<longleftrightarrow> space b = 0 \<and> unat (page_no b) \<le> 0x8FFFFFFF"

lemma loggable_no: "loggable b \<Longrightarrow> unat (page_no b) < 2 ^ 32"
  by (simp add: loggable_def)

lemma initial_record_writes:
  assumes "buf_block_align pool p = Some b" and "loggable b"
  shows "\<exists>d'. mlog_write_initial_log_record_fast pool p ty d off mtr =
      Some (d', off + length (log_header ty (page_no b)), mtr\<lparr>n_log_recs := n_log_recs mtr + 1\<rparr>)
    \<and> writes d off d' (log_header ty (page_no b))"
proof -
  let ?d1 = "mach_write_to_1 d off (ucast ty)"
  let ?d2 = "fst (mach_write_compressed ?d1 (off + 1) 0)"
  let ?d3 = "fst (mach_write_compressed ?d2 (off + 2) (page_no b))"
  have s: "space b = 0" "\<not> page_no b > 0x8FFFFFFF"
    using assms(2) by (simp_all add: loggable_def word_less_nat_alt)
  have z: "mach_get_compressed_size 0 = 1" by (simp add: mach_get_compressed_size_def)
  have "unat (ucast ty :: ulint) < 2 ^ 8" using unat_byte_less [of ty] by (simp add: unat_of_byte)
  from c1.writes_wr [OF this writes_Nil, of off off d, unfolded enc1]
  have 1: "writes d off ?d1 [ty]" by simp
  have 2: "writes d off ?d2 ([ty] @ cc.enc 0)"
    by (rule cc.writes_wr [OF _ 1]) simp_all
  have 3: "writes d off ?d3 (([ty] @ cc.enc 0) @ cc.enc (page_no b))"
    by (rule cc.writes_wr [OF loggable_no [OF assms(2)] 2]) (simp add: z)
  then show ?thesis
    using s by (simp add: mlog_write_initial_log_record_fast_def assms(1) Let_def case_prod_beta
        mach_write_compressed_size z length_log_header) (simp add: log_header_def)
qed

text \<open>Parsing a header: complete, or the buffer ends in it.\<close>

lemma parse_header:
  assumes h: "mem_holds m p e (log_header ty no)" and no: "unat no < 2 ^ 32"
  shows "mlog_parse_initial_log_record m p e =
    (if p + length (log_header ty no) \<le> e
     then Some (p + length (log_header ty no), ty AND NOT MLOG_SINGLE_REC_FLAG, 0, no) else None)"
proof (cases "p < e")
  case True
  have z: "mach_get_compressed_size 0 = 1" by (simp add: mach_get_compressed_size_def)
  have ty: "m p = ty" using h True by (auto simp: mem_holds_def log_header_def)
  have "mem_holds m (p + 1) e (cc.enc 0)" and n: "mem_holds m (p + 2) e (cc.enc no)"
    using h unfolding log_header_def mem_holds_append by (simp_all add: z)
  from parse_enc [OF _ this(1)] parse_enc [OF no n] True show ?thesis
    using compressed_size_bounds [of no]
    by (simp add: mlog_parse_initial_log_record_def ty Let_def z length_log_header)
qed (use compressed_size_bounds [of no] in
    \<open>simp add: mlog_parse_initial_log_record_def length_log_header\<close>)

text \<open>Applying the body of a record.\<close>

definition apply_ulint :: "byte \<Rightarrow> mem \<Rightarrow> ptr \<Rightarrow> ulint \<Rightarrow> mem" where
  "apply_ulint ty m p val = (if ty = MLOG_1BYTE then mach_write_to_1 m p val
     else if ty = MLOG_2BYTES then mach_write_to_2 m p val else mach_write_to_4 m p val)"

definition ulint_fits :: "byte \<Rightarrow> ulint \<Rightarrow> bool" where
  "ulint_fits ty val \<longleftrightarrow> ty \<in> {MLOG_1BYTE, MLOG_2BYTES, MLOG_4BYTES} \<and> unat val < 256 ^ unat ty"

lemma read_offset:
  assumes "mem_holds m p e (c2.enc (of_nat off))" "p + 2 \<le> e" and "off < UNIV_PAGE_SIZE"
  shows "unat (mach_read_from_2 m p) = off"
proof -
  have u: "unat (of_nat off :: ulint) = off" using assms(3) by (simp add: unat_of_nat UNIV_PAGE_SIZE_def)
  have "mem_bytes m p 2 = c2.enc (of_nat off)" using assms(1,2) by (simp add: mem_holds_full)
  then have "mach_read_from_2 m p = of_nat off"
    using assms(3) by (intro c2.rd_enc) (simp_all add: u UNIV_PAGE_SIZE_def)
  then show ?thesis by (simp add: u)
qed

lemma parse_ulint_body:
  assumes "mem_holds m p e (c2.enc (of_nat off) @ cc.enc val)" and off: "off < UNIV_PAGE_SIZE"
    and fits: "ulint_fits ty val"
  shows "mlog_parse_nbytes D ty m p e (Some pg) =
    (if p + 2 + mach_get_compressed_size val \<le> e
     then Parsed (apply_ulint ty m (pg + off) val) (p + 2 + mach_get_compressed_size val)
     else Incomplete)"
proof (cases "p + 2 \<le> e")
  case True
  have h: "mem_holds m p e (c2.enc (of_nat off))" "mem_holds m (p + 2) e (cc.enc val)"
    using assms(1) by (simp_all add: mem_holds_append)
  have ty: "ty = 1 \<and> unat val < 256 \<or> ty = 2 \<and> unat val < 65536 \<or> ty = 4 \<and> unat val < 4294967296"
    using fits by (auto simp: ulint_fits_def mlog_types)
  then have val: "unat val < 2 ^ 32" by auto
  have "\<not> val > 0xFF" if "ty = 1" using ty that by (simp add: word_less_nat_alt)
  moreover have "\<not> val > 0xFFFF" if "ty = 2" using ty that by (simp add: word_less_nat_alt)
  ultimately show ?thesis
    using True off ty parse_enc [OF val h(2)]
    by (auto simp: mlog_parse_nbytes_def Let_def read_offset [OF h(1) True off]
        mlog_types apply_ulint_def)
next
  case False
  then show ?thesis using compressed_size_bounds [of val] by (simp add: mlog_parse_nbytes_def)
qed

lemma parse_dulint_body:
  assumes D: "dulint_api_ok D" and "mem_holds m p e (c2.enc (of_nat off) @ dc.via.enc val)"
    and off: "off < UNIV_PAGE_SIZE" and val: "dulint_wf val"
  shows "mlog_parse_nbytes D MLOG_8BYTES m p e (Some pg) =
    (if p + 2 + mach_dulint_get_compressed_size D val \<le> e
     then Parsed (mach_write_to_8 D m (pg + off) val) (p + 2 + mach_dulint_get_compressed_size D val)
     else Incomplete)"
proof (cases "p + 2 \<le> e")
  case True
  have h: "mem_holds m p e (c2.enc (of_nat off))" "mem_holds m (p + 2) e (dc.via.enc val)"
    using assms(2) by (simp_all add: mem_holds_append)
  show ?thesis
    using True off dulint_parse_enc [OF val D h(2)]
    by (simp add: mlog_parse_nbytes_def Let_def read_offset [OF h(1) True off])
next
  case False
  then show ?thesis by (simp add: mlog_parse_nbytes_def)
qed

section \<open>What a write logs\<close>

definition same_page :: "mem \<Rightarrow> ptr \<Rightarrow> mem \<Rightarrow> ptr \<Rightarrow> bool" where
  "same_page m f m' f' \<longleftrightarrow> (\<forall>j < UNIV_PAGE_SIZE. m (f + j) = m' (f' + j))"

text \<open>The state of a mini-transaction that logs.\<close>

definition mtr_logs :: "mtr \<Rightarrow> bool" where
  "mtr_logs mtr \<longleftrightarrow> dyn_wf (log mtr) \<and> log_mode mtr \<noteq> MTR_LOG_NONE"

definition logged :: "mtr \<Rightarrow> mtr \<Rightarrow> byte list \<Rightarrow> bool" where
  "logged mtr mtr' r \<longleftrightarrow> mtr_logs mtr' \<and> dyn_bytes (log mtr') = dyn_bytes (log mtr) @ r
     \<and> modifications mtr' \<and> n_log_recs mtr' = n_log_recs mtr + 1
     \<and> state mtr' = state mtr \<and> log_mode mtr' = log_mode mtr"

lemma apply_image:
  assumes "ulint_fits ty val" and "same_page m f m' f'"
  shows "same_page (apply_ulint ty m (f + off) val) f (apply_ulint ty m' (f' + off) val) f'"
proof -
  have img: "\<And>j. j < UNIV_PAGE_SIZE \<Longrightarrow> m (f + j) = m' (f' + j)" using assms(2) by (simp add: same_page_def)
  note imgs = c1.wr_image [where n = UNIV_PAGE_SIZE and m = m and m' = m' and f = f and f' = f']
    c2.wr_image [where n = UNIV_PAGE_SIZE and m = m and m' = m' and f = f and f' = f']
    c4.wr_image [where n = UNIV_PAGE_SIZE and m = m and m' = m' and f = f and f' = f']
  from assms(1) show ?thesis
    by (auto simp: same_page_def apply_ulint_def ulint_fits_def mlog_types img intro!: imgs)
qed

text \<open>Opening the log, writing a record of bounded length and closing it.\<close>

lemma logged_record:
  assumes l: "mtr_logs mtr" and "0 < unat sz" "unat sz \<le> 512"
    and o: "mlog_open mtr sz = (mtr1, pi)"
  obtains i off where "pi = Some (i, off)" "mtr1 = mtr\<lparr>modifications := True, log := log mtr1\<rparr>"
    "\<And>d r. writes (dyn_data (log mtr1) (i, off)) off d r \<Longrightarrow> length r \<le> unat sz \<Longrightarrow>
      logged mtr (mlog_close (mlog_put (mtr1\<lparr>n_log_recs := n_log_recs mtr + 1\<rparr>) (i, off) d)
        (i, off + length r)) r"
proof -
  obtain arr i off where a: "dyn_array_open (log mtr) sz = (arr, (i, off))" by (metis prod_cases3)
  then have m1: "mtr1 = mtr\<lparr>modifications := True, log := arr\<rparr>" "pi = Some (i, off)"
    using o l by (simp_all add: mlog_open_def mtr_logs_def mtr_get_log_mode_def Let_def)
  show ?thesis
  proof (rule that)
    fix d r
    assume w: "writes (dyn_data (log mtr1) (i, off)) off d r" and "length r \<le> unat sz"
    from dyn_array_open_close [OF _ assms(2,3) this(2) a, of d] w l
    have "dyn_wf (dyn_array_close (dyn_set_data arr (i, off) d) (i, off + length r)) \<and>
      dyn_bytes (dyn_array_close (dyn_set_data arr (i, off) d) (i, off + length r))
        = dyn_bytes (log mtr) @ r"
      by (simp add: writes_def m1 mtr_logs_def)
    then show "logged mtr (mlog_close (mlog_put (mtr1\<lparr>n_log_recs := n_log_recs mtr + 1\<rparr>) (i, off) d)
        (i, off + length r)) r"
      using l by (simp add: logged_def mtr_logs_def mlog_close_def mlog_put_def m1)
  qed (simp_all add: m1)
qed

lemma ulint_record_writes:
  assumes b: "buf_block_align pool p = Some b" "loggable b" and "unat val < 2 ^ 32" and "off < UNIV_PAGE_SIZE"
    and 1: "mlog_write_initial_log_record_fast pool p ty d q mtr = Some (d1, q1, mtr1)"
    and d2: "d2 = mach_write_to_2 d1 q1 (of_nat off)"
    and d3: "d3 = fst (mach_write_compressed d2 (q1 + 2) val)"
  shows "writes d q d3 (ulint_record ty (page_no b) off val)"
    and "q1 + 2 + mach_get_compressed_size val = q + length (ulint_record ty (page_no b) off val)"
    and "mtr1 = mtr\<lparr>n_log_recs := n_log_recs mtr + 1\<rparr>"
proof -
  from initial_record_writes [OF b, of ty d q mtr] 1
  have w1: "writes d q d1 (log_header ty (page_no b))" and q1: "q1 = q + length (log_header ty (page_no b))"
    and "mtr1 = mtr\<lparr>n_log_recs := n_log_recs mtr + 1\<rparr>" by auto
  then show "mtr1 = mtr\<lparr>n_log_recs := n_log_recs mtr + 1\<rparr>" by simp
  have "unat (of_nat off :: ulint) < 2 ^ 16"
    using assms(4) by (simp add: unat_of_nat UNIV_PAGE_SIZE_def)
  from c2.writes_wr [OF this w1 q1]
  have w2: "writes d q d2 (log_header ty (page_no b) @ c2.enc (of_nat off))" by (simp add: d2)
  have "writes d q d3 ((log_header ty (page_no b) @ c2.enc (of_nat off)) @ cc.enc val)"
    unfolding d3 by (rule cc.writes_wr [OF assms(3) w2]) (simp add: q1)
  then show "writes d q d3 (ulint_record ty (page_no b) off val)" by (simp add: ulint_record_def)
  show "q1 + 2 + mach_get_compressed_size val = q + length (ulint_record ty (page_no b) off val)"
    by (simp add: q1 ulint_record_def)
qed

lemma length_ulint_record: "length (ulint_record ty no off val) \<le> 14"
  using compressed_size_bounds(2) [of no] compressed_size_bounds(2) [of val]
  by (simp add: ulint_record_def length_log_header)

lemma write_ulint_logged:
  assumes pool: "pool_wf pool" "in_pool pool p" and b: "buf_block_align pool p = Some b" "loggable b"
    and l: "mtr_logs mtr" and val: "unat val < 2 ^ 32"
  shows "\<exists>mtr'. mlog_write_ulint pool m p val ty mtr = Some (apply_ulint ty m p val, mtr')
    \<and> logged mtr mtr' (ulint_record ty (page_no b) (p - frame b) val)"
proof -
  obtain off where fr: "buf_frame_align pool p = Some (frame b)" "p = frame b + off" "off < UNIV_PAGE_SIZE"
    by (rule pool_address [OF pool]) (use b in auto)
  obtain mtr1 pi where o: "mlog_open mtr 30 = (mtr1, pi)" by fastforce
  obtain i q where pi: "pi = Some (i, q)" "mtr1 = mtr\<lparr>modifications := True, log := log mtr1\<rparr>"
    and lg: "\<And>d r. writes (dyn_data (log mtr1) (i, q)) q d r \<Longrightarrow> length r \<le> unat (30 :: ulint) \<Longrightarrow>
      logged mtr (mlog_close (mlog_put (mtr1\<lparr>n_log_recs := n_log_recs mtr + 1\<rparr>) (i, q) d)
        (i, q + length r)) r"
    by (rule logged_record [OF l _ _ o]) simp_all
  let ?d = "dyn_data (log mtr1) (i, q)"
  obtain d1 q1 mtr2 where 1: "mlog_write_initial_log_record_fast pool p ty ?d q mtr1 = Some (d1, q1, mtr2)"
    using initial_record_writes [OF b, of ty ?d q mtr1] by auto
  let ?d2 = "mach_write_to_2 d1 q1 (of_nat off)"
  let ?r = "ulint_record ty (page_no b) off val"
  note w = ulint_record_writes [OF b val fr(3) 1 refl refl]
  have "n_log_recs mtr1 = n_log_recs mtr" by (subst pi(2)) simp
  with w(3) have mtr2: "mtr2 = mtr1\<lparr>n_log_recs := n_log_recs mtr + 1\<rparr>" by simp
  have "logged mtr (mlog_close (mlog_put mtr2 (i, q) (fst (mach_write_compressed ?d2 (q1 + 2) val)))
      (i, q + length ?r)) ?r"
    unfolding mtr2 by (rule lg [OF w(1)]) (use length_ulint_record [of ty "page_no b" off val] in simp)
  moreover have "\<not> (p < frame_zero pool \<or> p \<ge> high_end pool)"
    using pool(2) by (auto simp: in_pool_def)
  moreover have "p - frame b = off" using fr(2) by simp
  ultimately show ?thesis
    using w(2) by (auto simp: mlog_write_ulint_def Let_def o pi(1) 1 fr(1) case_prod_beta
        mach_write_compressed_size apply_ulint_def)
qed

lemma length_dulint_record: "length (dulint_record ty no off val) \<le> 18"
  using compressed_size_bounds(2) [of no] compressed_size_bounds(2) [of "high val"]
  unfolding dulint_record_def length_append length_log_header dc.via.length_enc c2.length_enc
  by (simp add: pc4.sp_def dulint_halves_def)

lemma write_dulint_logged:
  assumes pool: "pool_wf pool" "in_pool pool p" and b: "buf_block_align pool p = Some b" "loggable b"
    and l: "mtr_logs mtr" and D: "dulint_api_ok D" and val: "dulint_wf val"
  shows "\<exists>mtr'. mlog_write_dulint D pool m p val ty mtr = Some (mach_write_to_8 D m p val, mtr')
    \<and> logged mtr mtr' (dulint_record ty (page_no b) (p - frame b) val)"
proof -
  obtain off where fr: "buf_frame_align pool p = Some (frame b)" "p = frame b + off" "off < UNIV_PAGE_SIZE"
    by (rule pool_address [OF pool]) (use b in auto)
  obtain mtr1 pi where o: "mlog_open mtr 30 = (mtr1, pi)" by fastforce
  obtain i q where pi: "pi = Some (i, q)" "mtr1 = mtr\<lparr>modifications := True, log := log mtr1\<rparr>"
    and lg: "\<And>d r. writes (dyn_data (log mtr1) (i, q)) q d r \<Longrightarrow> length r \<le> unat (30 :: ulint) \<Longrightarrow>
      logged mtr (mlog_close (mlog_put (mtr1\<lparr>n_log_recs := n_log_recs mtr + 1\<rparr>) (i, q) d)
        (i, q + length r)) r"
    by (rule logged_record [OF l _ _ o]) simp_all
  let ?d = "dyn_data (log mtr1) (i, q)"
  from initial_record_writes [OF b, of ty ?d q mtr1] obtain d1 where
    1: "mlog_write_initial_log_record_fast pool p ty ?d q mtr1 =
      Some (d1, q + length (log_header ty (page_no b)), mtr1\<lparr>n_log_recs := n_log_recs mtr1 + 1\<rparr>)"
    and w1: "writes ?d q d1 (log_header ty (page_no b))" by blast
  let ?q1 = "q + length (log_header ty (page_no b))"
  let ?d2 = "mach_write_to_2 d1 ?q1 (of_nat off)"
  let ?d3 = "fst (mach_dulint_write_compressed D ?d2 (?q1 + 2) val)"
  let ?r = "dulint_record ty (page_no b) off val"
  have "unat (of_nat off :: ulint) < 2 ^ 16" using fr(3) by (simp add: unat_of_nat UNIV_PAGE_SIZE_def)
  from c2.writes_wr [OF this w1 refl]
  have w2: "writes ?d q ?d2 (log_header ty (page_no b) @ c2.enc (of_nat off))" .
  have ok: "pc4.okp (dulint_halves val)"
    using val unfolding pc4.okp_def dulint_wf_def dulint_halves_def by simp
  have "writes ?d q ?d3 ((log_header ty (page_no b) @ c2.enc (of_nat off)) @ dc.via.enc val)"
    unfolding mach_dulint_eqs [OF D] fst_conv by (rule dc.via.writes_wr [OF ok w2]) simp
  then have w: "writes ?d q ?d3 ?r" by (simp add: dulint_record_def)
  have "n_log_recs mtr1 = n_log_recs mtr" by (subst pi(2)) simp
  with lg [OF w] length_dulint_record [of ty "page_no b" off val]
  have "logged mtr (mlog_close (mlog_put (mtr1\<lparr>n_log_recs := n_log_recs mtr1 + 1\<rparr>) (i, q) ?d3)
      (i, q + length ?r)) ?r" by simp
  moreover have "q + length ?r = ?q1 + 2 + snd (mach_dulint_write_compressed D ?d2 (?q1 + 2) val)"
    by (simp add: dulint_record_def mach_dulint_eqs [OF D])
  moreover have "\<not> (p < frame_zero pool \<or> p \<ge> high_end pool)" using pool(2) by (auto simp: in_pool_def)
  moreover have "p - frame b = off" using fr(2) by simp
  ultimately show ?thesis
    by (auto simp: mlog_write_dulint_def Let_def o pi(1) 1 fr(1) case_prod_beta)
qed

text \<open>Applying a record to a copy of the old page.\<close>

lemma ulint_record_replays:
  assumes h: "mem_holds rm q e (ulint_record ty no off val)" and no: "unat no < 2 ^ 32"
    and off: "off < UNIV_PAGE_SIZE" and fits: "ulint_fits ty val"
  shows "if q + length (ulint_record ty no off val) \<le> e
    then \<exists>q1. mlog_parse_initial_log_record rm q e = Some (q1, ty, 0, no)
      \<and> mlog_parse_nbytes D ty rm q1 e (Some pg)
        = Parsed (apply_ulint ty rm (pg + off) val) (q + length (ulint_record ty no off val))
    else mlog_parse_initial_log_record rm q e = None
      \<or> (\<exists>q1. mlog_parse_initial_log_record rm q e = Some (q1, ty, 0, no)
        \<and> mlog_parse_nbytes D ty rm q1 e (Some pg) = Incomplete)"
proof -
  have h1: "mem_holds rm q e (log_header ty no)"
    and h2: "mem_holds rm (q + length (log_header ty no)) e (c2.enc (of_nat off) @ cc.enc val)"
    using h unfolding ulint_record_def by (simp_all add: mem_holds_append add.assoc)
  have flag: "ty AND NOT MLOG_SINGLE_REC_FLAG = ty"
    using fits by (auto simp: ulint_fits_def mlog_types MLOG_SINGLE_REC_FLAG_def)
  show ?thesis
    using parse_header [OF h1 no] parse_ulint_body [OF h2 off fits, of D pg]
    by (auto simp: ulint_record_def flag split: if_splits)
qed

lemma dulint_record_replays:
  assumes h: "mem_holds rm q e (dulint_record MLOG_8BYTES no off val)" and no: "unat no < 2 ^ 32"
    and off: "off < UNIV_PAGE_SIZE" and val: "dulint_wf val" and D: "dulint_api_ok D"
  shows "if q + length (dulint_record MLOG_8BYTES no off val) \<le> e
    then \<exists>q1. mlog_parse_initial_log_record rm q e = Some (q1, MLOG_8BYTES, 0, no)
      \<and> mlog_parse_nbytes D MLOG_8BYTES rm q1 e (Some pg) = Parsed (mach_write_to_8 D rm (pg + off) val)
          (q + length (dulint_record MLOG_8BYTES no off val))
    else mlog_parse_initial_log_record rm q e = None
      \<or> (\<exists>q1. mlog_parse_initial_log_record rm q e = Some (q1, MLOG_8BYTES, 0, no)
        \<and> mlog_parse_nbytes D MLOG_8BYTES rm q1 e (Some pg) = Incomplete)"
proof -
  have h1: "mem_holds rm q e (log_header MLOG_8BYTES no)"
    and h2: "mem_holds rm (q + length (log_header MLOG_8BYTES no)) e
      (c2.enc (of_nat off) @ dc.via.enc val)"
    using h unfolding dulint_record_def by (simp_all add: mem_holds_append add.assoc)
  have flag: "MLOG_8BYTES AND NOT MLOG_SINGLE_REC_FLAG = MLOG_8BYTES"
    by (simp add: mlog_types MLOG_SINGLE_REC_FLAG_def)
  have s: "mach_dulint_get_compressed_size D val = pc4.sp (dulint_halves val)"
    by (rule mach_dulint_eqs [OF D])
  show ?thesis
    using parse_header [OF h1 no] parse_dulint_body [OF D h2 off val, of pg]
    by (auto simp: dulint_record_def flag s split: if_splits)
qed

lemma apply_dulint_image:
  assumes D: "dulint_api_ok D" and "dulint_wf val" and "same_page m f m' f'"
  shows "same_page (mach_write_to_8 D m (f + off) val) f (mach_write_to_8 D m' (f' + off) val) f'"
proof -
  have ok: "p44.okp (dulint_halves val)"
    using assms(2) unfolding p44.okp_def dulint_wf_def dulint_halves_def by simp
  have img: "\<And>j. j < UNIV_PAGE_SIZE \<Longrightarrow> m (f + j) = m' (f' + j)" using assms(3) by (simp add: same_page_def)
  show ?thesis
    unfolding same_page_def mach_dulint_eqs [OF D]
    by (intro allI impI d8.via.wr_image [where n = UNIV_PAGE_SIZE and m = m and m' = m' and f = f and f' = f'])
      (use ok img in simp_all)
qed

section \<open>Properties\<close>

text \<open>
  C10. Redo of an integer write. \<open>mlog_write_ulint\<close> changes the page and appends one record to
  the log of the mini-transaction. A recovery buffer that holds the record up to its end \<open>e\<close> is
  parsed to the type and page of the record, and the body, applied to any copy \<open>pg\<close> of the old
  page, makes it equal to the new page; a buffer that ends inside the record is found
  incomplete, never applied.
\<close>

theorem mlog_write_ulint_replay:
  assumes "pool_wf pool" "in_pool pool p" and "buf_block_align pool p = Some b" "loggable b"
    and "mtr_logs mtr" and "ulint_fits ty val"
  shows "\<exists>m' mtr' r. mlog_write_ulint pool m p val ty mtr = Some (m', mtr') \<and> logged mtr mtr' r
    \<and> (\<forall>rm q e pg. mem_holds rm q e r \<and> same_page rm pg m (frame b) \<longrightarrow>
        (if q + length r \<le> e
         then \<exists>q1 rm'. mlog_parse_initial_log_record rm q e = Some (q1, ty, 0, page_no b)
           \<and> mlog_parse_nbytes D ty rm q1 e (Some pg) = Parsed rm' (q + length r)
           \<and> same_page rm' pg m' (frame b)
         else mlog_parse_initial_log_record rm q e = None
           \<or> (\<exists>q1. mlog_parse_initial_log_record rm q e = Some (q1, ty, 0, page_no b)
              \<and> mlog_parse_nbytes D ty rm q1 e (Some pg) = Incomplete)))"
proof -
  obtain off where off: "p = frame b + off" "off < UNIV_PAGE_SIZE"
    by (rule pool_address [OF assms(1,2)]) (use assms(3) in auto)
  have val: "unat val < 2 ^ 32"
    using assms(6) by (auto simp: ulint_fits_def mlog_types)
  obtain mtr' where w: "mlog_write_ulint pool m p val ty mtr = Some (apply_ulint ty m p val, mtr')"
    and l: "logged mtr mtr' (ulint_record ty (page_no b) (p - frame b) val)"
    using write_ulint_logged [OF assms(1-5) val] by blast
  have d: "p - frame b = off" using off by simp
  show ?thesis
  proof (intro exI [of _ "apply_ulint ty m p val"] exI [of _ mtr']
      exI [of _ "ulint_record ty (page_no b) off val"] conjI allI impI)
    fix rm q e pg
    assume h: "mem_holds rm q e (ulint_record ty (page_no b) off val) \<and> same_page rm pg m (frame b)"
    have img: "same_page (apply_ulint ty rm (pg + off) val) pg (apply_ulint ty m p val) (frame b)"
      unfolding off(1) by (rule apply_image) (use assms(6) h in auto)
    from ulint_record_replays [OF conjunct1 [OF h] loggable_no [OF assms(4)] off(2) assms(6), of D pg] img
    show "if q + length (ulint_record ty (page_no b) off val) \<le> e
      then \<exists>q1 rm'. mlog_parse_initial_log_record rm q e = Some (q1, ty, 0, page_no b)
        \<and> mlog_parse_nbytes D ty rm q1 e (Some pg)
          = Parsed rm' (q + length (ulint_record ty (page_no b) off val))
        \<and> same_page rm' pg (apply_ulint ty m p val) (frame b)
      else mlog_parse_initial_log_record rm q e = None
        \<or> (\<exists>q1. mlog_parse_initial_log_record rm q e = Some (q1, ty, 0, page_no b)
           \<and> mlog_parse_nbytes D ty rm q1 e (Some pg) = Incomplete)"
      by (auto split: if_splits)
  qed (use w l d in simp_all)
qed

text \<open>A pool of one page at address 16384, for the witnesses.\<close>

definition pool1 :: buf_pool where
  "pool1 = \<lparr>frame_zero = 16384, high_end = 32768, blocks = [\<lparr>space = 0, page_no = 7, frame = 16384\<rparr>]\<rparr>"

lemma pool1:
  "pool_wf pool1" "in_pool pool1 16400"
  "buf_block_align pool1 16400 = Some \<lparr>space = 0, page_no = 7, frame = 16384\<rparr>"
  "loggable \<lparr>space = 0, page_no = 7, frame = 16384\<rparr>"
  "mtr_logs mtr_start"
  by (simp_all add: pool1_def pool_wf_def in_pool_def buf_block_align_def loggable_def
      UNIV_PAGE_SIZE_def UNIV_PAGE_SIZE_SHIFT_def mtr_logs_def mtr_start_def create_wf
      MTR_LOG_ALL_def MTR_LOG_NONE_def)

theorem mlog_write_ulint_replay_witness:
  "\<exists>m' mtr' r. mlog_write_ulint pool1 (\<lambda>_. 0) 16400 513 MLOG_2BYTES mtr_start = Some (m', mtr')
    \<and> dyn_bytes (log mtr') = r"
  using mlog_write_ulint_replay [OF pool1, of MLOG_2BYTES 513 "\<lambda>_. 0" dulint_ref]
  by (auto simp: ulint_fits_def mlog_types)

text \<open>
  Redo of a 64 bit write, as for the integers: the record of \<open>mlog_write_dulint\<close> applied to
  a copy of the old page gives the new page, and a cut record is never applied.
\<close>

theorem mlog_write_dulint_replay:
  assumes "pool_wf pool" "in_pool pool p" and "buf_block_align pool p = Some b" "loggable b"
    and "mtr_logs mtr" and "dulint_api_ok D" and "dulint_wf val"
  shows "\<exists>m' mtr' r. mlog_write_dulint D pool m p val MLOG_8BYTES mtr = Some (m', mtr')
    \<and> logged mtr mtr' r
    \<and> (\<forall>rm q e pg. mem_holds rm q e r \<and> same_page rm pg m (frame b) \<longrightarrow>
        (if q + length r \<le> e
         then \<exists>q1 rm'. mlog_parse_initial_log_record rm q e = Some (q1, MLOG_8BYTES, 0, page_no b)
           \<and> mlog_parse_nbytes D MLOG_8BYTES rm q1 e (Some pg) = Parsed rm' (q + length r)
           \<and> same_page rm' pg m' (frame b)
         else mlog_parse_initial_log_record rm q e = None
           \<or> (\<exists>q1. mlog_parse_initial_log_record rm q e = Some (q1, MLOG_8BYTES, 0, page_no b)
              \<and> mlog_parse_nbytes D MLOG_8BYTES rm q1 e (Some pg) = Incomplete)))"
proof -
  obtain off where off: "p = frame b + off" "off < UNIV_PAGE_SIZE"
    by (rule pool_address [OF assms(1,2)]) (use assms(3) in auto)
  let ?m' = "mach_write_to_8 D m p val" and ?r = "dulint_record MLOG_8BYTES (page_no b) off val"
  obtain mtr' where w: "mlog_write_dulint D pool m p val MLOG_8BYTES mtr = Some (?m', mtr')"
    and l: "logged mtr mtr' (dulint_record MLOG_8BYTES (page_no b) (p - frame b) val)"
    using write_dulint_logged [OF assms] by blast
  have d: "p - frame b = off" using off by simp
  show ?thesis
  proof (intro exI [of _ ?m'] exI [of _ mtr'] exI [of _ ?r] conjI allI impI)
    fix rm q e pg
    assume h: "mem_holds rm q e ?r \<and> same_page rm pg m (frame b)"
    have img: "same_page (mach_write_to_8 D rm (pg + off) val) pg ?m' (frame b)"
      unfolding off(1) by (rule apply_dulint_image) (use assms h in auto)
    from dulint_record_replays [OF conjunct1 [OF h] loggable_no [OF assms(4)] off(2) assms(7,6), of pg] img
    show "if q + length ?r \<le> e
      then \<exists>q1 rm'. mlog_parse_initial_log_record rm q e = Some (q1, MLOG_8BYTES, 0, page_no b)
        \<and> mlog_parse_nbytes D MLOG_8BYTES rm q1 e (Some pg) = Parsed rm' (q + length ?r)
        \<and> same_page rm' pg ?m' (frame b)
      else mlog_parse_initial_log_record rm q e = None
        \<or> (\<exists>q1. mlog_parse_initial_log_record rm q e = Some (q1, MLOG_8BYTES, 0, page_no b)
           \<and> mlog_parse_nbytes D MLOG_8BYTES rm q1 e (Some pg) = Incomplete)"
      by (auto split: if_splits)
  qed (use w l d in simp_all)
qed

theorem mlog_write_dulint_replay_witness:
  "\<exists>m' mtr'. mlog_write_dulint dulint_ref pool1 (\<lambda>_. 0) 16400 \<lparr>high = 1, low = 2\<rparr> MLOG_8BYTES mtr_start
    = Some (m', mtr') \<and> n_log_recs mtr' = 1"
  using mlog_write_dulint_replay [OF pool1 dulint_ref_ok, of "\<lparr>high = 1, low = 2\<rparr>" "\<lambda>_. 0"]
  by (auto simp: dulint_wf_def logged_def mtr_start_def)

end
