(* ===== verification/Log_Block.thy ===== *)
theory Log_Block
  imports Mach_Data
begin

text \<open>
  \<open>log0log.inl\<close>: the header and trailer of a redo log block of 512 bytes. The header holds the
  block number with the flush bit above it, the length of the data, the offset of the first record
  group and the checkpoint number; the trailer holds the checksum of the 508 bytes before it.
\<close>

section \<open>Fields\<close>

definition OS_FILE_LOG_BLOCK_SIZE :: nat where "OS_FILE_LOG_BLOCK_SIZE = 512"

definition LOG_BLOCK_HDR_NO :: nat where "LOG_BLOCK_HDR_NO = 0"
definition LOG_BLOCK_FLUSH_BIT_MASK :: ulint where "LOG_BLOCK_FLUSH_BIT_MASK = 0x80000000"
definition LOG_BLOCK_HDR_DATA_LEN :: nat where "LOG_BLOCK_HDR_DATA_LEN = 4"
definition LOG_BLOCK_FIRST_REC_GROUP :: nat where "LOG_BLOCK_FIRST_REC_GROUP = 6"
definition LOG_BLOCK_CHECKPOINT_NO :: nat where "LOG_BLOCK_CHECKPOINT_NO = 8"
definition LOG_BLOCK_HDR_SIZE :: nat where "LOG_BLOCK_HDR_SIZE = 12"
definition LOG_BLOCK_CHECKSUM :: nat where "LOG_BLOCK_CHECKSUM = 4"
definition LOG_BLOCK_TRL_SIZE :: nat where "LOG_BLOCK_TRL_SIZE = 4"

lemmas log_block_layout = OS_FILE_LOG_BLOCK_SIZE_def LOG_BLOCK_HDR_NO_def LOG_BLOCK_HDR_DATA_LEN_def
  LOG_BLOCK_FIRST_REC_GROUP_def LOG_BLOCK_CHECKPOINT_NO_def LOG_BLOCK_HDR_SIZE_def
  LOG_BLOCK_CHECKSUM_def LOG_BLOCK_TRL_SIZE_def

definition log_block_get_flush_bit :: "mem \<Rightarrow> ptr \<Rightarrow> bool" where
  "log_block_get_flush_bit m b \<longleftrightarrow>
     LOG_BLOCK_FLUSH_BIT_MASK AND mach_read_from_4 m (b + LOG_BLOCK_HDR_NO) \<noteq> 0"

definition log_block_set_flush_bit :: "mem \<Rightarrow> ptr \<Rightarrow> bool \<Rightarrow> mem" where
  "log_block_set_flush_bit m b val =
     (let field = mach_read_from_4 m (b + LOG_BLOCK_HDR_NO);
          field = (if val then field OR LOG_BLOCK_FLUSH_BIT_MASK
                   else field AND NOT LOG_BLOCK_FLUSH_BIT_MASK)
      in mach_write_to_4 m (b + LOG_BLOCK_HDR_NO) field)"

definition log_block_get_hdr_no :: "mem \<Rightarrow> ptr \<Rightarrow> ulint" where
  "log_block_get_hdr_no m b =
     NOT LOG_BLOCK_FLUSH_BIT_MASK AND mach_read_from_4 m (b + LOG_BLOCK_HDR_NO)"

definition log_block_set_hdr_no :: "mem \<Rightarrow> ptr \<Rightarrow> ulint \<Rightarrow> mem" where
  "log_block_set_hdr_no m b n = mach_write_to_4 m (b + LOG_BLOCK_HDR_NO) n"

definition log_block_get_data_len :: "mem \<Rightarrow> ptr \<Rightarrow> ulint" where
  "log_block_get_data_len m b = mach_read_from_2 m (b + LOG_BLOCK_HDR_DATA_LEN)"

definition log_block_set_data_len :: "mem \<Rightarrow> ptr \<Rightarrow> ulint \<Rightarrow> mem" where
  "log_block_set_data_len m b l = mach_write_to_2 m (b + LOG_BLOCK_HDR_DATA_LEN) l"

definition log_block_get_first_rec_group :: "mem \<Rightarrow> ptr \<Rightarrow> ulint" where
  "log_block_get_first_rec_group m b = mach_read_from_2 m (b + LOG_BLOCK_FIRST_REC_GROUP)"

definition log_block_set_first_rec_group :: "mem \<Rightarrow> ptr \<Rightarrow> ulint \<Rightarrow> mem" where
  "log_block_set_first_rec_group m b off = mach_write_to_2 m (b + LOG_BLOCK_FIRST_REC_GROUP) off"

definition log_block_get_checkpoint_no :: "mem \<Rightarrow> ptr \<Rightarrow> ulint" where
  "log_block_get_checkpoint_no m b = mach_read_from_4 m (b + LOG_BLOCK_CHECKPOINT_NO)"

definition log_block_set_checkpoint_no :: "mem \<Rightarrow> ptr \<Rightarrow> dulint \<Rightarrow> mem" where
  "log_block_set_checkpoint_no m b no = mach_write_to_4 m (b + LOG_BLOCK_CHECKPOINT_NO) (low no)"

definition log_block_convert_lsn_to_no :: "dulint \<Rightarrow> ulint" where
  "log_block_convert_lsn_to_no lsn =
     (let no = low lsn div 512;
          no = no + (high lsn mod 512) * 2 * (0x80000000 div 512);
          no = no AND 0x3FFFFFFF
      in no + 1)"

text \<open>
  The checksum loop; the source's \<open>for\<close> has a comma where its second semicolon belongs and is
  read with it. \<open>checksum_loop m p k (sum, sh)\<close> runs over \<open>k\<close> bytes from \<open>p\<close>.
\<close>

fun checksum_loop :: "mem \<Rightarrow> ptr \<Rightarrow> nat \<Rightarrow> ulint \<times> nat \<Rightarrow> ulint \<times> nat" where
  "checksum_loop m p 0 st = st"
| "checksum_loop m p (Suc k) (s, sh) =
     (let s = s AND 0x7FFFFFFF;
          s = s + (push_bit sh (ucast (m p)) + ucast (m p));
          sh = sh + 1
      in checksum_loop m (p + 1) k (s, if 24 < sh then 0 else sh))"

definition log_block_calc_checksum :: "mem \<Rightarrow> ptr \<Rightarrow> ulint" where
  "log_block_calc_checksum m b =
     fst (checksum_loop m b (OS_FILE_LOG_BLOCK_SIZE - LOG_BLOCK_TRL_SIZE) (1, 0))"

definition log_block_get_checksum :: "mem \<Rightarrow> ptr \<Rightarrow> ulint" where
  "log_block_get_checksum m b = mach_read_from_4 m (b + (OS_FILE_LOG_BLOCK_SIZE - LOG_BLOCK_CHECKSUM))"

definition log_block_set_checksum :: "mem \<Rightarrow> ptr \<Rightarrow> ulint \<Rightarrow> mem" where
  "log_block_set_checksum m b c =
     mach_write_to_4 m (b + (OS_FILE_LOG_BLOCK_SIZE - LOG_BLOCK_CHECKSUM)) c"

definition log_block_store_checksum :: "mem \<Rightarrow> ptr \<Rightarrow> mem" where
  "log_block_store_checksum m b = log_block_set_checksum m b (log_block_calc_checksum m b)"

text \<open>The check of recovery, in \<open>log0recv.cc\<close>: the new checksum, or the block number in its place.\<close>

definition log_block_checksum_is_ok_old_format :: "mem \<Rightarrow> ptr \<Rightarrow> bool" where
  "log_block_checksum_is_ok_old_format m b \<longleftrightarrow>
     (if log_block_calc_checksum m b = log_block_get_checksum m b then True
      else log_block_get_hdr_no m b = log_block_get_checksum m b)"

definition log_block_init :: "mem \<Rightarrow> ptr \<Rightarrow> dulint \<Rightarrow> mem" where
  "log_block_init m b lsn =
     (let no = log_block_convert_lsn_to_no lsn;
          m = log_block_set_hdr_no m b no;
          m = log_block_set_data_len m b (of_nat LOG_BLOCK_HDR_SIZE)
      in log_block_set_first_rec_group m b 0)"

definition log_block_init_in_old_format :: "mem \<Rightarrow> ptr \<Rightarrow> dulint \<Rightarrow> mem" where
  "log_block_init_in_old_format m b lsn =
     (let no = log_block_convert_lsn_to_no lsn;
          m = log_block_set_hdr_no m b no;
          m = mach_write_to_4 m (b + (OS_FILE_LOG_BLOCK_SIZE - LOG_BLOCK_CHECKSUM)) no;
          m = log_block_set_data_len m b (of_nat LOG_BLOCK_HDR_SIZE)
      in log_block_set_first_rec_group m b 0)"

section \<open>The block number of an lsn\<close>

lemma block_no_mask: "(0x3FFFFFFF :: ulint) = mask 30" "(0x7FFFFFFF :: ulint) = mask 31"
  by (simp_all add: mask_eq_exp_minus_1)

lemma unat_block_no:
  assumes "dulint_wf lsn"
  shows "unat (log_block_convert_lsn_to_no lsn) = dulint_val lsn div 512 mod 2 ^ 30 + 1"
proof -
  let ?l = "unat (low lsn)" and ?h = "unat (high lsn)"
  have l: "?l div 512 < 2 ^ 23" and h: "?h mod 512 < 512"
    using assms by (simp_all add: dulint_wf_def less_mult_imp_div_less)
  have c: "(0x80000000 div 512 :: ulint) = 2 ^ 22" by simp
  have hm: "unat ((high lsn mod 512) * 2 * 2 ^ 22) = ?h mod 512 * 2 ^ 23"
    using h by (simp add: unat_word_ariths unat_mod)
  have v: "dulint_val lsn div 512 = ?l div 512 + ?h * 2 ^ 23"
    by (simp add: dulint_val_def div_mult_self4 [of 512, symmetric])
  have "unat (low lsn div 512 + (high lsn mod 512) * 2 * 2 ^ 22) = ?l div 512 + ?h mod 512 * 2 ^ 23"
    using l h hm by (subst unat_plus) (simp_all add: unat_div)
  moreover have "(?l div 512 + ?h mod 512 * 2 ^ 23) mod 2 ^ 30 = (?l div 512 + ?h * 2 ^ 23) mod 2 ^ 30"
  proof -
    define q r where "q = ?h div 512" and "r = ?h mod 512"
    have "?h = 512 * q + r" by (simp add: q_def r_def)
    then have "?l div 512 + ?h * 2 ^ 23 = (?l div 512 + r * 2 ^ 23) + 2 ^ 30 * (4 * q)"
      by (simp add: algebra_simps)
    then show ?thesis by (simp only: mod_mult_self2 r_def)
  qed
  ultimately have "unat ((low lsn div 512 + (high lsn mod 512) * 2 * 2 ^ 22) AND mask 30) = dulint_val lsn div 512 mod 2 ^ 30"
    by (simp only: unat_and_mask v)
  then show ?thesis
    unfolding log_block_convert_lsn_to_no_def Let_def c block_no_mask
    by (subst unat_plus) (simp_all add: less_trans [of _ "2 ^ 30"])
qed

section \<open>The checksum\<close>

definition checksum_weight :: "nat \<Rightarrow> nat" where
  "checksum_weight i = 2 ^ (i mod 25) + 1"

definition checksum_sum :: "mem \<Rightarrow> ptr \<Rightarrow> nat \<Rightarrow> nat \<Rightarrow> nat" where
  "checksum_sum m p sh k = (\<Sum>i < k. unat (m (p + i)) * checksum_weight (sh + i))"

lemma checksum_sum_Suc:
  "checksum_sum m p sh (Suc k) = unat (m p) * checksum_weight sh + checksum_sum m (Suc p) (Suc sh) k"
  by (simp add: checksum_sum_def sum.lessThan_Suc_shift del: sum.lessThan_Suc)

lemma checksum_step:
  assumes "sh \<le> 24"
  shows "unat ((s AND 0x7FFFFFFF) + (push_bit sh (ucast (w :: byte)) + ucast w) :: ulint)
    = unat s mod 2 ^ 31 + unat w * (2 ^ sh + 1)"
proof -
  have "unat w * 2 ^ sh \<le> 255 * 2 ^ 24"
    using unat_byte_less [of w] assms power_increasing [of sh 24 "2 :: nat"] by (intro mult_le_mono) simp_all
  then have b: "unat w * 2 ^ sh + unat w < 2 ^ 33" using unat_byte_less [of w] by simp
  then have "unat (push_bit sh (ucast w) + ucast w :: ulint) = unat w * 2 ^ sh + unat w"
    using assms by (subst unat_plus) (simp_all add: unat_simps)
  then show ?thesis
    unfolding block_no_mask using unat_and_mask [of s 31] b
    by (subst unat_plus) (simp_all add: less_trans [of _ "2 ^ 31" "2 ^ 33"])
qed

lemma checksum_loop_Suc:
  "sh < 25 \<Longrightarrow> checksum_loop m p (Suc k) (s, sh) = checksum_loop m (Suc p) k
     ((s AND 0x7FFFFFFF) + (push_bit sh (ucast (m p)) + ucast (m p)), Suc sh mod 25)"
  by (cases "sh = 24") (simp_all add: Let_def)

lemma checksum_loop_snd: "sh < 25 \<Longrightarrow> snd (checksum_loop m p k (s, sh)) = (sh + k) mod 25"
proof (induction k arbitrary: p s sh)
  case (Suc k)
  with Suc.IH [of "Suc sh mod 25"] show ?case
    by (simp add: checksum_loop_Suc mod_simps del: checksum_loop.simps(2))
qed simp

lemma checksum_loop_add:
  "checksum_loop m p (j + k) st = checksum_loop m (p + j) k (checksum_loop m p j st)"
proof (induction j arbitrary: p st)
  case (Suc j)
  then show ?case by (cases st) (simp add: Let_def)
qed simp

lemma checksum_loop_sum:
  "sh < 25 \<Longrightarrow> unat (fst (checksum_loop m p k (s, sh))) mod 2 ^ 31 = (unat s + checksum_sum m p sh k) mod 2 ^ 31"
proof (induction k arbitrary: p s sh)
  case 0
  show ?case by (simp add: checksum_sum_def)
next
  case (Suc k)
  let ?s = "(s AND 0x7FFFFFFF) + (push_bit sh (ucast (m p)) + ucast (m p)) :: ulint"
  have w: "checksum_sum m q (sh' mod 25) k = checksum_sum m q sh' k" for q sh'
    by (simp add: checksum_sum_def checksum_weight_def mod_simps)
  have s: "unat ?s = unat s mod 2 ^ 31 + unat (m p) * checksum_weight sh"
    using Suc.prems by (simp add: checksum_step checksum_weight_def)
  have "unat (fst (checksum_loop m p (Suc k) (s, sh))) mod 2 ^ 31
      = (unat ?s + checksum_sum m (Suc p) (Suc sh) k) mod 2 ^ 31"
    using Suc.IH [of "Suc sh mod 25" "Suc p" ?s] Suc.prems
    by (simp add: checksum_loop_Suc w del: checksum_loop.simps(2))
  also have "\<dots> = (unat s mod 2 ^ 31 + checksum_sum m p sh (Suc k)) mod 2 ^ 31"
    unfolding s checksum_sum_Suc by (simp add: add.assoc)
  finally show ?case by (simp add: mod_simps)
qed

text \<open>
  The last of the 508 bytes has the shift 7: the sum that leaves the loop fits in the four bytes of
  the trailer although the sums inside of the loop need not.
\<close>

lemma checksum_bound: "unat (log_block_calc_checksum m b) < 2 ^ 32"
proof -
  obtain s sh where s: "checksum_loop m b 507 (1, 0) = (s, sh)" by (cases "checksum_loop m b 507 (1, 0)")
  then have "sh = 7" using checksum_loop_snd [of 0 m b 507 1] by simp
  have "checksum_loop m b (507 + 1) (1, 0) = checksum_loop m (b + 507) 1 (s, 7)"
    by (simp only: checksum_loop_add s \<open>sh = 7\<close>)
  then have "unat (log_block_calc_checksum m b) = unat s mod 2 ^ 31 + unat (m (b + 507)) * (2 ^ 7 + 1)"
    using checksum_step [of 7 s "m (b + 507)"] by (simp add: log_block_calc_checksum_def log_block_layout Let_def)
  then show ?thesis using unat_byte_less [of "m (b + 507)"] mod_less_divisor [of "2 ^ 31" "unat s"] by simp
qed

lemma checksum_loop_cong:
  "(\<And>i. i < k \<Longrightarrow> m (p + i) = m' (p' + i)) \<Longrightarrow> checksum_loop m p k st = checksum_loop m' p' k st"
proof (induction k arbitrary: p p' st)
  case (Suc k)
  have "m p = m' p'" using Suc.prems [of 0] by simp
  moreover have "checksum_loop m (Suc p) k st = checksum_loop m' (Suc p') k st" for st
    by (rule Suc.IH) (use Suc.prems [of "Suc _"] in simp)
  ultimately show ?case by (cases st) (simp add: Let_def)
qed simp

lemma calc_checksum_cong:
  "(\<And>i. i < 508 \<Longrightarrow> m (b + i) = m' (b' + i)) \<Longrightarrow> log_block_calc_checksum m b = log_block_calc_checksum m' b'"
  unfolding log_block_calc_checksum_def by (subst checksum_loop_cong [of _ m b m' b']) (simp_all add: log_block_layout)

text \<open>A weight times a small number is a multiple of \<open>2 ^ 31\<close> only when the number is zero.\<close>

lemma weight_dvd:
  assumes "2 ^ 31 dvd d * int (checksum_weight i)" and "\<bar>d\<bar> < 256"
  shows "d = 0"
proof (cases "i mod 25 = 0")
  case True
  have "\<bar>d * 2\<bar> < 2 ^ 31" using assms(2) by simp
  with assms(1) True show ?thesis by (auto simp: checksum_weight_def dest: zdvd_imp_le [of _ "\<bar>d * 2\<bar>"] intro: ccontr)
next
  case False
  then obtain e where "i mod 25 = Suc e" by (cases "i mod 25") auto
  then have "odd (int (checksum_weight i))" by (simp add: checksum_weight_def)
  then have "coprime (2 ^ 31 :: int) (int (checksum_weight i))"
    by (simp only: coprime_power_left_iff coprime_left_2_iff_odd simp_thms)
  with assms(1) have "2 ^ 31 dvd d" by (simp only: coprime_dvd_mult_left_iff)
  with assms(2) show ?thesis by (auto dest: dvd_imp_le_int)
qed

lemma checksum_sum_upd:
  assumes "i < k"
  shows "int (checksum_sum (m(b + i := v)) b 0 k) - int (checksum_sum m b 0 k)
    = (int (unat v) - int (unat (m (b + i)))) * int (checksum_weight i)"
proof -
  have "checksum_sum m' b 0 k = unat (m' (b + i)) * checksum_weight i
      + (\<Sum>j \<in> {..<k} - {i}. unat (m' (b + j)) * checksum_weight j)" for m'
    using assms by (simp add: checksum_sum_def sum.remove)
  moreover have "(\<Sum>j \<in> {..<k} - {i}. unat ((m(b + i := v)) (b + j)) * checksum_weight j)
      = (\<Sum>j \<in> {..<k} - {i}. unat (m (b + j)) * checksum_weight j)"
    by (rule sum.cong) auto
  ultimately show ?thesis by (simp add: left_diff_distrib)
qed

lemma checksum_changed:
  assumes i: "i < 508" and v: "v \<noteq> m (b + i)"
  shows "log_block_calc_checksum (m(b + i := v)) b \<noteq> log_block_calc_checksum m b"
proof
  let ?m = "m(b + i := v)"
  assume "log_block_calc_checksum ?m b = log_block_calc_checksum m b"
  then have "(1 + checksum_sum ?m b 0 508) mod 2 ^ 31 = (1 + checksum_sum m b 0 508) mod 2 ^ 31"
    using checksum_loop_sum [of 0 m b 508 1] checksum_loop_sum [of 0 ?m b 508 1]
    by (simp add: log_block_calc_checksum_def log_block_layout)
  then have "int (1 + checksum_sum ?m b 0 508) mod int (2 ^ 31) = int (1 + checksum_sum m b 0 508) mod int (2 ^ 31)"
    by (simp only: zmod_int [symmetric])
  then have "2 ^ 31 dvd int (1 + checksum_sum ?m b 0 508) - int (1 + checksum_sum m b 0 508)"
    by (simp add: mod_eq_dvd_iff)
  then have "2 ^ 31 dvd (int (unat v) - int (unat (m (b + i)))) * int (checksum_weight i)"
    using checksum_sum_upd [OF i, of m b v] by simp
  moreover have "\<bar>int (unat v) - int (unat (m (b + i)))\<bar> < 256"
    using unat_byte_less [of v] unat_byte_less [of "m (b + i)"] by linarith
  ultimately have "int (unat v) - int (unat (m (b + i))) = 0" by (rule weight_dvd)
  with v show False by (simp add: word_unat_eq_iff)
qed

lemma store_checksum_frame:
  "i < b + 508 \<or> b + 512 \<le> i \<Longrightarrow> log_block_store_checksum m b i = m i"
  by (auto simp: log_block_store_checksum_def log_block_set_checksum_def log_block_layout mach_write_to_4_def)

lemma store_checksum_calc: "log_block_calc_checksum (log_block_store_checksum m b) b = log_block_calc_checksum m b"
  by (rule calc_checksum_cong) (simp add: store_checksum_frame)

lemma store_checksum_get: "log_block_get_checksum (log_block_store_checksum m b) b = log_block_calc_checksum m b"
  unfolding log_block_get_checksum_def log_block_store_checksum_def log_block_set_checksum_def
    log_block_layout by (rule c4.rd_wr) (rule checksum_bound)

text \<open> C24.
  The checksum of a redo log block always fits in its four bytes, although sums inside of the loop
  do not. A block that was sealed by \<open>log_block_store_checksum\<close> passes recovery's check, the
  sealing changes the trailer only, and a change of any one byte of header or data makes the check
  fail, unless the trailer happens to hold the block number, which the old format allows.\<close>

theorem log_block_checksum_detects:
  assumes "sealed = log_block_store_checksum m b"
    and "i < 508" and "v \<noteq> sealed (b + i)"
    and "log_block_get_hdr_no (sealed(b + i := v)) b \<noteq> log_block_get_checksum (sealed(b + i := v)) b"
  shows "unat (log_block_calc_checksum m b) < 2 ^ 32
    \<and> log_block_checksum_is_ok_old_format sealed b
    \<and> (\<forall>j. j < b + 508 \<or> b + 512 \<le> j \<longrightarrow> sealed j = m j)
    \<and> \<not> log_block_checksum_is_ok_old_format (sealed(b + i := v)) b"
proof -
  have "log_block_get_checksum (sealed(b + i := v)) b = log_block_get_checksum sealed b"
    using assms(2) by (simp add: log_block_get_checksum_def log_block_layout mach_read_from_4_def)
  moreover have "log_block_calc_checksum (sealed(b + i := v)) b \<noteq> log_block_calc_checksum sealed b"
    using assms(2,3) by (rule checksum_changed)
  moreover have "log_block_get_checksum sealed b = log_block_calc_checksum sealed b"
    by (simp add: assms(1) store_checksum_get store_checksum_calc)
  ultimately show ?thesis
    using assms(4) checksum_bound [of m b]
    by (simp add: log_block_checksum_is_ok_old_format_def assms(1) store_checksum_frame)
qed

text \<open>A zero block with its checksum 1 and the number 0: a flipped bit of byte 100 is found.\<close>

lemma zero_block_checksum: "log_block_calc_checksum (\<lambda>_. 0) 0 \<noteq> 0"
proof
  assume "log_block_calc_checksum (\<lambda>_. 0) 0 = 0"
  moreover have "unat (log_block_calc_checksum (\<lambda>_. 0) 0) mod 2 ^ 31 = 1"
    using checksum_loop_sum [of 0 "\<lambda>_. 0" 0 508 1]
    by (simp add: log_block_calc_checksum_def log_block_layout checksum_sum_def)
  ultimately show False by simp
qed

lemma log_block_checksum_detects_witness:
  "\<not> log_block_checksum_is_ok_old_format ((log_block_store_checksum (\<lambda>_. 0) 0)(0 + 100 := 1)) 0"
proof -
  let ?s = "log_block_store_checksum (\<lambda>_. 0) 0"
  have "?s 100 = 0" by (simp add: store_checksum_frame)
  moreover have "log_block_get_hdr_no (?s(0 + 100 := 1)) 0 = 0"
    by (simp add: log_block_get_hdr_no_def log_block_layout mach_read_from_4_def store_checksum_frame)
  moreover have "log_block_get_checksum (?s(0 + 100 := 1)) 0 = log_block_get_checksum ?s 0"
    by (simp add: log_block_get_checksum_def log_block_layout mach_read_from_4_def)
  ultimately show ?thesis
    using log_block_checksum_detects [of ?s "\<lambda>_. 0" 0 100 1] zero_block_checksum
    by (simp add: store_checksum_get)
qed

section \<open>The header\<close>

lemma flush_mask_bit: "bit LOG_BLOCK_FLUSH_BIT_MASK j \<longleftrightarrow> j = 31"
proof -
  have "LOG_BLOCK_FLUSH_BIT_MASK = 2 ^ 31" by (simp add: LOG_BLOCK_FLUSH_BIT_MASK_def)
  then have "bit LOG_BLOCK_FLUSH_BIT_MASK j \<longleftrightarrow> bit (2 ^ 31 :: ulint) j" by (simp only:)
  also have "\<dots> \<longleftrightarrow> j = 31" unfolding bit_exp_iff by auto
  finally show ?thesis .
qed

lemma bit_hdr_no: "bit (log_block_get_hdr_no m b) j \<longleftrightarrow> j < 64 \<and> j \<noteq> 31 \<and> bit (mach_read_from_4 m (b + LOG_BLOCK_HDR_NO)) j"
  by (auto simp: log_block_get_hdr_no_def bit_simps flush_mask_bit)

lemma flush_bit_iff: "log_block_get_flush_bit m b \<longleftrightarrow> bit (mach_read_from_4 m (b + LOG_BLOCK_HDR_NO)) 31"
proof
  assume "log_block_get_flush_bit m b"
  then obtain j where "bit (LOG_BLOCK_FLUSH_BIT_MASK AND mach_read_from_4 m (b + LOG_BLOCK_HDR_NO)) j"
    unfolding log_block_get_flush_bit_def by (auto simp: bit_eq_iff)
  then show "bit (mach_read_from_4 m (b + LOG_BLOCK_HDR_NO)) 31" by (auto simp: bit_and_iff flush_mask_bit)
next
  assume "bit (mach_read_from_4 m (b + LOG_BLOCK_HDR_NO)) 31"
  then have "bit (LOG_BLOCK_FLUSH_BIT_MASK AND mach_read_from_4 m (b + LOG_BLOCK_HDR_NO)) 31"
    by (simp add: bit_and_iff flush_mask_bit)
  then show "log_block_get_flush_bit m b" unfolding log_block_get_flush_bit_def by force
qed

text \<open>Writes of the block number leave the other fields, and the other way round.\<close>

lemma write_4_frame: "i < b \<or> b + 4 \<le> i \<Longrightarrow> mach_write_to_4 m b n i = m i"
  by (auto simp: mach_write_to_4_def)

lemma write_2_frame: "i < b \<or> b + 2 \<le> i \<Longrightarrow> mach_write_to_2 m b n i = m i"
  by (auto simp: mach_write_to_2_def)

lemma set_flush_field:
  "mach_read_from_4 (log_block_set_flush_bit m b v) (b + LOG_BLOCK_HDR_NO) =
     (let f = mach_read_from_4 m (b + LOG_BLOCK_HDR_NO) in
      if v then f OR LOG_BLOCK_FLUSH_BIT_MASK else f AND NOT LOG_BLOCK_FLUSH_BIT_MASK)"
proof -
  let ?f = "mach_read_from_4 m (b + LOG_BLOCK_HDR_NO)"
  have f: "?f = take_bit 32 ?f"
    using mach_read_bounds(3) [of m "b + LOG_BLOCK_HDR_NO"]
    by (simp add: word_unat_eq_iff unsigned_take_bit_eq take_bit_nat_eq_self)
  have "unat (?f OR LOG_BLOCK_FLUSH_BIT_MASK) < 2 ^ 32 \<and> unat (?f AND NOT LOG_BLOCK_FLUSH_BIT_MASK) < 2 ^ 32"
  proof -
    have "?f OR LOG_BLOCK_FLUSH_BIT_MASK = take_bit 32 (?f OR LOG_BLOCK_FLUSH_BIT_MASK)"
      by (subst (1) f) (rule bit_eqI, auto simp: bit_simps flush_mask_bit)
    moreover have "?f AND NOT LOG_BLOCK_FLUSH_BIT_MASK = take_bit 32 (?f AND NOT LOG_BLOCK_FLUSH_BIT_MASK)"
      by (subst (1) f) (rule bit_eqI, auto simp: bit_simps flush_mask_bit)
    moreover have "unat (take_bit 32 (w :: ulint)) < 2 ^ 32" for w
      by (simp add: unsigned_take_bit_eq nat_bits)
    ultimately show ?thesis by metis
  qed
  then show ?thesis by (simp add: log_block_set_flush_bit_def Let_def c4.rd_wr)
qed

text \<open> C34.
  \<open>log_block_init\<close> at the lsn of a block gives it the number of that lsn's 512 byte unit modulo
  \<open>2 ^ 30\<close>, counted from one, a clear flush bit, the header as its data and no record group, and
  leaves the checkpoint number and all bytes behind it. Setting the flush bit changes that bit
  only: the number, the lengths and the checkpoint number are read as before.\<close>

theorem log_block_header_fields:
  assumes "dulint_wf lsn"
  shows "(let m' = log_block_init m b lsn in
      unat (log_block_get_hdr_no m' b) = dulint_val lsn div 512 mod 2 ^ 30 + 1
    \<and> \<not> log_block_get_flush_bit m' b
    \<and> log_block_get_data_len m' b = of_nat LOG_BLOCK_HDR_SIZE
    \<and> log_block_get_first_rec_group m' b = 0
    \<and> (\<forall>i. i < b \<or> b + LOG_BLOCK_CHECKPOINT_NO \<le> i \<longrightarrow> m' i = m i))
    \<and> (let m' = log_block_set_flush_bit m b v in
      (log_block_get_flush_bit m' b \<longleftrightarrow> v)
    \<and> log_block_get_hdr_no m' b = log_block_get_hdr_no m b
    \<and> log_block_get_data_len m' b = log_block_get_data_len m b
    \<and> log_block_get_first_rec_group m' b = log_block_get_first_rec_group m b
    \<and> log_block_get_checkpoint_no m' b = log_block_get_checkpoint_no m b)"
proof -
  let ?no = "log_block_convert_lsn_to_no lsn" and ?m = "log_block_init m b lsn"
  let ?n = "mach_write_to_4 m b ?no"
  have no: "unat ?no < 2 ^ 31" "unat ?no = dulint_val lsn div 512 mod 2 ^ 30 + 1"
    using unat_block_no [OF assms] mod_less_divisor [of "2 ^ 30" "dulint_val lsn div 512"] by simp_all
  have mm: "?m = mach_write_to_2 (mach_write_to_2 ?n (b + 4) 12) (b + 6) 0"
    by (simp add: log_block_init_def log_block_set_hdr_no_def log_block_set_data_len_def
        log_block_set_first_rec_group_def log_block_layout Let_def)
  have rd: "mach_read_from_4 ?m (b + LOG_BLOCK_HDR_NO) = ?no"
    by (rule c4.rd_back [of _ _ _ m]) (use no in \<open>auto simp: mm write_2_frame log_block_layout\<close>)
  have take: "?no = take_bit 31 ?no"
    using no(1) by (simp add: word_unat_eq_iff unsigned_take_bit_eq take_bit_nat_eq_self)
  have hdr: "log_block_get_hdr_no ?m b = ?no"
  proof (rule bit_eqI)
    fix j
    have "bit ?no 31 = False" by (subst take) (simp add: bit_simps)
    then show "bit (log_block_get_hdr_no ?m b) j = bit ?no j"
      by (auto simp: bit_hdr_no rd dest: bit_imp_le_length)
  qed
  have clear: "\<not> log_block_get_flush_bit ?m b"
    unfolding flush_bit_iff rd by (subst take) (simp add: bit_simps)
  have len: "log_block_get_data_len ?m b = of_nat LOG_BLOCK_HDR_SIZE"
    unfolding log_block_get_data_len_def
    by (rule c2.rd_back [of _ _ _ ?n]) (auto simp: mm write_2_frame log_block_layout)
  have grp: "log_block_get_first_rec_group ?m b = 0"
    unfolding log_block_get_first_rec_group_def mm by (simp add: log_block_layout c2.rd_wr)
  have frame: "?m i = m i" if "i < b \<or> b + LOG_BLOCK_CHECKPOINT_NO \<le> i" for i
    using that by (auto simp: mm write_2_frame write_4_frame log_block_layout)
  let ?f = "log_block_set_flush_bit m b v"
  have same: "?f i = m i" if "b + 4 \<le> i" for i
    using that by (simp add: log_block_set_flush_bit_def Let_def write_4_frame log_block_layout)
  have bit: "log_block_get_flush_bit ?f b \<longleftrightarrow> v" and keep: "log_block_get_hdr_no ?f b = log_block_get_hdr_no m b"
    by (simp add: flush_bit_iff set_flush_field Let_def bit_simps flush_mask_bit)
      (rule bit_eqI, auto simp: bit_hdr_no set_flush_field Let_def bit_simps flush_mask_bit)
  show ?thesis
    unfolding Let_def
    using no(2) hdr clear len grp frame bit keep
    by (simp add: log_block_get_data_len_def log_block_get_first_rec_group_def
        log_block_get_checkpoint_no_def log_block_layout mach_read_from_2_def mach_read_from_4_def same)
qed

lemma log_block_header_fields_witness:
  "unat (log_block_get_hdr_no (log_block_init (\<lambda>_. 7) 0 \<lparr>high = 1, low = 1024\<rparr>) 0) = 2 ^ 23 + 3"
  using log_block_header_fields [of "\<lparr>high = 1, low = 1024\<rparr>" "\<lambda>_. 7" 0 True]
  by (simp add: dulint_wf_def dulint_val_def Let_def)

end
