(* ===== verification/Log_Group.thy ===== *)
theory Log_Group
  imports Log_Block "HOL-Library.Signed_Division"
begin

text \<open>
  The redo log files of \<open>log0log.cc\<close>: where the log sequence number (lsn) of a byte of the log
  stands in the files of a log group, and the routine that writes a part of the log buffer to
  them. The files of a group have one size, begin with a header of \<open>LOG_FILE_HDR_SIZE\<close> bytes and
  form one circular space; \<open>lsn_offset\<close> is the place of \<open>lsn\<close> in it.
\<close>

section \<open>The numbers of the log\<close>

definition LOG_FILE_HDR_SIZE :: ulint where "LOG_FILE_HDR_SIZE = 4 * of_nat OS_FILE_LOG_BLOCK_SIZE"

text \<open>
  The functions on \<open>dulint\<close> that the log calls are not in the repository; \<open>lsn_api_ok\<close> states
  what their documentation promises: sums carry, a difference is exact when it is below 4 G,
  the conversion to \<open>int64_t\<close> keeps the number.
\<close>

record lsn_api = dulint_api +
  ut_dulint_add :: "dulint \<Rightarrow> ulint \<Rightarrow> dulint"
  ut_dulint_minus :: "dulint \<Rightarrow> dulint \<Rightarrow> ulint"
  ut_conv_dulint_to_longlong :: "dulint \<Rightarrow> int"

definition lsn_api_ok :: "lsn_api \<Rightarrow> bool" where
  "lsn_api_ok A \<longleftrightarrow> dulint_api_ok (dulint_api.truncate A)
   \<and> (\<forall>a n. dulint_wf a \<longrightarrow> unat n < 2 ^ 32 \<longrightarrow> dulint_val a + unat n < 2 ^ 63 \<longrightarrow>
        dulint_wf (ut_dulint_add A a n) \<and> dulint_val (ut_dulint_add A a n) = dulint_val a + unat n)
   \<and> (\<forall>a b. dulint_wf a \<longrightarrow> dulint_wf b \<longrightarrow> dulint_val b \<le> dulint_val a \<longrightarrow>
        dulint_val a - dulint_val b < 2 ^ 32 \<longrightarrow>
        unat (ut_dulint_minus A a b) = dulint_val a - dulint_val b)
   \<and> (\<forall>a. dulint_wf a \<longrightarrow> dulint_val a < 2 ^ 63 \<longrightarrow>
        ut_conv_dulint_to_longlong A a = int (dulint_val a))"

definition dulint_of_nat :: "nat \<Rightarrow> dulint" where
  "dulint_of_nat n = \<lparr>high = of_nat (n div 2 ^ 32), low = of_nat (n mod 2 ^ 32)\<rparr>"

definition lsn_ref :: lsn_api where
  "lsn_ref = dulint_api.extend dulint_ref
     \<lparr>ut_dulint_add = (\<lambda>a n. dulint_of_nat (dulint_val a + unat n)),
      ut_dulint_minus = (\<lambda>a b. of_nat (dulint_val a - dulint_val b)),
      ut_conv_dulint_to_longlong = (\<lambda>a. int (dulint_val a))\<rparr>"

lemma dulint_of_nat_val:
  assumes "n < 2 ^ 64"
  shows "dulint_wf (dulint_of_nat n)" "dulint_val (dulint_of_nat n) = n"
proof -
  have d: "n div 2 ^ 32 < 2 ^ 32" using assms by (simp add: less_mult_imp_div_less)
  have h: "unat (of_nat (n div 2 ^ 32) :: ulint) = n div 2 ^ 32"
    using less_le_trans [OF d, of "2 ^ 64"] by (simp add: unat_of_nat)
  have l: "unat (of_nat (n mod 2 ^ 32) :: ulint) = n mod 2 ^ 32"
    using less_trans [of "n mod 2 ^ 32" "2 ^ 32" "2 ^ 64"] by (simp add: unat_of_nat)
  show "dulint_wf (dulint_of_nat n)" using d h l by (simp add: dulint_wf_def dulint_of_nat_def)
  show "dulint_val (dulint_of_nat n) = n"
    by (simp only: dulint_val_def dulint_of_nat_def dulint.simps h l div_mult_mod_eq)
qed

lemma lsn_ref_simps [simp]:
  "dulint_api.truncate lsn_ref = dulint_ref"
  "ut_dulint_add lsn_ref a n = dulint_of_nat (dulint_val a + unat n)"
  "ut_dulint_minus lsn_ref a b = of_nat (dulint_val a - dulint_val b)"
  "ut_conv_dulint_to_longlong lsn_ref a = int (dulint_val a)"
  "ut_dulint_cmp lsn_ref a b = int (dulint_val a) - int (dulint_val b)"
  by (simp_all add: lsn_ref_def dulint_ref_def dulint_api.defs)

lemma lsn_ref_ok: "lsn_api_ok lsn_ref"
  by (simp add: lsn_api_ok_def dulint_ref_ok dulint_of_nat_val unat_of_nat del: of_nat_diff)

lemma lsn_cmp_ge:
  assumes "lsn_api_ok A" "dulint_wf a" "dulint_wf b"
  shows "0 \<le> ut_dulint_cmp A a b \<longleftrightarrow> dulint_val b \<le> dulint_val a"
proof -
  have "dulint_api_ok (dulint_api.truncate A)" using assms(1) by (simp add: lsn_api_ok_def)
  then have "ut_dulint_cmp A a b < 0 \<longleftrightarrow> dulint_val a < dulint_val b"
    using assms(2,3) by (simp add: dulint_api_ok_def dulint_api.defs)
  then show ?thesis by linarith
qed

lemmas lsn_api_laws = lsn_api_ok_def [THEN iffD1, THEN conjunct2, THEN conjunct1, rule_format]
  lsn_api_ok_def [THEN iffD1, THEN conjunct2, THEN conjunct2, THEN conjunct1, rule_format]
  lsn_api_ok_def [THEN iffD1, THEN conjunct2, THEN conjunct2, THEN conjunct2, rule_format]

text \<open>
  \<open>int64_t\<close> is an integer; a result outside of the 64 bit range is undefined in C++ and makes
  the definitions below return \<open>None\<close>, as a failed \<open>ut_a\<close> does. Division truncates (\<open>sdiv\<close>).
\<close>

definition int64_ok :: "int \<Rightarrow> bool" where
  "int64_ok x \<longleftrightarrow> - (2 ^ 63) \<le> x \<and> x < 2 ^ 63"

section \<open>A log group\<close>

record log_group =
  group_id :: ulint
  n_files :: ulint
  file_size :: ulint
  group_lsn :: dulint
  lsn_offset :: ulint
  group_n_pending_writes :: ulint
  file_header_bufs :: "ptr list"

definition log_group_get_capacity :: "log_group \<Rightarrow> ulint" where
  "log_group_get_capacity g = (file_size g - LOG_FILE_HDR_SIZE) * n_files g"

definition log_group_calc_size_offset :: "ulint \<Rightarrow> log_group \<Rightarrow> ulint" where
  "log_group_calc_size_offset off g = off - LOG_FILE_HDR_SIZE * (1 + off div file_size g)"

definition log_group_calc_real_offset :: "ulint \<Rightarrow> log_group \<Rightarrow> ulint" where
  "log_group_calc_real_offset off g =
     off + LOG_FILE_HDR_SIZE * (1 + off div (file_size g - LOG_FILE_HDR_SIZE))"

definition log_group_calc_lsn_offset :: "lsn_api \<Rightarrow> dulint \<Rightarrow> log_group \<Rightarrow> ulint option" where
  "log_group_calc_lsn_offset A lsn g =
     (let gr_lsn = group_lsn g;
          gr_lsn_size_offset = sint (log_group_calc_size_offset (lsn_offset g) g);
          group_size = sint (log_group_get_capacity g);
          difference =
            (if 0 \<le> ut_dulint_cmp A lsn gr_lsn then sint (ut_dulint_minus A lsn gr_lsn)
             else group_size - sint (ut_dulint_minus A gr_lsn lsn) smod group_size)
      in if group_size = 0 \<or> \<not> int64_ok difference \<or> \<not> int64_ok (gr_lsn_size_offset + difference)
         then None
         else let off = (gr_lsn_size_offset + difference) smod group_size in
           if off \<le> 0xFFFFFFFF then Some (log_group_calc_real_offset (word_of_int off) g) else None)"

definition log_calc_where_lsn_is ::
    "lsn_api \<Rightarrow> dulint \<Rightarrow> dulint \<Rightarrow> ulint \<Rightarrow> int \<Rightarrow> (ulint \<times> int) option" where
  "log_calc_where_lsn_is A first_header_lsn lsn n_log_files log_file_size =
     (let capacity = log_file_size - uint LOG_FILE_HDR_SIZE;
          ib_lsn = ut_conv_dulint_to_longlong A lsn;
          ib_first_header_lsn = ut_conv_dulint_to_longlong A first_header_lsn;
          round = capacity * sint n_log_files;
          add_this_many = 1 + (ib_first_header_lsn - ib_lsn) sdiv round;
          ib_lsn' = (if ib_lsn < ib_first_header_lsn
                     then ib_lsn + add_this_many * capacity * sint n_log_files else ib_lsn)
      in if capacity = 0 \<or> n_log_files = 0 \<or> \<not> int64_ok round
           \<or> (ib_lsn < ib_first_header_lsn
              \<and> \<not> (int64_ok (add_this_many * capacity * sint n_log_files) \<and> int64_ok ib_lsn'))
           \<or> \<not> ib_first_header_lsn \<le> ib_lsn'
         then None
         else let d = ib_lsn' - ib_first_header_lsn in
           Some (word_of_int (d sdiv capacity) mod n_log_files,
                 d smod capacity + uint LOG_FILE_HDR_SIZE))"

definition log_group_set_fields :: "lsn_api \<Rightarrow> log_group \<Rightarrow> dulint \<Rightarrow> log_group option" where
  "log_group_set_fields A g lsn =
     map_option (\<lambda>off. g\<lparr>lsn_offset := off, group_lsn := lsn\<rparr>) (log_group_calc_lsn_offset A lsn g)"

section \<open>Where an lsn is\<close>

text \<open>
  \<open>group_ok\<close> is the geometry the code relies on: files larger than their header and a group of
  at most 4 GB. \<open>group_pos\<close> is the abstract position: the distance of an lsn from the first one,
  taken round the circle of the files' data areas.
\<close>

definition group_ok :: "ulint \<Rightarrow> int \<Rightarrow> bool" where
  "group_ok n fs \<longleftrightarrow> 2048 < fs \<and> 0 < uint n \<and> uint n < 2 ^ 32 \<and> (fs - 2048) * uint n \<le> 2 ^ 32"

definition group_pos :: "dulint \<Rightarrow> dulint \<Rightarrow> ulint \<Rightarrow> int \<Rightarrow> int" where
  "group_pos first lsn n fs = (int (dulint_val lsn) - int (dulint_val first)) mod ((fs - 2048) * uint n)"

lemma hdr_size: "LOG_FILE_HDR_SIZE = 2048" "uint LOG_FILE_HDR_SIZE = 2048"
  by (simp_all add: LOG_FILE_HDR_SIZE_def OS_FILE_LOG_BLOCK_SIZE_def)

lemma sint_uint_64: "uint (w :: ulint) < 2 ^ 63 \<Longrightarrow> sint w = uint w"
  by (simp add: sint_uint signed_take_bit_int_eq_self order_trans [OF _ uint_ge_0])

lemma uint_of_int_64: "0 \<le> x \<Longrightarrow> x < 2 ^ 64 \<Longrightarrow> uint (word_of_int x :: ulint) = x"
  by (simp add: uint_word_of_int)

lemma sdiv_pos: "0 \<le> a \<Longrightarrow> 0 < (b :: int) \<Longrightarrow> a sdiv b = a div b"
  by (auto simp: signed_divide_int_def sgn_if)

lemma smod_pos: "0 \<le> a \<Longrightarrow> 0 < (b :: int) \<Longrightarrow> a smod b = a mod b"
  by (cases "a = 0") (auto simp: signed_modulo_int_def sgn_if)

lemma group_ok_pos: "group_ok n fs \<Longrightarrow> 0 < (fs - 2048) * uint n"
  by (simp add: group_ok_def)

lemma group_ok_cap:
  assumes "group_ok n fs" shows "fs - 2048 \<le> 2 ^ 32" "uint n \<le> 2 ^ 32" "sint n = uint n"
proof -
  have "(fs - 2048) * 1 \<le> (fs - 2048) * uint n"
    by (rule mult_left_mono) (use assms in \<open>auto simp: group_ok_def\<close>)
  moreover have "(fs - 2048) * uint n \<le> 2 ^ 32" using assms by (simp only: group_ok_def)
  ultimately have "(fs - 2048) * 1 \<le> 2 ^ 32" by (rule order_trans)
  then show "fs - 2048 \<le> 2 ^ 32" by simp
  show "uint n \<le> 2 ^ 32" "sint n = uint n" using assms by (auto simp: group_ok_def sint_uint_64)
qed

lemma next_multiple:
  assumes s: "0 < (s :: int)" and x: "0 < x" "x < 2 ^ 62" "s \<le> 2 ^ 32"
  shows "0 \<le> (1 + x div s) * s - x" "(1 + x div s) * s \<le> x + s" "((1 + x div s) * s - x) mod s = (- x) mod s"
    "0 < (1 + x div s) * s"
proof -
  have e: "(1 + x div s) * s = s + (x - x mod s)" by (simp add: distrib_right minus_mod_eq_div_mult)
  have m: "0 \<le> x mod s" "x mod s < s" using s by simp_all
  show "0 \<le> (1 + x div s) * s - x" "(1 + x div s) * s \<le> x + s" using m unfolding e by linarith+
  show "0 < (1 + x div s) * s" using s x(1) by (simp add: pos_imp_zdiv_nonneg_iff add_pos_nonneg)
  have "(1 + x div s) * s - x = - x + s * (1 + x div s)" by (simp add: mult.commute)
  then show "((1 + x div s) * s - x) mod s = (- x) mod s" by (simp only: mod_mult_self2)
qed

lemma where_lsn_val:
  assumes A: "lsn_api_ok A" and wf: "dulint_wf first" "dulint_wf lsn"
    and b: "dulint_val first < 2 ^ 62" "dulint_val lsn < 2 ^ 62" and g: "group_ok n fs"
  shows "log_calc_where_lsn_is A first lsn n fs =
    Some (word_of_int (group_pos first lsn n fs div (fs - 2048)),
          group_pos first lsn n fs mod (fs - 2048) + 2048)"
proof -
  let ?c = "fs - 2048" and ?s = "(fs - 2048) * uint n"
  let ?l = "int (dulint_val lsn)" and ?f = "int (dulint_val first)"
  have conv: "ut_conv_dulint_to_longlong A lsn = ?l" "ut_conv_dulint_to_longlong A first = ?f"
    using lsn_api_laws(3) [OF A] wf b by simp_all
  have s: "0 < ?s" "?s \<le> 2 ^ 32" "0 < ?c" "0 < uint n" and sn: "sint n = uint n"
    using g group_ok_pos [OF g] group_ok_cap [OF g] by (simp_all add: group_ok_def)
  have lf: "0 \<le> ?l" "0 \<le> ?f" "?l < 2 ^ 62" "?f < 2 ^ 62" using b by simp_all
  define l' where "l' = (if ?l < ?f then ?l + (1 + (?f - ?l) sdiv ?s) * ?c * uint n else ?l)"
  have l'_lt: "l' = ?l + (1 + (?f - ?l) div ?s) * ?s" if "?l < ?f"
    using that s by (simp add: l'_def sdiv_pos mult.assoc)
  have l': "?f \<le> l'" "l' < 2 ^ 63" "(l' - ?f) mod ?s = group_pos first lsn n fs"
    and ok: "?l < ?f \<Longrightarrow> int64_ok ((1 + (?f - ?l) sdiv ?s) * ?c * uint n) \<and> int64_ok l'"
  proof -
    have "?f \<le> l' \<and> l' < 2 ^ 63 \<and> (l' - ?f) mod ?s = group_pos first lsn n fs
      \<and> (?l < ?f \<longrightarrow> int64_ok ((1 + (?f - ?l) sdiv ?s) * ?c * uint n) \<and> int64_ok l')"
    proof (cases "?l < ?f")
      case True
      note m = next_multiple [of ?s "?f - ?l"]
      define k where "k = (1 + (?f - ?l) div ?s) * ?s"
      have k: "0 \<le> k - (?f - ?l)" "k \<le> ?f - ?l + ?s" "(k - (?f - ?l)) mod ?s = (- (?f - ?l)) mod ?s" "0 < k"
        using m True s lf unfolding k_def by simp_all
      have kk: "(1 + (?f - ?l) sdiv ?s) * ?c * uint n = k"
        using True s by (simp add: k_def sdiv_pos mult.assoc)
      have ll: "l' = ?l + k" using l'_lt [OF True] by (simp add: k_def)
      have r: "?f \<le> l'" "l' < 2 ^ 63" "k < 2 ^ 63" using k s lf unfolding ll by (simp_all; linarith)+
      have "(l' - ?f) mod ?s = group_pos first lsn n fs"
        using k(3) unfolding ll group_pos_def by (simp add: algebra_simps)
      with r k(4) show ?thesis unfolding kk int64_ok_def using lf by auto
    next
      case False
      then show ?thesis using lf by (simp add: l'_def group_pos_def)
    qed
    then show "?f \<le> l'" "l' < 2 ^ 63" "(l' - ?f) mod ?s = group_pos first lsn n fs"
      "?l < ?f \<Longrightarrow> int64_ok ((1 + (?f - ?l) sdiv ?s) * ?c * uint n) \<and> int64_ok l'" by auto
  qed
  define d where "d = l' - ?f"
  have d: "0 \<le> d" "d < 2 ^ 63" "d mod ?s = group_pos first lsn n fs" using l' lf by (simp_all add: d_def)
  have split: "group_pos first lsn n fs = ?c * (d div ?c mod uint n) + d mod ?c"
    unfolding d(3) [symmetric] using s by (simp add: zmod_zmult2_eq)
  have m: "0 \<le> d mod ?c" "d mod ?c < ?c" using s by simp_all
  have parts: "group_pos first lsn n fs div ?c = d div ?c mod uint n"
    "group_pos first lsn n fs mod ?c = d mod ?c"
    unfolding split using s m by (simp_all add: div_mult_self4 mult.commute [of ?c])
  have "d div ?c * 1 \<le> d div ?c * ?c"
    by (rule mult_left_mono) (use s d in \<open>auto simp: pos_imp_zdiv_nonneg_iff\<close>)
  moreover have "d div ?c * ?c \<le> d" using m(1) div_mult_mod_eq [of d ?c] by linarith
  ultimately have "d div ?c \<le> d" by linarith
  then have q: "0 \<le> d div ?c" "d div ?c < 2 ^ 64" using d s by (simp_all add: pos_imp_zdiv_nonneg_iff)
  have no: "word_of_int (d div ?c) mod n = word_of_int (d div ?c mod uint n)"
    by (rule word_uint_eqI)
      (use q s uint_lt2p [of n] in \<open>simp add: uint_mod uint_of_int_64 less_trans [OF pos_mod_bound]\<close>)
  have "int64_ok S" if "0 < S" "S \<le> 2 ^ 32" for S using that by (simp add: int64_ok_def)
  from this [OF s(1,2)] have "int64_ok (?c * sint n)" by (simp only: sn)
  then have c: "\<not> (?c = 0 \<or> n = 0 \<or> \<not> int64_ok (?c * sint n)
           \<or> (?l < ?f \<and> \<not> (int64_ok ((1 + (?f - ?l) sdiv (?c * sint n)) * ?c * sint n) \<and> int64_ok l'))
           \<or> \<not> ?f \<le> l')"
    using s(3,4) ok l'(1) by (auto simp: sn)
  show ?thesis
    unfolding log_calc_where_lsn_is_def Let_def conv hdr_size(2) sn l'_def [symmetric]
      if_not_P [OF c [unfolded sn]] d_def [symmetric] parts no [symmetric]
    using d s by (simp add: sdiv_pos smod_pos)
qed

section \<open>The offset in the group\<close>

text \<open>
  \<open>pos_offset\<close> puts the file headers in: the place of a position in the files taken one behind
  the other. A group tracks a first lsn when its \<open>lsn_offset\<close> is the place of its \<open>lsn\<close>.
\<close>

definition pos_offset :: "int \<Rightarrow> int \<Rightarrow> int" where
  "pos_offset p fs = p + 2048 * (1 + p div (fs - 2048))"

definition group_tracks :: "dulint \<Rightarrow> log_group \<Rightarrow> bool" where
  "group_tracks first g \<longleftrightarrow> group_ok (n_files g) (uint (file_size g))
     \<and> dulint_wf first \<and> dulint_val first < 2 ^ 62
     \<and> dulint_wf (group_lsn g) \<and> dulint_val (group_lsn g) < 2 ^ 62
     \<and> uint (lsn_offset g)
         = pos_offset (group_pos first (group_lsn g) (n_files g) (uint (file_size g))) (uint (file_size g))"

lemma pos_offset_split: "pos_offset p fs = (p div (fs - 2048)) * fs + (p mod (fs - 2048) + 2048)"
proof -
  have "p div (fs - 2048) * (fs - 2048) + p mod (fs - 2048) = p" by (rule div_mult_mod_eq)
  then show ?thesis by (simp add: pos_offset_def algebra_simps)
qed

lemma pos_offset_parts:
  assumes "2048 < fs"
  shows "pos_offset p fs div fs = p div (fs - 2048)" "pos_offset p fs mod fs = p mod (fs - 2048) + 2048"
proof -
  have m: "0 \<le> p mod (fs - 2048)" "p mod (fs - 2048) < fs - 2048" using assms by simp_all
  then have "(p mod (fs - 2048) + 2048) div fs = 0" by (intro div_pos_pos_trivial) linarith+
  then show "pos_offset p fs div fs = p div (fs - 2048)"
    unfolding pos_offset_split using assms by simp
  show "pos_offset p fs mod fs = p mod (fs - 2048) + 2048"
    unfolding pos_offset_split using assms m by (simp only: mod_mult_self3) simp
qed

lemma pos_div_bound:
  assumes "group_ok n fs" "0 \<le> p" "p < (fs - 2048) * uint n"
  shows "0 \<le> p div (fs - 2048)" "p div (fs - 2048) < uint n" "p < 2 ^ 32"
proof -
  have c: "0 < fs - 2048" using assms(1) by (simp add: group_ok_def)
  show "0 \<le> p div (fs - 2048)" using c assms(2) by (simp add: pos_imp_zdiv_nonneg_iff)
  show "p < 2 ^ 32" using assms by (simp add: group_ok_def)
  show "p div (fs - 2048) < uint n"
  proof (rule ccontr)
    assume "\<not> p div (fs - 2048) < uint n"
    then have "(fs - 2048) * uint n \<le> (fs - 2048) * (p div (fs - 2048))"
      by (intro mult_left_mono) (use c in auto)
    moreover have "(fs - 2048) * (p div (fs - 2048)) \<le> p"
      using pos_mod_sign [OF c, of p] mult_div_mod_eq [of "fs - 2048" p] by linarith
    ultimately show False using assms(3) by linarith
  qed
qed

lemma group_pos_range:
  assumes "group_ok n fs"
  shows "0 \<le> group_pos first lsn n fs" "group_pos first lsn n fs < (fs - 2048) * uint n"
  using group_ok_pos [OF assms] by (simp_all add: group_pos_def)

lemma pos_offset_bound:
  assumes "group_ok n fs" "0 \<le> p" "p < (fs - 2048) * uint n"
  shows "2048 \<le> pos_offset p fs" "pos_offset p fs < 2 ^ 45"
  using pos_div_bound [OF assms] group_ok_cap [OF assms(1)] assms(2) by (simp_all add: pos_offset_def)

lemma uint_hdr_mult:
  assumes "uint q < 2 ^ 33"
  shows "uint (LOG_FILE_HDR_SIZE * (1 + q)) = 2048 * (1 + uint q)"
proof -
  have "uint (1 + q) = 1 + uint q"
    unfolding uint_word_ariths(1) using assms by simp
  then show ?thesis
    unfolding uint_word_ariths(3) hdr_size(2) using assms by simp
qed

lemma uint_size_offset:
  assumes g: "group_ok (n_files g) (uint (file_size g))" and p: "0 \<le> p" "p < (uint (file_size g) - 2048) * uint (n_files g)"
    and w: "uint w = pos_offset p (uint (file_size g))"
  shows "uint (log_group_calc_size_offset w g) = p"
proof -
  let ?q = "w div file_size g"
  note b = pos_div_bound [OF g p] pos_offset_bound [OF g p]
  have q: "uint ?q = p div (uint (file_size g) - 2048)"
    using g by (simp add: uint_div w pos_offset_parts group_ok_def)
  have "uint (LOG_FILE_HDR_SIZE * (1 + ?q)) = 2048 * (1 + uint ?q)"
    using b group_ok_cap(2) [OF g] by (intro uint_hdr_mult) (simp add: q)
  then have h: "uint w - uint (LOG_FILE_HDR_SIZE * (1 + ?q)) = p" by (simp add: w q pos_offset_def)
  show ?thesis
    unfolding log_group_calc_size_offset_def uint_word_ariths(2) h using p b by simp
qed

lemma uint_real_offset:
  assumes g: "group_ok (n_files g) (uint (file_size g))" and p: "uint w < (uint (file_size g) - 2048) * uint (n_files g)"
  shows "uint (log_group_calc_real_offset w g) = pos_offset (uint w) (uint (file_size g))"
proof -
  let ?q = "w div (file_size g - LOG_FILE_HDR_SIZE)"
  have p0: "0 \<le> uint w" by simp
  note b = pos_div_bound [OF g p0 p] pos_offset_bound [OF g p0 p]
  have c: "uint (file_size g - LOG_FILE_HDR_SIZE) = uint (file_size g) - 2048"
    unfolding uint_word_ariths(2) hdr_size(2)
    using g uint_lt2p [of "file_size g"] by (simp add: group_ok_def)
  have q: "uint ?q = uint w div (uint (file_size g) - 2048)" by (simp only: uint_div c)
  have "uint (LOG_FILE_HDR_SIZE * (1 + ?q)) = 2048 * (1 + uint ?q)"
    using b group_ok_cap(2) [OF g] by (intro uint_hdr_mult) (simp add: q)
  then have "uint w + uint (LOG_FILE_HDR_SIZE * (1 + ?q)) = pos_offset (uint w) (uint (file_size g))"
    by (simp only: q pos_offset_def)
  then show ?thesis
    unfolding log_group_calc_real_offset_def uint_word_ariths(1) using b by simp
qed

lemma uint_capacity:
  assumes g: "group_ok (n_files g) (uint (file_size g))"
  shows "uint (log_group_get_capacity g) = (uint (file_size g) - 2048) * uint (n_files g)"
proof -
  have c: "uint (file_size g - LOG_FILE_HDR_SIZE) = uint (file_size g) - 2048"
    unfolding uint_word_ariths(2) hdr_size(2)
    using g uint_lt2p [of "file_size g"] by (simp add: group_ok_def)
  have "0 < (uint (file_size g) - 2048) * uint (n_files g)" "(uint (file_size g) - 2048) * uint (n_files g) \<le> 2 ^ 32"
    using g group_ok_pos [OF g] by (simp_all add: group_ok_def)
  then show ?thesis unfolding log_group_get_capacity_def uint_word_ariths(3) c by simp
qed

lemma wrapped_difference:
  assumes s: "0 < (s :: int)" and l: "l < g"
  shows "(((g - f) mod s) + (s - (g - l) mod s)) mod s = (l - f) mod s"
proof -
  have "((g - f) mod s + (s - (g - l) mod s)) mod s = ((g - f) - (g - l) + s) mod s"
    by (metis add.commute add_diff_eq mod_add_left_eq mod_diff_right_eq)
  then show ?thesis by simp
qed

lemma lsn_offset_val:
  assumes A: "lsn_api_ok A" and g: "group_tracks first g"
    and wf: "dulint_wf lsn" and b: "dulint_val lsn < 2 ^ 62"
    and near: "\<bar>int (dulint_val lsn) - int (dulint_val (group_lsn g))\<bar> < 2 ^ 32"
  obtains w where "log_group_calc_lsn_offset A lsn g = Some w"
    and "uint w = pos_offset (group_pos first lsn (n_files g) (uint (file_size g))) (uint (file_size g))"
proof -
  let ?fs = "uint (file_size g)" and ?n = "n_files g"
  let ?l = "int (dulint_val lsn)" and ?g = "int (dulint_val (group_lsn g))" and ?f = "int (dulint_val first)"
  define s where "s = (?fs - 2048) * uint ?n"
  have ok: "group_ok ?n ?fs" and gwf: "dulint_wf (group_lsn g)" "dulint_val (group_lsn g) < 2 ^ 62"
    and off: "uint (lsn_offset g) = pos_offset (group_pos first (group_lsn g) ?n ?fs) ?fs"
    using g by (simp_all add: group_tracks_def)
  have s: "0 < s" "s \<le> 2 ^ 32" using group_ok_pos [OF ok] ok by (simp_all add: s_def group_ok_def)
  have pg: "group_pos first x ?n ?fs = (int (dulint_val x) - ?f) mod s" for x by (simp add: group_pos_def s_def)
  have m: "0 \<le> x mod s" "x mod s < s" for x using s by simp_all
  have cap: "sint (log_group_get_capacity g) = s"
    using uint_capacity [OF ok] s by (simp add: sint_uint_64 s_def)
  have so: "sint (log_group_calc_size_offset (lsn_offset g) g) = (?g - ?f) mod s"
    using uint_size_offset [OF ok group_pos_range [OF ok] off]
      less_le_trans [OF m(2) [of "?g - ?f"], of "2 ^ 63"] s
    by (subst sint_uint_64) (simp_all add: pg)
  have cmp: "0 \<le> ut_dulint_cmp A lsn (group_lsn g) \<longleftrightarrow> ?g \<le> ?l"
    using lsn_cmp_ge [OF A wf gwf(1)] by simp
  have up: "sint (ut_dulint_minus A lsn (group_lsn g)) = ?l - ?g" if "?g \<le> ?l"
    using lsn_api_laws(2) [OF A wf gwf(1)] that near
    by (subst sint_uint_64) (simp_all add: uint_nat of_nat_diff)
  have down: "sint (ut_dulint_minus A (group_lsn g) lsn) smod s = (?g - ?l) mod s" if "\<not> ?g \<le> ?l"
  proof -
    have "sint (ut_dulint_minus A (group_lsn g) lsn) = ?g - ?l"
      using lsn_api_laws(2) [OF A gwf(1) wf] that near
      by (subst sint_uint_64) (simp_all add: uint_nat of_nat_diff)
    then show ?thesis using that s by (simp add: smod_pos)
  qed
  define d where "d = (if ?g \<le> ?l then ?l - ?g else s - (?g - ?l) mod s)"
  have d: "0 \<le> d" "d < 2 ^ 33" "((?g - ?f) mod s + d) mod s = (?l - ?f) mod s"
    using near s m [of "?g - ?l"] wrapped_difference [OF s(1), of ?l ?g ?f]
    by (auto simp: d_def mod_add_left_eq)
  have "int64_ok (q + d)" if "0 \<le> q" "q < s" for q
    using d(1,2) that s by (simp add: int64_ok_def)
  with m have i2: "int64_ok ((?g - ?f) mod s + d)" by blast
  have i1: "int64_ok d" using d by (simp add: int64_ok_def)
  have sm: "((?g - ?f) mod s + d) smod s = (?l - ?f) mod s"
    using d(1,3) m [of "?g - ?f"] s by (simp add: smod_pos)
  have dd: "(if 0 \<le> ut_dulint_cmp A lsn (group_lsn g) then sint (ut_dulint_minus A lsn (group_lsn g))
      else s - sint (ut_dulint_minus A (group_lsn g) lsn) smod s) = d"
    using up down by (simp add: cmp d_def)
  have "x \<le> 0xFFFFFFFF" if "x < s" for x using that s by simp
  with m(2) have "(?l - ?f) mod s \<le> 0xFFFFFFFF" by blast
  moreover have "s \<noteq> 0" using s by simp
  ultimately have r: "log_group_calc_lsn_offset A lsn g =
      Some (log_group_calc_real_offset (word_of_int ((?l - ?f) mod s)) g)"
    by (simp only: log_group_calc_lsn_offset_def Let_def cap so dd sm i1 i2 simp_thms if_False if_True)
  have u: "uint (word_of_int ((?l - ?f) mod s) :: ulint) = (?l - ?f) mod s"
    using less_le_trans [OF m(2) [of "?l - ?f"], of "2 ^ 64"] s by (intro uint_of_int_64) simp_all
  show thesis
    by (rule that [OF r]) (use uint_real_offset [OF ok, of "word_of_int ((?l - ?f) mod s)"] m [of "?l - ?f"] in
      \<open>simp add: u pg s_def [symmetric]\<close>)
qed


text \<open> C23.
  The two computations of the place of an lsn agree. For a group that tracks the first lsn,
  \<open>log_calc_where_lsn_is\<close> gives a file of the group and a place behind its header, and
  \<open>log_group_calc_lsn_offset\<close> gives exactly that place in the files laid end to end, for every
  lsn before or behind the one the group holds; no assertion fails and no 64 bit number overflows.
  \<open>log_group_set_fields\<close> keeps the group tracking.\<close>

theorem log_lsn_place:
  assumes "lsn_api_ok A" and "group_tracks first g"
    and "dulint_wf lsn" and "dulint_val lsn < 2 ^ 62"
    and "\<bar>int (dulint_val lsn) - int (dulint_val (group_lsn g))\<bar> < 2 ^ 32"
  shows "\<exists>no off w g'. log_calc_where_lsn_is A first lsn (n_files g) (uint (file_size g)) = Some (no, off)
    \<and> no < n_files g \<and> uint LOG_FILE_HDR_SIZE \<le> off \<and> off < uint (file_size g)
    \<and> log_group_calc_lsn_offset A lsn g = Some w
    \<and> uint w = uint no * uint (file_size g) + off
    \<and> log_group_set_fields A g lsn = Some g' \<and> group_tracks first g' \<and> group_lsn g' = lsn"
proof -
  let ?fs = "uint (file_size g)" and ?n = "n_files g"
  let ?p = "group_pos first lsn ?n ?fs"
  have ok: "group_ok ?n ?fs" and f: "dulint_wf first" "dulint_val first < 2 ^ 62"
    using assms(2) by (simp_all add: group_tracks_def)
  obtain w where w: "log_group_calc_lsn_offset A lsn g = Some w" "uint w = pos_offset ?p ?fs"
    by (rule lsn_offset_val [OF assms])
  note b = pos_div_bound [OF ok group_pos_range [OF ok, of first lsn]]
  have no: "uint (word_of_int (?p div (?fs - 2048)) :: ulint) = ?p div (?fs - 2048)"
    using b group_ok_cap(2) [OF ok] by (intro uint_of_int_64) simp_all
  have m: "0 \<le> ?p mod (?fs - 2048)" "?p mod (?fs - 2048) < ?fs - 2048"
    using ok by (simp_all add: group_ok_def)
  have "log_group_set_fields A g lsn = Some (g\<lparr>lsn_offset := w, group_lsn := lsn\<rparr>)"
    by (simp add: log_group_set_fields_def w)
  moreover have "group_tracks first (g\<lparr>lsn_offset := w, group_lsn := lsn\<rparr>)"
    using ok f assms(3,4) w(2) by (simp add: group_tracks_def)
  moreover have "word_of_int (?p div (?fs - 2048)) < ?n" by (simp only: word_less_def no b)
  ultimately show ?thesis
    using where_lsn_val [OF assms(1) f(1) assms(3) f(2) assms(4) ok] w m
    by (fastforce simp: no pos_offset_split hdr_size)
qed

definition group0 :: log_group where
  "group0 = \<lparr>group_id = 0, n_files = 2, file_size = 6144, group_lsn = dulint_of_nat 8192,
     lsn_offset = 2048, group_n_pending_writes = 0, file_header_bufs = [0, 2048]\<rparr>"

lemma group0_tracks: "group_tracks (dulint_of_nat 8192) group0"
  by (simp add: group_tracks_def group0_def group_ok_def group_pos_def pos_offset_def dulint_of_nat_val)

text \<open>The group above and an lsn one file further on: the place is in the second file.\<close>

lemma log_lsn_place_witness:
  "\<exists>no off w g'. log_calc_where_lsn_is lsn_ref (dulint_of_nat 8192) (dulint_of_nat 12400) (n_files group0)
       (uint (file_size group0)) = Some (no, off)
    \<and> no < n_files group0 \<and> uint LOG_FILE_HDR_SIZE \<le> off \<and> off < uint (file_size group0)
    \<and> log_group_calc_lsn_offset lsn_ref (dulint_of_nat 12400) group0 = Some w
    \<and> uint w = uint no * uint (file_size group0) + off
    \<and> log_group_set_fields lsn_ref group0 (dulint_of_nat 12400) = Some g'
    \<and> group_tracks (dulint_of_nat 8192) g' \<and> group_lsn g' = dulint_of_nat 12400"
  by (rule log_lsn_place [OF lsn_ref_ok group0_tracks])
    (simp_all add: dulint_of_nat_val group0_def)

end
