(* ===== verification/Log_Write.thy ===== *)
theory Log_Write
  imports Log_Group
begin

text \<open>
  The write of a part of the log buffer to the files of a group. The state is the memory of the
  process with the log buffer, the content of the group's log space, and the IO counter;
  \<open>fil_io\<close> of page and offset is a store at the byte address they denote.
\<close>

section \<open>Writing the log buffer\<close>

record log_io =
  io_mem :: mem
  io_file :: mem
  n_log_ios :: ulint

definition fil_write :: "nat \<Rightarrow> ptr \<Rightarrow> nat \<Rightarrow> log_io \<Rightarrow> log_io" where
  "fil_write off p n io =
     io\<lparr>io_file := mem_put (io_file io) off (mem_bytes (io_mem io) p n),
       n_log_ios := n_log_ios io + 1\<rparr>"

definition LOG_GROUP_ID :: nat where "LOG_GROUP_ID = 0"
definition LOG_FILE_START_LSN :: nat where "LOG_FILE_START_LSN = 4"
definition LOG_FILE_WAS_CREATED_BY_HOT_BACKUP :: nat where "LOG_FILE_WAS_CREATED_BY_HOT_BACKUP = 16"

definition log_group_file_header_flush ::
    "lsn_api \<Rightarrow> bool \<Rightarrow> log_group \<Rightarrow> ulint \<Rightarrow> dulint \<Rightarrow> log_io \<Rightarrow> log_io option" where
  "log_group_file_header_flush A log_do_write g nth_file start_lsn io =
     (if \<not> nth_file < n_files g then None
      else let buf = file_header_bufs g ! unat nth_file;
          m = mach_write_to_4 (io_mem io) (buf + LOG_GROUP_ID) (group_id g);
          m = mach_write_to_8 (dulint_api.truncate A) m (buf + LOG_FILE_START_LSN) start_lsn;
          m = mem_put m (buf + LOG_FILE_WAS_CREATED_BY_HOT_BACKUP) [32, 32, 32, 32];
          io = io\<lparr>io_mem := m\<rparr>;
          dest_offset = nth_file * file_size g
      in Some (if log_do_write then fil_write (unat dest_offset) buf OS_FILE_LOG_BLOCK_SIZE io else io))"

fun store_checksums :: "mem \<Rightarrow> ptr \<Rightarrow> nat \<Rightarrow> mem" where
  "store_checksums m p 0 = m"
| "store_checksums m p (Suc k) = store_checksums (log_block_store_checksum m p) (p + OS_FILE_LOG_BLOCK_SIZE) k"

text \<open>
  One round of the loop of \<open>log_group_write_buf\<close>: the file header where the part starts a file,
  the length that fits in the file, the checksums and the write. The source's \<open>for(log_do_write)\<close>
  is read as the \<open>if\<close> that it stands for. A file size of zero is a division by zero.
\<close>

definition write_part ::
    "lsn_api \<Rightarrow> bool \<Rightarrow> log_group \<Rightarrow> ptr \<Rightarrow> ulint \<Rightarrow> dulint \<Rightarrow> bool \<Rightarrow> log_io \<Rightarrow> (log_io \<times> ulint) option" where
  "write_part A log_do_write g buf len start_lsn write_header io =
     (if file_size g = 0 then None
      else case log_group_calc_lsn_offset A start_lsn g of None \<Rightarrow> None
      | Some next_offset \<Rightarrow>
        (case (if next_offset mod file_size g = LOG_FILE_HDR_SIZE \<and> write_header
               then log_group_file_header_flush A log_do_write g (next_offset div file_size g) start_lsn io
               else Some io) of None \<Rightarrow> None
         | Some io \<Rightarrow>
           let write_len = (if file_size g < next_offset mod file_size g + len
                            then file_size g - next_offset mod file_size g else len);
               io = io\<lparr>io_mem := store_checksums (io_mem io) buf (unat (write_len div 512))\<rparr>;
               io = (if log_do_write then fil_write (unat next_offset) buf (unat write_len) io else io)
           in Some (io, write_len)))"

lemma write_part_progress:
  assumes "write_part A dw g buf l lsn h io = Some (io', wl)" and "l \<noteq> 0"
  shows "0 < wl"
proof -
  have fs: "file_size g \<noteq> 0" using assms(1) by (auto simp: write_part_def split: if_splits)
  have "x mod file_size g < file_size g" for x using fs by (simp add: word_mod_less_divisor word_gt_0)
  then have "file_size g - x mod file_size g \<noteq> 0" for x by (metis eq_iff_diff_eq_0 less_irrefl)
  then have "\<not> (file_size g - x mod file_size g = 0)" for x .
  with assms show ?thesis
    by (auto simp: write_part_def Let_def word_gt_0 split: if_splits option.splits) metis+
qed

function write_buf_loop ::
    "lsn_api \<Rightarrow> bool \<Rightarrow> log_group \<Rightarrow> ptr \<Rightarrow> ulint \<Rightarrow> dulint \<Rightarrow> bool \<Rightarrow> log_io \<Rightarrow> log_io option" where
  "write_buf_loop A dw g buf l start_lsn write_header io =
     (if l = 0 then Some io
      else case write_part A dw g buf l start_lsn write_header io of None \<Rightarrow> None
      | Some (io', write_len) \<Rightarrow>
        if write_len < l
        then write_buf_loop A dw g (buf + unat write_len) (l - write_len)
               (ut_dulint_add A start_lsn write_len) True io'
        else Some io')"
  by pat_completeness auto
termination
proof (relation "measure (\<lambda>(A, dw, g, buf, l, lsn, h, io). unat l)", goal_cases)
  case (2 A dw g buf l lsn h io x io' wl)
  then have "0 < wl" by (auto intro: write_part_progress)
  with 2 show ?case by (simp add: unat_sub word_less_nat_alt order_less_imp_le unat_gt_0)
qed simp

declare write_buf_loop.simps [simp del]

definition log_group_write_buf ::
    "lsn_api \<Rightarrow> bool \<Rightarrow> log_group \<Rightarrow> ptr \<Rightarrow> ulint \<Rightarrow> dulint \<Rightarrow> ulint \<Rightarrow> log_io \<Rightarrow> log_io option" where
  "log_group_write_buf A dw g buf l start_lsn new_data_offset io =
     (if l mod 512 \<noteq> 0 \<or> ut_dulint_get_low A start_lsn mod 512 \<noteq> 0 then None
      else write_buf_loop A dw g buf l start_lsn (new_data_offset = 0) io)"

section \<open>Places in the file space\<close>

text \<open>The byte of the group's space that holds the byte of the log with the lsn \<open>v\<close>.\<close>

definition lsn_pos :: "dulint \<Rightarrow> log_group \<Rightarrow> nat \<Rightarrow> int" where
  "lsn_pos first g v =
     (int v - int (dulint_val first)) mod ((uint (file_size g) - 2048) * uint (n_files g))"

definition lsn_place :: "dulint \<Rightarrow> log_group \<Rightarrow> nat \<Rightarrow> nat" where
  "lsn_place first g v = nat (pos_offset (lsn_pos first g v) (uint (file_size g)))"

definition group_space :: "log_group \<Rightarrow> nat" where
  "group_space g = nat ((uint (file_size g) - 2048) * uint (n_files g))"

lemma lsn_pos_range:
  assumes "group_ok (n_files g) (uint (file_size g))"
  shows "0 \<le> lsn_pos first g v" "lsn_pos first g v < (uint (file_size g) - 2048) * uint (n_files g)"
  using group_ok_pos [OF assms] by (simp_all add: lsn_pos_def)

lemma int_lsn_place:
  assumes "group_ok (n_files g) (uint (file_size g))"
  shows "int (lsn_place first g v) = pos_offset (lsn_pos first g v) (uint (file_size g))"
  using pos_offset_bound(1) [OF assms lsn_pos_range [OF assms, of first v]] by (simp add: lsn_place_def)

lemma lsn_place_mod:
  assumes "group_ok (n_files g) (uint (file_size g))"
  shows "int (lsn_place first g v mod unat (file_size g)) = lsn_pos first g v mod (uint (file_size g) - 2048) + 2048"
    "int (lsn_place first g v div unat (file_size g)) = lsn_pos first g v div (uint (file_size g) - 2048)"
  using assms by (simp_all add: zmod_int zdiv_int int_lsn_place pos_offset_parts group_ok_def)

lemma lsn_place_behind_header:
  assumes "group_ok (n_files g) (uint (file_size g))"
  shows "2048 \<le> lsn_place first g v mod unat (file_size g)"
proof -
  have "0 \<le> lsn_pos first g v mod (uint (file_size g) - 2048)" using assms by (simp add: group_ok_def)
  then show ?thesis using lsn_place_mod(1) [OF assms, of first v] by linarith
qed

lemma lsn_place_next:
  assumes ok: "group_ok (n_files g) (uint (file_size g))"
    and i: "lsn_place first g v mod unat (file_size g) + i < unat (file_size g)"
  shows "lsn_place first g (v + i) = lsn_place first g v + i"
proof -
  let ?c = "uint (file_size g) - 2048" and ?n = "uint (n_files g)"
  define p where "p = lsn_pos first g v"
  have c: "0 < ?c" using ok by (simp add: group_ok_def)
  have "int (lsn_place first g v mod unat (file_size g) + i) < int (unat (file_size g))"
    using i by (simp only: of_nat_less_iff)
  then have "p mod ?c + int i < ?c"
    by (simp only: of_nat_add lsn_place_mod(1) [OF ok] p_def uint_nat [symmetric])
  then have r: "p mod ?c + int i < ?c" "0 \<le> p mod ?c" using c by simp_all
  have p: "0 \<le> p" "p < ?c * ?n" using lsn_pos_range [OF ok] by (simp_all add: p_def)
  have q: "p div ?c < ?n" using pos_div_bound(2) [OF ok p] .
  have pe: "p = ?c * (p div ?c) + p mod ?c" by simp
  have "?c * (p div ?c) + ?c \<le> ?c * ?n"
    using mult_left_mono [of "p div ?c + 1" ?n ?c] q c by (simp add: distrib_left)
  then have lt: "p + int i < ?c * ?n" using pe r by linarith
  have "lsn_pos first g (v + i) = (p + int i) mod (?c * ?n)"
    unfolding p_def lsn_pos_def by (simp add: mod_simps algebra_simps)
  also have "\<dots> = p + int i" using lt p by simp
  finally have pos: "lsn_pos first g (v + i) = p + int i" .
  have "(p + int i) div ?c = p div ?c"
  proof -
    have "(c * d + (m + k)) div c = d" if "0 < c" "0 \<le> m" "0 \<le> k" "m + k < c" for c d m k :: int
      using that by simp
    from this [OF c r(2) _ r(1), of "p div ?c"] show ?thesis by (simp add: add.assoc [symmetric])
  qed
  then have "int (lsn_place first g (v + i)) = int (lsn_place first g v + i)"
    by (simp add: int_lsn_place [OF ok] pos pos_offset_def p_def [symmetric])
  then show ?thesis by (simp only: of_nat_eq_iff)
qed

lemma pos_offset_inj:
  assumes "2048 < fs" "pos_offset p fs = pos_offset q fs"
  shows "p = q"
  using pos_offset_parts [OF assms(1), of p] pos_offset_parts [OF assms(1), of q] assms(2)
  by (metis add_right_cancel div_mult_mod_eq)

lemma lsn_place_inj:
  assumes ok: "group_ok (n_files g) (uint (file_size g))"
    and e: "lsn_place first g (v + i) = lsn_place first g (v + j)"
    and lt: "i < group_space g" "j < group_space g"
  shows "i = j"
proof -
  define s where "s = (uint (file_size g) - 2048) * uint (n_files g)"
  have s: "int i < s" "int j < s" using lt group_ok_pos [OF ok] by (simp_all add: group_space_def s_def)
  have "lsn_pos first g (v + i) = lsn_pos first g (v + j)"
    using e int_lsn_place [OF ok, of first "v + i"] int_lsn_place [OF ok, of first "v + j"] ok
    by (auto intro: pos_offset_inj simp: group_ok_def)
  then have "(int (v + i) - int (dulint_val first)) mod s = (int (v + j) - int (dulint_val first)) mod s"
    by (simp only: lsn_pos_def s_def)
  then have "s dvd int i - int j" by (simp add: mod_eq_dvd_iff)
  moreover have "\<bar>int i - int j\<bar> < s" using s by linarith
  ultimately have "int i - int j = 0" using dvd_imp_le_int [of "int i - int j" s] by linarith
  then show ?thesis by simp
qed

section \<open>What a write leaves behind\<close>

definition in_trailer :: "ptr \<Rightarrow> nat \<Rightarrow> ptr \<Rightarrow> bool" where
  "in_trailer buf k q \<longleftrightarrow> buf \<le> q \<and> q < buf + k \<and> 508 \<le> (q - buf) mod 512"

definition in_header_buf :: "log_group \<Rightarrow> ptr \<Rightarrow> bool" where
  "in_header_buf g q \<longleftrightarrow> (\<exists>h \<in> set (file_header_bufs g). h \<le> q \<and> q < h + 512)"

text \<open>
  \<open>flushed\<close>: the \<open>k\<close> bytes of the log from the lsn \<open>v\<close>, at \<open>buf\<close> in memory, are in the files at
  their places; nothing else of the files' data areas changed; memory changed in the trailers of
  the blocks and in the file header buffers only; every block has its checksum.
\<close>

definition flushed :: "dulint \<Rightarrow> log_group \<Rightarrow> nat \<Rightarrow> nat \<Rightarrow> ptr \<Rightarrow> log_io \<Rightarrow> log_io \<Rightarrow> bool" where
  "flushed first g v k buf io io' \<longleftrightarrow>
     (\<forall>i < k. io_file io' (lsn_place first g (v + i)) = io_mem io' (buf + i))
   \<and> (\<forall>q. (\<forall>i < k. q \<noteq> lsn_place first g (v + i)) \<and> 2048 \<le> q mod unat (file_size g)
        \<longrightarrow> io_file io' q = io_file io q)
   \<and> (\<forall>q. \<not> in_trailer buf k q \<and> \<not> in_header_buf g q \<longrightarrow> io_mem io' q = io_mem io q)
   \<and> (\<forall>j. 512 * j < k \<longrightarrow> log_block_calc_checksum (io_mem io') (buf + 512 * j)
        = log_block_get_checksum (io_mem io') (buf + 512 * j))"

lemma in_trailer_append:
  assumes "512 dvd k" "in_trailer (buf + k) k' q" shows "in_trailer buf (k + k') q"
proof -
  have "buf + k \<le> q" using assms(2) by (simp add: in_trailer_def)
  then obtain d where "q = buf + k + d" using le_Suc_ex by blast
  with assms(2) have d: "q = buf + k + d" "d < k'" "508 \<le> d mod 512" by (simp_all add: in_trailer_def)
  obtain e where "k = 512 * e" using assms(1) ..
  with d show ?thesis by (simp add: in_trailer_def add.assoc)
qed

lemma in_trailer_mono: "in_trailer buf k q \<Longrightarrow> k \<le> k' \<Longrightarrow> in_trailer buf k' q"
  by (auto simp: in_trailer_def)

lemma read_4_cong:
  assumes "\<And>j. j < 4 \<Longrightarrow> m (p + j) = m' (p + j)"
  shows "mach_read_from_4 m p = mach_read_from_4 m' p"
  using assms [of 0] assms [of 1] assms [of 2] assms [of 3] by (simp only: mach_read_from_4_def) simp

text \<open>Equal memory on a block gives equal checksums.\<close>

lemma block_sums_cong:
  assumes "\<And>i. i < 512 \<Longrightarrow> m (b + i) = m' (b + i)"
  shows "log_block_calc_checksum m b = log_block_calc_checksum m' b"
    "log_block_get_checksum m b = log_block_get_checksum m' b"
  using calc_checksum_cong [of m b m' b] assms
  by (simp_all add: log_block_get_checksum_def log_block_layout add.assoc read_4_cong [of m "b + 508" m'])

lemma store_checksums_spec:
  "(\<not> in_trailer p (512 * k) q \<longrightarrow> store_checksums m p k q = m q)
   \<and> (\<forall>j < k. log_block_calc_checksum (store_checksums m p k) (p + 512 * j)
        = log_block_get_checksum (store_checksums m p k) (p + 512 * j))"
proof (induction k arbitrary: m p q)
  case (Suc k)
  let ?m = "log_block_store_checksum m p" and ?r = "store_checksums (log_block_store_checksum m p) (p + 512) k"
  have r: "store_checksums m p (Suc k) = ?r" by (simp add: OS_FILE_LOG_BLOCK_SIZE_def)
  have keep: "?r q = ?m q" if "q < p + 512" for q
    using Suc.IH [of "p + 512" q ?m] that by (simp add: in_trailer_def)
  have "?r q = m q" if "\<not> in_trailer p (512 * Suc k) q"
  proof -
    have "\<not> in_trailer (p + 512) (512 * k) q"
      using that in_trailer_append [of 512 p "512 * k" q] by auto
    then have "?r q = ?m q" using Suc.IH [of "p + 512" q ?m] by simp
    moreover have "q < p + 508 \<or> p + 512 \<le> q"
    proof (rule ccontr)
      assume "\<not> ?thesis"
      then have "(q - p) mod 512 = q - p" "508 \<le> q - p" "p \<le> q" by auto
      with that \<open>\<not> ?thesis\<close> show False by (auto simp: in_trailer_def)
    qed
    ultimately show ?thesis by (simp add: store_checksum_frame)
  qed
  moreover have "log_block_calc_checksum ?r (p + 512 * j) = log_block_get_checksum ?r (p + 512 * j)"
    if "j < Suc k" for j
  proof (cases j)
    case 0
    have "log_block_calc_checksum ?r p = log_block_calc_checksum ?m p"
      "log_block_get_checksum ?r p = log_block_get_checksum ?m p"
      by (rule block_sums_cong, simp add: keep)+
    then show ?thesis using 0 by (simp add: store_checksum_calc store_checksum_get)
  next
    case (Suc i)
    with that Suc.IH [of "p + 512" 0 ?m] show ?thesis by (simp add: add.assoc)
  qed
  ultimately show ?case unfolding r by blast
qed simp

lemma flushed_append:
  assumes ok: "group_ok (n_files g) (uint (file_size g))"
    and k: "512 dvd k" "k + k' \<le> group_space g"
    and bufs: "\<And>q. buf \<le> q \<Longrightarrow> q < buf + k \<Longrightarrow> \<not> in_header_buf g q"
    and a: "flushed first g v k buf io io1" and b: "flushed first g (v + k) k' (buf + k) io1 io2"
  shows "flushed first g v (k + k') buf io io2"
proof -
  note A = a [unfolded flushed_def] and B = b [unfolded flushed_def]
  have mem: "io_mem io2 q = io_mem io1 q" if "buf \<le> q" "q < buf + k" for q
    using B bufs [OF that] that by (simp add: in_trailer_def)
  have stored: "io_file io2 (lsn_place first g (v + i)) = io_mem io2 (buf + i)" if i: "i < k + k'" for i
  proof (cases "i < k")
    case True
    have "lsn_place first g (v + i) \<noteq> lsn_place first g (v + k + i')" if "i' < k'" for i'
      using lsn_place_inj [OF ok, of first v i "k + i'"] that True k(2) by (auto simp: add.assoc)
    then have "io_file io2 (lsn_place first g (v + i)) = io_file io1 (lsn_place first g (v + i))"
      using B lsn_place_behind_header [OF ok] by auto
    with A True mem [of "buf + i"] show ?thesis by simp
  next
    case False
    then obtain d where "i = k + d" using le_Suc_ex by (auto simp: not_less)
    with B i show ?thesis by (simp add: add.assoc)
  qed
  have out: "io_file io2 q = io_file io q"
    if "\<forall>i < k + k'. q \<noteq> lsn_place first g (v + i)" "2048 \<le> q mod unat (file_size g)" for q
  proof -
    have "io_file io2 q = io_file io1 q"
      using B that(2) that(1) [rule_format, of "k + _"] by (simp add: add.assoc)
    also have "\<dots> = io_file io q" using A that by simp
    finally show ?thesis .
  qed
  have m: "io_mem io2 q = io_mem io q" if "\<not> in_trailer buf (k + k') q" "\<not> in_header_buf g q" for q
    using A B that in_trailer_append [OF k(1), of buf k' q] in_trailer_mono [of buf k q "k + k'"] by force
  have sums: "log_block_calc_checksum (io_mem io2) (buf + 512 * j) = log_block_get_checksum (io_mem io2) (buf + 512 * j)"
    if "512 * j < k + k'" for j
  proof (cases "512 * j < k")
    case True
    with k(1) have "512 * j + 512 \<le> k" by (auto elim!: dvdE)
    then have "io_mem io2 (buf + 512 * j + i) = io_mem io1 (buf + 512 * j + i)" if "i < 512" for i
      using that by (intro mem) auto
    note c = block_sums_cong [of "io_mem io2" "buf + 512 * j" "io_mem io1", OF this]
    show ?thesis using c A True by simp
  next
    case False
    obtain e where e: "k = 512 * e" using k(1) ..
    with False obtain d where "j = e + d" using le_Suc_ex by (auto simp: not_less)
    with B that e show ?thesis by (simp add: distrib_left add.assoc)
  qed
  show ?thesis unfolding flushed_def using stored out m sums by blast
qed

section \<open>One part\<close>

definition log_geometry :: "dulint \<Rightarrow> log_group \<Rightarrow> bool" where
  "log_geometry first g \<longleftrightarrow> group_tracks first g \<and> 512 dvd unat (file_size g)
     \<and> 512 dvd dulint_val first \<and> length (file_header_bufs g) = unat (n_files g)"

lemma between_offset:
  assumes "\<not> (q < a \<or> a + k \<le> (q :: nat))"
  obtains d where "q = a + d" and "d < k"
  by (rule that [of "q - a"]) (use assms in auto)

lemma write_8_frame:
  "i < b \<or> b + 8 \<le> i \<Longrightarrow> mach_write_to_8 D m b d i = m i"
  by (auto simp: mach_write_to_8_def write_4_frame)

lemma header_flush_frame:
  assumes n: "nth_file < n_files g" and len: "length (file_header_bufs g) = unat (n_files g)"
    and fit: "unat nth_file * unat (file_size g) < 2 ^ 64"
  obtains io' where "log_group_file_header_flush A dw g nth_file lsn io = Some io'"
    and "\<And>q. \<not> in_header_buf g q \<Longrightarrow> io_mem io' q = io_mem io q"
    and "\<And>q. 2048 \<le> q mod unat (file_size g) \<Longrightarrow> io_file io' q = io_file io q"
proof -
  let ?b = "file_header_bufs g ! unat nth_file"
  let ?m = "mem_put (mach_write_to_8 (dulint_api.truncate A) (mach_write_to_4 (io_mem io) (?b + LOG_GROUP_ID) (group_id g))
      (?b + LOG_FILE_START_LSN) lsn) (?b + LOG_FILE_WAS_CREATED_BY_HOT_BACKUP) [32, 32, 32, 32]"
  let ?io = "io\<lparr>io_mem := ?m\<rparr>"
  let ?r = "if dw then fil_write (unat (nth_file * file_size g)) ?b OS_FILE_LOG_BLOCK_SIZE ?io else ?io"
  have in_set: "?b \<in> set (file_header_bufs g)" using n len by (simp add: word_less_nat_alt)
  have "?m q = io_mem io q" if "q < ?b \<or> ?b + 512 \<le> q" for q
    using that by (auto simp: mem_put_outside write_8_frame write_4_frame LOG_GROUP_ID_def
        LOG_FILE_START_LSN_def LOG_FILE_WAS_CREATED_BY_HOT_BACKUP_def)
  then have "io_mem ?r q = io_mem io q" if "\<not> in_header_buf g q" for q
    using that in_set by (auto simp: fil_write_def in_header_buf_def not_less not_le)
  moreover have "io_file ?r q = io_file io q" if q: "2048 \<le> q mod unat (file_size g)" for q
  proof -
    have off: "unat (nth_file * file_size g) = unat nth_file * unat (file_size g)"
      using fit by (simp add: unat_word_ariths)
    have "q < unat nth_file * unat (file_size g) \<or> unat nth_file * unat (file_size g) + 512 \<le> q"
    proof (rule ccontr)
      assume "\<not> ?thesis"
      then obtain d where d: "q = unat nth_file * unat (file_size g) + d" "d < 512"
        by (rule between_offset)
      then have "q mod unat (file_size g) = d mod unat (file_size g)" by simp
      also have "\<dots> \<le> d" by simp
      finally show False using q d(2) by simp
    qed
    then show ?thesis by (auto simp: fil_write_def mem_put_outside off OS_FILE_LOG_BLOCK_SIZE_def)
  qed
  ultimately show thesis
    using n by (intro that [of ?r]) (simp_all add: log_group_file_header_flush_def Let_def)
qed

text \<open>The write of one part whose bytes lie in one file.\<close>

lemma part_flushed:
  assumes ok: "group_ok (n_files g) (uint (file_size g))"
    and k: "512 dvd k" "lsn_place first g v mod unat (file_size g) + k \<le> unat (file_size g)"
    and out: "\<And>q. buf \<le> q \<Longrightarrow> q < buf + k \<Longrightarrow> \<not> in_header_buf g q"
    and mem1: "\<And>q. \<not> in_header_buf g q \<Longrightarrow> io_mem io1 q = io_mem io q"
    and file1: "\<And>q. 2048 \<le> q mod unat (file_size g) \<Longrightarrow> io_file io1 q = io_file io q"
  shows "flushed first g v k buf io (fil_write (lsn_place first g v) buf k
     (io1\<lparr>io_mem := store_checksums (io_mem io1) buf (k div 512)\<rparr>))"
proof -
  let ?m = "store_checksums (io_mem io1) buf (k div 512)"
  let ?io = "fil_write (lsn_place first g v) buf k (io1\<lparr>io_mem := ?m\<rparr>)"
  have k2: "512 * (k div 512) = k" using k(1) by simp
  have place: "lsn_place first g (v + i) = lsn_place first g v + i" if "i < k" for i
    using that k(2) by (intro lsn_place_next [OF ok]) simp
  have f: "io_file ?io = mem_put (io_file io1) (lsn_place first g v) (mem_bytes ?m buf k)" and m: "io_mem ?io = ?m"
    by (simp_all add: fil_write_def)
  note sums = store_checksums_spec [of buf "k div 512" _ "io_mem io1", unfolded k2]
  have "io_file ?io (lsn_place first g (v + i)) = io_mem ?io (buf + i)" if "i < k" for i
    unfolding f m place [OF that] using that by (simp add: mem_put_inside)
  moreover have "io_file ?io q = io_file io q"
    if "\<forall>i < k. q \<noteq> lsn_place first g (v + i)" "2048 \<le> q mod unat (file_size g)" for q
  proof -
    have "q < lsn_place first g v \<or> lsn_place first g v + k \<le> q"
    proof (rule ccontr)
      assume "\<not> ?thesis"
      then obtain d where "q = lsn_place first g v + d" "d < k" by (rule between_offset)
      with that(1) place show False by auto
    qed
    then show ?thesis unfolding f using file1 that(2) by (auto simp: mem_put_outside)
  qed
  moreover have "io_mem ?io q = io_mem io q" if "\<not> in_trailer buf k q" "\<not> in_header_buf g q" for q
    unfolding m using sums [of q] that mem1 by simp
  moreover have "log_block_calc_checksum (io_mem ?io) (buf + 512 * j) = log_block_get_checksum (io_mem ?io) (buf + 512 * j)"
    if "512 * j < k" for j
    unfolding m using sums that k2 by (metis mult_less_cancel1)
  ultimately show ?thesis unfolding flushed_def by blast
qed

lemma aligned_place:
  assumes geo: "log_geometry first g" and v: "512 dvd v"
  shows "512 dvd lsn_place first g v mod unat (file_size g)"
proof -
  let ?c = "uint (file_size g) - 2048"
  have ok: "group_ok (n_files g) (uint (file_size g))" using geo by (simp add: log_geometry_def group_tracks_def)
  have "(512 :: nat) dvd unat (file_size g)" using geo by (simp add: log_geometry_def)
  then have "int 512 dvd int (unat (file_size g))" by (simp only: of_nat_dvd_iff)
  then have c: "512 dvd ?c" by simp
  have "int 512 dvd int v" "int 512 dvd int (dulint_val first)"
    using v geo by (simp_all only: of_nat_dvd_iff log_geometry_def)
  then have "512 dvd int v - int (dulint_val first)" by simp
  then have "512 dvd lsn_pos first g v" unfolding lsn_pos_def using c by (intro dvd_mod) simp_all
  then have "512 dvd lsn_pos first g v mod ?c + 2048" using c by (intro dvd_add dvd_mod) simp_all
  then have "int 512 dvd int (lsn_place first g v mod unat (file_size g))"
    by (simp add: lsn_place_mod(1) [OF ok])
  then show ?thesis by (simp only: of_nat_dvd_iff)
qed

lemma write_part_flushed:
  assumes A: "lsn_api_ok A" and geo: "log_geometry first g"
    and lsn: "dulint_wf lsn" "dulint_val lsn < 2 ^ 62" "512 dvd dulint_val lsn"
    and near: "\<bar>int (dulint_val lsn) - int (dulint_val (group_lsn g))\<bar> < 2 ^ 32"
    and l: "512 dvd unat l" "0 < unat l" "unat l \<le> group_space g"
    and out: "\<And>q. buf \<le> q \<Longrightarrow> q < buf + unat l \<Longrightarrow> \<not> in_header_buf g q"
  obtains io' wl where "write_part A True g buf l lsn h io = Some (io', wl)"
    and "wl \<le> l" "0 < unat wl" "512 dvd unat wl" and "flushed first g (dulint_val lsn) (unat wl) buf io io'"
proof -
  have tr: "group_tracks first g" and fs512: "512 dvd unat (file_size g)"
    and bufs: "length (file_header_bufs g) = unat (n_files g)" using geo by (simp_all add: log_geometry_def)
  then have ok: "group_ok (n_files g) (uint (file_size g))" by (simp add: group_tracks_def)
  let ?v = "dulint_val lsn" and ?fs = "unat (file_size g)"
  obtain w where w: "log_group_calc_lsn_offset A lsn g = Some w"
    and uw: "uint w = pos_offset (group_pos first lsn (n_files g) (uint (file_size g))) (uint (file_size g))"
    by (rule lsn_offset_val [OF A tr lsn(1,2) near])
  have "int (unat w) = int (lsn_place first g ?v)"
    using uw by (simp add: int_lsn_place [OF ok] lsn_pos_def group_pos_def)
  then have pl: "unat w = lsn_place first g ?v" by (simp only: of_nat_eq_iff)
  define r where "r = lsn_place first g ?v mod ?fs"
  have fs0: "0 < ?fs" using ok by (auto simp: group_ok_def unat_gt_0)
  then have r: "r < ?fs" "unat (w mod file_size g) = r" "512 dvd r"
    using aligned_place [OF geo lsn(3)] by (simp_all add: r_def unat_mod pl)
  have "(uint (file_size g) - 2048) * uint (n_files g) \<le> 2 ^ 32" using ok by (simp only: group_ok_def)
  then have s: "group_space g \<le> 2 ^ 32" by (simp only: group_space_def nat_le_iff of_nat_power of_nat_numeral)
  have "int ?fs < 2 ^ 33" using group_ok_cap(1) [OF ok] by simp
  then have fsb: "?fs < 2 ^ 33" by (simp only: of_nat_less_numeral_power_cancel_iff)
  define wl where "wl = (if file_size g < w mod file_size g + l then file_size g - w mod file_size g else l)"
  have rl: "unat (w mod file_size g + l) = r + unat l" using r fsb l s by (subst unat_plus) simp_all
  have uwl: "unat wl = (if ?fs < r + unat l then ?fs - r else unat l)"
    using r by (simp add: wl_def word_less_nat_alt rl unat_sub word_le_nat_alt)
  have wl: "wl \<le> l" "0 < unat wl" "512 dvd unat wl" "r + unat wl \<le> ?fs"
    using r l fs512 by (auto simp: uwl word_le_nat_alt dvd_diff_nat)
  have nth: "w div file_size g < n_files g" "unat (w div file_size g) * ?fs < 2 ^ 64"
  proof -
    have "int (unat (w div file_size g)) = lsn_pos first g ?v div (uint (file_size g) - 2048)"
      by (simp add: unat_div pl lsn_place_mod(2) [OF ok])
    also have "\<dots> < uint (n_files g)" by (rule pos_div_bound(2) [OF ok lsn_pos_range [OF ok]])
    finally have "int (unat (w div file_size g)) < int (unat (n_files g))" by simp
    then show "w div file_size g < n_files g" by (simp only: of_nat_less_iff word_less_nat_alt)
    have "unat (w div file_size g) * ?fs \<le> unat w" by (simp add: unat_div)
    also have "\<dots> < 2 ^ 64" by (rule unat_ulint_less)
    finally show "unat (w div file_size g) * ?fs < 2 ^ 64" .
  qed
  obtain io1 where io1: "(if w mod file_size g = LOG_FILE_HDR_SIZE \<and> h
      then log_group_file_header_flush A True g (w div file_size g) lsn io else Some io) = Some io1"
    and mem1: "\<And>q. \<not> in_header_buf g q \<Longrightarrow> io_mem io1 q = io_mem io q"
    and file1: "\<And>q. 2048 \<le> q mod ?fs \<Longrightarrow> io_file io1 q = io_file io q"
  proof (cases "w mod file_size g = LOG_FILE_HDR_SIZE \<and> h")
    case True
    show ?thesis
      by (rule header_flush_frame [OF nth(1) bufs nth(2), of A True lsn io]) (use True that in simp)
  qed (use that in auto)
  let ?r = "fil_write (unat w) buf (unat wl) (io1\<lparr>io_mem := store_checksums (io_mem io1) buf (unat (wl div 512))\<rparr>)"
  have "file_size g \<noteq> 0" using fs0 by (simp add: unat_gt_0)
  then have res: "write_part A True g buf l lsn h io = Some (?r, wl)"
    by (simp only: write_part_def w io1 option.case Let_def wl_def if_True if_False)
  have "flushed first g ?v (unat wl) buf io (fil_write (lsn_place first g ?v) buf (unat wl)
     (io1\<lparr>io_mem := store_checksums (io_mem io1) buf (unat wl div 512)\<rparr>))"
    using wl(3,4) wl(1) out mem1 file1 unfolding r_def
    by (intro part_flushed [OF ok]) (auto simp: word_le_nat_alt)
  then have "flushed first g ?v (unat wl) buf io ?r" by (simp add: pl unat_div)
  with that [OF res] wl show thesis by blast
qed

lemma write_buf_loop_flushed:
  assumes A: "lsn_api_ok A" and geo: "log_geometry first g"
    and lsn: "dulint_wf lsn" "dulint_val lsn + unat l < 2 ^ 62" "512 dvd dulint_val lsn"
    and near: "\<bar>int (dulint_val lsn) - int (dulint_val (group_lsn g))\<bar> + int (unat l) < 2 ^ 32"
    and l: "512 dvd unat l" "unat l \<le> group_space g"
    and out: "\<And>q. buf \<le> q \<Longrightarrow> q < buf + unat l \<Longrightarrow> \<not> in_header_buf g q"
  shows "\<exists>io'. write_buf_loop A True g buf l lsn h io = Some io'
    \<and> flushed first g (dulint_val lsn) (unat l) buf io io'"
  using lsn near l out
proof (induction "unat l" arbitrary: l lsn buf io h rule: less_induct)
  case less
  have ok: "group_ok (n_files g) (uint (file_size g))"
    using geo by (simp add: log_geometry_def group_tracks_def)
  show ?case
  proof (cases "l = 0")
    case True
    then show ?thesis by (subst write_buf_loop.simps) (simp add: flushed_def in_trailer_def)
  next
    case False
    then have l0: "0 < unat l" by (simp add: unat_gt_0)
    have nr: "\<bar>int (dulint_val lsn) - int (dulint_val (group_lsn g))\<bar> < 2 ^ 32"
      using less.prems(4) by linarith
    obtain io1 wl where p: "write_part A True g buf l lsn h io = Some (io1, wl)"
      and wl: "wl \<le> l" "0 < unat wl" "512 dvd unat wl"
      and f: "flushed first g (dulint_val lsn) (unat wl) buf io io1"
      by (rule write_part_flushed [OF A geo, of lsn l buf h io]) (use less.prems l0 nr in auto)
    show ?thesis
    proof (cases "wl < l")
      case False
      with wl(1) have "wl = l" by simp
      with f p \<open>l \<noteq> 0\<close> show ?thesis by (subst write_buf_loop.simps) simp
    next
      case True
      let ?lsn = "ut_dulint_add A lsn wl" and ?l = "l - wl"
      have ul: "unat ?l + unat wl = unat l" using wl(1) by (simp add: unat_sub word_le_nat_alt)
      have "int (unat l) < 2 ^ 32" using less.prems(4) by linarith
      then have "unat l < 2 ^ 32" by (simp only: of_nat_less_numeral_power_cancel_iff)
      then have s: "unat wl < 2 ^ 32" using ul by linarith
      have add: "dulint_wf ?lsn" "dulint_val ?lsn = dulint_val lsn + unat wl"
        using lsn_api_laws(1) [OF A less.prems(1) s] less.prems(2) ul by simp_all
      have "int (unat ?l) + int (unat wl) = int (unat l)" using ul by (metis of_nat_add)
      then have near2: "\<bar>int (dulint_val ?lsn) - int (dulint_val (group_lsn g))\<bar> + int (unat ?l) < 2 ^ 32"
        using less.prems(4) unfolding add(2) of_nat_add by linarith
      have "\<exists>io'. write_buf_loop A True g (buf + unat wl) ?l ?lsn True io1 = Some io'
        \<and> flushed first g (dulint_val ?lsn) (unat ?l) (buf + unat wl) io1 io'"
      proof (rule less.hyps)
        show "512 dvd unat ?l" using ul less.prems(5) wl(3) by (metis dvd_add_left_iff)
        show "\<bar>int (dulint_val ?lsn) - int (dulint_val (group_lsn g))\<bar> + int (unat ?l) < 2 ^ 32" by (rule near2)
      qed (use less.prems(1,2,3,5,6,7) ul wl add in auto)
      then obtain io2 where io2: "write_buf_loop A True g (buf + unat wl) ?l ?lsn True io1 = Some io2"
        and f2: "flushed first g (dulint_val lsn + unat wl) (unat ?l) (buf + unat wl) io1 io2"
        by (auto simp: add)
      have "flushed first g (dulint_val lsn) (unat wl + unat ?l) buf io io2"
        by (rule flushed_append [OF ok wl(3) _ _ f f2]) (use ul less.prems(6,7) in auto)
      then show ?thesis using p io2 True \<open>l \<noteq> 0\<close> ul
        by (subst write_buf_loop.simps) (simp add: add.commute)
    qed
  qed
qed

lemma write_buf_flushed:
  assumes "lsn_api_ok A" and "log_geometry first g"
    and "dulint_wf lsn" "dulint_val lsn + unat l < 2 ^ 62" "512 dvd dulint_val lsn"
    and "\<bar>int (dulint_val lsn) - int (dulint_val (group_lsn g))\<bar> + int (unat l) < 2 ^ 32"
    and "512 dvd unat l" "unat l \<le> group_space g"
    and "\<And>q. buf \<le> q \<Longrightarrow> q < buf + unat l \<Longrightarrow> \<not> in_header_buf g q"
  shows "\<exists>io'. log_group_write_buf A True g buf l lsn new_data_offset io = Some io'
    \<and> flushed first g (dulint_val lsn) (unat l) buf io io'"
proof -
  have "dulint_api_ok (dulint_api.truncate A)" using assms(1) by (simp add: lsn_api_ok_def)
  then have low: "ut_dulint_get_low A lsn = low lsn" by (simp add: dulint_api_ok_def dulint_api.defs)
  have "unat (low lsn mod 512) = 0"
  proof -
    have "512 dvd unat (high lsn) * 2 ^ 32" by simp
    then have "512 dvd unat (low lsn)" using assms(5) by (simp only: dulint_val_def dvd_add_right_iff)
    then show ?thesis by (simp add: unat_mod dvd_eq_mod_eq_0)
  qed
  moreover have "unat (l mod 512) = 0" using assms(7) by (simp add: unat_mod dvd_eq_mod_eq_0)
  ultimately have al: "l mod 512 = 0" "ut_dulint_get_low A lsn mod 512 = 0" by (simp_all add: low unat_eq_0)
  from write_buf_loop_flushed [OF assms, where h = "new_data_offset = 0" and io = io]
  obtain io' where "write_buf_loop A True g buf l lsn (new_data_offset = 0) io = Some io'"
    and "flushed first g (dulint_val lsn) (unat l) buf io io'" by blast
  then show ?thesis
    by (simp add: log_group_write_buf_def al)
qed

text \<open> C3.
  \<open>log_group_write_buf\<close> of an aligned part of the log buffer that fits in the group returns, and
  puts every byte of it at the place of its lsn in the files, across the ends of files and round
  the end of the group; the data areas change nowhere else, memory changes in the block trailers
  and the file header buffers only, and every block has got its checksum. The place is the one
  that both address computations give.\<close>

theorem log_group_write_buf_lands:
  assumes "lsn_api_ok A" and "log_geometry first g"
    and "dulint_wf lsn" "dulint_val lsn + unat l < 2 ^ 62" "512 dvd dulint_val lsn"
    and "\<bar>int (dulint_val lsn) - int (dulint_val (group_lsn g))\<bar> + int (unat l) < 2 ^ 32"
    and "512 dvd unat l" "unat l \<le> group_space g"
    and "\<And>q. buf \<le> q \<Longrightarrow> q < buf + unat l \<Longrightarrow> \<not> in_header_buf g q"
  shows "\<exists>io'. log_group_write_buf A True g buf l lsn new_data_offset io = Some io'
    \<and> (\<forall>i < unat l. io_file io' (lsn_place first g (dulint_val lsn + i)) = io_mem io' (buf + i))
    \<and> (\<forall>q. (\<forall>i < unat l. q \<noteq> lsn_place first g (dulint_val lsn + i)) \<and> 2048 \<le> q mod unat (file_size g)
         \<longrightarrow> io_file io' q = io_file io q)
    \<and> (\<forall>q. \<not> in_trailer buf (unat l) q \<and> \<not> in_header_buf g q \<longrightarrow> io_mem io' q = io_mem io q)
    \<and> (\<forall>j. 512 * j < unat l \<longrightarrow> log_block_checksum_is_ok_old_format (io_mem io') (buf + 512 * j))"
proof -
  obtain io' where "log_group_write_buf A True g buf l lsn new_data_offset io = Some io'"
    and "flushed first g (dulint_val lsn) (unat l) buf io io'"
    using write_buf_flushed [where buf = buf, OF assms(1-8)] assms(9) by blast
  then show ?thesis by (simp add: flushed_def log_block_checksum_is_ok_old_format_def)
qed

text \<open>Two blocks at the end of the first file of \<open>group0\<close>: the second goes to the second file.\<close>

definition log_io0 :: log_io where
  "log_io0 = \<lparr>io_mem = (\<lambda>_. 1), io_file = (\<lambda>_. 0), n_log_ios = 0\<rparr>"

lemma log_group_write_buf_lands_witness:
  "\<exists>io'. log_group_write_buf lsn_ref True group0 8192 1024 (dulint_of_nat 11776) 1 log_io0 = Some io'
    \<and> io_file io' (lsn_place (dulint_of_nat 8192) group0 12288) = io_mem io' 8704"
proof -
  have "log_geometry (dulint_of_nat 8192) group0"
    using group0_tracks by (simp add: log_geometry_def dulint_of_nat_val group0_def)
  moreover have "\<not> in_header_buf group0 q" if "8192 \<le> q" for q
    using that by (auto simp: in_header_buf_def group0_def)
  moreover have "unat (1024 :: ulint) \<le> group_space group0" by (simp add: group_space_def group0_def)
  ultimately obtain io' where "log_group_write_buf lsn_ref True group0 8192 1024 (dulint_of_nat 11776) 1 log_io0 = Some io'"
    and b: "\<forall>i < unat (1024 :: ulint). io_file io' (lsn_place (dulint_of_nat 8192) group0 (dulint_val (dulint_of_nat 11776) + i)) = io_mem io' (8192 + i)"
    using log_group_write_buf_lands [OF lsn_ref_ok, of "dulint_of_nat 8192" group0 "dulint_of_nat 11776" 1024 8192 1 log_io0]
    by (auto simp: dulint_of_nat_val group0_def)
  then show ?thesis using b [rule_format, of 512] by (simp add: dulint_of_nat_val)
qed

section \<open>Reading the log back\<close>

text \<open>
  \<open>log_group_read_log_seg\<close>: reads until the start has become the end. The loop is not bounded by
  itself; not returning is the value \<open>None\<close>, as is a failed offset computation.
\<close>

partial_function (option) log_group_read_log_seg ::
    "lsn_api \<Rightarrow> log_group \<Rightarrow> ptr \<Rightarrow> dulint \<Rightarrow> dulint \<Rightarrow> log_io \<Rightarrow> log_io option" where
  "log_group_read_log_seg A g buf start_lsn end_lsn io =
     (case log_group_calc_lsn_offset A start_lsn g of None \<Rightarrow> None
      | Some source_offset \<Rightarrow>
        let l = ut_dulint_minus A end_lsn start_lsn;
            l = (if file_size g < source_offset mod file_size g + l
                 then file_size g - source_offset mod file_size g else l);
            io = io\<lparr>n_log_ios := n_log_ios io + 1,
              io_mem := mem_put (io_mem io) buf (mem_bytes (io_file io) (unat source_offset) (unat l))\<rparr>;
            start_lsn = ut_dulint_add A start_lsn l
        in if ut_dulint_cmp A start_lsn end_lsn \<noteq> 0
           then log_group_read_log_seg A g (buf + unat l) start_lsn end_lsn io
           else Some io)"

lemma lsn_cmp_0:
  assumes "lsn_api_ok A" "dulint_wf a" "dulint_wf b"
  shows "ut_dulint_cmp A a b = 0 \<longleftrightarrow> dulint_val a = dulint_val b"
proof -
  have "dulint_api_ok (dulint_api.truncate A)" using assms(1) by (simp add: lsn_api_ok_def)
  then show ?thesis using assms(2,3) by (simp add: dulint_api_ok_def dulint_api.defs)
qed

lemma read_seg_spec:
  assumes A: "lsn_api_ok A" and tr: "group_tracks first g"
    and wf: "dulint_wf lsn" "dulint_wf e" "dulint_val e < 2 ^ 62" "dulint_val lsn + k = dulint_val e" "0 < k"
    and near: "\<bar>int (dulint_val lsn) - int (dulint_val (group_lsn g))\<bar> + int k < 2 ^ 32"
  shows "\<exists>io'. log_group_read_log_seg A g buf lsn e io = Some io'
    \<and> io_file io' = io_file io
    \<and> (\<forall>i < k. io_mem io' (buf + i) = io_file io (lsn_place first g (dulint_val lsn + i)))
    \<and> (\<forall>q. q < buf \<or> buf + k \<le> q \<longrightarrow> io_mem io' q = io_mem io q)"
  using wf near
proof (induction k arbitrary: lsn buf io rule: less_induct)
  case (less k)
  have ok: "group_ok (n_files g) (uint (file_size g))" using tr by (simp add: group_tracks_def)
  let ?v = "dulint_val lsn" and ?fs = "unat (file_size g)"
  have nr: "\<bar>int (dulint_val lsn) - int (dulint_val (group_lsn g))\<bar> < 2 ^ 32" and "int k < 2 ^ 32"
    using less.prems(6) by linarith+
  then have k32: "k < 2 ^ 32" by (simp only: of_nat_less_numeral_power_cancel_iff)
  have v62: "?v < 2 ^ 62" using less.prems(3,4) by simp
  obtain w where w: "log_group_calc_lsn_offset A lsn g = Some w"
    and uw: "uint w = pos_offset (group_pos first lsn (n_files g) (uint (file_size g))) (uint (file_size g))"
    by (rule lsn_offset_val [OF A tr less.prems(1) v62 nr])
  have "int (unat w) = int (lsn_place first g ?v)"
    using uw by (simp add: int_lsn_place [OF ok] lsn_pos_def group_pos_def)
  then have pl: "unat w = lsn_place first g ?v" by (simp only: of_nat_eq_iff)
  define r where "r = unat (w mod file_size g)"
  have "0 < ?fs" using ok by (auto simp: group_ok_def unat_gt_0)
  then have r: "r < ?fs" "r = lsn_place first g ?v mod ?fs" by (simp_all add: r_def unat_mod pl)
  have "int ?fs < 2 ^ 33" using group_ok_cap(1) [OF ok] by simp
  then have fsb: "?fs < 2 ^ 33" by (simp only: of_nat_less_numeral_power_cancel_iff)
  define l where "l = ut_dulint_minus A e lsn"
  have l: "unat l = k"
    using lsn_api_laws(2) [OF A less.prems(2,1)] less.prems(4) k32 by (simp add: l_def)
  define wl where "wl = (if file_size g < w mod file_size g + l then file_size g - w mod file_size g else l)"
  have "unat (w mod file_size g + l) = r + k"
    using r fsb k32 unfolding l [symmetric] r_def by (intro unat_plus) simp
  then have uwl: "unat wl = (if ?fs < r + k then ?fs - r else k)"
    using r(1) unfolding wl_def word_less_nat_alt by (simp add: unat_sub word_le_nat_alt r_def l)
  then have wl: "0 < unat wl" "unat wl \<le> k" "r + unat wl \<le> ?fs" using r(1) less.prems(5) by auto
  have place: "lsn_place first g (?v + i) = lsn_place first g ?v + i" if "i < unat wl" for i
    using that wl(3) unfolding r(2) by (intro lsn_place_next [OF ok]) simp
  let ?io = "io\<lparr>n_log_ios := n_log_ios io + 1,
    io_mem := mem_put (io_mem io) buf (mem_bytes (io_file io) (unat w) (unat wl))\<rparr>"
  let ?lsn = "ut_dulint_add A lsn wl"
  have add: "dulint_wf ?lsn" "dulint_val ?lsn = ?v + unat wl"
    using lsn_api_laws(1) [OF A less.prems(1), of wl] wl(2) k32 less.prems(3,4) by simp_all
  have step: "log_group_read_log_seg A g buf lsn e io =
      (if ut_dulint_cmp A ?lsn e \<noteq> 0 then log_group_read_log_seg A g (buf + unat wl) ?lsn e ?io else Some ?io)"
    by (subst log_group_read_log_seg.simps) (simp add: w Let_def l_def [symmetric] wl_def [symmetric])
  have got: "io_mem ?io (buf + i) = io_file io (lsn_place first g (?v + i))" if "i < unat wl" for i
    using that by (simp add: mem_put_inside place pl)
  have rest: "io_mem ?io q = io_mem io q" if "q < buf \<or> buf + unat wl \<le> q" for q
    using that by (simp add: mem_put_outside)
  show ?case
  proof (cases "unat wl = k")
    case True
    then have "ut_dulint_cmp A ?lsn e = 0" using add less.prems(4) by (simp add: lsn_cmp_0 [OF A add(1) less.prems(2)])
    then show ?thesis using step got rest True by simp
  next
    case False
    then have lt: "k - unat wl < k" "0 < k - unat wl" using wl by auto
    have "ut_dulint_cmp A ?lsn e \<noteq> 0"
      using False wl(2) add less.prems(4) by (simp add: lsn_cmp_0 [OF A add(1) less.prems(2)])
    with step have step2: "log_group_read_log_seg A g buf lsn e io = log_group_read_log_seg A g (buf + unat wl) ?lsn e ?io"
      by simp
    have "int (k - unat wl) = int k - int (unat wl)" using wl(2) by (simp add: of_nat_diff)
    then have n2: "\<bar>int (dulint_val ?lsn) - int (dulint_val (group_lsn g))\<bar> + int (k - unat wl) < 2 ^ 32"
      using less.prems(6) unfolding add(2) of_nat_add by linarith
    have e2: "dulint_val ?lsn + (k - unat wl) = dulint_val e" using add(2) less.prems(4) wl(2) by simp
    obtain io' where io': "log_group_read_log_seg A g (buf + unat wl) ?lsn e ?io = Some io'"
      "io_file io' = io_file ?io"
      and g2: "\<And>i. i < k - unat wl \<Longrightarrow> io_mem io' (buf + unat wl + i) = io_file ?io (lsn_place first g (dulint_val ?lsn + i))"
      and o2: "\<And>q. q < buf + unat wl \<or> buf + unat wl + (k - unat wl) \<le> q \<Longrightarrow> io_mem io' q = io_mem ?io q"
      using less.IH [OF lt(1) add(1) less.prems(2,3) e2 lt(2) n2, of "buf + unat wl" ?io] by blast
    have "io_mem io' (buf + i) = io_file io (lsn_place first g (?v + i))" if "i < k" for i
    proof (cases "i < unat wl")
      case True
      then have "io_mem io' (buf + i) = io_mem ?io (buf + i)" by (intro o2) simp
      then show ?thesis using got [OF True] by simp
    next
      case False
      then obtain d where "i = unat wl + d" using le_Suc_ex by (auto simp: not_less)
      then show ?thesis using g2 [of d] that add(2) by (simp add: add.assoc)
    qed
    moreover have "io_mem io' q = io_mem io q" if "q < buf \<or> buf + k \<le> q" for q
      using o2 [of q] rest [of q] that wl(2) by auto
    ultimately show ?thesis using step2 io' by simp
  qed
qed

text \<open> C11.
  Reading a segment of the log returns after finitely many reads and delivers what was written:
  after \<open>log_group_write_buf\<close> has put an aligned part of the buffer into a group,
  \<open>log_group_read_log_seg\<close> of any non-empty range of lsns inside of it, which need not be aligned
  and may cross files, fills the destination with exactly the bytes of the buffer, changes no
  other byte of memory and no file.\<close>

theorem log_read_back:
  assumes "lsn_api_ok A" and "log_geometry first g"
    and "dulint_wf lsn" "dulint_val lsn + unat l < 2 ^ 62" "512 dvd dulint_val lsn"
    and "\<bar>int (dulint_val lsn) - int (dulint_val (group_lsn g))\<bar> + int (unat l) < 2 ^ 32"
    and "512 dvd unat l" "unat l \<le> group_space g"
    and "\<And>q. buf \<le> q \<Longrightarrow> q < buf + unat l \<Longrightarrow> \<not> in_header_buf g q"
    and "dulint_wf s" "dulint_wf e" "dulint_val s = dulint_val lsn + a" "dulint_val e = dulint_val s + k"
    and "0 < k" "a + k \<le> unat l"
    and "\<bar>int (dulint_val s) - int (dulint_val (group_lsn g))\<bar> + int k < 2 ^ 32"
  shows "\<exists>io' io''. log_group_write_buf A True g buf l lsn new_data_offset io = Some io'
    \<and> log_group_read_log_seg A g dest s e io' = Some io''
    \<and> (\<forall>i < k. io_mem io'' (dest + i) = io_mem io' (buf + a + i))
    \<and> (\<forall>q. q < dest \<or> dest + k \<le> q \<longrightarrow> io_mem io'' q = io_mem io' q)
    \<and> io_file io'' = io_file io'"
proof -
  obtain io' where w: "log_group_write_buf A True g buf l lsn new_data_offset io = Some io'"
    and f: "flushed first g (dulint_val lsn) (unat l) buf io io'"
    using write_buf_flushed [where buf = buf, OF assms(1-8)] assms(9) by blast
  have tr: "group_tracks first g" using assms(2) by (simp add: log_geometry_def)
  have e62: "dulint_val e < 2 ^ 62" using assms(4,12,13,15) by simp
  obtain io'' where "log_group_read_log_seg A g dest s e io' = Some io''" "io_file io'' = io_file io'"
    and got: "\<And>i. i < k \<Longrightarrow> io_mem io'' (dest + i) = io_file io' (lsn_place first g (dulint_val s + i))"
    and "\<forall>q. q < dest \<or> dest + k \<le> q \<longrightarrow> io_mem io'' q = io_mem io' q"
    using read_seg_spec [OF assms(1) tr assms(10,11) e62 assms(13) [symmetric] assms(14,16), of dest io'] by blast
  moreover have "io_mem io'' (dest + i) = io_mem io' (buf + a + i)" if "i < k" for i
    using got [OF that] f that assms(12,15) by (simp add: flushed_def add.assoc)
  ultimately show ?thesis using w by blast
qed

lemma geometry0: "log_geometry (dulint_of_nat 8192) group0"
  using group0_tracks by (simp add: log_geometry_def dulint_of_nat_val group0_def)

lemma header_bufs0: "8192 \<le> q \<Longrightarrow> \<not> in_header_buf group0 q"
  by (auto simp: in_header_buf_def group0_def)

text \<open>The two blocks above, read from the middle of the first one into the second file.\<close>

lemma log_read_back_witness:
  "\<exists>io' io''. log_group_write_buf lsn_ref True group0 8192 1024 (dulint_of_nat 11776) 1 log_io0 = Some io'
    \<and> log_group_read_log_seg lsn_ref group0 20000 (dulint_of_nat 11800) (dulint_of_nat 12400) io' = Some io''
    \<and> (\<forall>i < 600. io_mem io'' (20000 + i) = io_mem io' (8192 + 24 + i))"
proof -
  have "\<exists>io' io''. log_group_write_buf lsn_ref True group0 8192 1024 (dulint_of_nat 11776) 1 log_io0 = Some io'
    \<and> log_group_read_log_seg lsn_ref group0 20000 (dulint_of_nat 11800) (dulint_of_nat 12400) io' = Some io''
    \<and> (\<forall>i < 600. io_mem io'' (20000 + i) = io_mem io' (8192 + 24 + i))
    \<and> (\<forall>q. q < 20000 \<or> 20000 + 600 \<le> q \<longrightarrow> io_mem io'' q = io_mem io' q)
    \<and> io_file io'' = io_file io'"
    by (rule log_read_back [OF lsn_ref_ok geometry0])
      (simp_all add: dulint_of_nat_val group0_def group_space_def header_bufs0 [unfolded group0_def])
  then show ?thesis by blast
qed

end
