(* ===== verification/Ut_Rnd.thy ===== *)
theory Ut_Rnd
  imports Inno_Prelude
begin

text \<open>
  \<open>ut0rnd.cc\<close>: the random number generator and the folding of strings to hash values, which the
  checkpoints use as checksum. \<open>ut_find_prime\<close> computes with floating point numbers and is not
  modelled. \<open>ulint\<close> has 64 bits.
\<close>

section \<open>Random numbers\<close>

definition UT_RND1 :: ulint where "UT_RND1 = 151117737"
definition UT_RND2 :: ulint where "UT_RND2 = 119785373"
definition UT_RND3 :: ulint where "UT_RND3 = 85689495"
definition UT_SUM_RND2 :: ulint where "UT_SUM_RND2 = 98781234"
definition UT_SUM_RND3 :: ulint where "UT_SUM_RND3 = 126792457"
definition UT_SUM_RND4 :: ulint where "UT_SUM_RND4 = 63498502"
definition UT_XOR_RND1 :: ulint where "UT_XOR_RND1 = 187678878"
definition UT_XOR_RND2 :: ulint where "UT_XOR_RND2 = 143537923"

definition ut_rnd_gen_next_ulint :: "ulint \<Rightarrow> ulint" where
  "ut_rnd_gen_next_ulint rnd =
     (let rnd = UT_RND2 * rnd + UT_SUM_RND3;
          rnd = UT_XOR_RND1 XOR rnd;
          rnd = push_bit 20 rnd + drop_bit (64 - 20) rnd;
          rnd = UT_RND3 * rnd + UT_SUM_RND4;
          rnd = UT_XOR_RND2 XOR rnd;
          rnd = push_bit 20 rnd + drop_bit (64 - 20) rnd;
          rnd = UT_RND1 * rnd + UT_SUM_RND2
      in rnd)"

text \<open>The counter \<open>ut_rnd_ulint_counter\<close> is the state: the number and the new counter.\<close>

definition ut_rnd_gen_ulint :: "ulint \<Rightarrow> ulint \<times> ulint" where
  "ut_rnd_gen_ulint counter =
     (let counter = UT_RND1 * counter + UT_RND2 in (ut_rnd_gen_next_ulint counter, counter))"

definition ut_rnd_interval :: "ulint \<Rightarrow> ulint \<Rightarrow> ulint \<Rightarrow> ulint \<times> ulint" where
  "ut_rnd_interval low high counter =
     (if low = high then (low, counter)
      else let (rnd, counter) = ut_rnd_gen_ulint counter in (low + rnd mod (high - low), counter))"

definition ut_rnd_gen_ibool :: "ulint \<Rightarrow> bool \<times> ulint" where
  "ut_rnd_gen_ibool counter =
     (let (x, counter) = ut_rnd_gen_ulint counter
      in (if (drop_bit 20 x + drop_bit 15 x) AND 1 \<noteq> 0 then True else False, counter))"

text \<open>Every step of the generator can be undone.\<close>

lemma odd_mult_inj:
  assumes "odd (c :: ulint)" "c * x = c * y"
  shows "x = y"
proof -
  have o: "odd (unat c)" using assms(1) by (simp add: bit_unsigned_iff flip: bit_0)
  then have "coprime (unat c) (2 ^ k)" for k by (simp add: coprime_right_2_iff_odd)
  note cop = this [of 64]
  have "c * (x - y) = 0" using assms(2) by (simp add: right_diff_distrib)
  from arg_cong [OF this, of unat] have "(unat c * unat (x - y)) mod 2 ^ 64 = 0" by (simp add: unat_word_ariths)
  then have "2 ^ 64 dvd unat c * unat (x - y)" by (simp only: dvd_eq_mod_eq_0)
  then have "2 ^ 64 dvd unat (x - y)" using cop by (simp only: coprime_dvd_mult_right_iff coprime_commute)
  then have "unat (x - y) = 0" using unat_ulint_less [of "x - y"] dvd_imp_le [of "2 ^ 64" "unat (x - y)"] by linarith
  then show "x = y" by (simp add: unat_eq_0)
qed

lemma rotate_inj:
  assumes "push_bit 20 x + drop_bit 44 x = push_bit 20 y + drop_bit 44 (y :: ulint)"
  shows "x = y"
proof -
  have r: "push_bit 20 z + drop_bit 44 z = push_bit 20 z OR drop_bit 44 z" for z :: ulint
    by (rule disjunctive_add) (auto simp: bit_simps dest: bit_imp_le_length)
  have "bit x n = bit y n" if "n < 64" for n
  proof (cases "n < 44")
    case True
    have "bit (push_bit 20 x OR drop_bit 44 x) (n + 20) = bit (push_bit 20 y OR drop_bit 44 y) (n + 20)"
      using assms by (simp add: r)
    then show ?thesis using True by (auto simp: bit_simps dest: bit_imp_le_length)
  next
    case False
    have "bit (push_bit 20 x OR drop_bit 44 x) (n - 44) = bit (push_bit 20 y OR drop_bit 44 y) (n - 44)"
      using assms by (simp add: r)
    then show ?thesis using False that by (auto simp: bit_simps)
  qed
  then show ?thesis by (intro bit_word_eqI) simp
qed

lemma xor_left_inj:
  assumes "c XOR x = c XOR (y :: ulint)"
  shows "x = y"
proof -
  have "c XOR (c XOR x) = c XOR (c XOR y)" using assms by simp
  then show ?thesis by (simp add: xor.assoc [symmetric])
qed

lemma rnd_odd: "odd UT_RND1" "odd UT_RND2" "odd UT_RND3"
  by (simp_all add: UT_RND1_def UT_RND2_def UT_RND3_def)

lemma ut_rnd_next_inj: "inj ut_rnd_gen_next_ulint"
proof -
  let ?rot = "\<lambda>z :: ulint. push_bit 20 z + drop_bit 44 z"
  have "inj ?rot" by (rule injI) (rule rotate_inj)
  moreover have "inj (\<lambda>z :: ulint. c XOR z)" for c by (rule injI) (rule xor_left_inj)
  moreover have "inj (\<lambda>z :: ulint. c * z + d)" if "odd c" for c d
    by (rule injI) (use odd_mult_inj [OF that] in simp)
  note this [OF rnd_odd(1), of UT_SUM_RND2] this [OF rnd_odd(2), of UT_SUM_RND3] this [OF rnd_odd(3), of UT_SUM_RND4]
  ultimately have "inj ((\<lambda>z. UT_RND1 * z + UT_SUM_RND2) \<circ> ?rot \<circ> (\<lambda>z. UT_XOR_RND2 XOR z) \<circ> (\<lambda>z. UT_RND3 * z + UT_SUM_RND4)
      \<circ> ?rot \<circ> (\<lambda>z. UT_XOR_RND1 XOR z) \<circ> (\<lambda>z. UT_RND2 * z + UT_SUM_RND3))"
    by (intro inj_compose)
  moreover have "ut_rnd_gen_next_ulint = (\<lambda>z. UT_RND1 * z + UT_SUM_RND2) \<circ> ?rot \<circ> (\<lambda>z. UT_XOR_RND2 XOR z)
      \<circ> (\<lambda>z. UT_RND3 * z + UT_SUM_RND4) \<circ> ?rot \<circ> (\<lambda>z. UT_XOR_RND1 XOR z) \<circ> (\<lambda>z. UT_RND2 * z + UT_SUM_RND3)"
    by (simp only: fun_eq_iff comp_apply ut_rnd_gen_next_ulint_def Let_def) simp
  ultimately show ?thesis by simp
qed

section \<open>Folding\<close>

definition UT_HASH_RANDOM_MASK :: ulint where "UT_HASH_RANDOM_MASK = 1463735687"
definition UT_HASH_RANDOM_MASK2 :: ulint where "UT_HASH_RANDOM_MASK2 = 1653893711"

definition ut_fold_ulint_pair :: "ulint \<Rightarrow> ulint \<Rightarrow> ulint" where
  "ut_fold_ulint_pair n1 n2 =
     ((push_bit 8 (n1 XOR n2 XOR UT_HASH_RANDOM_MASK2) + n1) XOR UT_HASH_RANDOM_MASK) + n2"

definition ut_fold_ull :: "u64 \<Rightarrow> ulint" where
  "ut_fold_ull d = ut_fold_ulint_pair (d AND 0xFFFFFFFF) (drop_bit 32 d)"

text \<open>A string is its characters before the final null; they are signed.\<close>

fun ut_fold_string_loop :: "byte list \<Rightarrow> ulint \<Rightarrow> ulint" where
  "ut_fold_string_loop [] h = h"
| "ut_fold_string_loop (c # cs) h = ut_fold_string_loop cs (ut_fold_ulint_pair h (scast c))"

definition ut_fold_string :: "byte list \<Rightarrow> ulint" where
  "ut_fold_string str = ut_fold_string_loop str 0"

definition fold_byte :: "mem \<Rightarrow> ptr \<times> ulint \<Rightarrow> ptr \<times> ulint" where
  "fold_byte m st = (fst st + 1, ut_fold_ulint_pair (snd st) (ucast (m (fst st))))"

text \<open>The loop by eight bytes, then the fall through of the switch.\<close>

fun fold_eights :: "mem \<Rightarrow> nat \<Rightarrow> ptr \<times> ulint \<Rightarrow> ptr \<times> ulint" where
  "fold_eights m 0 st = st"
| "fold_eights m (Suc k) st =
     fold_eights m k (fold_byte m (fold_byte m (fold_byte m (fold_byte m
       (fold_byte m (fold_byte m (fold_byte m (fold_byte m st))))))))"

definition fold_rest :: "mem \<Rightarrow> nat \<Rightarrow> ptr \<times> ulint \<Rightarrow> ptr \<times> ulint" where
  "fold_rest m k st =
     (let st = (if k \<ge> 7 then fold_byte m st else st);
          st = (if k \<ge> 6 then fold_byte m st else st);
          st = (if k \<ge> 5 then fold_byte m st else st);
          st = (if k \<ge> 4 then fold_byte m st else st);
          st = (if k \<ge> 3 then fold_byte m st else st);
          st = (if k \<ge> 2 then fold_byte m st else st)
      in if k \<ge> 1 then fold_byte m st else st)"

definition ut_fold_binary :: "mem \<Rightarrow> ptr \<Rightarrow> ulint \<Rightarrow> ulint" where
  "ut_fold_binary m str len =
     (let n = unat (len AND 0xFFFFFFF8) div 8
      in snd (fold_rest m (unat (len AND 7)) (fold_eights m n (str, 0))))"

lemma fold_bytes: "(fold_byte m ^^ k) (p, h) = (p + k, foldl ut_fold_ulint_pair h (map ucast (mem_bytes m p k)))"
  by (induction k) (simp_all add: fold_byte_def mem_bytes_def)

lemma fold_eights_bytes: "fold_eights m k st = (fold_byte m ^^ (8 * k)) st"
proof (induction k arbitrary: st)
  case (Suc k)
  have "(fold_byte m ^^ (8 * Suc k)) st = (fold_byte m ^^ (8 * k)) ((fold_byte m ^^ 8) st)"
    by (simp only: mult_Suc_right add.commute [of 8] funpow_add comp_apply)
  also have "(fold_byte m ^^ 8) st = fold_byte m (fold_byte m (fold_byte m (fold_byte m
       (fold_byte m (fold_byte m (fold_byte m (fold_byte m st)))))))"
    by (simp add: numeral_eq_Suc)
  finally show ?case by (simp add: Suc.IH)
qed simp

lemma fold_rest_bytes: "k < 8 \<Longrightarrow> fold_rest m k st = (fold_byte m ^^ k) st"
  by (auto simp: fold_rest_def Let_def less_Suc_eq numeral_eq_Suc)

text \<open>The unrolled loop computes the fold over the bytes, for lengths below 4 G.\<close>

lemma ut_fold_binary_eq:
  assumes "unat len < 2 ^ 32"
  shows "ut_fold_binary m p len = foldl ut_fold_ulint_pair 0 (map ucast (mem_bytes m p (unat len)))"
proof -
  have a7: "unat (len AND 7) = unat len mod 8"
    using unat_and_mask [of len 3] by (simp add: mask_eq_exp_minus_1)
  have "len AND 0xFFFFFFF8 = push_bit 3 (drop_bit 3 len)"
  proof (rule bit_word_eqI)
    fix n assume "n < LENGTH(64)"
    have m: "(0xFFFFFFF8 :: ulint) = push_bit 3 (mask 29)" by (simp add: mask_eq_exp_minus_1)
    have hi: "\<not> bit len n" if "32 \<le> n"
    proof -
      have "unat (take_bit 32 len) = unat len" using assms by (simp add: unsigned_take_bit_eq take_bit_nat_eq_self)
      then have "len = take_bit 32 len" by (simp add: word_unat_eq_iff)
      then show ?thesis using that by (metis bit_take_bit_iff not_le)
    qed
    then show "bit (len AND 0xFFFFFFF8) n = bit (push_bit 3 (drop_bit 3 len)) n"
      unfolding m using hi by (cases "32 \<le> n") (auto simp: bit_simps not_le)
  qed
  then have "unat (len AND 0xFFFFFFF8) = (8 * (unat len div 8)) mod 2 ^ 64"
    by (simp add: push_bit_eq_mult unat_word_ariths unat_drop mult.commute)
  also have "8 * (unat len div 8) < 2 ^ 64" using assms times_div_less_eq_dividend [of 8 "unat len"] by simp
  then have "(8 * (unat len div 8)) mod 2 ^ 64 = 8 * (unat len div 8)" by (rule mod_less)
  finally have "unat (len AND 0xFFFFFFF8) = 8 * (unat len div 8)" .
  then have "8 * (unat (len AND 0xFFFFFFF8) div 8) + unat (len AND 7) = unat len"
    by (simp add: a7)
  moreover have "fold_rest m (unat (len AND 7)) (fold_eights m n (p, 0)) = (fold_byte m ^^ (8 * n + unat (len AND 7))) (p, 0)" for n
    by (simp add: fold_rest_bytes a7 fold_eights_bytes funpow_add funpow_swap1 add.commute [of "8 * n"])
  ultimately show ?thesis by (simp add: ut_fold_binary_def Let_def fold_bytes)
qed

end
