(* ===== verification/Log_Checkpoint.thy ===== *)
theory Log_Checkpoint
  imports Log_Write Ut_Rnd
begin

text \<open>
  Checkpoints: \<open>log_group_checkpoint\<close>, \<open>log_checkpoint\<close> and the completion of its writes
  (\<open>log0log.cc\<close>), and the choice of a checkpoint at recovery (\<open>log0recv.cc\<close>). A checkpoint block
  stands at one of two places of the first log file, by the parity of its number. The write is
  asynchronous: between its issue and its completion the block on disk may be anything.
\<close>

section \<open>The checkpoint block\<close>

definition LOG_MAX_N_GROUPS :: nat where "LOG_MAX_N_GROUPS = 32"
definition LOG_CHECKPOINT_NO :: nat where "LOG_CHECKPOINT_NO = 0"
definition LOG_CHECKPOINT_LSN :: nat where "LOG_CHECKPOINT_LSN = 8"
definition LOG_CHECKPOINT_OFFSET :: nat where "LOG_CHECKPOINT_OFFSET = 16"
definition LOG_CHECKPOINT_LOG_BUF_SIZE :: nat where "LOG_CHECKPOINT_LOG_BUF_SIZE = 20"
definition LOG_CHECKPOINT_ARCHIVED_LSN :: nat where "LOG_CHECKPOINT_ARCHIVED_LSN = 24"
definition LOG_CHECKPOINT_GROUP_ARRAY :: nat where "LOG_CHECKPOINT_GROUP_ARRAY = 32"
definition LOG_CHECKPOINT_ARCHIVED_FILE_NO :: nat where "LOG_CHECKPOINT_ARCHIVED_FILE_NO = 0"
definition LOG_CHECKPOINT_ARCHIVED_OFFSET :: nat where "LOG_CHECKPOINT_ARCHIVED_OFFSET = 4"
definition LOG_CHECKPOINT_ARRAY_END :: nat where
  "LOG_CHECKPOINT_ARRAY_END = LOG_CHECKPOINT_GROUP_ARRAY + LOG_MAX_N_GROUPS * 8"
definition LOG_CHECKPOINT_CHECKSUM_1 :: nat where "LOG_CHECKPOINT_CHECKSUM_1 = LOG_CHECKPOINT_ARRAY_END"
definition LOG_CHECKPOINT_CHECKSUM_2 :: nat where "LOG_CHECKPOINT_CHECKSUM_2 = 4 + LOG_CHECKPOINT_ARRAY_END"
definition LOG_CHECKPOINT_FSP_FREE_LIMIT :: nat where "LOG_CHECKPOINT_FSP_FREE_LIMIT = 8 + LOG_CHECKPOINT_ARRAY_END"
definition LOG_CHECKPOINT_FSP_MAGIC_N :: nat where "LOG_CHECKPOINT_FSP_MAGIC_N = 12 + LOG_CHECKPOINT_ARRAY_END"
definition LOG_CHECKPOINT_FSP_MAGIC_N_VAL :: ulint where "LOG_CHECKPOINT_FSP_MAGIC_N_VAL = 1441231243"
definition LOG_CHECKPOINT_1 :: nat where "LOG_CHECKPOINT_1 = OS_FILE_LOG_BLOCK_SIZE"
definition LOG_CHECKPOINT_2 :: nat where "LOG_CHECKPOINT_2 = 3 * OS_FILE_LOG_BLOCK_SIZE"

lemmas cp_layout = LOG_MAX_N_GROUPS_def LOG_CHECKPOINT_NO_def LOG_CHECKPOINT_LSN_def LOG_CHECKPOINT_OFFSET_def
  LOG_CHECKPOINT_LOG_BUF_SIZE_def LOG_CHECKPOINT_ARCHIVED_LSN_def LOG_CHECKPOINT_GROUP_ARRAY_def
  LOG_CHECKPOINT_ARCHIVED_FILE_NO_def LOG_CHECKPOINT_ARCHIVED_OFFSET_def LOG_CHECKPOINT_ARRAY_END_def
  LOG_CHECKPOINT_CHECKSUM_1_def LOG_CHECKPOINT_CHECKSUM_2_def LOG_CHECKPOINT_FSP_FREE_LIMIT_def
  LOG_CHECKPOINT_FSP_MAGIC_N_def LOG_CHECKPOINT_1_def LOG_CHECKPOINT_2_def OS_FILE_LOG_BLOCK_SIZE_def

definition log_checkpoint_set_nth_group_info :: "mem \<Rightarrow> ptr \<Rightarrow> nat \<Rightarrow> ulint \<Rightarrow> ulint \<Rightarrow> mem" where
  "log_checkpoint_set_nth_group_info m buf n file_no offset =
     mach_write_to_4 (mach_write_to_4 m (buf + LOG_CHECKPOINT_GROUP_ARRAY + 8 * n + LOG_CHECKPOINT_ARCHIVED_FILE_NO) file_no)
       (buf + LOG_CHECKPOINT_GROUP_ARRAY + 8 * n + LOG_CHECKPOINT_ARCHIVED_OFFSET) offset"

definition log_checkpoint_get_nth_group_info :: "mem \<Rightarrow> ptr \<Rightarrow> nat \<Rightarrow> ulint \<times> ulint" where
  "log_checkpoint_get_nth_group_info m buf n =
     (mach_read_from_4 m (buf + LOG_CHECKPOINT_GROUP_ARRAY + 8 * n + LOG_CHECKPOINT_ARCHIVED_FILE_NO),
      mach_read_from_4 m (buf + LOG_CHECKPOINT_GROUP_ARRAY + 8 * n + LOG_CHECKPOINT_ARCHIVED_OFFSET))"

text \<open>Both checksums; the second covers the first. \<open>ut_fold_binary\<close> has more than 32 bits, the field keeps 32.\<close>

definition cp_seal :: "mem \<Rightarrow> ptr \<Rightarrow> mem" where
  "cp_seal m buf =
     (let m = mach_write_to_4 m (buf + LOG_CHECKPOINT_CHECKSUM_1)
            (ut_fold_binary m buf (of_nat LOG_CHECKPOINT_CHECKSUM_1))
      in mach_write_to_4 m (buf + LOG_CHECKPOINT_CHECKSUM_2)
           (ut_fold_binary m (buf + LOG_CHECKPOINT_LSN) (of_nat (LOG_CHECKPOINT_CHECKSUM_2 - LOG_CHECKPOINT_LSN))))"

definition recv_check_cp_is_consistent :: "mem \<Rightarrow> ptr \<Rightarrow> bool" where
  "recv_check_cp_is_consistent m buf =
     (if ut_fold_binary m buf (of_nat LOG_CHECKPOINT_CHECKSUM_1) AND 0xFFFFFFFF
           \<noteq> mach_read_from_4 m (buf + LOG_CHECKPOINT_CHECKSUM_1) then False
      else if ut_fold_binary m (buf + LOG_CHECKPOINT_LSN)
                (of_nat (LOG_CHECKPOINT_CHECKSUM_2 - LOG_CHECKPOINT_LSN)) AND 0xFFFFFFFF
           \<noteq> mach_read_from_4 m (buf + LOG_CHECKPOINT_CHECKSUM_2) then False
      else True)"

text \<open>
  A group with its checkpoint buffer and the content of its log space, and the part of \<open>log_sys\<close>
  that checkpoints use. \<open>cp_ios\<close> are the issued writes that are not complete: the group, the place
  and the bytes.
\<close>

record cp_group =
  cp_lg :: log_group
  checkpoint_buf :: mem
  archived_file_no :: ulint
  archived_offset :: ulint
  cp_file :: mem

record cp_sys =
  next_checkpoint_no :: dulint
  next_checkpoint_lsn :: dulint
  last_checkpoint_lsn :: dulint
  arch_off :: bool
  arch_lsn :: dulint
  dulint_max :: dulint
  fsp_free_limit :: ulint
  n_pending_checkpoint_writes :: nat
  checkpoint_lock :: bool
  cp_groups :: "cp_group list"
  cp_ios :: "(nat \<times> nat \<times> byte list) list"

definition cp_fill :: "lsn_api \<Rightarrow> cp_sys \<Rightarrow> cp_group \<Rightarrow> mem option" where
  "cp_fill A s g =
     (case log_group_calc_lsn_offset A (next_checkpoint_lsn s) (cp_lg g) of None \<Rightarrow> None
      | Some offset \<Rightarrow>
        let D = dulint_api.truncate A;
            m = mach_write_to_8 D (checkpoint_buf g) LOG_CHECKPOINT_NO (next_checkpoint_no s);
            m = mach_write_to_8 D m LOG_CHECKPOINT_LSN (next_checkpoint_lsn s);
            m = mach_write_to_4 m LOG_CHECKPOINT_OFFSET offset;
            m = mach_write_to_8 D m LOG_CHECKPOINT_ARCHIVED_LSN (if arch_off s then dulint_max s else arch_lsn s);
            m = fold (\<lambda>i m. log_checkpoint_set_nth_group_info m 0 i 0 0) [0..<LOG_MAX_N_GROUPS] m;
            m = fold (\<lambda>g2 m. log_checkpoint_set_nth_group_info m 0 (unat (group_id (cp_lg g2)))
                  (archived_file_no g2) (archived_offset g2)) (cp_groups s) m;
            m = cp_seal m 0;
            m = mach_write_to_4 m LOG_CHECKPOINT_FSP_FREE_LIMIT (fsp_free_limit s);
            m = mach_write_to_4 m LOG_CHECKPOINT_FSP_MAGIC_N LOG_CHECKPOINT_FSP_MAGIC_N_VAL
        in Some m)"

definition cp_place :: "lsn_api \<Rightarrow> dulint \<Rightarrow> nat" where
  "cp_place A no = (if ut_dulint_get_low A no mod 2 = 0 then LOG_CHECKPOINT_1 else LOG_CHECKPOINT_2)"

text \<open>\<open>log_do_write\<close> holds. The lock is the one that waiting threads queue on.\<close>

definition log_group_checkpoint :: "lsn_api \<Rightarrow> nat \<Rightarrow> cp_sys \<Rightarrow> cp_sys option" where
  "log_group_checkpoint A i s =
     (case cp_fill A s (cp_groups s ! i) of None \<Rightarrow> None
      | Some m \<Rightarrow>
        let write_offset = cp_place A (next_checkpoint_no s);
            s = s\<lparr>cp_groups := (cp_groups s)[i := (cp_groups s ! i)\<lparr>checkpoint_buf := m\<rparr>]\<rparr>;
            s = (if n_pending_checkpoint_writes s = 0 then s\<lparr>checkpoint_lock := True\<rparr> else s)
        in Some (s\<lparr>n_pending_checkpoint_writes := n_pending_checkpoint_writes s + 1,
             cp_ios := cp_ios s @ [(i, write_offset, mem_bytes m 0 OS_FILE_LOG_BLOCK_SIZE)]\<rparr>))"

fun log_groups_write_checkpoint_info :: "lsn_api \<Rightarrow> nat list \<Rightarrow> cp_sys \<Rightarrow> cp_sys option" where
  "log_groups_write_checkpoint_info A [] s = Some s"
| "log_groups_write_checkpoint_info A (i # ids) s =
     (case log_group_checkpoint A i s of None \<Rightarrow> None
      | Some s \<Rightarrow> log_groups_write_checkpoint_info A ids s)"

text \<open>
  \<open>log_checkpoint\<close> behind the flush of the pages and of the log up to \<open>oldest_lsn\<close>; the waiting for
  the lock when \<open>sync\<close> is set changes nothing.
\<close>

definition log_checkpoint :: "lsn_api \<Rightarrow> dulint \<Rightarrow> bool \<Rightarrow> cp_sys \<Rightarrow> (cp_sys \<times> bool) option" where
  "log_checkpoint A oldest_lsn write_always s =
     (if \<not> write_always \<and> 0 \<le> ut_dulint_cmp A (last_checkpoint_lsn s) oldest_lsn then Some (s, True)
      else if n_pending_checkpoint_writes s > 0 then Some (s, False)
      else map_option (\<lambda>s. (s, True))
        (log_groups_write_checkpoint_info A [0..<length (cp_groups s)] (s\<lparr>next_checkpoint_lsn := oldest_lsn\<rparr>)))"

definition log_complete_checkpoint :: "lsn_api \<Rightarrow> cp_sys \<Rightarrow> cp_sys" where
  "log_complete_checkpoint A s =
     s\<lparr>next_checkpoint_no := ut_dulint_add A (next_checkpoint_no s) 1,
       last_checkpoint_lsn := next_checkpoint_lsn s, checkpoint_lock := False\<rparr>"

definition log_io_complete_checkpoint :: "lsn_api \<Rightarrow> cp_sys \<Rightarrow> cp_sys" where
  "log_io_complete_checkpoint A s =
     (let s = s\<lparr>n_pending_checkpoint_writes := n_pending_checkpoint_writes s - 1\<rparr>
      in if n_pending_checkpoint_writes s = 0 then log_complete_checkpoint A s else s)"

text \<open>
  The header that a restored backup gets. \<open>stamp\<close> is the printed time with the leading mark, which
  ends before the checkpoint.
\<close>

definition log_reset_first_header_and_checkpoint :: "lsn_api \<Rightarrow> dulint \<Rightarrow> byte list \<Rightarrow> dulint \<Rightarrow> mem \<Rightarrow> mem" where
  "log_reset_first_header_and_checkpoint A dmax stamp start m =
     (let D = dulint_api.truncate A;
          m = mach_write_to_4 m LOG_GROUP_ID 0;
          m = mach_write_to_8 D m LOG_FILE_START_LSN start;
          lsn = ut_dulint_add A start (of_nat LOG_BLOCK_HDR_SIZE);
          m = mem_put m LOG_FILE_WAS_CREATED_BY_HOT_BACKUP stamp;
          buf = LOG_CHECKPOINT_1;
          m = mach_write_to_8 D m (buf + LOG_CHECKPOINT_NO) \<lparr>high = 0, low = 0\<rparr>;
          m = mach_write_to_8 D m (buf + LOG_CHECKPOINT_LSN) lsn;
          m = mach_write_to_4 m (buf + LOG_CHECKPOINT_OFFSET) (LOG_FILE_HDR_SIZE + of_nat LOG_BLOCK_HDR_SIZE);
          m = mach_write_to_4 m (buf + LOG_CHECKPOINT_LOG_BUF_SIZE) (2 * 1024 * 1024);
          m = mach_write_to_8 D m (buf + LOG_CHECKPOINT_ARCHIVED_LSN) dmax
      in cp_seal m buf)"

section \<open>Recovery\<close>

record cp_info =
  ci_lsn :: dulint
  ci_offset :: ulint
  ci_fsp_limit :: ulint
  ci_cp_no :: dulint
  ci_first_header_lsn :: dulint

definition recv_read_cp_info_for_backup :: "lsn_api \<Rightarrow> mem \<Rightarrow> cp_info option" where
  "recv_read_cp_info_for_backup A hdr =
     (let D = dulint_api.truncate A;
          (max_cp_no, max_cp) =
            (if recv_check_cp_is_consistent hdr LOG_CHECKPOINT_1
             then (mach_read_from_8 D hdr (LOG_CHECKPOINT_1 + LOG_CHECKPOINT_NO), LOG_CHECKPOINT_1)
             else (\<lparr>high = 0, low = 0\<rparr>, 0));
          max_cp =
            (if recv_check_cp_is_consistent hdr LOG_CHECKPOINT_2
             then if 0 < ut_dulint_cmp A (mach_read_from_8 D hdr (LOG_CHECKPOINT_2 + LOG_CHECKPOINT_NO)) max_cp_no
               then LOG_CHECKPOINT_2 else max_cp
             else max_cp)
      in if max_cp = 0 then None
         else let fsp = (if mach_read_from_4 hdr (max_cp + LOG_CHECKPOINT_FSP_MAGIC_N) = LOG_CHECKPOINT_FSP_MAGIC_N_VAL
                then let l = mach_read_from_4 hdr (max_cp + LOG_CHECKPOINT_FSP_FREE_LIMIT)
                  in if l = 0 then 1000000000 else l
                else 1000000000)
           in Some \<lparr>ci_lsn = mach_read_from_8 D hdr (max_cp + LOG_CHECKPOINT_LSN),
                ci_offset = mach_read_from_4 hdr (max_cp + LOG_CHECKPOINT_OFFSET), ci_fsp_limit = fsp,
                ci_cp_no = mach_read_from_8 D hdr (max_cp + LOG_CHECKPOINT_NO),
                ci_first_header_lsn = mach_read_from_8 D hdr LOG_FILE_START_LSN\<rparr>)"

text \<open>
  \<open>recv_find_max_checkpoint\<close>: the groups are numbered by their place in the list; the result is the
  chosen group and field, with the groups as the function leaves them (\<open>None\<close> for a group in the
  state corrupted). The comparison is \<open>if(ut_dulint_cmp(checkpoint_no, max_no))\<close>: unequal, not greater.
\<close>

definition find_max_turn ::
    "lsn_api \<Rightarrow> mem list \<Rightarrow> nat \<times> nat \<Rightarrow> (dulint \<times> (nat \<times> nat) option) \<times> (dulint \<times> ulint) option list \<Rightarrow>
       (dulint \<times> (nat \<times> nat) option) \<times> (dulint \<times> ulint) option list" where
  "find_max_turn A files gf st =
     (let D = dulint_api.truncate A; (g, field) = gf; ((max_no, best), states) = st;
          buf = mem_put (\<lambda>_. 0) 0 (mem_bytes (files ! g) field OS_FILE_LOG_BLOCK_SIZE)
      in if \<not> recv_check_cp_is_consistent buf 0 then st
         else let states = states[g := Some (mach_read_from_8 D buf LOG_CHECKPOINT_LSN, mach_read_from_4 buf LOG_CHECKPOINT_OFFSET)];
                  checkpoint_no = mach_read_from_8 D buf LOG_CHECKPOINT_NO
           in if ut_dulint_cmp A checkpoint_no max_no \<noteq> 0
              then ((checkpoint_no, Some (g, field)), states) else ((max_no, best), states))"

definition recv_find_max_checkpoint :: "lsn_api \<Rightarrow> mem list \<Rightarrow> (nat \<times> nat) option \<times> (dulint \<times> ulint) option list" where
  "recv_find_max_checkpoint A files =
     (let ((max_no, best), states) =
            fold (find_max_turn A files)
              (concat (map (\<lambda>g. [(g, LOG_CHECKPOINT_1), (g, LOG_CHECKPOINT_2)]) [0..<length files]))
              ((\<lparr>high = 0, low = 0\<rparr>, None), replicate (length files) None)
      in (best, states))"

section \<open>Sealed blocks\<close>

lemma mask32: "(0xFFFFFFFF :: ulint) = mask 32"
  by (simp add: mask_eq_exp_minus_1)

lemma write_4_mask: "mach_write_to_4 m b (v AND 0xFFFFFFFF) = mach_write_to_4 m b v"
proof -
  have "(ucast (drop_bit k (v AND 0xFFFFFFFF)) :: byte) = ucast (drop_bit k v)" if "k \<le> 24" for k
    unfolding mask32 by (rule bit_word_eqI) (use that in \<open>auto simp: bit_simps\<close>)
  from this [of 24] this [of 16] this [of 8] this [of 0] show ?thesis
    by (simp add: mach_write_to_4_def)
qed

lemma read_write_4: "mach_read_from_4 (mach_write_to_4 m b v) b = v AND 0xFFFFFFFF"
proof -
  have "unat (v AND 0xFFFFFFFF) < 2 ^ 32"
    unfolding mask32 unat_and_mask by simp
  then show ?thesis using c4.rd_wr [of "v AND 0xFFFFFFFF" m b] by (simp add: write_4_mask)
qed

lemma fold_cong_bytes:
  assumes "unat len < 2 ^ 32" "\<And>j. j < unat len \<Longrightarrow> m (p + j) = m' (p' + j)"
  shows "ut_fold_binary m p len = ut_fold_binary m' p' len"
proof -
  have "mem_bytes m p (unat len) = mem_bytes m' p' (unat len)"
    using assms(2) by (intro nth_equalityI) simp_all
  then show ?thesis by (simp add: ut_fold_binary_eq [OF assms(1)])
qed

lemma read_4_cong':
  assumes "\<And>j. j < 4 \<Longrightarrow> m (p + j) = m' (p' + j)"
  shows "mach_read_from_4 m p = mach_read_from_4 m' p'"
  using assms [of 0] assms [of 1] assms [of 2] assms [of 3] by (simp only: mach_read_from_4_def) simp

lemma read_8_cong':
  assumes "\<And>j. j < 8 \<Longrightarrow> m (p + j) = m' (p' + j)"
  shows "mach_read_from_8 D m p = mach_read_from_8 D m' p'"
proof -
  have "mach_read_from_4 m p = mach_read_from_4 m' p'" by (rule read_4_cong') (use assms in simp)
  moreover have "mach_read_from_4 m (p + 4) = mach_read_from_4 m' (p' + 4)"
    by (rule read_4_cong') (use assms [of "4 + _"] in \<open>simp add: add.assoc\<close>)
  ultimately show ?thesis by (simp add: mach_read_from_8_def)
qed

lemma cp_lens: "of_nat LOG_CHECKPOINT_CHECKSUM_1 = (288 :: ulint)"
  "of_nat (LOG_CHECKPOINT_CHECKSUM_2 - LOG_CHECKPOINT_LSN) = (284 :: ulint)"
  by (simp_all add: cp_layout)

text \<open>The check of a block looks at its first 296 bytes.\<close>

lemma cp_check_cong:
  assumes "\<And>j. j < 296 \<Longrightarrow> m (p + j) = m' (p' + j)"
  shows "recv_check_cp_is_consistent m p = recv_check_cp_is_consistent m' p'"
proof -
  have "ut_fold_binary m p 288 = ut_fold_binary m' p' 288" by (rule fold_cong_bytes) (use assms in simp_all)
  moreover have "ut_fold_binary m (p + 8) 284 = ut_fold_binary m' (p' + 8) 284"
    by (rule fold_cong_bytes) (use assms [of "8 + _"] in \<open>simp_all add: add.assoc\<close>)
  moreover have "mach_read_from_4 m (p + 288) = mach_read_from_4 m' (p' + 288)"
    by (rule read_4_cong') (use assms [of "288 + _"] in \<open>simp add: add.assoc\<close>)
  moreover have "mach_read_from_4 m (p + 292) = mach_read_from_4 m' (p' + 292)"
    by (rule read_4_cong') (use assms [of "292 + _"] in \<open>simp add: add.assoc\<close>)
  ultimately show ?thesis
    unfolding recv_check_cp_is_consistent_def cp_lens by (simp add: cp_layout)
qed

lemma cp_seal_frame: "i < b + 288 \<or> b + 296 \<le> i \<Longrightarrow> cp_seal m b i = m i"
  by (auto simp: cp_seal_def Let_def cp_layout write_4_frame)

lemma cp_seal_consistent: "recv_check_cp_is_consistent (cp_seal m b) b"
proof -
  define m1 where "m1 = mach_write_to_4 m (b + 288) (ut_fold_binary m b 288)"
  define m2 where "m2 = mach_write_to_4 m1 (b + 292) (ut_fold_binary m1 (b + 8) 284)"
  have s: "cp_seal m b = m2" unfolding cp_seal_def Let_def cp_lens m2_def m1_def by (simp add: cp_layout)
  have m2: "m2 i = m1 i" if "i < b + 292" for i using that by (simp add: m2_def write_4_frame)
  have m1: "m1 i = m i" if "i < b + 288" for i using that by (simp add: m1_def write_4_frame)
  have "ut_fold_binary m2 b 288 = ut_fold_binary m b 288" by (rule fold_cong_bytes) (simp_all add: m1 m2)
  moreover have "ut_fold_binary m2 (b + 8) 284 = ut_fold_binary m1 (b + 8) 284" by (rule fold_cong_bytes) (simp_all add: m2)
  moreover have "mach_read_from_4 m2 (b + 288) = mach_read_from_4 m1 (b + 288)" by (rule read_4_cong') (simp add: m2)
  moreover have "mach_read_from_4 m1 (b + 288) = ut_fold_binary m b 288 AND 0xFFFFFFFF" by (simp add: m1_def read_write_4)
  moreover have "mach_read_from_4 m2 (b + 292) = ut_fold_binary m1 (b + 8) 284 AND 0xFFFFFFFF" by (simp add: m2_def read_write_4)
  ultimately show ?thesis
    unfolding s recv_check_cp_is_consistent_def cp_lens by (simp add: cp_layout)
qed

lemma set_group_info_frame:
  "i < b + 32 + 8 * n \<or> b + 40 + 8 * n \<le> i \<Longrightarrow> log_checkpoint_set_nth_group_info m b n f o' i = m i"
  by (auto simp: log_checkpoint_set_nth_group_info_def cp_layout write_4_frame)

lemma fold_group_info_frame:
  "i < 32 \<Longrightarrow> fold (\<lambda>x m. log_checkpoint_set_nth_group_info m 0 (n x) (f x) (o' x)) xs m i = m i"
  by (induction xs arbitrary: m) (simp_all add: set_group_info_frame)

lemma lsn_dulint: "lsn_api_ok A \<Longrightarrow> dulint_api_ok (dulint_api.truncate A)"
  by (simp add: lsn_api_ok_def)

lemma read_write_8:
  assumes "dulint_api_ok D" "dulint_wf d"
  shows "mach_read_from_8 D (mach_write_to_8 D m b d) b = d"
  using assms(2) d8.via.rd_wr [of d m b]
  unfolding p44.okp_def dulint_wf_def mach_dulint_eqs [OF assms(1)] by (simp add: dulint_halves_def)

text \<open>A block that holds a checkpoint, at place \<open>p\<close> of a file.\<close>

definition holds_cp :: "lsn_api \<Rightarrow> mem \<Rightarrow> ptr \<Rightarrow> dulint \<Rightarrow> dulint \<Rightarrow> bool" where
  "holds_cp A m p no lsn \<longleftrightarrow> recv_check_cp_is_consistent m p
     \<and> mach_read_from_8 (dulint_api.truncate A) m (p + LOG_CHECKPOINT_NO) = no
     \<and> mach_read_from_8 (dulint_api.truncate A) m (p + LOG_CHECKPOINT_LSN) = lsn"

lemma holds_cp_cong:
  assumes "\<And>j. j < 296 \<Longrightarrow> m (p + j) = m' (p' + j)"
  shows "holds_cp A m p no lsn = holds_cp A m' p' no lsn"
proof -
  let ?D = "dulint_api.truncate A"
  have "mach_read_from_8 ?D m p = mach_read_from_8 ?D m' p'" by (rule read_8_cong') (use assms in simp)
  moreover have "mach_read_from_8 ?D m (p + 8) = mach_read_from_8 ?D m' (p' + 8)"
    by (rule read_8_cong') (use assms [of "8 + _"] in \<open>simp add: add.assoc\<close>)
  ultimately show ?thesis using cp_check_cong [of m p m' p', OF assms] by (simp add: holds_cp_def cp_layout)
qed

lemma cp_fill_holds:
  assumes A: "lsn_api_ok A" and wf: "dulint_wf (next_checkpoint_no s)" "dulint_wf (next_checkpoint_lsn s)"
    and m: "cp_fill A s g = Some m"
  shows "holds_cp A m 0 (next_checkpoint_no s) (next_checkpoint_lsn s)"
proof -
  let ?D = "dulint_api.truncate A"
  note D = lsn_dulint [OF A]
  define m1 where "m1 = mach_write_to_8 ?D (checkpoint_buf g) LOG_CHECKPOINT_NO (next_checkpoint_no s)"
  define m2 where "m2 = mach_write_to_8 ?D m1 LOG_CHECKPOINT_LSN (next_checkpoint_lsn s)"
  obtain offset where off: "log_group_calc_lsn_offset A (next_checkpoint_lsn s) (cp_lg g) = Some offset"
    using m by (auto simp: cp_fill_def split: option.splits)
  define m3 where "m3 = mach_write_to_8 ?D (mach_write_to_4 m2 LOG_CHECKPOINT_OFFSET offset) LOG_CHECKPOINT_ARCHIVED_LSN
    (if arch_off s then dulint_max s else arch_lsn s)"
  define m4 where "m4 = fold (\<lambda>g2 m. log_checkpoint_set_nth_group_info m 0 (unat (group_id (cp_lg g2)))
      (archived_file_no g2) (archived_offset g2)) (cp_groups s)
    (fold (\<lambda>i m. log_checkpoint_set_nth_group_info m 0 i 0 0) [0..<LOG_MAX_N_GROUPS] m3)"
  have e: "m = mach_write_to_4 (mach_write_to_4 (cp_seal m4 0) LOG_CHECKPOINT_FSP_FREE_LIMIT (fsp_free_limit s))
      LOG_CHECKPOINT_FSP_MAGIC_N LOG_CHECKPOINT_FSP_MAGIC_N_VAL"
    using m by (simp add: cp_fill_def off Let_def m4_def m3_def m2_def m1_def)
  have seal: "m j = cp_seal m4 0 j" if "j < 296" for j using that by (simp add: e cp_layout write_4_frame)
  have low: "m j = m2 j" if "j < 16" for j
    using that by (simp add: seal cp_seal_frame m4_def fold_group_info_frame m3_def write_8_frame write_4_frame cp_layout)
  have "mach_read_from_8 ?D m 0 = mach_read_from_8 ?D m1 0"
    by (rule read_8_cong') (simp add: low m2_def write_8_frame cp_layout)
  also have "\<dots> = next_checkpoint_no s" by (simp add: m1_def cp_layout read_write_8 [OF D wf(1)])
  finally have 1: "mach_read_from_8 ?D m 0 = next_checkpoint_no s" .
  have "mach_read_from_8 ?D m 8 = mach_read_from_8 ?D m2 8" by (rule read_8_cong') (simp add: low)
  also have "\<dots> = next_checkpoint_lsn s" by (simp add: m2_def cp_layout read_write_8 [OF D wf(2)])
  finally have 2: "mach_read_from_8 ?D m 8 = next_checkpoint_lsn s" .
  have "recv_check_cp_is_consistent m 0 = recv_check_cp_is_consistent (cp_seal m4 0) 0"
    by (rule cp_check_cong) (simp add: seal)
  with 1 2 cp_seal_consistent [of m4 0] show ?thesis by (simp add: holds_cp_def cp_layout)
qed

end
