(* ===== verification/Log_Recover.thy ===== *)
theory Log_Recover
  imports Log_Checkpoint
begin

text \<open>
  The checkpoint writes as a step relation: issues, torn writes and completions in any order, the
  invariant they keep, and the result of the two routines of recovery that choose a checkpoint.
\<close>

section \<open>The steps of the checkpoint system\<close>

definition cp_put :: "nat \<Rightarrow> nat \<Rightarrow> byte list \<Rightarrow> cp_sys \<Rightarrow> cp_sys" where
  "cp_put i off bs s = s\<lparr>cp_groups := (cp_groups s)[i := (cp_groups s ! i)\<lparr>cp_file := mem_put (cp_file (cp_groups s ! i)) off bs\<rparr>]\<rparr>"

text \<open>
  A step is a call of \<open>log_checkpoint\<close>, a part of an issued write that reaches the disk (anything
  that the check does not take for a checkpoint), or the end of an issued write, in any order.
\<close>

inductive cp_step :: "lsn_api \<Rightarrow> cp_sys \<Rightarrow> cp_sys \<Rightarrow> bool" for A :: lsn_api where
  start: "cp_step A s s'"
    if "log_checkpoint A lsn write_always s = Some (s', ok)" "dulint_wf lsn"
      "dulint_val (next_checkpoint_no s) + 1 < 2 ^ 63"
| torn: "cp_step A s (cp_put i off junk s)"
    if "(i, off, bs) \<in> set (cp_ios s)" "length junk = OS_FILE_LOG_BLOCK_SIZE"
      "\<not> recv_check_cp_is_consistent (mem_put (\<lambda>_. 0) 0 junk) 0"
| finish: "cp_step A s (log_io_complete_checkpoint A (cp_put i off bs s\<lparr>cp_ios := xs @ ys\<rparr>))"
    if "cp_ios s = xs @ (i, off, bs) # ys"

inductive cp_reach :: "lsn_api \<Rightarrow> cp_sys \<Rightarrow> cp_sys \<Rightarrow> bool" for A :: lsn_api where
  init: "cp_reach A s s"
| step: "cp_reach A s t \<Longrightarrow> cp_step A t u \<Longrightarrow> cp_reach A s u"

section \<open>The invariant\<close>

definition cp_older :: "lsn_api \<Rightarrow> mem \<Rightarrow> ptr \<Rightarrow> nat \<Rightarrow> bool" where
  "cp_older A m p n \<longleftrightarrow> recv_check_cp_is_consistent m p \<longrightarrow>
     dulint_val (mach_read_from_8 (dulint_api.truncate A) m (p + LOG_CHECKPOINT_NO)) < n"

definition cp_issue_ok :: "lsn_api \<Rightarrow> cp_sys \<Rightarrow> nat \<times> nat \<times> byte list \<Rightarrow> bool" where
  "cp_issue_ok A s io = (case io of (i, off, bs) \<Rightarrow> i < length (cp_groups s) \<and> off = cp_place A (next_checkpoint_no s)
     \<and> length bs = OS_FILE_LOG_BLOCK_SIZE
     \<and> holds_cp A (mem_put (\<lambda>_. 0) 0 bs) 0 (next_checkpoint_no s) (next_checkpoint_lsn s))"

definition cp_group_ok :: "lsn_api \<Rightarrow> cp_sys \<Rightarrow> nat \<Rightarrow> bool" where
  "cp_group_ok A s i =
     (let f = cp_file (cp_groups s ! i); p = cp_place A (next_checkpoint_no s) in
      (\<exists>no. dulint_wf no \<and> Suc (dulint_val no) = dulint_val (next_checkpoint_no s)
         \<and> holds_cp A f (cp_place A no) no (last_checkpoint_lsn s))
      \<and> (if cp_ios s = [] \<or> i \<in> fst ` set (cp_ios s) then cp_older A f p (dulint_val (next_checkpoint_no s) - 1)
         else holds_cp A f p (next_checkpoint_no s) (next_checkpoint_lsn s)))"

definition cp_ok :: "lsn_api \<Rightarrow> cp_sys \<Rightarrow> bool" where
  "cp_ok A s \<longleftrightarrow> dulint_wf (next_checkpoint_no s) \<and> (cp_ios s \<noteq> [] \<longrightarrow> dulint_wf (next_checkpoint_lsn s))
     \<and> (cp_ios s \<noteq> [] \<longrightarrow> dulint_val (next_checkpoint_no s) + 1 < 2 ^ 63)
     \<and> length (cp_ios s) = n_pending_checkpoint_writes s \<and> checkpoint_lock s = (cp_ios s \<noteq> [])
     \<and> distinct (map fst (cp_ios s)) \<and> (\<forall>io \<in> set (cp_ios s). cp_issue_ok A s io)
     \<and> (\<forall>i < length (cp_groups s). cp_group_ok A s i)"

lemma cp_ok_parts:
  assumes "cp_ok A s"
  shows "dulint_wf (next_checkpoint_no s)" "length (cp_ios s) = n_pending_checkpoint_writes s"
    "checkpoint_lock s = (cp_ios s \<noteq> [])" "distinct (map fst (cp_ios s))"
    "\<And>io. io \<in> set (cp_ios s) \<Longrightarrow> cp_issue_ok A s io"
    "\<And>i. i < length (cp_groups s) \<Longrightarrow> cp_group_ok A s i"
  using assms by (auto simp: cp_ok_def)

text \<open>The places of two consecutive numbers differ, and one write leaves the other place.\<close>

lemma low_parity:
  assumes "lsn_api_ok A" "dulint_wf a"
  shows "cp_place A a = (if even (dulint_val a) then 512 else 1536)"
proof -
  have "ut_dulint_get_low A a = low a"
    using assms lsn_dulint [OF assms(1)] by (simp add: dulint_api_ok_def dulint_api.defs)
  moreover have "(low a mod 2 = 0) = even (unat (low a))"
    by (simp add: unat_eq_0 [symmetric] unat_mod_distrib even_iff_mod_2_eq_zero del: unat_eq_0)
  ultimately show ?thesis by (simp add: cp_place_def cp_layout dulint_val_def)
qed

lemma place_next:
  assumes "lsn_api_ok A" "dulint_wf a" "dulint_wf b" "Suc (dulint_val a) = dulint_val b"
  shows "cp_place A a \<noteq> cp_place A b"
  using assms(4) by (simp add: low_parity [OF assms(1)] assms(2,3) flip: assms(4))

lemma place_cases: "cp_place A a = 512 \<or> cp_place A a = 1536" by (simp add: cp_place_def cp_layout)

lemma holds_put_same:
  "length bs = 512 \<Longrightarrow> holds_cp A (mem_put f off bs) off no lsn = holds_cp A (mem_put (\<lambda>_. 0) 0 bs) 0 no lsn"
  using mem_put_inside [of _ bs "\<lambda>_. 0" 0] by (intro holds_cp_cong) (simp add: mem_put_inside)

lemma holds_put_other:
  assumes "length bs = 512" "cp_place A a \<noteq> cp_place A b"
  shows "holds_cp A (mem_put f (cp_place A a) bs) (cp_place A b) no lsn = holds_cp A f (cp_place A b) no lsn"
  by (intro holds_cp_cong mem_put_outside) (use assms place_cases [of A a] place_cases [of A b] in auto)

lemma check_put_same:
  "length bs = 512 \<Longrightarrow> recv_check_cp_is_consistent (mem_put f off bs) off = recv_check_cp_is_consistent (mem_put (\<lambda>_. 0) 0 bs) 0"
  using mem_put_inside [of _ bs "\<lambda>_. 0" 0] by (intro cp_check_cong) (simp add: mem_put_inside)

lemma cp_put_simps [simp]:
  "next_checkpoint_no (cp_put i off bs s) = next_checkpoint_no s"
  "next_checkpoint_lsn (cp_put i off bs s) = next_checkpoint_lsn s"
  "last_checkpoint_lsn (cp_put i off bs s) = last_checkpoint_lsn s"
  "n_pending_checkpoint_writes (cp_put i off bs s) = n_pending_checkpoint_writes s"
  "checkpoint_lock (cp_put i off bs s) = checkpoint_lock s"
  "cp_ios (cp_put i off bs s) = cp_ios s"
  "length (cp_groups (cp_put i off bs s)) = length (cp_groups s)"
  by (simp_all add: cp_put_def)

lemma cp_put_file:
  "i < length (cp_groups s) \<Longrightarrow> cp_file (cp_groups (cp_put i off bs s) ! k)
     = (if k = i then mem_put (cp_file (cp_groups s ! i)) off bs else cp_file (cp_groups s ! k))"
  by (simp add: cp_put_def nth_list_update)

section \<open>The invariant is kept\<close>

definition cp_frame :: "cp_sys \<Rightarrow> cp_sys \<Rightarrow> bool" where
  "cp_frame s t \<longleftrightarrow> next_checkpoint_no t = next_checkpoint_no s \<and> next_checkpoint_lsn t = next_checkpoint_lsn s
     \<and> last_checkpoint_lsn t = last_checkpoint_lsn s \<and> length (cp_groups t) = length (cp_groups s)
     \<and> (\<forall>i < length (cp_groups s). cp_file (cp_groups t ! i) = cp_file (cp_groups s ! i))"

lemma cp_frame_trans: "cp_frame s t \<Longrightarrow> cp_frame t u \<Longrightarrow> cp_frame s u"
  by (simp add: cp_frame_def)

lemma cp_frame_issue: "cp_frame s t \<Longrightarrow> cp_issue_ok A t io = cp_issue_ok A s io"
  by (auto simp: cp_frame_def cp_issue_ok_def)

lemma group_checkpoint_shape:
  assumes A: "lsn_api_ok A" and wf: "dulint_wf (next_checkpoint_no s)" "dulint_wf (next_checkpoint_lsn s)"
    and i: "i < length (cp_groups s)" and c: "log_group_checkpoint A i s = Some t"
  shows "cp_frame s t \<and> n_pending_checkpoint_writes t = Suc (n_pending_checkpoint_writes s)
     \<and> (n_pending_checkpoint_writes s = 0 \<or> checkpoint_lock s \<longrightarrow> checkpoint_lock t)
     \<and> (\<exists>off bs. cp_ios t = cp_ios s @ [(i, off, bs)] \<and> cp_issue_ok A t (i, off, bs))"
proof -
  obtain m where m: "cp_fill A s (cp_groups s ! i) = Some m"
    using c by (auto simp: log_group_checkpoint_def split: option.splits)
  let ?bs = "mem_bytes m 0 512"
  have "holds_cp A (mem_put (\<lambda>_. 0) 0 ?bs) 0 (next_checkpoint_no s) (next_checkpoint_lsn s)
      = holds_cp A m 0 (next_checkpoint_no s) (next_checkpoint_lsn s)"
    by (rule holds_cp_cong) (use mem_put_inside [of _ ?bs "\<lambda>_. 0" 0] in simp)
  then have h: "holds_cp A (mem_put (\<lambda>_. 0) 0 ?bs) 0 (next_checkpoint_no s) (next_checkpoint_lsn s)"
    using cp_fill_holds [OF A wf m] by simp
  show ?thesis using c i h
    by (auto simp: log_group_checkpoint_def m Let_def cp_frame_def cp_issue_ok_def nth_list_update OS_FILE_LOG_BLOCK_SIZE_def)
qed

lemma groups_write_shape:
  assumes A: "lsn_api_ok A"
  shows "log_groups_write_checkpoint_info A ids s = Some t \<Longrightarrow> dulint_wf (next_checkpoint_no s) \<Longrightarrow>
     dulint_wf (next_checkpoint_lsn s) \<Longrightarrow> \<forall>i \<in> set ids. i < length (cp_groups s) \<Longrightarrow>
     cp_frame s t \<and> n_pending_checkpoint_writes t = n_pending_checkpoint_writes s + length ids
     \<and> (ids \<noteq> [] \<and> n_pending_checkpoint_writes s = 0 \<or> checkpoint_lock s \<longrightarrow> checkpoint_lock t)
     \<and> (\<exists>new. cp_ios t = cp_ios s @ new \<and> map fst new = ids \<and> (\<forall>io \<in> set new. cp_issue_ok A t io))"
proof (induction ids arbitrary: s)
  case Nil
  then show ?case by (simp add: cp_frame_def)
next
  case (Cons i ids)
  obtain u where u: "log_group_checkpoint A i s = Some u" and t: "log_groups_write_checkpoint_info A ids u = Some t"
    using Cons.prems(1) by (auto split: option.splits)
  from group_checkpoint_shape [OF A _ _ _ u] Cons.prems
  obtain off bs where f: "cp_frame s u" and n: "n_pending_checkpoint_writes u = Suc (n_pending_checkpoint_writes s)"
    and l: "n_pending_checkpoint_writes s = 0 \<or> checkpoint_lock s \<longrightarrow> checkpoint_lock u"
    and io: "cp_ios u = cp_ios s @ [(i, off, bs)]" "cp_issue_ok A u (i, off, bs)" by auto
  from f Cons.prems have "dulint_wf (next_checkpoint_no u)" "dulint_wf (next_checkpoint_lsn u)"
      "\<forall>i \<in> set ids. i < length (cp_groups u)" by (simp_all add: cp_frame_def)
  from Cons.IH [OF t this] obtain new where f2: "cp_frame u t"
    and n2: "n_pending_checkpoint_writes t = n_pending_checkpoint_writes u + length ids"
    and l2: "checkpoint_lock u \<longrightarrow> checkpoint_lock t"
    and io2: "cp_ios t = cp_ios u @ new" "map fst new = ids" "\<forall>io \<in> set new. cp_issue_ok A t io" by auto
  have "cp_ios t = cp_ios s @ ((i, off, bs) # new)" using io io2 by simp
  moreover have "\<forall>io \<in> set ((i, off, bs) # new). cp_issue_ok A t io"
    using io(2) io2(3) cp_frame_issue [OF f2] by simp
  moreover have "map fst ((i, off, bs) # new) = i # ids" using io2(2) by simp
  ultimately show ?case using cp_frame_trans [OF f f2] n n2 l l2 by auto
qed

lemma cp_group_ok_put_other:
  assumes "cp_group_ok A s k" "k \<noteq> i" "i < length (cp_groups s)"
  shows "cp_group_ok A (cp_put i off bs s) k"
  using assms by (auto simp: cp_group_ok_def cp_put_file Let_def split: if_splits)

lemma cp_start_ok:
  assumes A: "lsn_api_ok A" and ok: "cp_ok A s" and c: "log_checkpoint A lsn wa s = Some (t, b)"
    and wf: "dulint_wf lsn" and bound: "dulint_val (next_checkpoint_no s) + 1 < 2 ^ 63"
  shows "cp_ok A t"
proof (cases "cp_ios s = [] \<and> t \<noteq> s")
  case False
  then show ?thesis using c ok cp_ok_parts(2) [OF ok] by (auto simp: log_checkpoint_def split: if_splits)
next
  case True
  let ?s = "s\<lparr>next_checkpoint_lsn := lsn\<rparr>"
  have n0: "n_pending_checkpoint_writes s = 0" using True cp_ok_parts(2) [OF ok] by simp
  from c True n0 have t: "log_groups_write_checkpoint_info A [0..<length (cp_groups s)] ?s = Some t"
    by (auto simp: log_checkpoint_def split: if_splits)
  from groups_write_shape [OF A t] cp_ok_parts(1) [OF ok] wf n0 True
  obtain f: "cp_frame ?s t" and n: "n_pending_checkpoint_writes t = length (cp_groups s)"
    and l: "length (cp_groups s) \<noteq> 0 \<longrightarrow> checkpoint_lock t"
    and io: "map fst (cp_ios t) = [0..<length (cp_groups s)]" "\<forall>io \<in> set (cp_ios t). cp_issue_ok A t io" by auto
  have len: "length (cp_ios t) = length (cp_groups s)" using arg_cong [OF io(1), of length] by simp
  have ids: "fst ` set (cp_ios t) = {..< length (cp_groups s)}" using arg_cong [OF io(1), of set] by (simp add: atLeast0LessThan)
  have g: "cp_group_ok A t k" if "k < length (cp_groups t)" for k
    using cp_ok_parts(6) [OF ok, of k] that f ids True by (auto simp: cp_group_ok_def cp_frame_def Let_def)
  have "checkpoint_lock t = (cp_ios t \<noteq> [])"
  proof (cases "cp_groups s = []")
    case True
    then show ?thesis using t len cp_ok_parts(3) [OF ok] \<open>cp_ios s = [] \<and> t \<noteq> s\<close> by auto
  qed (use l len in auto)
  then show ?thesis
    using f io len n ids g cp_ok_parts(1) [OF ok] wf bound by (auto simp: cp_ok_def cp_frame_def)
qed

lemma cp_torn_ok:
  assumes A: "lsn_api_ok A" and ok: "cp_ok A s" and io: "(i, off, bs) \<in> set (cp_ios s)"
    and j: "length junk = OS_FILE_LOG_BLOCK_SIZE" "\<not> recv_check_cp_is_consistent (mem_put (\<lambda>_. 0) 0 junk) 0"
  shows "cp_ok A (cp_put i off junk s)"
proof -
  note p = cp_ok_parts [OF ok]
  have len: "length junk = 512" using j(1) by (simp add: OS_FILE_LOG_BLOCK_SIZE_def)
  from p(5) [OF io] have i: "i < length (cp_groups s)" and off: "off = cp_place A (next_checkpoint_no s)"
    by (simp_all add: cp_issue_ok_def)
  have mem: "i \<in> fst ` set (cp_ios s)" using io by force
  from p(6) [OF i] obtain no where no: "dulint_wf no" "Suc (dulint_val no) = dulint_val (next_checkpoint_no s)"
    "holds_cp A (cp_file (cp_groups s ! i)) (cp_place A no) no (last_checkpoint_lsn s)" by (auto simp: cp_group_ok_def Let_def)
  have ne: "cp_place A (next_checkpoint_no s) \<noteq> cp_place A no" using place_next [OF A no(1) p(1) no(2)] by simp
  have gi: "cp_group_ok A (cp_put i off junk s) i"
    using no mem holds_put_other [OF len ne] j(2) check_put_same [OF len]
    by (auto simp: cp_group_ok_def Let_def cp_put_file [OF i] off cp_older_def)
  have "cp_group_ok A (cp_put i off junk s) k" if "k < length (cp_groups s)" for k
    using gi cp_group_ok_put_other [OF p(6) [OF that] _ i] by (cases "k = i") auto
  moreover have "cp_issue_ok A (cp_put i off junk s) x = cp_issue_ok A s x" for x by (simp add: cp_issue_ok_def)
  ultimately show ?thesis using ok by (simp add: cp_ok_def)
qed


text \<open>The end of a write: the group holds the new checkpoint; with the last one it becomes the last.\<close>

lemma cp_put_finish:
  assumes A: "lsn_api_ok A" and ok: "cp_ok A s" and e: "cp_ios s = xs @ (i, off, bs) # ys" and k: "k < length (cp_groups s)"
  shows "\<exists>no. dulint_wf no \<and> Suc (dulint_val no) = dulint_val (next_checkpoint_no s)
       \<and> holds_cp A (cp_file (cp_groups (cp_put i off bs s) ! k)) (cp_place A no) no (last_checkpoint_lsn s)"
    "k \<notin> fst ` set (xs @ ys) \<Longrightarrow> holds_cp A (cp_file (cp_groups (cp_put i off bs s) ! k))
       (cp_place A (next_checkpoint_no s)) (next_checkpoint_no s) (next_checkpoint_lsn s)"
    "k \<in> fst ` set (xs @ ys) \<Longrightarrow> cp_older A (cp_file (cp_groups (cp_put i off bs s) ! k))
       (cp_place A (next_checkpoint_no s)) (dulint_val (next_checkpoint_no s) - 1)"
proof -
  note p = cp_ok_parts [OF ok]
  from p(5) [of "(i, off, bs)"] e have i: "i < length (cp_groups s)" and off: "off = cp_place A (next_checkpoint_no s)"
    and len: "length bs = 512" and h: "holds_cp A (mem_put (\<lambda>_. 0) 0 bs) 0 (next_checkpoint_no s) (next_checkpoint_lsn s)"
    by (simp_all add: cp_issue_ok_def OS_FILE_LOG_BLOCK_SIZE_def)
  from p(6) [OF k] obtain no where no: "dulint_wf no" "Suc (dulint_val no) = dulint_val (next_checkpoint_no s)"
    "holds_cp A (cp_file (cp_groups s ! k)) (cp_place A no) no (last_checkpoint_lsn s)" by (auto simp: cp_group_ok_def Let_def)
  have ne: "cp_place A (next_checkpoint_no s) \<noteq> cp_place A no" using place_next [OF A no(1) p(1) no(2)] by simp
  show "\<exists>no. dulint_wf no \<and> Suc (dulint_val no) = dulint_val (next_checkpoint_no s)
       \<and> holds_cp A (cp_file (cp_groups (cp_put i off bs s) ! k)) (cp_place A no) no (last_checkpoint_lsn s)"
    using no holds_put_other [OF len ne] by (auto simp: cp_put_file [OF i] off)
  have ios: "fst ` set (cp_ios s) = insert i (fst ` set (xs @ ys))" "i \<notin> fst ` set (xs @ ys)"
    using p(4) e by auto
  show "holds_cp A (cp_file (cp_groups (cp_put i off bs s) ! k))
       (cp_place A (next_checkpoint_no s)) (next_checkpoint_no s) (next_checkpoint_lsn s)" if "k \<notin> fst ` set (xs @ ys)"
  proof (cases "k = i")
    case True
    then show ?thesis using h
      by (simp add: cp_put_file [OF i] off holds_put_same [OF len, of A "cp_file (cp_groups s ! i)" "cp_place A (next_checkpoint_no s)"])
  next
    case False
    then show ?thesis using p(6) [OF k] that ios e by (auto simp: cp_group_ok_def Let_def cp_put_file [OF i])
  qed
  show "cp_older A (cp_file (cp_groups (cp_put i off bs s) ! k))
       (cp_place A (next_checkpoint_no s)) (dulint_val (next_checkpoint_no s) - 1)" if "k \<in> fst ` set (xs @ ys)"
  proof -
    have "k \<noteq> i" "k \<in> fst ` set (cp_ios s)" using that ios by auto
    then show ?thesis using p(6) [OF k] by (simp add: cp_group_ok_def Let_def cp_put_file [OF i])
  qed
qed

lemma cp_finish_ok:
  assumes A: "lsn_api_ok A" and ok: "cp_ok A s" and e: "cp_ios s = xs @ (i, off, bs) # ys"
  shows "cp_ok A (log_io_complete_checkpoint A (cp_put i off bs s\<lparr>cp_ios := xs @ ys\<rparr>))"
proof -
  let ?u = "cp_put i off bs s\<lparr>cp_ios := xs @ ys\<rparr>"
  note p = cp_ok_parts [OF ok] and f = cp_put_finish [OF A ok e]
  have nl: "dulint_wf (next_checkpoint_lsn s)" and bd: "dulint_val (next_checkpoint_no s) + 1 < 2 ^ 63"
    using ok e by (simp_all add: cp_ok_def)
  have n: "n_pending_checkpoint_writes s = Suc (length xs + length ys)" using p(2) e by simp
  show ?thesis
  proof (cases "xs @ ys = []")
    case False
    have g: "cp_group_ok A ?u k" if "k < length (cp_groups s)" for k
      using f [OF that] False by (auto simp: cp_group_ok_def Let_def)
    have io: "cp_issue_ok A (?u\<lparr>n_pending_checkpoint_writes := n'\<rparr>) x = cp_issue_ok A s x" for x n'
      by (simp add: cp_issue_ok_def)
    have "cp_group_ok A (?u\<lparr>n_pending_checkpoint_writes := n'\<rparr>) k = cp_group_ok A ?u k" for k n'
      by (simp add: cp_group_ok_def)
    then show ?thesis using False n g io p nl bd e
      by (auto simp: log_io_complete_checkpoint_def cp_ok_def)
  next
    case True
    let ?no = "next_checkpoint_no s"
    let ?no' = "ut_dulint_add A ?no 1"
    have no': "dulint_wf ?no'" "dulint_val ?no' = Suc (dulint_val ?no)"
      using A p(1) bd by (simp_all add: lsn_api_ok_def)
    have t: "log_io_complete_checkpoint A ?u = ?u\<lparr>n_pending_checkpoint_writes := 0, next_checkpoint_no := ?no',
        last_checkpoint_lsn := next_checkpoint_lsn s, checkpoint_lock := False\<rparr>"
      using True n by (simp add: log_io_complete_checkpoint_def log_complete_checkpoint_def)
    have g: "cp_group_ok A (log_io_complete_checkpoint A ?u) k" if k: "k < length (cp_groups s)" for k
    proof -
      from f(1) [OF k] obtain no where no: "dulint_wf no" "Suc (dulint_val no) = dulint_val ?no"
        "holds_cp A (cp_file (cp_groups (cp_put i off bs s) ! k)) (cp_place A no) no (last_checkpoint_lsn s)" by auto
      have pl: "cp_place A ?no' = cp_place A no"
        using place_next [OF A no(1) p(1) no(2)] place_next [OF A p(1) no'(1)] no'(2) place_cases [of A] by metis
      have "cp_older A (cp_file (cp_groups (cp_put i off bs s) ! k)) (cp_place A ?no') (dulint_val ?no)"
        using no unfolding pl by (simp add: cp_older_def holds_cp_def)
      then show ?thesis using f(2) [OF k] True p(1) no' unfolding t by (auto simp: cp_group_ok_def Let_def)
    qed
    show ?thesis using g no' True p(2,4) unfolding t by (simp add: cp_ok_def)
  qed
qed

lemma cp_step_ok: "cp_step A s t \<Longrightarrow> lsn_api_ok A \<Longrightarrow> cp_ok A s \<Longrightarrow> cp_ok A t"
  by (induction rule: cp_step.induct) (auto intro: cp_start_ok cp_torn_ok cp_finish_ok)

lemma cp_reach_ok: "cp_reach A s t \<Longrightarrow> lsn_api_ok A \<Longrightarrow> cp_ok A s \<Longrightarrow> cp_ok A t"
  by (induction rule: cp_reach.induct) (auto intro: cp_step_ok)

section \<open>Recovery finds the last checkpoint\<close>

text \<open>
  The system after a start on the log files that \<open>log_reset_first_header_and_checkpoint\<close> wrote: the
  checkpoint number 0 was read, the next one is 1.
\<close>

definition cp_first :: "lsn_api \<Rightarrow> dulint \<Rightarrow> byte list \<Rightarrow> dulint \<Rightarrow> log_group list \<Rightarrow> cp_sys" where
  "cp_first A dmax stamp start lgs =
     \<lparr>next_checkpoint_no = ut_dulint_add A \<lparr>high = 0, low = 0\<rparr> 1,
      next_checkpoint_lsn = ut_dulint_add A start (of_nat LOG_BLOCK_HDR_SIZE),
      last_checkpoint_lsn = ut_dulint_add A start (of_nat LOG_BLOCK_HDR_SIZE),
      arch_off = True, arch_lsn = dmax, dulint_max = dmax, fsp_free_limit = 0, n_pending_checkpoint_writes = 0,
      checkpoint_lock = False,
      cp_groups = map (\<lambda>lg. \<lparr>cp_lg = lg, checkpoint_buf = \<lambda>_. 0, archived_file_no = 0, archived_offset = 0,
        cp_file = log_reset_first_header_and_checkpoint A dmax stamp start (\<lambda>_. 0)\<rparr>) lgs,
      cp_ios = []\<rparr>"

lemma read_8_wf:
  assumes "dulint_api_ok D"
  shows "dulint_wf (mach_read_from_8 D m p)"
  proof -
  have "ut_dulint_create D h l = \<lparr>high = h, low = l\<rparr>" for h l using assms by (simp add: dulint_api_ok_def)
  then show ?thesis by (simp add: mach_read_from_8_def dulint_wf_def mach_read_bounds [simplified])
qed

lemma lsn_cmp_gt:
  assumes "lsn_api_ok A" "dulint_wf a" "dulint_wf b"
  shows "0 < ut_dulint_cmp A a b \<longleftrightarrow> dulint_val b < dulint_val a"
    "ut_dulint_cmp A a b = 0 \<longleftrightarrow> dulint_val a = dulint_val b"
proof -
  from lsn_dulint [OF assms(1)] assms(2,3)
  have c: "ut_dulint_cmp A a b < 0 \<longleftrightarrow> dulint_val a < dulint_val b" "ut_dulint_cmp A a b = 0 \<longleftrightarrow> dulint_val a = dulint_val b"
    by (simp_all add: dulint_api_ok_def dulint_api.defs)
  show "0 < ut_dulint_cmp A a b \<longleftrightarrow> dulint_val b < dulint_val a" using c by linarith
  show "ut_dulint_cmp A a b = 0 \<longleftrightarrow> dulint_val a = dulint_val b" by (rule c)
qed

lemma read_cp_choice:
  assumes "p = LOG_CHECKPOINT_1 \<or> p = LOG_CHECKPOINT_2"
    and "let q = (if p = LOG_CHECKPOINT_1 then LOG_CHECKPOINT_2 else LOG_CHECKPOINT_1) in
       lsn_api_ok A \<and> holds_cp A f p no lsn \<and> dulint_wf no \<and> cp_older A f q (dulint_val no)
       \<and> (p = LOG_CHECKPOINT_2 \<longrightarrow> 0 < dulint_val no)"
  shows "\<exists>ci. recv_read_cp_info_for_backup A f = Some ci \<and> ci_lsn ci = lsn \<and> ci_cp_no ci = no"
proof -
  have A: "lsn_api_ok A" and h: "holds_cp A f p no lsn" and wf: "dulint_wf no" using assms(2) by (auto simp: Let_def)
  let ?r = "\<lambda>p. mach_read_from_8 (dulint_api.truncate A) f p"
  have w: "dulint_wf (?r x)" for x by (rule read_8_wf [OF lsn_dulint [OF A]])
  have z: "dulint_wf \<lparr>high = 0, low = 0\<rparr>" "dulint_val \<lparr>high = 0, low = 0\<rparr> = 0" by (simp_all add: dulint_wf_def dulint_val_def)
  note g = lsn_cmp_gt(1) [OF A]
  from assms(1) show ?thesis
  proof
    assume p: "p = LOG_CHECKPOINT_1"
    have "\<not> (recv_check_cp_is_consistent f 1536 \<and> 0 < ut_dulint_cmp A (?r 1536) no)"
      using assms(2) by (auto simp: p Let_def cp_layout cp_older_def g [OF w wf])
    then show ?thesis using h
      by (auto simp: recv_read_cp_info_for_backup_def Let_def holds_cp_def p cp_layout)
  next
    assume p: "p = LOG_CHECKPOINT_2"
    have "recv_check_cp_is_consistent f 512 \<longrightarrow> 0 < ut_dulint_cmp A no (?r 512)"
      using assms(2) by (auto simp: p Let_def cp_layout cp_older_def g [OF wf w])
    moreover have "0 < ut_dulint_cmp A no \<lparr>high = 0, low = 0\<rparr>"
      using assms(2) by (simp add: p g [OF wf z(1)] z(2))
    ultimately show ?thesis using h
      by (auto simp: recv_read_cp_info_for_backup_def Let_def holds_cp_def p cp_layout)
  qed
qed

lemma cp_ok_recovery:
  assumes A: "lsn_api_ok A" and ok: "cp_ok A s" and i: "i < length (cp_groups s)"
  shows "\<exists>ci. recv_read_cp_info_for_backup A (cp_file (cp_groups s ! i)) = Some ci
     \<and> (ci_lsn ci = last_checkpoint_lsn s \<and> Suc (dulint_val (ci_cp_no ci)) = dulint_val (next_checkpoint_no s)
        \<or> checkpoint_lock s \<and> i \<notin> fst ` set (cp_ios s) \<and> ci_lsn ci = next_checkpoint_lsn s \<and> ci_cp_no ci = next_checkpoint_no s)"
proof -
  note p = cp_ok_parts [OF ok]
  let ?f = "cp_file (cp_groups s ! i)" and ?n = "next_checkpoint_no s"
  from p(6) [OF i] obtain no where no: "dulint_wf no" "Suc (dulint_val no) = dulint_val ?n"
    "holds_cp A ?f (cp_place A no) no (last_checkpoint_lsn s)" by (auto simp: cp_group_ok_def Let_def)
  have pl: "x = LOG_CHECKPOINT_1 \<or> x = LOG_CHECKPOINT_2" if "x = cp_place A d" for x d using that by (simp add: cp_place_def)
  have other: "cp_place A ?n = (if cp_place A no = LOG_CHECKPOINT_1 then LOG_CHECKPOINT_2 else LOG_CHECKPOINT_1)"
    "cp_place A no = (if cp_place A ?n = LOG_CHECKPOINT_1 then LOG_CHECKPOINT_2 else LOG_CHECKPOINT_1)"
    using place_next [OF A no(1) p(1) no(2)] place_cases [of A no] place_cases [of A ?n] by (auto simp: cp_layout)
  have odd: "0 < dulint_val d" if "cp_place A d = LOG_CHECKPOINT_2" "dulint_wf d" for d
    using that by (auto simp: low_parity [OF A] cp_layout intro: ccontr split: if_splits)
  show ?thesis
  proof (cases "cp_ios s = [] \<or> i \<in> fst ` set (cp_ios s)")
    case True
    have "dulint_val ?n - 1 = dulint_val no" using no(2) by simp
    with True have "cp_older A ?f (cp_place A ?n) (dulint_val no)"
      using p(6) [OF i] by (simp add: cp_group_ok_def Let_def)
    then show ?thesis using read_cp_choice [OF pl [of "cp_place A no" no, OF refl], of A ?f no "last_checkpoint_lsn s"] A no odd [of no] other(1)
      by (auto simp: Let_def)
  next
    case False
    then have h: "holds_cp A ?f (cp_place A ?n) ?n (next_checkpoint_lsn s)"
      using p(6) [OF i] by (simp add: cp_group_ok_def Let_def)
    have "cp_older A ?f (cp_place A no) (dulint_val ?n)" using no by (simp add: cp_older_def holds_cp_def)
    then show ?thesis using read_cp_choice [OF pl [of "cp_place A ?n" ?n, OF refl], of A ?f ?n "next_checkpoint_lsn s"] A h p(1,3) odd [of ?n] other(2) False
      by (auto simp: Let_def)
  qed
qed

text \<open>The first system satisfies the invariant; a place that holds zeros is not a checkpoint.\<close>

lemma fold_zeros: "foldl ut_fold_ulint_pair 0 (replicate 288 (0 :: ulint)) AND 0xFFFFFFFF \<noteq> 0"
  by code_simp

lemma zeros_inconsistent:
  assumes "\<And>j. j < 296 \<Longrightarrow> m (p + j) = 0"
  shows "\<not> recv_check_cp_is_consistent m p"
proof -
  have "map ucast (mem_bytes m p 288) = replicate 288 (0 :: ulint)"
    by (rule nth_equalityI) (simp_all add: assms)
  then have "ut_fold_binary m p 288 = foldl ut_fold_ulint_pair 0 (replicate 288 (0 :: ulint))"
    using ut_fold_binary_eq [of 288 m p] by simp
  moreover have "mach_read_from_4 m (p + 288) = 0"
    using assms [of 288] assms [of 289] assms [of 290] assms [of 291] by (simp add: mach_read_from_4_def ac_simps)
  ultimately show ?thesis using fold_zeros by (simp only: recv_check_cp_is_consistent_def cp_lens) (simp add: cp_layout)
qed

lemma reset_places:
  assumes A: "lsn_api_ok A" and wf: "dulint_wf start" and b: "dulint_val start + 12 < 2 ^ 63" and st: "length stamp \<le> 496"
    and f: "f = log_reset_first_header_and_checkpoint A dmax stamp start (\<lambda>_. 0)"
  shows "holds_cp A f 512 \<lparr>high = 0, low = 0\<rparr> (ut_dulint_add A start (of_nat LOG_BLOCK_HDR_SIZE))"
    "\<not> recv_check_cp_is_consistent f 1536"
proof -
  let ?D = "dulint_api.truncate A" and ?lsn = "ut_dulint_add A start (of_nat LOG_BLOCK_HDR_SIZE)"
  note D = lsn_dulint [OF A]
  have lsn: "dulint_wf ?lsn" using A wf b by (simp add: lsn_api_ok_def LOG_BLOCK_HDR_SIZE_def)
  define m0 where "m0 = mem_put (mach_write_to_8 ?D (mach_write_to_4 (\<lambda>_. 0) LOG_GROUP_ID 0) LOG_FILE_START_LSN start)
    LOG_FILE_WAS_CREATED_BY_HOT_BACKUP stamp"
  define m1 where "m1 = mach_write_to_8 ?D m0 512 \<lparr>high = 0, low = 0\<rparr>"
  define m2 where "m2 = mach_write_to_8 ?D m1 520 ?lsn"
  define m3 where "m3 = mach_write_to_8 ?D (mach_write_to_4 (mach_write_to_4 m2 528
      (LOG_FILE_HDR_SIZE + of_nat LOG_BLOCK_HDR_SIZE)) 532 (2 * 1024 * 1024)) 536 dmax"
  have e: "f = cp_seal m3 512"
    by (simp add: f log_reset_first_header_and_checkpoint_def Let_def m3_def m2_def m1_def m0_def cp_layout)
  have low: "f j = m2 j" if "j < 528" for j
    using that by (simp add: e cp_seal_frame m3_def write_8_frame write_4_frame)
  have hi: "f j = 0" if "1536 \<le> j" for j
    using that st by (simp add: e cp_seal_frame m3_def m2_def m1_def m0_def write_8_frame write_4_frame mem_put_outside
      LOG_GROUP_ID_def LOG_FILE_START_LSN_def LOG_FILE_WAS_CREATED_BY_HOT_BACKUP_def)
  have "mach_read_from_8 ?D f 512 = mach_read_from_8 ?D m1 512"
    by (rule read_8_cong') (simp add: low m2_def write_8_frame)
  moreover have "\<dots> = \<lparr>high = 0, low = 0\<rparr>" unfolding m1_def by (rule read_write_8 [OF D]) (simp add: dulint_wf_def)
  moreover have "mach_read_from_8 ?D f 520 = mach_read_from_8 ?D m2 520" by (rule read_8_cong') (simp add: low)
  moreover have "\<dots> = ?lsn" unfolding m2_def by (rule read_write_8 [OF D lsn])
  ultimately show "holds_cp A f 512 \<lparr>high = 0, low = 0\<rparr> ?lsn"
    using cp_seal_consistent [of m3 512] by (simp add: holds_cp_def cp_layout e)
  show "\<not> recv_check_cp_is_consistent f 1536" by (rule zeros_inconsistent) (simp add: hi)
qed

lemma cp_first_ok:
  assumes A: "lsn_api_ok A" and wf: "dulint_wf start" and b: "dulint_val start + 12 < 2 ^ 63" and st: "length stamp \<le> 496"
  shows "cp_ok A (cp_first A dmax stamp start lgs)"
proof -
  let ?z = "\<lparr>high = 0, low = 0\<rparr> :: dulint" and ?one = "ut_dulint_add A \<lparr>high = 0, low = 0\<rparr> 1"
  let ?f = "log_reset_first_header_and_checkpoint A dmax stamp start (\<lambda>_. 0)"
  have z: "dulint_wf ?z" "dulint_val ?z = 0" by (simp_all add: dulint_wf_def dulint_val_def)
  then have one: "dulint_wf ?one" "dulint_val ?one = 1" using A by (simp_all add: lsn_api_ok_def)
  have p: "cp_place A ?z = 512" "cp_place A ?one = 1536" using z one by (simp_all add: low_parity [OF A])
  note r = reset_places [OF A wf b st refl, of dmax]
  have "cp_group_ok A (cp_first A dmax stamp start lgs) i" if "i < length lgs" for i
    using that r z one p unfolding cp_group_ok_def Let_def
    by (auto simp: cp_first_def cp_older_def intro!: exI [of _ ?z])
  then show ?thesis using one by (simp add: cp_ok_def cp_first_def)
qed


definition cp_demo :: cp_sys where
  "cp_demo = cp_first lsn_ref \<lparr>high = 0, low = 0\<rparr> [] \<lparr>high = 0, low = 8192\<rparr> [group0]"

lemma cp_demo_numbers:
  "dulint_wf \<lparr>high = 0, low = 9000\<rparr>" "dulint_val \<lparr>high = 0, low = 9000\<rparr> < 2 ^ 62"
  "\<bar>int (dulint_val \<lparr>high = 0, low = 9000\<rparr>) - int (dulint_val (group_lsn group0))\<bar> < 2 ^ 32"
  by (simp_all add: dulint_wf_def dulint_val_def group0_def dulint_of_nat_def)

lemma cp_demo_offset: "\<exists>w. log_group_calc_lsn_offset lsn_ref \<lparr>high = 0, low = 9000\<rparr> group0 = Some w"
  using lsn_offset_val [OF lsn_ref_ok group0_tracks cp_demo_numbers] by blast

lemma cp_demo_start:
  "\<exists>t off bs. log_checkpoint lsn_ref \<lparr>high = 0, low = 9000\<rparr> False cp_demo = Some (t, True) \<and> cp_ios t = [(0, off, bs)]
     \<and> length (cp_groups t) = 1 \<and> last_checkpoint_lsn t = dulint_of_nat 8204"
  using cp_demo_offset
  by (auto simp: cp_demo_def cp_first_def log_checkpoint_def log_group_checkpoint_def cp_fill_def Let_def
      dulint_val_def dulint_of_nat_def LOG_BLOCK_HDR_SIZE_def)


section \<open>The choice of \<open>recv_find_max_checkpoint\<close>\<close>

lemma find_max_turn_eq:
  assumes "length files = n" "g < n" and A: "lsn_api_ok A" and h: "holds_cp A (files ! g) f no lsn"
  shows "find_max_turn A files (g, f) ((max_no, best), states) =
     ((if ut_dulint_cmp A no max_no \<noteq> 0 then (no, Some (g, f)) else (max_no, best)),
      states[g := Some (lsn, mach_read_from_4 (files ! g) (f + LOG_CHECKPOINT_OFFSET))])"
proof -
  let ?buf = "mem_put (\<lambda>_. 0) 0 (mem_bytes (files ! g) f 512)"
  have b: "?buf j = (files ! g) (f + j)" if "j < 512" for j
    using that mem_put_inside [of j "mem_bytes (files ! g) f 512" "\<lambda>_. 0" 0] by simp
  have "holds_cp A ?buf 0 no lsn" using holds_cp_cong [of ?buf 0 "files ! g" f A no lsn] b h by simp
  moreover have "mach_read_from_4 ?buf 16 = mach_read_from_4 (files ! g) (f + 16)"
    by (rule read_4_cong') (simp add: b add.assoc)
  ultimately show ?thesis
    by (simp add: find_max_turn_def Let_def holds_cp_def cp_layout)
qed

text \<open>C33. A group whose two places hold sound checkpoints of different numbers, the one at
\<open>LOG_CHECKPOINT_1\<close> being the newer: \<open>recv_find_max_checkpoint\<close> tests that the numbers differ where it
has to test for the greater one, and returns the older checkpoint.\<close>

theorem recv_find_max_picks_older:
  assumes "lsn_api_ok A" "dulint_wf no1" "dulint_wf no2" "dulint_val no2 < dulint_val no1"
    "holds_cp A f LOG_CHECKPOINT_1 no1 lsn1" "holds_cp A f LOG_CHECKPOINT_2 no2 lsn2"
  shows "recv_find_max_checkpoint A [f] =
     (Some (0, LOG_CHECKPOINT_2), [Some (lsn2, mach_read_from_4 f (LOG_CHECKPOINT_2 + LOG_CHECKPOINT_OFFSET))])"
proof -
  let ?z = "\<lparr>high = 0, low = 0\<rparr> :: dulint"
  have z: "dulint_wf ?z" "dulint_val ?z = 0" by (simp_all add: dulint_wf_def dulint_val_def)
  have "ut_dulint_cmp A no1 ?z \<noteq> 0" "ut_dulint_cmp A no2 no1 \<noteq> 0"
    using assms(4) z(2) by (simp_all add: lsn_cmp_gt(2) [OF assms(1)] assms(2,3) z(1))
  then show ?thesis
    using find_max_turn_eq [of "[f]" 1 0 A, OF _ _ assms(1)] assms(5,6)
    by (simp add: recv_find_max_checkpoint_def)
qed

definition stale_demo :: mem where
  "stale_demo = cp_seal (mach_write_to_8 dulint_ref (mach_write_to_8 dulint_ref
     (cp_seal (mach_write_to_8 dulint_ref (mach_write_to_8 dulint_ref (\<lambda>_. 0) 512 \<lparr>high = 0, low = 8\<rparr>) 520 \<lparr>high = 0, low = 9000\<rparr>) 512)
     1536 \<lparr>high = 0, low = 7\<rparr>) 1544 \<lparr>high = 0, low = 8204\<rparr>) 1536"

lemma stale_demo_holds:
  "holds_cp lsn_ref stale_demo LOG_CHECKPOINT_1 \<lparr>high = 0, low = 8\<rparr> \<lparr>high = 0, low = 9000\<rparr>"
  "holds_cp lsn_ref stale_demo LOG_CHECKPOINT_2 \<lparr>high = 0, low = 7\<rparr> \<lparr>high = 0, low = 8204\<rparr>"
proof -
  let ?d = "\<lambda>n. \<lparr>high = 0, low = n\<rparr> :: dulint" and ?W = "mach_write_to_8 dulint_ref" and ?R = "mach_read_from_8 dulint_ref"
  define m1 where "m1 = ?W (\<lambda>_. 0) 512 (?d 8)"
  define m2 where "m2 = ?W m1 520 (?d 9000)"
  define m3 where "m3 = cp_seal m2 512"
  define m4 where "m4 = ?W m3 1536 (?d 7)"
  define m5 where "m5 = ?W m4 1544 (?d 8204)"
  have e: "stale_demo = cp_seal m5 1536" by (simp add: stale_demo_def m1_def m2_def m3_def m4_def m5_def)
  have wf: "dulint_wf (?d 8)" "dulint_wf (?d 9000)" "dulint_wf (?d 7)" "dulint_wf (?d 8204)" by (simp_all add: dulint_wf_def)
  note rw = read_write_8 [OF dulint_ref_ok]
  have a: "stale_demo j = m3 j" if "j < 1536" for j
    using that by (simp add: e cp_seal_frame m5_def m4_def write_8_frame)
  have b: "stale_demo j = m5 j" if "j < 1824" for j using that by (simp add: e cp_seal_frame)
  have c: "stale_demo j = m2 j" if "j < 800" for j using that by (simp add: a m3_def cp_seal_frame)
  have "?R stale_demo 512 = ?R m1 512" by (rule read_8_cong') (simp add: c m2_def write_8_frame)
  moreover have "?R stale_demo 520 = ?R m2 520" by (rule read_8_cong') (simp add: c)
  moreover have "recv_check_cp_is_consistent stale_demo 512 = recv_check_cp_is_consistent m3 512"
    by (rule cp_check_cong) (simp add: a)
  ultimately show "holds_cp lsn_ref stale_demo LOG_CHECKPOINT_1 (?d 8) (?d 9000)"
    using cp_seal_consistent [of m2 512] rw [OF wf(1)] rw [OF wf(2)]
    by (simp add: holds_cp_def cp_layout m3_def m1_def m2_def)
  have "?R stale_demo 1536 = ?R m4 1536" by (rule read_8_cong') (simp add: b m5_def write_8_frame)
  moreover have "?R stale_demo 1544 = ?R m5 1544" by (rule read_8_cong') (simp add: b)
  ultimately show "holds_cp lsn_ref stale_demo LOG_CHECKPOINT_2 (?d 7) (?d 8204)"
    using cp_seal_consistent [of m5 1536] rw [OF wf(3)] rw [OF wf(4)]
    by (simp add: holds_cp_def cp_layout e m4_def m5_def)
qed

lemma recv_find_max_picks_older_witness:
  "fst (recv_find_max_checkpoint lsn_ref [stale_demo]) = Some (0, LOG_CHECKPOINT_2)"
  using recv_find_max_picks_older [OF lsn_ref_ok _ _ _ stale_demo_holds]
  by (simp add: dulint_wf_def dulint_val_def)

end
