(* ===== verification/Read_View.thy ===== *)
theory Read_View
  imports Log_Group
begin

text \<open>
  Consistent reads: \<open>read0read.cc\<close>, the transaction list of \<open>trx0trx.cc\<close> and \<open>trx0sys.inl\<close>, and
  the view of purge (\<open>trx0purge.cc\<close>). A read view is taken under \<open>kernel_mutex\<close> and fixes which
  transactions its reader sees; the purge view is a copy of the oldest view. Transactions and views
  are known by numbers that stand for their addresses.
\<close>

section \<open>The state that \<open>kernel_mutex\<close> protects\<close>

text \<open>
  \<open>UT_DULINT_INC\<close> and \<open>ut_dulint_max\<close> are not in the repository; \<open>trx_api_ok\<close> states what they
  promise.
\<close>

record trx_api = lsn_api +
  UT_DULINT_INC :: "dulint \<Rightarrow> dulint"
  ut_dulint_max :: dulint

definition trx_api_ok :: "trx_api \<Rightarrow> bool" where
  "trx_api_ok A \<longleftrightarrow> dulint_api_ok (dulint_api.truncate A)
     \<and> (\<forall>d. dulint_wf d \<longrightarrow> dulint_val d + 1 < 2 ^ 63 \<longrightarrow>
          dulint_wf (UT_DULINT_INC A d) \<and> dulint_val (UT_DULINT_INC A d) = dulint_val d + 1)
     \<and> dulint_wf (ut_dulint_max A) \<and> (\<forall>d. dulint_wf d \<longrightarrow> dulint_val d \<le> dulint_val (ut_dulint_max A))
     \<and> 2 ^ 63 \<le> dulint_val (ut_dulint_max A)"

datatype conc_state = TRX_NOT_STARTED | TRX_ACTIVE | TRX_COMMITTED_IN_MEMORY

text \<open>
  \<open>trx_pc\<close> is where \<open>trx_commit_off_kernel\<close> stands for the transaction: not called, between taking
  the number and the history list, behind the history list (there \<open>must_flush_log\<close> holds).
\<close>

datatype commit_pc = Running | Numbered | Logged

record trx_t =
  trx_id :: dulint
  trx_no :: dulint
  trx_conc_state :: conc_state
  insert_undo :: bool
  update_undo :: bool
  trx_read_view :: "nat option"
  trx_pc :: commit_pc

record read_view_t =
  can_be_too_old :: bool
  low_limit_no :: dulint
  low_limit_id :: dulint
  up_limit_id :: dulint
  view_trx_ids :: "dulint list"
  view_creator :: "nat option"

text \<open>
  \<open>view_heap\<close> is the next free address of a view. \<open>history\<close> collects the history lists of the
  rollback segments: the id of a transaction and the number that its update undo log has there.
\<close>

record trx_sys =
  max_trx_id :: dulint
  trx_tab :: "nat \<Rightarrow> trx_t"
  trx_list :: "nat list"
  view_tab :: "nat \<Rightarrow> read_view_t"
  view_list :: "nat list"
  view_heap :: nat
  purge_view :: "nat option"
  history :: "(dulint \<times> dulint) list"

section \<open>The transaction list\<close>

definition trx_sys_get_new_trx_id :: "trx_api \<Rightarrow> trx_sys \<Rightarrow> dulint \<times> trx_sys" where
  "trx_sys_get_new_trx_id A s = (max_trx_id s, s\<lparr>max_trx_id := UT_DULINT_INC A (max_trx_id s)\<rparr>)"

definition trx_sys_get_new_trx_no :: "trx_api \<Rightarrow> trx_sys \<Rightarrow> dulint \<times> trx_sys" where
  "trx_sys_get_new_trx_no A s = trx_sys_get_new_trx_id A s"

fun trx_get_on_id_loop :: "trx_api \<Rightarrow> (nat \<Rightarrow> trx_t) \<Rightarrow> nat list \<Rightarrow> dulint \<Rightarrow> nat option" where
  "trx_get_on_id_loop A tab [] i = None"
| "trx_get_on_id_loop A tab (t # ts) i =
     (if ut_dulint_cmp A i (trx_id (tab t)) = 0 then Some t else trx_get_on_id_loop A tab ts i)"

definition trx_get_on_id :: "trx_api \<Rightarrow> dulint \<Rightarrow> trx_sys \<Rightarrow> nat option" where
  "trx_get_on_id A i s = trx_get_on_id_loop A (trx_tab s) (trx_list s) i"

definition trx_list_get_min_trx_id :: "trx_sys \<Rightarrow> dulint" where
  "trx_list_get_min_trx_id s = (if trx_list s = [] then max_trx_id s else trx_id (trx_tab s (last (trx_list s))))"

definition trx_is_active :: "trx_api \<Rightarrow> dulint \<Rightarrow> trx_sys \<Rightarrow> bool" where
  "trx_is_active A i s =
     (if ut_dulint_cmp A i (trx_list_get_min_trx_id s) < 0 then False
      else case trx_get_on_id A i s of None \<Rightarrow> False | Some t \<Rightarrow> trx_conc_state (trx_tab s t) = TRX_ACTIVE)"

text \<open>
  The loop stops at the first transaction whose id is not greater; the new one goes before it. A
  transaction that belongs at the end is added with \<open>UT_LIST_ADD_FIRST\<close>.
\<close>

fun insert_place :: "trx_api \<Rightarrow> (nat \<Rightarrow> trx_t) \<Rightarrow> dulint \<Rightarrow> nat list \<Rightarrow> nat option" where
  "insert_place A tab i [] = None"
| "insert_place A tab i (t # ts) =
     (if 0 \<le> ut_dulint_cmp A i (trx_id (tab t)) then Some 0 else map_option Suc (insert_place A tab i ts))"

definition trx_list_insert_ordered :: "trx_api \<Rightarrow> nat \<Rightarrow> trx_sys \<Rightarrow> trx_sys" where
  "trx_list_insert_ordered A t s =
     (case insert_place A (trx_tab s) (trx_id (trx_tab s t)) (trx_list s) of
        None \<Rightarrow> s\<lparr>trx_list := t # trx_list s\<rparr>
      | Some k \<Rightarrow> s\<lparr>trx_list := take k (trx_list s) @ t # drop k (trx_list s)\<rparr>)"

text \<open>\<open>trx_start_low\<close> for a user transaction, behind the choice of the rollback segment.\<close>

definition trx_start_low :: "trx_api \<Rightarrow> nat \<Rightarrow> trx_sys \<Rightarrow> trx_sys" where
  "trx_start_low A t s =
     (let (i, s) = trx_sys_get_new_trx_id A s
      in s\<lparr>trx_tab := (trx_tab s)(t := (trx_tab s t)\<lparr>trx_id := i, trx_no := ut_dulint_max A, trx_conc_state := TRX_ACTIVE\<rparr>),
           trx_list := t # trx_list s\<rparr>)"

section \<open>Read views\<close>

fun sees_loop :: "trx_api \<Rightarrow> dulint list \<Rightarrow> dulint \<Rightarrow> bool" where
  "sees_loop A [] i = True"
| "sees_loop A (x # xs) i =
     (if ut_dulint_cmp A i x = 0 then False else if ut_dulint_cmp A i x < 0 then True else sees_loop A xs i)"

definition read_view_sees_trx_id :: "trx_api \<Rightarrow> read_view_t \<Rightarrow> dulint \<Rightarrow> bool" where
  "read_view_sees_trx_id A view i =
     (if ut_dulint_cmp A i (up_limit_id view) < 0 then True
      else if 0 \<le> ut_dulint_cmp A i (low_limit_id view) then False
      else sees_loop A (rev (view_trx_ids view)) i)"

fun open_loop :: "trx_api \<Rightarrow> (nat \<Rightarrow> trx_t) \<Rightarrow> nat option \<Rightarrow> nat list \<Rightarrow> dulint list \<times> dulint \<Rightarrow> dulint list \<times> dulint" where
  "open_loop A tab cr_trx [] st = st"
| "open_loop A tab cr_trx (t # ts) (ids, no) =
     open_loop A tab cr_trx ts
       (if Some t \<noteq> cr_trx \<and> trx_conc_state (tab t) = TRX_ACTIVE
        then (ids @ [trx_id (tab t)], if 0 < ut_dulint_cmp A no (trx_no (tab t)) then trx_no (tab t) else no)
        else (ids, no))"

definition new_view :: "read_view_t \<Rightarrow> (nat \<Rightarrow> nat list \<Rightarrow> nat list) \<Rightarrow> trx_sys \<Rightarrow> nat \<times> trx_sys" where
  "new_view v add s =
     (view_heap s, s\<lparr>view_tab := (view_tab s)(view_heap s := v), view_list := add (view_heap s) (view_list s),
        view_heap := Suc (view_heap s)\<rparr>)"

definition read_view_open_now :: "trx_api \<Rightarrow> nat option \<Rightarrow> trx_sys \<Rightarrow> nat \<times> trx_sys" where
  "read_view_open_now A cr_trx s =
     (let (ids, no) = open_loop A (trx_tab s) cr_trx (trx_list s) ([], max_trx_id s)
      in new_view \<lparr>can_be_too_old = False, low_limit_no = no, low_limit_id = max_trx_id s,
             up_limit_id = (if ids \<noteq> [] then last ids else max_trx_id s), view_trx_ids = ids, view_creator = cr_trx\<rparr>
           (#) s)"

text \<open>The copy of the ids, with the id \<open>c\<close> of the old view's creator put in its place (\<open>ins\<close>: still to do).\<close>

function copy_loop :: "trx_api \<Rightarrow> dulint list \<Rightarrow> dulint \<Rightarrow> nat \<Rightarrow> nat \<Rightarrow> bool \<Rightarrow> nat \<Rightarrow> dulint list \<Rightarrow> dulint list" where
  "copy_loop A old c n i needs_insert insert_done acc =
     (if i < n then
        if needs_insert \<and> (length old \<le> i \<or> 0 < ut_dulint_cmp A c (old ! i))
        then copy_loop A old c n (i + 1) False 1 (acc @ [c])
        else copy_loop A old c n (i + 1) needs_insert insert_done (acc @ [old ! (i - insert_done)])
      else acc)"
  by auto
termination by (relation "measure (\<lambda>(A, old, c, n, i, _). n - i)") auto

declare copy_loop.simps [simp del]

definition read_view_oldest_copy_or_open_new :: "trx_api \<Rightarrow> nat option \<Rightarrow> trx_sys \<Rightarrow> nat \<times> trx_sys" where
  "read_view_oldest_copy_or_open_new A cr_trx s =
     (if view_list s = [] then read_view_open_now A cr_trx s
      else let old = view_tab s (last (view_list s));
               ids = (case view_creator old of
                   Some c \<Rightarrow> copy_loop A (view_trx_ids old) (trx_id (trx_tab s c)) (length (view_trx_ids old) + 1) 0 True 0 []
                 | None \<Rightarrow> copy_loop A (view_trx_ids old) (max_trx_id s) (length (view_trx_ids old)) 0 False 0 [])
           in new_view \<lparr>can_be_too_old = False, low_limit_no = low_limit_no old, low_limit_id = low_limit_id old,
                  up_limit_id = (if ids \<noteq> [] then last ids else up_limit_id old), view_trx_ids = ids, view_creator = cr_trx\<rparr>
                (\<lambda>v vs. vs @ [v]) s)"

definition read_view_close :: "nat \<Rightarrow> trx_sys \<Rightarrow> trx_sys" where
  "read_view_close v s = s\<lparr>view_list := remove1 v (view_list s)\<rparr>"

definition trx_assign_read_view :: "trx_api \<Rightarrow> nat \<Rightarrow> trx_sys \<Rightarrow> trx_sys" where
  "trx_assign_read_view A t s =
     (case trx_read_view (trx_tab s t) of Some v \<Rightarrow> s
      | None \<Rightarrow> let (v, s) = read_view_open_now A (Some t) s
          in s\<lparr>trx_tab := (trx_tab s)(t := (trx_tab s t)\<lparr>trx_read_view := Some v\<rparr>)\<rparr>)"

section \<open>Commit, in the parts between which \<open>kernel_mutex\<close> is free\<close>

text \<open>
  Of the commit the state has what readers and purge depend on; the release of the locks is modelled
  with the lock system, the flush of the log and the binlog position are not. \<open>commit_log\<close> is
  \<open>trx_undo_update_cleanup\<close>.
\<close>

definition commit_writes :: "trx_t \<Rightarrow> bool" where
  "commit_writes x \<longleftrightarrow> insert_undo x \<and> update_undo x"

definition commit_take_no :: "trx_api \<Rightarrow> nat \<Rightarrow> trx_sys \<Rightarrow> trx_sys" where
  "commit_take_no A t s =
     (let (no, s) = trx_sys_get_new_trx_no A s
      in s\<lparr>trx_tab := (trx_tab s)(t := (trx_tab s t)\<lparr>trx_no := no, trx_pc := Numbered\<rparr>)\<rparr>)"

definition trx_purge_add_update_undo_to_history :: "nat \<Rightarrow> trx_sys \<Rightarrow> trx_sys" where
  "trx_purge_add_update_undo_to_history t s =
     s\<lparr>history := (trx_id (trx_tab s t), trx_no (trx_tab s t)) # history s\<rparr>"

definition commit_log :: "nat \<Rightarrow> trx_sys \<Rightarrow> trx_sys" where
  "commit_log t s =
     (let s = trx_purge_add_update_undo_to_history t s
      in s\<lparr>trx_tab := (trx_tab s)(t := (trx_tab s t)\<lparr>update_undo := False, trx_pc := Logged\<rparr>)\<rparr>)"

definition commit_in_memory :: "nat \<Rightarrow> trx_sys \<Rightarrow> trx_sys" where
  "commit_in_memory t s =
     (let s = s\<lparr>trx_tab := (trx_tab s)(t := (trx_tab s t)\<lparr>trx_conc_state := TRX_COMMITTED_IN_MEMORY\<rparr>)\<rparr>
      in case trx_read_view (trx_tab s t) of None \<Rightarrow> s
         | Some v \<Rightarrow> let s = read_view_close v s
             in s\<lparr>trx_tab := (trx_tab s)(t := (trx_tab s t)\<lparr>trx_read_view := None\<rparr>)\<rparr>)"

definition commit_end :: "nat \<Rightarrow> trx_sys \<Rightarrow> trx_sys" where
  "commit_end t s =
     (let x = trx_tab s t;
          x = (if trx_pc x = Logged then x\<lparr>insert_undo := False\<rparr> else x)
      in s\<lparr>trx_tab := (trx_tab s)(t := x\<lparr>trx_conc_state := TRX_NOT_STARTED, trx_pc := Running\<rparr>),
           trx_list := remove1 t (trx_list s)\<rparr>)"

definition trx_commit_off_kernel :: "trx_api \<Rightarrow> nat \<Rightarrow> trx_sys \<Rightarrow> trx_sys" where
  "trx_commit_off_kernel A t s =
     (let s = (if commit_writes (trx_tab s t) then commit_log t (commit_take_no A t s) else s)
      in commit_end t (commit_in_memory t s))"

text \<open>The new view of a purge run.\<close>

definition trx_purge_sys_create :: "trx_api \<Rightarrow> trx_sys \<Rightarrow> trx_sys" where
  "trx_purge_sys_create A s =
     (let (v, s) = read_view_oldest_copy_or_open_new A None s in s\<lparr>purge_view := Some v\<rparr>)"

definition trx_purge_view :: "trx_api \<Rightarrow> trx_sys \<Rightarrow> trx_sys" where
  "trx_purge_view A s =
     (let s = (case purge_view s of None \<Rightarrow> s | Some v \<Rightarrow> read_view_close v s);
          s = s\<lparr>purge_view := None\<rparr>
      in trx_purge_sys_create A s)"

definition trx_purge_update_undo_must_exist :: "trx_api \<Rightarrow> dulint \<Rightarrow> trx_sys \<Rightarrow> bool" where
  "trx_purge_update_undo_must_exist A i s =
     (case purge_view s of None \<Rightarrow> False
      | Some v \<Rightarrow> if \<not> read_view_sees_trx_id A (view_tab s v) i then True else False)"

text \<open>
  The versions of a clustered index record, newest first, each with the id of the transaction that
  wrote it; the previous version is what \<open>trx_undo_prev_version_build\<close> finds in the undo log.
  \<open>None\<close>: the view sees no version.
\<close>

fun row_vers_build_for_consistent_read :: "trx_api \<Rightarrow> read_view_t \<Rightarrow> (dulint \<times> 'r) list \<Rightarrow> (dulint \<times> 'r) option" where
  "row_vers_build_for_consistent_read A view [] = None"
| "row_vers_build_for_consistent_read A view [v] = None"
| "row_vers_build_for_consistent_read A view (v # (i, r) # vs) =
     (if read_view_sees_trx_id A view i then Some (i, r)
      else row_vers_build_for_consistent_read A view ((i, r) # vs))"

definition lock_clust_rec_cons_read_sees :: "trx_api \<Rightarrow> read_view_t \<Rightarrow> dulint \<times> 'r \<Rightarrow> bool" where
  "lock_clust_rec_cons_read_sees A view rec = (if read_view_sees_trx_id A view (fst rec) then True else False)"

definition lock_sec_rec_cons_read_sees :: "trx_api \<Rightarrow> bool \<Rightarrow> read_view_t \<Rightarrow> dulint \<Rightarrow> bool" where
  "lock_sec_rec_cons_read_sees A recovery_on view page_max_trx_id =
     (if recovery_on then False
      else if 0 \<le> ut_dulint_cmp A page_max_trx_id (up_limit_id view) then False
      else True)"

end
