(* ===== verification/Read_View_Inv.thy ===== *)
theory Read_View_Inv
  imports Read_View
begin

text \<open>
  The steps of transactions, read views and purge under \<open>kernel_mutex\<close>, and the invariant that they
  keep: the list of transactions is in the order of their ids, a view sees committed transactions
  only, and older views see no more than newer ones.
\<close>

section \<open>What a view sees\<close>

lemma trx_cmp:
  assumes "trx_api_ok A" "dulint_wf a" "dulint_wf b"
  shows "ut_dulint_cmp A a b < 0 \<longleftrightarrow> dulint_val a < dulint_val b"
    "ut_dulint_cmp A a b = 0 \<longleftrightarrow> a = b"
    "0 < ut_dulint_cmp A a b \<longleftrightarrow> dulint_val b < dulint_val a"
    "0 \<le> ut_dulint_cmp A a b \<longleftrightarrow> dulint_val b \<le> dulint_val a"
proof -
  have c: "ut_dulint_cmp A a b < 0 \<longleftrightarrow> dulint_val a < dulint_val b"
    "ut_dulint_cmp A a b = 0 \<longleftrightarrow> dulint_val a = dulint_val b"
    using assms by (simp_all add: trx_api_ok_def dulint_api_ok_def dulint_api.defs)
  show "ut_dulint_cmp A a b < 0 \<longleftrightarrow> dulint_val a < dulint_val b" by (rule c)
  show "ut_dulint_cmp A a b = 0 \<longleftrightarrow> a = b" using c(2) dulint_val_inj [OF assms(2,3)] by auto
  show "0 < ut_dulint_cmp A a b \<longleftrightarrow> dulint_val b < dulint_val a" "0 \<le> ut_dulint_cmp A a b \<longleftrightarrow> dulint_val b \<le> dulint_val a"
    using c by linarith+
qed

definition desc :: "dulint list \<Rightarrow> bool" where
  "desc xs \<longleftrightarrow> sorted_wrt (\<lambda>x y. dulint_val y < dulint_val x) xs"

lemma desc_simps [simp]: "desc []" "desc (x # xs) \<longleftrightarrow> (\<forall>y \<in> set xs. dulint_val y < dulint_val x) \<and> desc xs"
  "desc (xs @ ys) \<longleftrightarrow> desc xs \<and> desc ys \<and> (\<forall>x \<in> set xs. \<forall>y \<in> set ys. dulint_val y < dulint_val x)"
  by (auto simp: desc_def sorted_wrt_append)

definition view_shape :: "read_view_t \<Rightarrow> bool" where
  "view_shape v \<longleftrightarrow> dulint_wf (low_limit_id v) \<and> desc (view_trx_ids v)
     \<and> (\<forall>x \<in> set (view_trx_ids v). dulint_wf x \<and> dulint_val x < dulint_val (low_limit_id v))
     \<and> up_limit_id v = (if view_trx_ids v = [] then low_limit_id v else last (view_trx_ids v))"

definition view_sees :: "read_view_t \<Rightarrow> dulint \<Rightarrow> bool" where
  "view_sees v i \<longleftrightarrow> dulint_val i < dulint_val (low_limit_id v) \<and> i \<notin> set (view_trx_ids v)"

lemma sees_loop_eq:
  assumes A: "trx_api_ok A" and i: "dulint_wf i"
  shows "\<forall>x \<in> set xs. dulint_wf x \<Longrightarrow> desc (rev xs) \<Longrightarrow> sees_loop A xs i \<longleftrightarrow> i \<notin> set xs"
  by (induction xs) (auto simp: trx_cmp [OF A i])

lemma desc_last: "desc xs \<Longrightarrow> x \<in> set xs \<Longrightarrow> dulint_val (last xs) \<le> dulint_val x"
  by (induction xs) (auto simp: order.strict_implies_order)

lemma sees_eq:
  assumes A: "trx_api_ok A" and v: "view_shape v" and i: "dulint_wf i"
  shows "read_view_sees_trx_id A v i \<longleftrightarrow> view_sees v i"
proof (cases "view_trx_ids v = []")
  case True
  then show ?thesis using v i
    by (simp add: read_view_sees_trx_id_def view_sees_def view_shape_def trx_cmp [OF A i] not_le)
next
  case False
  let ?l = "last (view_trx_ids v)"
  have l: "dulint_wf ?l" "dulint_val ?l < dulint_val (low_limit_id v)" using v False by (simp_all add: view_shape_def)
  have "i \<notin> set (view_trx_ids v)" if "dulint_val i < dulint_val ?l"
    using desc_last [of "view_trx_ids v" i] v that by (auto simp: view_shape_def)
  moreover have "sees_loop A (rev (view_trx_ids v)) i \<longleftrightarrow> i \<notin> set (view_trx_ids v)"
    using sees_loop_eq [OF A i, of "rev (view_trx_ids v)"] v by (simp add: view_shape_def)
  moreover have "up_limit_id v = ?l" using v False by (simp add: view_shape_def)
  ultimately show ?thesis using l v
    by (auto simp: read_view_sees_trx_id_def view_sees_def trx_cmp [OF A i] not_le view_shape_def)
qed

section \<open>The loops\<close>

lemma open_loop_ids:
  "fst (open_loop A tab cr ts (ids, no)) =
     ids @ map (\<lambda>t. trx_id (tab t)) (filter (\<lambda>t. Some t \<noteq> cr \<and> trx_conc_state (tab t) = TRX_ACTIVE) ts)"
  by (induction ts arbitrary: ids no) auto

lemma open_loop_no:
  assumes A: "trx_api_ok A"
  shows "dulint_wf no \<Longrightarrow> \<forall>t \<in> set ts. dulint_wf (trx_no (tab t)) \<Longrightarrow>
     (let no' = snd (open_loop A tab cr ts (ids, no)) in
       dulint_wf no' \<and> dulint_val no' \<le> dulint_val no
       \<and> (\<forall>t \<in> set ts. Some t \<noteq> cr \<and> trx_conc_state (tab t) = TRX_ACTIVE \<longrightarrow> dulint_val no' \<le> dulint_val (trx_no (tab t))))"
proof (induction ts arbitrary: ids no)
  case (Cons t ts)
  let ?x = "trx_no (tab t)"
  have "dulint_wf ?x" using Cons.prems by simp
  then show ?case
    using Cons.IH [of ?x "ids @ [trx_id (tab t)]"] Cons.IH [of no "ids @ [trx_id (tab t)]"] Cons.IH [of no ids] Cons.prems
    by (cases "0 < ut_dulint_cmp A no ?x") (auto simp: Let_def trx_cmp [OF A] not_less)
qed (simp add: Let_def)

lemma copy_rest:
  "i \<le> n \<Longrightarrow> d \<le> i \<Longrightarrow> n \<le> length old + d \<Longrightarrow> copy_loop A old c n i False d acc = acc @ take (n - i) (drop (i - d) old)"
proof (induction "n - i" arbitrary: i acc)
  case 0
  then show ?case by (subst copy_loop.simps) simp
next
  case (Suc k)
  have "i < n" using Suc.hyps(2) by simp
  then have "copy_loop A old c n i False d acc = copy_loop A old c n (i + 1) False d (acc @ [old ! (i - d)])"
    by (subst copy_loop.simps) simp
  also have "\<dots> = (acc @ [old ! (i - d)]) @ take (n - (i + 1)) (drop (i + 1 - d) old)"
    by (rule Suc.hyps(1)) (use Suc.hyps(2) Suc.prems in simp_all)
  also have "\<dots> = acc @ take (n - i) (drop (i - d) old)"
  proof -
    have "i - d < length old" "n - i = Suc (n - (i + 1))" "i + 1 - d = Suc (i - d)" using Suc.hyps(2) Suc.prems by simp_all
    then show ?thesis by (metis (no_types) Cons_nth_drop_Suc append.assoc append_Cons append_Nil take_Suc_Cons)
  qed
  finally show ?case .
qed

lemma copy_insert:
  assumes A: "trx_api_ok A" and c: "dulint_wf c" and old: "\<forall>x \<in> set old. dulint_wf x"
  shows "i \<le> length old \<Longrightarrow> copy_loop A old c (length old + 1) i True 0 acc =
     acc @ takeWhile (\<lambda>x. dulint_val c \<le> dulint_val x) (drop i old) @ c # dropWhile (\<lambda>x. dulint_val c \<le> dulint_val x) (drop i old)"
proof (induction "length old - i" arbitrary: i acc)
  case 0
  then have "copy_loop A old c (length old + 1) i True 0 acc = copy_loop A old c (length old + 1) (i + 1) False 1 (acc @ [c])"
    by (subst copy_loop.simps) simp
  with 0 show ?case by (simp add: copy_rest)
next
  case (Suc k)
  then have i: "i < length old" and w: "dulint_wf (old ! i)" using old by simp_all
  have d: "drop i old = old ! i # drop (i + 1) old" using i by (simp add: Cons_nth_drop_Suc)
  show ?case
  proof (cases "dulint_val (old ! i) < dulint_val c")
    case True
    with i w have "copy_loop A old c (length old + 1) i True 0 acc = copy_loop A old c (length old + 1) (i + 1) False 1 (acc @ [c])"
      by (subst copy_loop.simps) (simp add: trx_cmp(3) [OF A c])
    with i True show ?thesis by (simp add: copy_rest d)
  next
    case False
    with i w have "copy_loop A old c (length old + 1) i True 0 acc = copy_loop A old c (length old + 1) (i + 1) True 0 (acc @ [old ! i])"
      by (subst copy_loop.simps) (simp add: trx_cmp(3) [OF A c])
    also have "\<dots> = (acc @ [old ! i]) @ takeWhile (\<lambda>x. dulint_val c \<le> dulint_val x) (drop (i + 1) old)
        @ c # dropWhile (\<lambda>x. dulint_val c \<le> dulint_val x) (drop (i + 1) old)"
      by (rule Suc.hyps(1)) (use Suc.hyps(2) i in simp_all)
    finally show ?thesis using False by (simp add: d)
  qed
qed

lemma desc_insert:
  assumes "desc xs" "\<forall>x \<in> set xs. dulint_wf x" "dulint_wf c" "c \<notin> set xs"
  shows "desc (takeWhile (\<lambda>x. dulint_val c \<le> dulint_val x) xs @ c # dropWhile (\<lambda>x. dulint_val c \<le> dulint_val x) xs)"
  using assms
proof (induction xs)
  case (Cons x xs)
  show ?case
  proof (cases "dulint_val c \<le> dulint_val x")
    case True
    then have "dulint_val c < dulint_val x" using Cons.prems dulint_val_inj [of c x] by (auto simp: le_less)
    moreover have "\<forall>y \<in> set (takeWhile (\<lambda>x. dulint_val c \<le> dulint_val x) xs @ c # dropWhile (\<lambda>x. dulint_val c \<le> dulint_val x) xs).
        y = c \<or> y \<in> set xs"
      by (auto dest: set_takeWhileD set_dropWhileD)
    ultimately show ?thesis using Cons True by auto
  next
    case False
    then show ?thesis using Cons.prems by auto
  qed
qed simp

section \<open>The steps\<close>

text \<open>
  Each step is a part of the code that runs under \<open>kernel_mutex\<close>. A transaction that commits runs
  no statement: it writes nothing and opens no view.
\<close>

inductive trx_step :: "trx_api \<Rightarrow> trx_sys \<Rightarrow> trx_sys \<Rightarrow> bool" for A :: trx_api where
  start: "trx_step A s (trx_start_low A t s)"
    if "trx_conc_state (trx_tab s t) = TRX_NOT_STARTED" "dulint_val (max_trx_id s) + 1 < 2 ^ 63"
| undo: "trx_step A s (s\<lparr>trx_tab := (trx_tab s)(t := (trx_tab s t)\<lparr>insert_undo := ins, update_undo := upd\<rparr>)\<rparr>)"
    if "trx_conc_state (trx_tab s t) = TRX_ACTIVE" "trx_pc (trx_tab s t) = Running"
| read: "trx_step A s (trx_assign_read_view A t s)"
    if "trx_conc_state (trx_tab s t) = TRX_ACTIVE" "trx_pc (trx_tab s t) = Running"
| take_no: "trx_step A s (commit_take_no A t s)"
    if "trx_conc_state (trx_tab s t) = TRX_ACTIVE" "trx_pc (trx_tab s t) = Running" "commit_writes (trx_tab s t)"
      "dulint_val (max_trx_id s) + 1 < 2 ^ 63"
| log: "trx_step A s (commit_log t s)"
    if "trx_conc_state (trx_tab s t) = TRX_ACTIVE" "trx_pc (trx_tab s t) = Numbered"
| in_memory: "trx_step A s (commit_in_memory t s)"
    if "trx_conc_state (trx_tab s t) = TRX_ACTIVE"
      "trx_pc (trx_tab s t) = Logged \<or> trx_pc (trx_tab s t) = Running \<and> \<not> commit_writes (trx_tab s t)"
| finish: "trx_step A s (commit_end t s)"
    if "trx_conc_state (trx_tab s t) = TRX_COMMITTED_IN_MEMORY"
| purge: "trx_step A s (trx_purge_view A s)"

inductive trx_reach :: "trx_api \<Rightarrow> trx_sys \<Rightarrow> trx_sys \<Rightarrow> bool" for A :: trx_api where
  init: "trx_reach A s s"
| step: "trx_reach A s t \<Longrightarrow> trx_step A t u \<Longrightarrow> trx_reach A s u"

section \<open>The invariant\<close>

definition committed :: "trx_sys \<Rightarrow> dulint \<Rightarrow> bool" where
  "committed s i \<longleftrightarrow> dulint_val i < dulint_val (max_trx_id s)
     \<and> (\<forall>t \<in> set (trx_list s). trx_conc_state (trx_tab s t) = TRX_ACTIVE \<longrightarrow> trx_id (trx_tab s t) \<noteq> i)"

text \<open>What a view sees apart from the changes of its own creator.\<close>

definition core :: "trx_sys \<Rightarrow> read_view_t \<Rightarrow> dulint \<Rightarrow> bool" where
  "core s r i \<longleftrightarrow> dulint_wf i \<and> view_sees r i \<and> (\<forall>t. view_creator r = Some t \<longrightarrow> i \<noteq> trx_id (trx_tab s t))"

definition trx_ok :: "trx_api \<Rightarrow> dulint \<Rightarrow> trx_t \<Rightarrow> bool" where
  "trx_ok A m x \<longleftrightarrow> dulint_wf (trx_id x) \<and> dulint_val (trx_id x) < dulint_val m
     \<and> dulint_wf (trx_no x) \<and> trx_conc_state x \<noteq> TRX_NOT_STARTED \<and> (trx_pc x = Running \<longrightarrow> trx_no x = ut_dulint_max A)
     \<and> (trx_pc x \<noteq> Running \<longrightarrow> dulint_val (trx_no x) < dulint_val m)
     \<and> (trx_conc_state x \<noteq> TRX_ACTIVE \<longrightarrow> trx_read_view x = None)"

definition trxs_ok :: "trx_api \<Rightarrow> trx_sys \<Rightarrow> bool" where
  "trxs_ok A s \<longleftrightarrow> dulint_wf (max_trx_id s) \<and> distinct (trx_list s) \<and> desc (map (\<lambda>t. trx_id (trx_tab s t)) (trx_list s))
     \<and> (\<forall>t \<in> set (trx_list s). trx_ok A (max_trx_id s) (trx_tab s t))
     \<and> (\<forall>t. t \<notin> set (trx_list s) \<longrightarrow> trx_conc_state (trx_tab s t) = TRX_NOT_STARTED
          \<and> trx_read_view (trx_tab s t) = None \<and> trx_pc (trx_tab s t) = Running)"

definition view_ok :: "trx_sys \<Rightarrow> read_view_t \<Rightarrow> bool" where
  "view_ok s r \<longleftrightarrow> view_shape r \<and> dulint_wf (low_limit_no r) \<and> dulint_val (low_limit_no r) \<le> dulint_val (low_limit_id r)
     \<and> dulint_val (low_limit_id r) \<le> dulint_val (max_trx_id s)
     \<and> (\<forall>t \<in> set (trx_list s). trx_conc_state (trx_tab s t) = TRX_ACTIVE \<longrightarrow> dulint_val (low_limit_no r) \<le> dulint_val (trx_no (trx_tab s t)))
     \<and> (\<forall>i. core s r i \<longrightarrow> committed s i)
     \<and> (\<forall>h \<in> set (history s). dulint_val (snd h) < dulint_val (low_limit_no r) \<longrightarrow> core s r (fst h))"

definition link_ok :: "trx_sys \<Rightarrow> bool" where
  "link_ok s \<longleftrightarrow> (\<forall>v \<in> set (view_list s). \<forall>t. view_creator (view_tab s v) = Some t \<longrightarrow>
        trx_conc_state (trx_tab s t) = TRX_ACTIVE \<and> trx_read_view (trx_tab s t) = Some v
        \<and> trx_id (trx_tab s t) \<notin> set (view_trx_ids (view_tab s v))
        \<and> dulint_val (trx_id (trx_tab s t)) < dulint_val (low_limit_id (view_tab s v)))
     \<and> (\<forall>t v. trx_read_view (trx_tab s t) = Some v \<longrightarrow> v \<in> set (view_list s) \<and> view_creator (view_tab s v) = Some t)"

definition views_ok :: "trx_sys \<Rightarrow> bool" where
  "views_ok s \<longleftrightarrow> distinct (view_list s) \<and> (\<forall>v \<in> set (view_list s). v < view_heap s \<and> view_ok s (view_tab s v))
     \<and> sorted_wrt (\<lambda>v w. \<forall>i. core s (view_tab s w) i \<longrightarrow> core s (view_tab s v) i) (view_list s)"

definition history_ok :: "trx_sys \<Rightarrow> bool" where
  "history_ok s \<longleftrightarrow> (\<forall>h \<in> set (history s). dulint_wf (fst h) \<and> dulint_val (fst h) < dulint_val (max_trx_id s)
     \<and> dulint_val (snd h) < dulint_val (max_trx_id s)
     \<and> (\<forall>t \<in> set (trx_list s). trx_id (trx_tab s t) = fst h \<longrightarrow> trx_no (trx_tab s t) = snd h))"

definition purge_ok :: "trx_sys \<Rightarrow> bool" where
  "purge_ok s \<longleftrightarrow> (\<forall>p. purge_view s = Some p \<longrightarrow>
     view_list s \<noteq> [] \<and> last (view_list s) = p \<and> view_creator (view_tab s p) = None)"

definition trx_inv :: "trx_api \<Rightarrow> trx_sys \<Rightarrow> bool" where
  "trx_inv A s \<longleftrightarrow> trxs_ok A s \<and> link_ok s \<and> views_ok s \<and> history_ok s \<and> purge_ok s"

lemma linkD:
  assumes "link_ok s" "v \<in> set (view_list s)" "view_creator (view_tab s v) = Some t"
  shows "trx_conc_state (trx_tab s t) = TRX_ACTIVE" "trx_read_view (trx_tab s t) = Some v"
    "trx_id (trx_tab s t) \<notin> set (view_trx_ids (view_tab s v))"
    "dulint_val (trx_id (trx_tab s t)) < dulint_val (low_limit_id (view_tab s v))"
  using assms unfolding link_ok_def by blast+

lemma linkD2:
  assumes "link_ok s" "trx_read_view (trx_tab s t) = Some v"
  shows "v \<in> set (view_list s)" "view_creator (view_tab s v) = Some t"
  using assms unfolding link_ok_def by blast+

lemma linkI:
  assumes "\<And>v t. v \<in> set (view_list s) \<Longrightarrow> view_creator (view_tab s v) = Some t \<Longrightarrow>
        trx_conc_state (trx_tab s t) = TRX_ACTIVE \<and> trx_read_view (trx_tab s t) = Some v
        \<and> trx_id (trx_tab s t) \<notin> set (view_trx_ids (view_tab s v))
        \<and> dulint_val (trx_id (trx_tab s t)) < dulint_val (low_limit_id (view_tab s v))"
    and "\<And>t v. trx_read_view (trx_tab s t) = Some v \<Longrightarrow> v \<in> set (view_list s) \<and> view_creator (view_tab s v) = Some t"
  shows "link_ok s"
  using assms unfolding link_ok_def by blast

text \<open>
  A step of the transactions that leaves the views alone keeps what the views need, if the ids of
  the active transactions stay and no new number falls below a limit.
\<close>

lemma views_kept:
  assumes v: "views_ok s" and l: "link_ok s"
    and same: "view_list s' = view_list s" "view_tab s' = view_tab s" "view_heap s' = view_heap s"
    and ids: "\<And>t. trx_conc_state (trx_tab s t) = TRX_ACTIVE \<Longrightarrow> trx_id (trx_tab s' t) = trx_id (trx_tab s t)"
    and mx: "dulint_val (max_trx_id s) \<le> dulint_val (max_trx_id s')"
    and cm: "\<And>i. committed s i \<Longrightarrow> committed s' i"
    and no: "\<And>t r. t \<in> set (trx_list s') \<Longrightarrow> trx_conc_state (trx_tab s' t) = TRX_ACTIVE \<Longrightarrow> view_ok s r \<Longrightarrow>
        dulint_val (low_limit_no r) \<le> dulint_val (trx_no (trx_tab s' t))"
    and hi: "\<And>h. h \<in> set (history s') \<Longrightarrow> h \<in> set (history s)
        \<or> (\<exists>t \<in> set (trx_list s). trx_conc_state (trx_tab s t) = TRX_ACTIVE \<and> snd h = trx_no (trx_tab s t))"
  shows "views_ok s'"
proof -
  have c: "core s' (view_tab s v) i = core s (view_tab s v) i" if "v \<in> set (view_list s)" for v i
  proof (cases "view_creator (view_tab s v)")
    case (Some t)
    then have "trx_id (trx_tab s' t) = trx_id (trx_tab s t)" by (intro ids linkD(1) [OF l that])
    then show ?thesis by (simp add: core_def Some)
  qed (simp add: core_def)
  have "view_ok s' (view_tab s v)" if "v \<in> set (view_list s)" for v
  proof -
    have o: "view_ok s (view_tab s v)" using v that by (simp add: views_ok_def)
    have "core s (view_tab s v) (fst h)" if "h \<in> set (history s')" "dulint_val (snd h) < dulint_val (low_limit_no (view_tab s v))" for h
      using hi [OF that(1)] o that(2) by (auto simp: view_ok_def not_le [symmetric])
    moreover have "dulint_val (low_limit_no (view_tab s v)) \<le> dulint_val (trx_no (trx_tab s' t))"
      if "t \<in> set (trx_list s')" "trx_conc_state (trx_tab s' t) = TRX_ACTIVE" for t
      using no [OF that o] .
    moreover have "committed s' i" if "core s (view_tab s v) i" for i using o cm that by (simp add: view_ok_def)
    moreover have "dulint_val (low_limit_id (view_tab s v)) \<le> dulint_val (max_trx_id s')" using o mx by (simp add: view_ok_def)
    ultimately show ?thesis using o unfolding view_ok_def c [OF that] by blast
  qed
  moreover have "sorted_wrt (\<lambda>v w. \<forall>i. core s' (view_tab s w) i \<longrightarrow> core s' (view_tab s v) i) (view_list s)"
    using v by (auto simp: views_ok_def c elim!: sorted_wrt_mono_rel [rotated])
  ultimately show ?thesis using v by (simp add: views_ok_def same)
qed

lemma link_kept:
  assumes l: "link_ok s" and same: "view_list s' = view_list s" "view_tab s' = view_tab s"
    and a: "\<And>t. trx_conc_state (trx_tab s t) = TRX_ACTIVE \<Longrightarrow>
       trx_conc_state (trx_tab s' t) = TRX_ACTIVE \<and> trx_id (trx_tab s' t) = trx_id (trx_tab s t)"
    and rv: "\<And>t. trx_read_view (trx_tab s' t) = trx_read_view (trx_tab s t)"
  shows "link_ok s'"
proof (rule linkI)
  fix v t assume "v \<in> set (view_list s')" "view_creator (view_tab s' v) = Some t"
  then have m: "v \<in> set (view_list s)" "view_creator (view_tab s v) = Some t" by (simp_all add: same)
  from linkD [OF l m] a [OF linkD(1) [OF l m]]
  show "trx_conc_state (trx_tab s' t) = TRX_ACTIVE \<and> trx_read_view (trx_tab s' t) = Some v
        \<and> trx_id (trx_tab s' t) \<notin> set (view_trx_ids (view_tab s' v))
        \<and> dulint_val (trx_id (trx_tab s' t)) < dulint_val (low_limit_id (view_tab s' v))" by (simp add: same rv)
next
  fix t v assume "trx_read_view (trx_tab s' t) = Some v"
  then show "v \<in> set (view_list s') \<and> view_creator (view_tab s' v) = Some t"
    using linkD2 [OF l, of t v] by (simp add: same rv)
qed

lemma trx_member: "trxs_ok A s \<Longrightarrow> trx_conc_state (trx_tab s t) \<noteq> TRX_NOT_STARTED \<Longrightarrow> t \<in> set (trx_list s)"
  by (auto simp: trxs_ok_def trx_ok_def)

lemma trxD:
  assumes "trxs_ok A s" "t \<in> set (trx_list s)"
  shows "dulint_wf (trx_id (trx_tab s t))" "dulint_val (trx_id (trx_tab s t)) < dulint_val (max_trx_id s)"
    "dulint_wf (trx_no (trx_tab s t))" "trx_conc_state (trx_tab s t) \<noteq> TRX_NOT_STARTED"
    "trx_pc (trx_tab s t) = Running \<Longrightarrow> trx_no (trx_tab s t) = ut_dulint_max A"
    "trx_pc (trx_tab s t) \<noteq> Running \<Longrightarrow> dulint_val (trx_no (trx_tab s t)) < dulint_val (max_trx_id s)"
  using assms by (auto simp: trxs_ok_def trx_ok_def Let_def)

lemma trx_ids_differ:
  "trxs_ok A s \<Longrightarrow> t \<in> set (trx_list s) \<Longrightarrow> u \<in> set (trx_list s) \<Longrightarrow> trx_id (trx_tab s t) = trx_id (trx_tab s u) \<Longrightarrow> t = u"
proof -
  have inj: "inj_on f (set xs)" if "desc (map f xs)" for f :: "nat \<Rightarrow> dulint" and xs
    using that
  proof (induction xs)
    case (Cons x xs)
    then have "f x \<notin> f ` set xs" by auto
    moreover have "inj_on f (set xs)" using Cons by simp
    ultimately show ?case by (simp add: inj_on_def image_iff) metis
  qed simp
  show "trxs_ok A s \<Longrightarrow> t \<in> set (trx_list s) \<Longrightarrow> u \<in> set (trx_list s) \<Longrightarrow> trx_id (trx_tab s t) = trx_id (trx_tab s u) \<Longrightarrow> t = u"
    using inj [of "\<lambda>t. trx_id (trx_tab s t)" "trx_list s"] by (auto simp: trxs_ok_def trx_ok_def dest: inj_onD)
qed

lemma max_above: "trx_api_ok A \<Longrightarrow> dulint_wf d \<Longrightarrow> dulint_val d \<le> dulint_val (ut_dulint_max A)"
  by (simp add: trx_api_ok_def)

lemma inc_ok: "trx_api_ok A \<Longrightarrow> dulint_wf d \<Longrightarrow> dulint_val d + 1 < 2 ^ 63 \<Longrightarrow>
    dulint_wf (UT_DULINT_INC A d) \<and> dulint_val (UT_DULINT_INC A d) = Suc (dulint_val d)"
  by (simp add: trx_api_ok_def)

section \<open>The transactions' steps keep it\<close>

lemma trx_start_low_inv:
  assumes A: "trx_api_ok A" and i: "trx_inv A s" and n: "trx_conc_state (trx_tab s t) = TRX_NOT_STARTED"
    and b: "dulint_val (max_trx_id s) + 1 < 2 ^ 63"
  shows "trx_inv A (trx_start_low A t s)"
proof -
  let ?s = "trx_start_low A t s"
  have T: "trxs_ok A s" and L: "link_ok s" and V: "views_ok s" and H: "history_ok s" and P: "purge_ok s"
    using i by (simp_all add: trx_inv_def)
  have m: "dulint_wf (max_trx_id s)" using T by (simp add: trxs_ok_def trx_ok_def)
  note inc = inc_ok [OF A m b]
  have t: "t \<notin> set (trx_list s)" using trxD(4) [OF T, of t] n by auto
  have rv: "trx_read_view (trx_tab s t) = None" "trx_pc (trx_tab s t) = Running" using T t by (simp_all add: trxs_ok_def trx_ok_def)
  have e: "max_trx_id ?s = UT_DULINT_INC A (max_trx_id s)" "trx_list ?s = t # trx_list s" "view_list ?s = view_list s"
    "view_tab ?s = view_tab s" "view_heap ?s = view_heap s" "history ?s = history s" "purge_view ?s = purge_view s"
    "trx_tab ?s = (trx_tab s)(t := (trx_tab s t)\<lparr>trx_id := max_trx_id s, trx_no := ut_dulint_max A, trx_conc_state := TRX_ACTIVE\<rparr>)"
    by (simp_all add: trx_start_low_def trx_sys_get_new_trx_id_def)
  have ut: "dulint_wf (ut_dulint_max A)" using A by (simp add: trx_api_ok_def)
  have tab: "trx_tab ?s u = trx_tab s u" if "u \<in> set (trx_list s)" for u using that t by (auto simp: e)
  have mp: "map (\<lambda>u. trx_id (trx_tab ?s u)) (trx_list ?s) = max_trx_id s # map (\<lambda>u. trx_id (trx_tab s u)) (trx_list s)"
    using tab by (simp add: e(2)) (simp add: e(8))
  have "desc (map (\<lambda>u. trx_id (trx_tab ?s u)) (trx_list ?s))"
    unfolding mp using T trxD(2) [OF T] by (auto simp: trxs_ok_def trx_ok_def)
  moreover have "trx_ok A (max_trx_id ?s) (trx_tab ?s u)" if "u \<in> set (trx_list ?s)" for u
  proof (cases "u = t")
    case True
    then show ?thesis using inc rv ut m by (simp add: trx_ok_def e)
  next
    case False
    then have "trx_ok A (max_trx_id s) (trx_tab s u)" "u \<in> set (trx_list s)" using that T by (simp_all add: e(2) trxs_ok_def)
    then show ?thesis using inc by (auto simp: trx_ok_def e(1) tab intro: less_SucI)
  qed
  moreover have "u \<notin> set (trx_list ?s) \<Longrightarrow> trx_tab ?s u = trx_tab s u" for u by (simp add: e)
  ultimately have "trxs_ok A ?s" using T t inc by (simp add: trxs_ok_def e(1,2))
  moreover have "link_ok ?s" by (rule link_kept [OF L]) (use n in \<open>auto simp: e\<close>)
  moreover have "views_ok ?s"
  proof (rule views_kept [OF V L])
    show "trx_id (trx_tab ?s u) = trx_id (trx_tab s u)" if "trx_conc_state (trx_tab s u) = TRX_ACTIVE" for u
      using that n by (auto simp: e)
    show "committed ?s i" if "committed s i" for i using that inc by (auto simp: committed_def e)
    show "dulint_val (low_limit_no r) \<le> dulint_val (trx_no (trx_tab ?s u))"
      if "u \<in> set (trx_list ?s)" "trx_conc_state (trx_tab ?s u) = TRX_ACTIVE" "view_ok s r" for u r
      using that max_above [OF A, of "low_limit_no r"] by (auto simp: e view_ok_def)
  qed (use inc in \<open>auto simp: e\<close>)
  moreover have "history_ok ?s" using H inc by (auto simp: history_ok_def e)
  moreover have "purge_ok ?s" using P by (simp add: purge_ok_def e)
  ultimately show ?thesis by (simp add: trx_inv_def)
qed

text \<open>A change of fields that the invariant does not speak of.\<close>

lemma trx_inv_cong:
  assumes i: "trx_inv A s"
    and g: "\<And>u. trx_id (trx_tab s' u) = trx_id (trx_tab s u)" "\<And>u. trx_no (trx_tab s' u) = trx_no (trx_tab s u)"
      "\<And>u. trx_conc_state (trx_tab s' u) = trx_conc_state (trx_tab s u)" "\<And>u. trx_pc (trx_tab s' u) = trx_pc (trx_tab s u)"
      "\<And>u. trx_read_view (trx_tab s' u) = trx_read_view (trx_tab s u)"
    and e: "max_trx_id s' = max_trx_id s" "trx_list s' = trx_list s" "view_list s' = view_list s" "view_tab s' = view_tab s"
      "view_heap s' = view_heap s" "history s' = history s" "purge_view s' = purge_view s"
  shows "trx_inv A s'"
proof -
  have T: "trxs_ok A s" and L: "link_ok s" and V: "views_ok s" and H: "history_ok s" and P: "purge_ok s"
    using i by (simp_all add: trx_inv_def)
  have "views_ok s'"
  proof (rule views_kept [OF V L])
    show "committed s' i" if "committed s i" for i using that by (simp add: committed_def g e)
    show "dulint_val (low_limit_no r) \<le> dulint_val (trx_no (trx_tab s' t))"
      if "t \<in> set (trx_list s')" "trx_conc_state (trx_tab s' t) = TRX_ACTIVE" "view_ok s r" for t r
      using that by (simp add: g e view_ok_def)
  qed (simp_all add: g e)
  moreover have "link_ok s'" by (rule link_kept [OF L]) (simp_all add: g e)
  ultimately show ?thesis using T H P
    by (simp add: trx_inv_def trxs_ok_def trx_ok_def history_ok_def purge_ok_def g e Let_def)
qed

lemma undo_inv:
  "trx_inv A s \<Longrightarrow> trx_inv A (s\<lparr>trx_tab := (trx_tab s)(t := (trx_tab s t)\<lparr>insert_undo := ins, update_undo := upd\<rparr>)\<rparr>)"
  by (erule trx_inv_cong) simp_all

lemma take_no_inv:
  assumes A: "trx_api_ok A" and i: "trx_inv A s" and a: "trx_conc_state (trx_tab s t) = TRX_ACTIVE"
    and pc: "trx_pc (trx_tab s t) = Running" and b: "dulint_val (max_trx_id s) + 1 < 2 ^ 63"
  shows "trx_inv A (commit_take_no A t s)"
proof -
  let ?s = "commit_take_no A t s"
  have T: "trxs_ok A s" and L: "link_ok s" and V: "views_ok s" and H: "history_ok s" and P: "purge_ok s"
    using i by (simp_all add: trx_inv_def)
  have m: "dulint_wf (max_trx_id s)" using T by (simp add: trxs_ok_def trx_ok_def)
  note inc = inc_ok [OF A m b]
  have t: "t \<in> set (trx_list s)" using trx_member [OF T, of t] a by simp
  have e: "max_trx_id ?s = UT_DULINT_INC A (max_trx_id s)" "trx_list ?s = trx_list s" "view_list ?s = view_list s"
    "view_tab ?s = view_tab s" "view_heap ?s = view_heap s" "history ?s = history s" "purge_view ?s = purge_view s"
    "trx_tab ?s = (trx_tab s)(t := (trx_tab s t)\<lparr>trx_no := max_trx_id s, trx_pc := Numbered\<rparr>)"
    by (simp_all add: commit_take_no_def trx_sys_get_new_trx_no_def trx_sys_get_new_trx_id_def)
  let ?g = "\<lambda>f. \<forall>u. f (trx_tab ?s u) = f (trx_tab s u)"
  have g: "?g trx_id" "?g trx_conc_state" "?g trx_read_view" by (simp_all add: e)
  have ltmax: "dulint_val (max_trx_id s) < dulint_val (ut_dulint_max A)" using A b by (simp add: trx_api_ok_def)
  have "trxs_ok A ?s" using T t inc m a
    by (auto simp: trxs_ok_def trx_ok_def Let_def e(1,2) g intro: less_SucI) (auto simp: e(8) intro: less_SucI split: if_splits)
  moreover have "link_ok ?s" by (rule link_kept [OF L]) (simp_all add: g e(3,4))
  moreover have "views_ok ?s"
  proof (rule views_kept [OF V L])
    show "dulint_val (low_limit_no r) \<le> dulint_val (trx_no (trx_tab ?s u))"
      if "u \<in> set (trx_list ?s)" "trx_conc_state (trx_tab ?s u) = TRX_ACTIVE" "view_ok s r" for u r
      using that by (auto simp: e view_ok_def)
  qed (use inc in \<open>auto simp: g e(1-7) committed_def\<close>)
  moreover have "history_ok ?s"
  proof -
    have "trx_id (trx_tab s t) \<noteq> fst h" if "h \<in> set (history s)" for h
      using H t trxD(5) [OF T t pc] that ltmax by (force simp: history_ok_def)
    then show ?thesis using H inc by (auto simp: history_ok_def e intro: less_SucI)
  qed
  moreover have "purge_ok ?s" using P by (simp add: purge_ok_def e)
  ultimately show ?thesis by (simp add: trx_inv_def)
qed

lemma log_inv:
  assumes i: "trx_inv A s" and a: "trx_conc_state (trx_tab s t) = TRX_ACTIVE" and pc: "trx_pc (trx_tab s t) = Numbered"
  shows "trx_inv A (commit_log t s)"
proof -
  let ?s = "commit_log t s"
  have T: "trxs_ok A s" and L: "link_ok s" and V: "views_ok s" and H: "history_ok s" and P: "purge_ok s"
    using i by (simp_all add: trx_inv_def)
  have t: "t \<in> set (trx_list s)" using trx_member [OF T, of t] a by simp
  have e: "max_trx_id ?s = max_trx_id s" "trx_list ?s = trx_list s" "view_list ?s = view_list s"
    "view_tab ?s = view_tab s" "view_heap ?s = view_heap s" "history ?s = (trx_id (trx_tab s t), trx_no (trx_tab s t)) # history s"
    "purge_view ?s = purge_view s" "trx_tab ?s = (trx_tab s)(t := (trx_tab s t)\<lparr>update_undo := False, trx_pc := Logged\<rparr>)"
    by (simp_all add: commit_log_def trx_purge_add_update_undo_to_history_def)
  let ?g = "\<lambda>f. \<forall>u. f (trx_tab ?s u) = f (trx_tab s u)"
  have g: "?g trx_id" "?g trx_no" "?g trx_conc_state" "?g trx_read_view" by (simp_all add: e)
  note d = trxD [OF T t]
  have "trxs_ok A ?s" using T t d(6) pc by (auto simp: trxs_ok_def trx_ok_def Let_def e(1,2) g) (auto simp: e split: if_splits)
  moreover have "link_ok ?s" by (rule link_kept [OF L]) (simp_all add: g e(3,4))
  moreover have "views_ok ?s"
  proof (rule views_kept [OF V L])
    show "h \<in> set (history s) \<or> (\<exists>t \<in> set (trx_list s). trx_conc_state (trx_tab s t) = TRX_ACTIVE \<and> snd h = trx_no (trx_tab s t))"
      if "h \<in> set (history ?s)" for h using that t a by (auto simp: e)
  qed (auto simp: g e(1-5) committed_def view_ok_def)
  moreover have "history_ok ?s"
    using H d(1,2,6) pc trx_ids_differ [OF T _ t] by (auto simp: history_ok_def e(1,2,6) g)
  moreover have "purge_ok ?s" using P by (simp add: purge_ok_def e)
  ultimately show ?thesis by (simp add: trx_inv_def)
qed

lemma sorted_wrt_remove1: "sorted_wrt P xs \<Longrightarrow> sorted_wrt P (remove1 x xs)"
  by (induction xs) (auto dest: subsetD [OF set_remove1_subset])

lemma last_remove1: "xs \<noteq> [] \<Longrightarrow> last xs \<noteq> x \<Longrightarrow> remove1 x xs \<noteq> [] \<and> last (remove1 x xs) = last xs"
  by (induction xs) auto

lemma desc_remove1: "desc (map f xs) \<Longrightarrow> desc (map f (remove1 x xs))"
  by (induction xs) (auto dest: subsetD [OF set_remove1_subset])

lemma desc_filter: "desc (map f xs) \<Longrightarrow> desc (map f (filter P xs))"
  by (induction xs) auto

lemma views_remove: "views_ok s \<Longrightarrow> views_ok (s\<lparr>view_list := remove1 v (view_list s)\<rparr>)"
  by (auto simp: views_ok_def view_ok_def core_def committed_def intro!: sorted_wrt_remove1 dest: subsetD [OF set_remove1_subset])

lemma in_memory_inv:
  assumes i: "trx_inv A s" and a: "trx_conc_state (trx_tab s t) = TRX_ACTIVE"
  shows "trx_inv A (commit_in_memory t s)"
proof -
  let ?s = "commit_in_memory t s"
  have T: "trxs_ok A s" and L: "link_ok s" and V: "views_ok s" and H: "history_ok s" and P: "purge_ok s"
    using i by (simp_all add: trx_inv_def)
  let ?vl = "case trx_read_view (trx_tab s t) of None \<Rightarrow> view_list s | Some v \<Rightarrow> remove1 v (view_list s)"
  let ?x = "(trx_tab s t)\<lparr>trx_conc_state := TRX_COMMITTED_IN_MEMORY, trx_read_view := None\<rparr>"
  have e: "?s = s\<lparr>trx_tab := (trx_tab s)(t := ?x), view_list := ?vl\<rparr>"
    by (cases s, cases "trx_tab s t", cases "trx_read_view (trx_tab s t)")
      (auto simp: commit_in_memory_def read_view_close_def Let_def)
  define u where "u = s\<lparr>trx_tab := (trx_tab s)(t := ?x)\<rparr>"
  have ue: "trx_tab u = (trx_tab s)(t := ?x)" "max_trx_id u = max_trx_id s" "trx_list u = trx_list s" "view_list u = view_list s"
    "view_tab u = view_tab s" "view_heap u = view_heap s" "history u = history s"
    by (simp_all add: u_def)
  have ids: "trx_id (trx_tab u x) = trx_id (trx_tab s x)" "trx_no (trx_tab u x) = trx_no (trx_tab s x)" for x by (simp_all add: ue)
  have "views_ok u"
  proof (rule views_kept [OF V L])
    show "committed u i" if "committed s i" for i using that by (auto simp: committed_def ue ids)
    show "dulint_val (low_limit_no r) \<le> dulint_val (trx_no (trx_tab u x))"
      if "x \<in> set (trx_list u)" "trx_conc_state (trx_tab u x) = TRX_ACTIVE" "view_ok s r" for x r
      using that by (auto simp: view_ok_def ue split: if_splits)
  qed (simp_all add: ue)
  then have v: "views_ok ?s"
    using views_remove [of u "the (trx_read_view (trx_tab s t))"] by (auto simp: e u_def split: option.splits)
  have t: "t \<in> set (trx_list s)" using trx_member [OF T, of t] a by simp
  have "trxs_ok A ?s"
  proof -
    have f: "trx_id (trx_tab ?s x) = trx_id (trx_tab s x)" "trx_no (trx_tab ?s x) = trx_no (trx_tab s x)"
      "trx_pc (trx_tab ?s x) = trx_pc (trx_tab s x)" "trx_list ?s = trx_list s" "max_trx_id ?s = max_trx_id s" for x
      by (simp_all add: e)
    show ?thesis using T t unfolding trxs_ok_def trx_ok_def f by (auto simp: Let_def) (auto simp: e split: if_splits)
  qed
  moreover have "link_ok ?s"
  proof (rule linkI)
    fix v y assume "v \<in> set (view_list ?s)" and c: "view_creator (view_tab ?s v) = Some y"
    then have m: "v \<in> set (view_list s)" "trx_read_view (trx_tab s t) \<noteq> Some v"
      using V by (auto simp: e views_ok_def split: option.splits dest: subsetD [OF set_remove1_subset])
    from c have c: "view_creator (view_tab s v) = Some y" by (simp add: e)
    note d = linkD [OF L m(1) c]
    then have "y \<noteq> t" using m(2) by auto
    with d c show "trx_conc_state (trx_tab ?s y) = TRX_ACTIVE \<and> trx_read_view (trx_tab ?s y) = Some v
        \<and> trx_id (trx_tab ?s y) \<notin> set (view_trx_ids (view_tab ?s v))
        \<and> dulint_val (trx_id (trx_tab ?s y)) < dulint_val (low_limit_id (view_tab ?s v))" by (simp add: e)
  next
    fix y v assume r: "trx_read_view (trx_tab ?s y) = Some v"
    then have y: "y \<noteq> t" by (auto simp: e)
    with r have r: "trx_read_view (trx_tab s y) = Some v" by (simp add: e)
    note d = linkD2 [OF L r]
    have "trx_read_view (trx_tab s t) \<noteq> Some v" using linkD2(2) [OF L, of t v] d(2) y by auto
    with d show "v \<in> set (view_list ?s) \<and> view_creator (view_tab ?s v) = Some y"
      by (auto simp: e split: option.splits)
  qed
  moreover have "history_ok ?s" using H by (auto simp: history_ok_def e)
  moreover have "purge_ok ?s"
    unfolding purge_ok_def
  proof (intro allI impI)
    fix p assume "purge_view ?s = Some p"
    then have p: "view_list s \<noteq> []" "last (view_list s) = p" "view_creator (view_tab s p) = None"
      using P by (simp_all add: purge_ok_def e)
    have "last (view_list s) \<noteq> v" if "trx_read_view (trx_tab s t) = Some v" for v
      using linkD2(2) [OF L that] p by auto
    then show "view_list ?s \<noteq> [] \<and> last (view_list ?s) = p \<and> view_creator (view_tab ?s p) = None"
      using p last_remove1 [of "view_list s"] by (auto simp: e split: option.splits)
  qed
  ultimately show ?thesis using v by (simp add: trx_inv_def)
qed

lemma finish_inv:
  assumes i: "trx_inv A s" and a: "trx_conc_state (trx_tab s t) = TRX_COMMITTED_IN_MEMORY"
  shows "trx_inv A (commit_end t s)"
proof -
  let ?s = "commit_end t s"
  have T: "trxs_ok A s" and L: "link_ok s" and V: "views_ok s" and H: "history_ok s" and P: "purge_ok s"
    using i by (simp_all add: trx_inv_def)
  have t: "t \<in> set (trx_list s)" using trx_member [OF T, of t] a by simp
  have e: "max_trx_id ?s = max_trx_id s" "trx_list ?s = remove1 t (trx_list s)" "view_list ?s = view_list s"
    "view_tab ?s = view_tab s" "view_heap ?s = view_heap s" "history ?s = history s" "purge_view ?s = purge_view s"
    by (simp_all add: commit_end_def Let_def)
  have tab: "trx_tab ?s u = trx_tab s u" if "u \<noteq> t" for u using that by (simp add: commit_end_def Let_def)
  have x: "trx_conc_state (trx_tab ?s t) = TRX_NOT_STARTED" "trx_pc (trx_tab ?s t) = Running"
    "trx_read_view (trx_tab ?s t) = trx_read_view (trx_tab s t)" "trx_id (trx_tab ?s t) = trx_id (trx_tab s t)"
    by (simp_all add: commit_end_def Let_def)
  have rv: "trx_read_view (trx_tab s t) = None" using T t a by (simp add: trxs_ok_def trx_ok_def Let_def)
  have ids: "trx_id (trx_tab ?s u) = trx_id (trx_tab s u)" "trx_read_view (trx_tab ?s u) = trx_read_view (trx_tab s u)" for u
    using x tab [of u] by (cases "u = t"; simp)+
  have dis: "distinct (trx_list s)" using T by (simp add: trxs_ok_def trx_ok_def)
  have mem: "u \<in> set (trx_list ?s) \<longleftrightarrow> u \<in> set (trx_list s) \<and> u \<noteq> t" for u using dis by (simp add: e)
  have out: "trx_tab ?s u = trx_tab s u" if "u \<notin> set (trx_list s)" for u by (rule tab) (use that t in auto)
  have "trxs_ok A ?s"
    using T desc_remove1 [of "\<lambda>t. trx_id (trx_tab s t)" "trx_list s" t] rv x dis
    unfolding trxs_ok_def trx_ok_def by (auto simp: mem Let_def tab e(1) ids) (auto simp: e(2) tab out)
  moreover have "link_ok ?s"
  proof (rule link_kept [OF L])
    fix u assume "trx_conc_state (trx_tab s u) = TRX_ACTIVE"
    then have "u \<noteq> t" "trx_conc_state (trx_tab s u) = TRX_ACTIVE" using a by auto
    then show "trx_conc_state (trx_tab ?s u) = TRX_ACTIVE \<and> trx_id (trx_tab ?s u) = trx_id (trx_tab s u)" by (simp add: tab)
  qed (simp_all add: e ids)
  moreover have "views_ok ?s"
  proof (rule views_kept [OF V L])
    show "committed ?s i" if "committed s i" for i using that tab by (auto simp: committed_def e(1) mem)
    show "dulint_val (low_limit_no r) \<le> dulint_val (trx_no (trx_tab ?s u))"
      if "u \<in> set (trx_list ?s)" "trx_conc_state (trx_tab ?s u) = TRX_ACTIVE" "view_ok s r" for u r
      using that tab by (auto simp: view_ok_def mem)
  qed (simp_all add: e ids)
  moreover have "history_ok ?s" using H tab by (auto simp: history_ok_def e(1,6) mem ids)
  moreover have "purge_ok ?s" using P by (simp add: purge_ok_def e)
  ultimately show ?thesis by (simp add: trx_inv_def)
qed

section \<open>New views\<close>

definition open_rec :: "trx_api \<Rightarrow> nat option \<Rightarrow> trx_sys \<Rightarrow> read_view_t" where
  "open_rec A cr s =
     (let (ids, no) = open_loop A (trx_tab s) cr (trx_list s) ([], max_trx_id s)
      in \<lparr>can_be_too_old = False, low_limit_no = no, low_limit_id = max_trx_id s,
           up_limit_id = (if ids \<noteq> [] then last ids else max_trx_id s), view_trx_ids = ids, view_creator = cr\<rparr>)"

lemma open_now_rec: "read_view_open_now A cr s = new_view (open_rec A cr s) (#) s"
  by (simp add: read_view_open_now_def open_rec_def case_prod_beta Let_def)

lemma open_rec_ok:
  assumes A: "trx_api_ok A" and T: "trxs_ok A s" and H: "history_ok s"
    and cr: "cr = Some t \<longrightarrow> trx_conc_state (trx_tab s t) = TRX_ACTIVE \<and> trx_pc (trx_tab s t) = Running"
      "cr = None \<or> cr = Some t"
  shows "view_ok s (open_rec A cr s)" "core s (open_rec A cr s) i \<longleftrightarrow> dulint_wf i \<and> committed s i"
    "cr = Some t \<Longrightarrow> trx_id (trx_tab s t) \<notin> set (view_trx_ids (open_rec A cr s))"
    "cr = Some t \<Longrightarrow> dulint_val (trx_id (trx_tab s t)) < dulint_val (low_limit_id (open_rec A cr s))"
    "view_creator (open_rec A cr s) = cr"
proof -
  let ?r = "open_rec A cr s"
  let ?P = "\<lambda>u. Some u \<noteq> cr \<and> trx_conc_state (trx_tab s u) = TRX_ACTIVE"
  have m: "dulint_wf (max_trx_id s)" using T by (simp add: trxs_ok_def trx_ok_def)
  have ids: "view_trx_ids ?r = map (\<lambda>u. trx_id (trx_tab s u)) (filter ?P (trx_list s))"
    using open_loop_ids [of A "trx_tab s" cr "trx_list s" "[]" "max_trx_id s"] by (simp add: open_rec_def case_prod_beta Let_def)
  have lo: "low_limit_id ?r = max_trx_id s" "view_creator ?r = cr"
    "up_limit_id ?r = (if view_trx_ids ?r = [] then max_trx_id s else last (view_trx_ids ?r))"
    by (simp_all add: open_rec_def case_prod_beta Let_def)
  have no: "dulint_wf (low_limit_no ?r)" "dulint_val (low_limit_no ?r) \<le> dulint_val (max_trx_id s)"
    "\<And>u. u \<in> set (trx_list s) \<Longrightarrow> ?P u \<Longrightarrow> dulint_val (low_limit_no ?r) \<le> dulint_val (trx_no (trx_tab s u))"
    using open_loop_no [OF A m, of "trx_list s" "trx_tab s" cr "[]"] trxD(3) [OF T]
    by (simp_all add: open_rec_def case_prod_beta Let_def)
  have shape: "view_shape ?r"
    using T trxD(1,2) [OF T] m desc_filter [of "\<lambda>u. trx_id (trx_tab s u)" "trx_list s" ?P]
    by (auto simp: view_shape_def ids lo trxs_ok_def trx_ok_def)
  have core: "core s ?r i \<longleftrightarrow> dulint_wf i \<and> committed s i" for i
    using cr trx_member [OF T] by (force simp: core_def view_sees_def committed_def lo ids)
  have cr_no: "dulint_val (low_limit_no ?r) \<le> dulint_val (trx_no (trx_tab s u))"
    if "u \<in> set (trx_list s)" "trx_conc_state (trx_tab s u) = TRX_ACTIVE" for u
  proof (cases "Some u = cr")
    case True
    then have "trx_no (trx_tab s u) = ut_dulint_max A" using cr trxD(5) [OF T that(1)] by auto
    then show ?thesis using max_above [OF A no(1)] by simp
  qed (use no(3) that in simp)
  have "committed s (fst h)" if h: "h \<in> set (history s)" "dulint_val (snd h) < dulint_val (low_limit_no ?r)" for h
  proof -
    have "trx_id (trx_tab s u) \<noteq> fst h" if "u \<in> set (trx_list s)" "trx_conc_state (trx_tab s u) = TRX_ACTIVE" for u
      using H h cr_no [OF that] that by (fastforce simp: history_ok_def)
    then show ?thesis using H h by (simp add: committed_def history_ok_def)
  qed
  then show "view_ok s ?r"
    using shape no cr_no H by (auto simp: view_ok_def core lo history_ok_def)
  show "core s ?r i \<longleftrightarrow> dulint_wf i \<and> committed s i" by (rule core)
  show "view_creator ?r = cr" by (rule lo)
  assume c: "cr = Some t"
  then have t: "t \<in> set (trx_list s)" using cr trx_member [OF T, of t] by simp
  show "trx_id (trx_tab s t) \<notin> set (view_trx_ids ?r)" unfolding ids using trx_ids_differ [OF T _ t] c by auto
  show "dulint_val (trx_id (trx_tab s t)) < dulint_val (low_limit_id ?r)" using trxD(2) [OF T t] by (simp add: lo)
qed

lemma new_view_front:
  assumes v: "views_ok s" and r: "view_ok s r" and c: "\<And>i. dulint_wf i \<Longrightarrow> committed s i \<Longrightarrow> core s r i"
  shows "views_ok (snd (new_view r (#) s))"
proof -
  let ?s = "snd (new_view r (#) s)"
  have k: "core ?s = core s" "committed ?s = committed s" "view_ok ?s = view_ok s"
    by (simp_all add: fun_eq_iff core_def committed_def view_ok_def new_view_def)
  have "core s r i" if "w \<in> set (view_list s)" "core s (view_tab s w) i" for w i
    using v that c [of i] by (auto simp: views_ok_def view_ok_def core_def)
  then show ?thesis using v r unfolding views_ok_def k
    by (auto simp: new_view_def less_Suc_eq elim!: sorted_wrt_mono_rel [rotated])
qed

lemma new_view_back:
  assumes v: "views_ok s" and r: "view_ok s r"
    and c: "\<And>i w. w \<in> set (view_list s) \<Longrightarrow> core s r i \<Longrightarrow> core s (view_tab s w) i"
  shows "views_ok (snd (new_view r (\<lambda>v vs. vs @ [v]) s))"
proof -
  let ?s = "snd (new_view r (\<lambda>v vs. vs @ [v]) s)"
  have k: "core ?s = core s" "committed ?s = committed s" "view_ok ?s = view_ok s"
    by (simp_all add: fun_eq_iff core_def committed_def view_ok_def new_view_def)
  show ?thesis using v r c unfolding views_ok_def k
    by (auto simp: new_view_def less_Suc_eq sorted_wrt_append elim!: sorted_wrt_mono_rel [rotated])
qed

lemma new_view_simps:
  "fst (new_view r add s) = view_heap s" "trx_tab (snd (new_view r add s)) = trx_tab s" "trx_list (snd (new_view r add s)) = trx_list s"
  "max_trx_id (snd (new_view r add s)) = max_trx_id s" "history (snd (new_view r add s)) = history s"
  "view_list (snd (new_view r add s)) = add (view_heap s) (view_list s)"
  "view_tab (snd (new_view r add s)) = (view_tab s)(view_heap s := r)" "purge_view (snd (new_view r add s)) = purge_view s"
  by (simp_all add: new_view_def)

lemma view_fresh: "views_ok s \<Longrightarrow> v \<in> set (view_list s) \<Longrightarrow> v \<noteq> view_heap s"
  by (auto simp: views_ok_def)

lemma views_cong:
  assumes "views_ok s" "view_list s' = view_list s" "view_tab s' = view_tab s" "view_heap s' = view_heap s"
    "max_trx_id s' = max_trx_id s" "trx_list s' = trx_list s" "history s' = history s"
    "\<And>u. trx_id (trx_tab s' u) = trx_id (trx_tab s u)" "\<And>u. trx_no (trx_tab s' u) = trx_no (trx_tab s u)"
    "\<And>u. trx_conc_state (trx_tab s' u) = trx_conc_state (trx_tab s u)"
  shows "views_ok s'"
proof -
  have k: "core s' = core s" "committed s' = committed s"
    by (simp_all add: fun_eq_iff core_def committed_def assms(2-))
  then have "view_ok s' = view_ok s" by (simp add: fun_eq_iff view_ok_def assms(2-))
  then show ?thesis using assms(1) by (simp add: views_ok_def k assms(2-))
qed

lemma read_inv:
  assumes A: "trx_api_ok A" and i: "trx_inv A s" and a: "trx_conc_state (trx_tab s t) = TRX_ACTIVE" "trx_pc (trx_tab s t) = Running"
  shows "trx_inv A (trx_assign_read_view A t s)"
proof (cases "trx_read_view (trx_tab s t)")
  case (Some v)
  then show ?thesis using i by (simp add: trx_assign_read_view_def)
next
  case None
  let ?s = "trx_assign_read_view A t s" and ?r = "open_rec A (Some t) s" and ?w = "view_heap s"
  have T: "trxs_ok A s" and L: "link_ok s" and V: "views_ok s" and H: "history_ok s" and P: "purge_ok s"
    using i by (simp_all add: trx_inv_def)
  note r = open_rec_ok [OF A T H, of "Some t" t]
  have r1: "view_ok s ?r" and r3: "trx_id (trx_tab s t) \<notin> set (view_trx_ids ?r)"
    "dulint_val (trx_id (trx_tab s t)) < dulint_val (low_limit_id ?r)" "view_creator ?r = Some t"
    and r2: "\<And>i. core s ?r i \<longleftrightarrow> dulint_wf i \<and> committed s i" using r a by simp_all
  define u where "u = snd (new_view ?r (#) s)"
  have e: "?s = u\<lparr>trx_tab := (trx_tab u)(t := (trx_tab u t)\<lparr>trx_read_view := Some ?w\<rparr>)\<rparr>"
    by (simp add: trx_assign_read_view_def None open_now_rec u_def new_view_simps case_prod_beta Let_def)
  have ue: "trx_tab u = trx_tab s" "trx_list u = trx_list s" "max_trx_id u = max_trx_id s" "history u = history s"
    "view_list u = ?w # view_list s" "view_tab u = (view_tab s)(?w := ?r)" "purge_view u = purge_view s"
    by (simp_all add: u_def new_view_simps)
  have f: "trx_id (trx_tab ?s x) = trx_id (trx_tab s x)" "trx_no (trx_tab ?s x) = trx_no (trx_tab s x)"
    "trx_conc_state (trx_tab ?s x) = trx_conc_state (trx_tab s x)" "trx_pc (trx_tab ?s x) = trx_pc (trx_tab s x)"
    "trx_list ?s = trx_list s" "max_trx_id ?s = max_trx_id s" "history ?s = history s" "view_list ?s = ?w # view_list s"
    "view_tab ?s = (view_tab s)(?w := ?r)" "purge_view ?s = purge_view s"
    "trx_read_view (trx_tab ?s x) = (if x = t then Some ?w else trx_read_view (trx_tab s x))" for x
    by (simp_all add: e ue)
  have t: "t \<in> set (trx_list s)" using trx_member [OF T, of t] a by simp
  have "views_ok u" unfolding u_def by (rule new_view_front [OF V r1]) (simp add: r2)
  then have "views_ok ?s" by (rule views_cong) (simp_all add: e)
  moreover have "trxs_ok A ?s" using T a t unfolding trxs_ok_def trx_ok_def by (auto simp: f Let_def)
  moreover have "link_ok ?s"
  proof (rule linkI)
    fix v y assume v: "v \<in> set (view_list ?s)" and c: "view_creator (view_tab ?s v) = Some y"
    show "trx_conc_state (trx_tab ?s y) = TRX_ACTIVE \<and> trx_read_view (trx_tab ?s y) = Some v
        \<and> trx_id (trx_tab ?s y) \<notin> set (view_trx_ids (view_tab ?s v))
        \<and> dulint_val (trx_id (trx_tab ?s y)) < dulint_val (low_limit_id (view_tab ?s v))"
    proof (cases "v = ?w")
      case True
      have y: "y = t" using c r3 True by (simp add: f)
      show ?thesis using r3 a True unfolding y by (simp add: f)
    next
      case False
      with v c have m: "v \<in> set (view_list s)" "view_creator (view_tab s v) = Some y" by (simp_all add: f)
      note d = linkD [OF L m]
      have "y \<noteq> t" using d(2) None by auto
      then show ?thesis using d False by (simp add: f)
    qed
  next
    fix y v assume y: "trx_read_view (trx_tab ?s y) = Some v"
    show "v \<in> set (view_list ?s) \<and> view_creator (view_tab ?s v) = Some y"
    proof (cases "y = t")
      case True
      then show ?thesis using y r3 by (simp add: f)
    next
      case False
      then have "trx_read_view (trx_tab s y) = Some v" using y by (simp add: f)
      from linkD2 [OF L this] view_fresh [OF V, of v] show ?thesis by (simp add: f)
    qed
  qed
  moreover have "history_ok ?s" using H by (simp add: history_ok_def f)
  moreover have "purge_ok ?s" using P view_fresh [OF V] by (auto simp: purge_ok_def f)
  ultimately show ?thesis by (simp add: trx_inv_def)
qed

text \<open>The copy of the oldest view sees what that view sees, without the changes of its creator.\<close>

definition copy_ids :: "trx_api \<Rightarrow> trx_sys \<Rightarrow> read_view_t \<Rightarrow> dulint list" where
  "copy_ids A s old =
     (case view_creator old of
        Some c \<Rightarrow> copy_loop A (view_trx_ids old) (trx_id (trx_tab s c)) (length (view_trx_ids old) + 1) 0 True 0 []
      | None \<Rightarrow> copy_loop A (view_trx_ids old) (max_trx_id s) (length (view_trx_ids old)) 0 False 0 [])"

definition copy_rec :: "trx_api \<Rightarrow> nat option \<Rightarrow> trx_sys \<Rightarrow> read_view_t" where
  "copy_rec A cr s =
     (let old = view_tab s (last (view_list s)); ids = copy_ids A s old
      in \<lparr>can_be_too_old = False, low_limit_no = low_limit_no old, low_limit_id = low_limit_id old,
          up_limit_id = (if ids \<noteq> [] then last ids else up_limit_id old), view_trx_ids = ids, view_creator = cr\<rparr>)"

lemma copy_now_rec:
  "view_list s \<noteq> [] \<Longrightarrow> read_view_oldest_copy_or_open_new A cr s = new_view (copy_rec A cr s) (\<lambda>v vs. vs @ [v]) s"
  by (simp add: read_view_oldest_copy_or_open_new_def copy_rec_def copy_ids_def Let_def)

lemma copy_ids_ok:
  assumes A: "trx_api_ok A" and old: "view_shape old"
    and c: "\<And>t. view_creator old = Some t \<Longrightarrow> dulint_wf (trx_id (trx_tab s t)) \<and> trx_id (trx_tab s t) \<notin> set (view_trx_ids old)"
  shows "desc (copy_ids A s old)"
    "set (copy_ids A s old) = set (view_trx_ids old) \<union> (case view_creator old of None \<Rightarrow> {} | Some t \<Rightarrow> {trx_id (trx_tab s t)})"
proof -
  let ?o = "view_trx_ids old"
  have o: "desc ?o" "\<forall>x \<in> set ?o. dulint_wf x" using old by (simp_all add: view_shape_def)
  have "desc (copy_ids A s old) \<and>
    set (copy_ids A s old) = set ?o \<union> (case view_creator old of None \<Rightarrow> {} | Some t \<Rightarrow> {trx_id (trx_tab s t)})"
  proof (cases "view_creator old")
    case None
    then have "copy_ids A s old = ?o" using copy_rest [of 0 "length ?o" 0 ?o A "max_trx_id s" "[]"] by (simp add: copy_ids_def)
    then show ?thesis using o None by simp
  next
    case (Some t)
    let ?c = "trx_id (trx_tab s t)" and ?P = "\<lambda>x. dulint_val (trx_id (trx_tab s t)) \<le> dulint_val x"
    have e: "copy_ids A s old = takeWhile ?P ?o @ ?c # dropWhile ?P ?o"
      using copy_insert [OF A _ o(2), of ?c 0 "[]"] c [OF Some] by (simp add: copy_ids_def Some)
    have "set ?o = set (takeWhile ?P ?o) \<union> set (dropWhile ?P ?o)" by (metis set_append takeWhile_dropWhile_id)
    then show ?thesis using desc_insert [OF o, of ?c] c [OF Some] by (auto simp: e Some)
  qed
  then show "desc (copy_ids A s old)"
    "set (copy_ids A s old) = set (view_trx_ids old) \<union> (case view_creator old of None \<Rightarrow> {} | Some t \<Rightarrow> {trx_id (trx_tab s t)})"
    by simp_all
qed

lemma copy_rec_ok:
  assumes A: "trx_api_ok A" and T: "trxs_ok A s" and L: "link_ok s" and V: "views_ok s" and ne: "view_list s \<noteq> []"
  shows "view_ok s (copy_rec A None s)" "core s (copy_rec A None s) = core s (view_tab s (last (view_list s)))"
    "view_creator (copy_rec A None s) = None"
proof -
  let ?v = "last (view_list s)" and ?r = "copy_rec A None s"
  let ?old = "view_tab s ?v"
  have m: "?v \<in> set (view_list s)" using ne by simp
  then have o: "view_ok s ?old" using V by (simp add: views_ok_def)
  then have sh: "view_shape ?old" by (simp add: view_ok_def)
  have c: "dulint_wf (trx_id (trx_tab s t)) \<and> trx_id (trx_tab s t) \<notin> set (view_trx_ids ?old)
      \<and> dulint_val (trx_id (trx_tab s t)) < dulint_val (low_limit_id ?old)" if "view_creator ?old = Some t" for t
    using linkD [OF L m that] trxD(1) [OF T trx_member [OF T, of t]] by simp
  have ids: "desc (copy_ids A s ?old)"
    "set (copy_ids A s ?old) = set (view_trx_ids ?old) \<union> (case view_creator ?old of None \<Rightarrow> {} | Some t \<Rightarrow> {trx_id (trx_tab s t)})"
    using copy_ids_ok [OF A sh, of s] c by blast+
  have re: "view_trx_ids ?r = copy_ids A s ?old" "low_limit_id ?r = low_limit_id ?old" "low_limit_no ?r = low_limit_no ?old"
    "up_limit_id ?r = (if copy_ids A s ?old \<noteq> [] then last (copy_ids A s ?old) else up_limit_id ?old)" "view_creator ?r = None"
    by (simp_all add: copy_rec_def Let_def)
  have empty: "view_trx_ids ?old = []" if "copy_ids A s ?old = []" using ids(2) that by auto
  have sh': "view_shape ?r"
    using sh ids c empty by (auto simp: view_shape_def re split: option.splits)
  have "view_sees ?r i \<longleftrightarrow> view_sees ?old i \<and> (\<forall>t. view_creator ?old = Some t \<longrightarrow> i \<noteq> trx_id (trx_tab s t))" for i
    using ids(2) by (auto simp: view_sees_def re split: option.splits)
  then have k: "core s ?r = core s ?old" by (simp add: fun_eq_iff core_def re)
  then show "core s ?r = core s ?old" .
  show "view_ok s ?r" using o sh' by (simp add: view_ok_def re k)
  show "view_creator ?r = None" by (rule re)
qed

lemma purge_create_inv:
  assumes A: "trx_api_ok A" and i: "trx_inv A (s\<lparr>purge_view := None\<rparr>)"
  shows "trx_inv A (trx_purge_sys_create A s)"
proof -
  have f: "committed (s\<lparr>purge_view := x\<rparr>) = committed s" "core (s\<lparr>purge_view := x\<rparr>) = core s" for x
    by (simp_all add: fun_eq_iff committed_def core_def)
  have T: "trxs_ok A s" and L: "link_ok s" and V: "views_ok s" and H: "history_ok s"
  proof -
    have "trxs_ok A (s\<lparr>purge_view := None\<rparr>) = trxs_ok A s" by (simp add: trxs_ok_def trx_ok_def)
    moreover have "link_ok (s\<lparr>purge_view := None\<rparr>) = link_ok s" by (simp add: link_ok_def)
    moreover have "views_ok (s\<lparr>purge_view := None\<rparr>) = views_ok s" by (simp add: views_ok_def view_ok_def f)
    moreover have "history_ok (s\<lparr>purge_view := None\<rparr>) = history_ok s" by (simp add: history_ok_def)
    ultimately show "trxs_ok A s" "link_ok s" "views_ok s" "history_ok s" using i unfolding trx_inv_def by simp_all
  qed
  let ?w = "view_heap s"
  obtain r add where n: "read_view_oldest_copy_or_open_new A None s = new_view r add s" and r: "view_creator r = None"
    and V': "views_ok (snd (new_view r add s))" and la: "add ?w (view_list s) \<noteq> []" "last (add ?w (view_list s)) = ?w"
    and st: "set (add ?w (view_list s)) = insert ?w (set (view_list s))"
  proof (cases "view_list s = []")
    case True
    note o = open_rec_ok [OF A T H, of None undefined]
    have "views_ok (snd (new_view (open_rec A None s) (#) s))"
      by (rule new_view_front [OF V]) (use o in simp_all)
    with that [of "open_rec A None s" "(#)"] o True show ?thesis
      by (simp add: read_view_oldest_copy_or_open_new_def open_now_rec)
  next
    case False
    note o = copy_rec_ok [OF A T L V False]
    have "core s (view_tab s w) i" if "w \<in> set (view_list s)" "core s (copy_rec A None s) i" for w i
    proof -
      have e: "view_list s = butlast (view_list s) @ [last (view_list s)]" using False by simp
      have "sorted_wrt (\<lambda>v w. \<forall>i. core s (view_tab s w) i \<longrightarrow> core s (view_tab s v) i) (butlast (view_list s) @ [last (view_list s)])"
        using V e by (simp add: views_ok_def)
      moreover have "w \<in> set (butlast (view_list s)) \<or> w = last (view_list s)" using that(1) e
        by (metis Un_iff empty_iff empty_set insert_iff list.set(2) set_append)
      ultimately show ?thesis using that(2) o(2) by (auto simp: sorted_wrt_append)
    qed
    then have "views_ok (snd (new_view (copy_rec A None s) (\<lambda>v vs. vs @ [v]) s))"
      by (intro new_view_back [OF V o(1)]) auto
    with that [of "copy_rec A None s" "\<lambda>v vs. vs @ [v]"] o(3) False show ?thesis by (simp add: copy_now_rec)
  qed
  let ?u = "snd (new_view r add s)"
  have e: "trx_purge_sys_create A s = ?u\<lparr>purge_view := Some ?w\<rparr>"
    by (simp add: trx_purge_sys_create_def n case_prod_beta Let_def new_view_simps)
  have "views_ok (?u\<lparr>purge_view := Some ?w\<rparr>)" by (rule views_cong [OF V']) simp_all
  moreover have "trxs_ok A (?u\<lparr>purge_view := Some ?w\<rparr>)" using T by (simp add: trxs_ok_def trx_ok_def new_view_simps)
  moreover have "history_ok (?u\<lparr>purge_view := Some ?w\<rparr>)" using H by (simp add: history_ok_def new_view_simps)
  moreover have "purge_ok (?u\<lparr>purge_view := Some ?w\<rparr>)" using la r by (simp add: purge_ok_def new_view_simps)
  moreover have "link_ok (?u\<lparr>purge_view := Some ?w\<rparr>)"
  proof (rule linkI)
    fix v y assume v: "v \<in> set (view_list (?u\<lparr>purge_view := Some ?w\<rparr>))"
      and c: "view_creator (view_tab (?u\<lparr>purge_view := Some ?w\<rparr>) v) = Some y"
    from c r have ne: "v \<noteq> ?w" by (auto simp: new_view_simps)
    with v c st have m: "v \<in> set (view_list s)" "view_creator (view_tab s v) = Some y" by (simp_all add: new_view_simps)
    show "trx_conc_state (trx_tab (?u\<lparr>purge_view := Some ?w\<rparr>) y) = TRX_ACTIVE
      \<and> trx_read_view (trx_tab (?u\<lparr>purge_view := Some ?w\<rparr>) y) = Some v
      \<and> trx_id (trx_tab (?u\<lparr>purge_view := Some ?w\<rparr>) y) \<notin> set (view_trx_ids (view_tab (?u\<lparr>purge_view := Some ?w\<rparr>) v))
      \<and> dulint_val (trx_id (trx_tab (?u\<lparr>purge_view := Some ?w\<rparr>) y)) < dulint_val (low_limit_id (view_tab (?u\<lparr>purge_view := Some ?w\<rparr>) v))"
      using linkD [OF L m] ne by (simp add: new_view_simps)
  next
    fix y v assume "trx_read_view (trx_tab (?u\<lparr>purge_view := Some ?w\<rparr>) y) = Some v"
    then have "trx_read_view (trx_tab s y) = Some v" by (simp add: new_view_simps)
    note d = linkD2 [OF L this]
    then show "v \<in> set (view_list (?u\<lparr>purge_view := Some ?w\<rparr>)) \<and> view_creator (view_tab (?u\<lparr>purge_view := Some ?w\<rparr>) v) = Some y"
      using view_fresh [OF V d(1)] st by (simp add: new_view_simps)
  qed
  ultimately show ?thesis by (simp add: trx_inv_def e)
qed

lemma purge_inv:
  assumes A: "trx_api_ok A" and i: "trx_inv A s"
  shows "trx_inv A (trx_purge_view A s)"
proof -
  have T: "trxs_ok A s" and L: "link_ok s" and V: "views_ok s" and H: "history_ok s" and P: "purge_ok s"
    using i by (simp_all add: trx_inv_def)
  let ?vl = "case purge_view s of None \<Rightarrow> view_list s | Some v \<Rightarrow> remove1 v (view_list s)"
  let ?s = "s\<lparr>view_list := ?vl, purge_view := None\<rparr>"
  have e: "trx_purge_view A s = trx_purge_sys_create A ?s"
    by (cases s, cases "purge_view s") (simp_all add: trx_purge_view_def read_view_close_def Let_def)
  have "views_ok (s\<lparr>view_list := ?vl\<rparr>)" using views_remove [OF V] V by (simp split: option.splits)
  then have "views_ok ?s" by (rule views_cong) simp_all
  moreover have "trxs_ok A ?s" using T by (simp add: trxs_ok_def trx_ok_def)
  moreover have "history_ok ?s" using H by (simp add: history_ok_def)
  moreover have "purge_ok ?s" by (simp add: purge_ok_def)
  moreover have "link_ok ?s"
  proof (rule linkI)
    fix v y assume "v \<in> set (view_list ?s)" and c: "view_creator (view_tab ?s v) = Some y"
    then have m: "v \<in> set (view_list s)" by (auto split: option.splits dest: subsetD [OF set_remove1_subset])
    from linkD [OF L m] c show "trx_conc_state (trx_tab ?s y) = TRX_ACTIVE \<and> trx_read_view (trx_tab ?s y) = Some v
        \<and> trx_id (trx_tab ?s y) \<notin> set (view_trx_ids (view_tab ?s v))
        \<and> dulint_val (trx_id (trx_tab ?s y)) < dulint_val (low_limit_id (view_tab ?s v))" by simp
  next
    fix y v assume "trx_read_view (trx_tab ?s y) = Some v"
    then have d: "v \<in> set (view_list s)" "view_creator (view_tab s v) = Some y" using linkD2 [OF L, of y v] by simp_all
    then have "purge_view s \<noteq> Some v" using P by (auto simp: purge_ok_def)
    with d show "v \<in> set (view_list ?s) \<and> view_creator (view_tab ?s v) = Some y" by (auto split: option.splits)
  qed
  ultimately have "trx_inv A ?s" by (simp add: trx_inv_def)
  then show ?thesis unfolding e by (intro purge_create_inv [OF A]) simp
qed

lemma trx_step_inv: "trx_step A s t \<Longrightarrow> trx_api_ok A \<Longrightarrow> trx_inv A s \<Longrightarrow> trx_inv A t"
  by (induction rule: trx_step.induct)
    (auto intro: trx_start_low_inv undo_inv read_inv take_no_inv log_inv in_memory_inv finish_inv purge_inv)

lemma trx_reach_inv: "trx_reach A s t \<Longrightarrow> trx_api_ok A \<Longrightarrow> trx_inv A s \<Longrightarrow> trx_inv A t"
  by (induction rule: trx_reach.induct) (auto intro: trx_step_inv)

end
