(* ===== verification/Read_View_Properties.thy ===== *)
theory Read_View_Properties
  imports Read_View_Inv
begin

text \<open>
  Repeatable reads and the safety of purge, with concrete runs, the readers that use a view, and two
  slips of \<open>trx0trx.cc\<close>.
\<close>

section \<open>The start, and views that stay\<close>

definition trx_zero :: trx_t where
  "trx_zero = \<lparr>trx_id = \<lparr>high = 0, low = 0\<rparr>, trx_no = \<lparr>high = 0, low = 0\<rparr>, trx_conc_state = TRX_NOT_STARTED,
     insert_undo = False, update_undo = False, trx_read_view = None, trx_pc = Running\<rparr>"

definition trx_sys_start :: "trx_api \<Rightarrow> dulint \<Rightarrow> trx_sys" where
  "trx_sys_start A m = trx_purge_sys_create A
     \<lparr>max_trx_id = m, trx_tab = \<lambda>_. trx_zero, trx_list = [],
      view_tab = \<lambda>_. \<lparr>can_be_too_old = False, low_limit_no = m, low_limit_id = m, up_limit_id = m, view_trx_ids = [], view_creator = None\<rparr>,
      view_list = [], view_heap = 0, purge_view = None, history = []\<rparr>"

lemma trx_start_inv: "trx_api_ok A \<Longrightarrow> dulint_wf m \<Longrightarrow> trx_inv A (trx_sys_start A m)"
  unfolding trx_sys_start_def
  by (rule purge_create_inv) (simp_all add: trx_inv_def trxs_ok_def link_ok_def views_ok_def history_ok_def purge_ok_def trx_zero_def)

lemma new_view_keeps:
  "view_heap s \<le> view_heap (snd (new_view r add s))"
  "v < view_heap s \<Longrightarrow> view_tab (snd (new_view r add s)) v = view_tab s v"
  by (simp_all add: new_view_def)

definition keeps_views :: "trx_sys \<Rightarrow> trx_sys \<Rightarrow> bool" where
  "keeps_views s t \<longleftrightarrow> view_heap s \<le> view_heap t \<and> (\<forall>v < view_heap s. view_tab t v = view_tab s v)"

lemma keeps_same: "view_heap t = view_heap s \<Longrightarrow> view_tab t = view_tab s \<Longrightarrow> keeps_views s t"
  by (simp add: keeps_views_def)

lemma keeps_views_trans: "keeps_views s t \<Longrightarrow> keeps_views t u \<Longrightarrow> keeps_views s u"
  by (auto simp: keeps_views_def)

lemma keeps_new: "keeps_views s (snd (new_view r add s))"
  by (simp add: keeps_views_def new_view_keeps)

lemma keeps_assign: "keeps_views s (trx_assign_read_view A t s)"
  using keeps_new [of s "open_rec A (Some t) s" "(#)"]
  by (auto simp: trx_assign_read_view_def open_now_rec case_prod_beta Let_def keeps_views_def split: option.splits)

lemma keeps_purge_create: "keeps_views s (trx_purge_sys_create A s)"
proof -
  obtain r add where "read_view_oldest_copy_or_open_new A None s = new_view r add s"
    using open_now_rec [of A None s] copy_now_rec [of s A None]
    by (cases "view_list s = []") (auto simp: read_view_oldest_copy_or_open_new_def)
  then show ?thesis using keeps_new [of s r add]
    by (simp add: trx_purge_sys_create_def case_prod_beta Let_def keeps_views_def)
qed

lemma keeps_purge: "keeps_views s (trx_purge_view A s)"
proof -
  let ?t = "(case purge_view s of None \<Rightarrow> s | Some v \<Rightarrow> read_view_close v s)\<lparr>purge_view := None\<rparr>"
  have "keeps_views s ?t" by (rule keeps_same) (simp_all add: read_view_close_def split: option.splits)
  from keeps_views_trans [OF this keeps_purge_create [of ?t A]] show ?thesis by (simp add: trx_purge_view_def Let_def)
qed

lemma keeps_step: "trx_step A s t \<Longrightarrow> keeps_views s t"
proof (induction rule: trx_step.induct)
  case (in_memory s t)
  show ?case by (rule keeps_same) (simp_all add: commit_in_memory_def read_view_close_def Let_def split: option.splits)
next
  case (read s t)
  show ?case by (rule keeps_assign)
next
  case (purge s)
  show ?case by (rule keeps_purge)
qed (auto intro!: keeps_same
    simp: trx_start_low_def trx_sys_get_new_trx_id_def commit_take_no_def trx_sys_get_new_trx_no_def commit_log_def
      trx_purge_add_update_undo_to_history_def commit_end_def Let_def)

lemma keeps_reach: "trx_reach A s t \<Longrightarrow> keeps_views s t"
proof (induction rule: trx_reach.induct)
  case (init s)
  show ?case by (rule keeps_same) simp_all
next
  case (step s t u)
  show ?case by (rule keeps_views_trans [OF step.IH keeps_step [OF step.hyps(2)]])
qed

section \<open>Properties\<close>

text \<open>C7. Consistent reads are repeatable and see committed data only: from the moment a transaction
opens its read view until that view is closed, whatever the other transactions, commits and purge
runs do, it sees exactly the changes of the transactions that had committed at that moment, and its
own.\<close>

theorem read_view_snapshot:
  assumes "trx_api_ok A" "dulint_wf m" "trx_reach A (trx_sys_start A m) s"
    "trx_conc_state (trx_tab s t) = TRX_ACTIVE" "trx_pc (trx_tab s t) = Running" "trx_read_view (trx_tab s t) = None"
    "trx_reach A (trx_assign_read_view A t s) s'"
    "trx_read_view (trx_tab s' t) = trx_read_view (trx_tab (trx_assign_read_view A t s) t)" "dulint_wf i"
  shows "\<exists>v. trx_read_view (trx_tab s' t) = Some v
     \<and> (read_view_sees_trx_id A (view_tab s' v) i \<longleftrightarrow> committed s i \<or> i = trx_id (trx_tab s t))"
proof -
  let ?s = "trx_assign_read_view A t s" and ?w = "view_heap s" and ?r = "open_rec A (Some t) s"
  have inv: "trx_inv A s" by (rule trx_reach_inv [OF assms(3,1) trx_start_inv [OF assms(1,2)]])
  then have T: "trxs_ok A s" and H: "history_ok s" by (simp_all add: trx_inv_def)
  have o: "view_ok s ?r" "core s ?r i \<longleftrightarrow> dulint_wf i \<and> committed s i" "trx_id (trx_tab s t) \<notin> set (view_trx_ids ?r)"
    "dulint_val (trx_id (trx_tab s t)) < dulint_val (low_limit_id ?r)" "view_creator ?r = Some t"
    using open_rec_ok [OF assms(1) T H, of "Some t" t] assms(4,5) by simp_all
  have w: "trx_read_view (trx_tab ?s t) = Some ?w" "view_tab ?s ?w = ?r" "?w < view_heap ?s"
    using assms(6) by (simp_all add: trx_assign_read_view_def open_now_rec case_prod_beta Let_def new_view_def)
  have "view_tab s' ?w = ?r" using keeps_reach [OF assms(7)] w by (simp add: keeps_views_def)
  moreover have "read_view_sees_trx_id A ?r i \<longleftrightarrow> view_sees ?r i"
    using o(1) assms(9) by (intro sees_eq [OF assms(1)]) (simp_all add: view_ok_def)
  moreover have "view_sees ?r i \<longleftrightarrow> committed s i \<or> i = trx_id (trx_tab s t)"
    using o assms(9) by (auto simp: core_def view_sees_def)
  ultimately show ?thesis using assms(8) w(1) by auto
qed

text \<open>C6. Purge removes nothing that a reader may still need: the changes whose old versions the purge
view allows to remove (their transaction has a number below its \<open>low_limit_no\<close> in a history list)
are seen by every open read view, so that no view has to go back to those versions.\<close>

theorem purge_view_safe:
  assumes "trx_api_ok A" "dulint_wf m" "trx_reach A (trx_sys_start A m) s"
    "(i, no) \<in> set (history s)" "purge_view s = Some p"
    "dulint_val no < dulint_val (low_limit_no (view_tab s p))" "v \<in> set (view_list s)"
  shows "read_view_sees_trx_id A (view_tab s v) i \<and> \<not> trx_purge_update_undo_must_exist A i s"
proof -
  have inv: "trx_inv A s" by (rule trx_reach_inv [OF assms(3,1) trx_start_inv [OF assms(1,2)]])
  then have V: "views_ok s" and P: "purge_ok s" and H: "history_ok s" by (simp_all add: trx_inv_def)
  have p: "view_list s \<noteq> []" "last (view_list s) = p" using P assms(5) by (simp_all add: purge_ok_def)
  then have mem: "p \<in> set (view_list s)" by auto
  have wf: "dulint_wf i" using H assms(4) by (auto simp: history_ok_def)
  have "\<forall>h \<in> set (history s). dulint_val (snd h) < dulint_val (low_limit_no (view_tab s p)) \<longrightarrow> core s (view_tab s p) (fst h)"
    using V mem by (simp add: views_ok_def view_ok_def)
  from bspec [OF this assms(4)] assms(6) have c: "core s (view_tab s p) i" by simp
  have "view_list s = butlast (view_list s) @ [p]" using p by (metis append_butlast_last_id)
  then have "sorted_wrt (\<lambda>v w. \<forall>i. core s (view_tab s w) i \<longrightarrow> core s (view_tab s v) i) (butlast (view_list s) @ [p])"
    "v \<in> set (butlast (view_list s)) \<or> v = p"
    using V assms(7) by (simp add: views_ok_def, metis Un_iff empty_iff empty_set insert_iff list.set(2) set_append)
  then have "core s (view_tab s v) i" using c by (auto simp: sorted_wrt_append)
  then show ?thesis using sees_eq [OF assms(1) _ wf] V assms(5,7) mem c
    by (auto simp: core_def views_ok_def view_ok_def trx_purge_update_undo_must_exist_def)
qed


text \<open>A concrete API, and a system in which two transactions start, one reads and the other commits.\<close>

definition trx_ref :: trx_api where
  "trx_ref = lsn_api.extend lsn_ref
     \<lparr>UT_DULINT_INC = (\<lambda>d. dulint_of_nat (dulint_val d + 1)), ut_dulint_max = \<lparr>high = 0xFFFFFFFF, low = 0xFFFFFFFF\<rparr>\<rparr>"

lemma trx_ref_simps [simp]:
  "dulint_api.truncate trx_ref = dulint_ref" "UT_DULINT_INC trx_ref d = dulint_of_nat (dulint_val d + 1)"
  "ut_dulint_max trx_ref = \<lparr>high = 0xFFFFFFFF, low = 0xFFFFFFFF\<rparr>"
  "ut_dulint_cmp trx_ref a b = int (dulint_val a) - int (dulint_val b)"
  by (simp_all add: trx_ref_def lsn_ref_def dulint_ref_def dulint_api.defs lsn_api.defs)

lemma trx_ref_ok: "trx_api_ok trx_ref"
proof -
  have "dulint_val d \<le> 2 ^ 64 - 1" if "dulint_wf d" for d
  proof -
    have "unat (high d) \<le> 2 ^ 32 - 1" "unat (low d) \<le> 2 ^ 32 - 1" using that by (auto simp: dulint_wf_def)
    then show ?thesis by (simp add: dulint_val_def)
  qed
  then show ?thesis
    by (simp add: trx_api_ok_def dulint_ref_ok dulint_of_nat_val) (simp add: dulint_wf_def dulint_val_def)
qed

abbreviation nn :: "nat \<Rightarrow> dulint" where "nn \<equiv> dulint_of_nat"

definition trx_demo1 :: trx_sys where
  "trx_demo1 = trx_start_low trx_ref 2 (trx_start_low trx_ref 1 (trx_sys_start trx_ref (nn 7)))"

definition trx_demo2 :: trx_sys where
  "trx_demo2 = commit_in_memory 2 (trx_assign_read_view trx_ref 1 trx_demo1)"

lemmas trx_demo_simps = trx_sys_start_def trx_purge_sys_create_def read_view_oldest_copy_or_open_new_def read_view_open_now_def
  new_view_def trx_start_low_def trx_sys_get_new_trx_id_def trx_zero_def Let_def dulint_of_nat_val

lemma trx_demo1_reach: "trx_reach trx_ref (trx_sys_start trx_ref (nn 7)) trx_demo1"
proof -
  let ?s = "trx_sys_start trx_ref (nn 7)"
  have "trx_step trx_ref ?s (trx_start_low trx_ref 1 ?s)"
    by (rule trx_step.start) (simp_all add: trx_demo_simps)
  moreover have "trx_step trx_ref (trx_start_low trx_ref 1 ?s) trx_demo1"
    unfolding trx_demo1_def by (rule trx_step.start) (simp_all add: trx_demo_simps)
  ultimately show ?thesis by (meson trx_reach.intros)
qed

lemma trx_demo1_state:
  "trx_conc_state (trx_tab trx_demo1 t) = (if t = 1 \<or> t = 2 then TRX_ACTIVE else TRX_NOT_STARTED)"
  "trx_pc (trx_tab trx_demo1 t) = Running" "trx_read_view (trx_tab trx_demo1 t) = None"
  "insert_undo (trx_tab trx_demo1 t) = False" "trx_list trx_demo1 = [2, 1]"
  "trx_id (trx_tab trx_demo1 1) = nn 7" "trx_id (trx_tab trx_demo1 2) = nn 8" "max_trx_id trx_demo1 = nn 9"
  by (simp_all add: trx_demo1_def trx_demo_simps)

lemma assign_keeps:
  "trx_conc_state (trx_tab (trx_assign_read_view A t s) u) = trx_conc_state (trx_tab s u)"
  "trx_pc (trx_tab (trx_assign_read_view A t s) u) = trx_pc (trx_tab s u)"
  "insert_undo (trx_tab (trx_assign_read_view A t s) u) = insert_undo (trx_tab s u)"
  "u \<noteq> t \<Longrightarrow> trx_read_view (trx_tab (trx_assign_read_view A t s) u) = trx_read_view (trx_tab s u)"
  by (simp_all add: trx_assign_read_view_def open_now_rec new_view_def case_prod_beta Let_def split: option.splits)

lemma trx_demo2_reach: "trx_reach trx_ref (trx_assign_read_view trx_ref 1 trx_demo1) trx_demo2"
proof -
  have "trx_step trx_ref (trx_assign_read_view trx_ref 1 trx_demo1) trx_demo2"
    unfolding trx_demo2_def by (rule trx_step.in_memory) (simp_all add: assign_keeps trx_demo1_state commit_writes_def)
  then show ?thesis by (meson trx_reach.intros)
qed

lemma nn_eq: "a < 2 ^ 64 \<Longrightarrow> b < 2 ^ 64 \<Longrightarrow> nn a = nn b \<longleftrightarrow> a = b"
  by (metis dulint_of_nat_val(2))

text \<open>Transaction 1 does not see transaction 8, which has committed in the meantime.\<close>

lemma read_view_snapshot_witness:
  "trx_conc_state (trx_tab trx_demo2 2) = TRX_COMMITTED_IN_MEMORY
   \<and> (\<exists>v. trx_read_view (trx_tab trx_demo2 1) = Some v \<and> \<not> read_view_sees_trx_id trx_ref (view_tab trx_demo2 v) (nn 8))"
proof -
  have rv: "trx_read_view (trx_tab trx_demo2 1) = trx_read_view (trx_tab (trx_assign_read_view trx_ref 1 trx_demo1) 1)"
    using trx_demo1_state(3) [of 2] assign_keeps(4) [of 2 1 trx_ref trx_demo1]
    by (simp add: trx_demo2_def commit_in_memory_def)
  have "\<not> committed trx_demo1 (nn 8)" by (simp add: committed_def trx_demo1_state)
  moreover have "nn 8 \<noteq> trx_id (trx_tab trx_demo1 1)" by (simp add: nn_eq trx_demo1_state del: One_nat_def)
  moreover have "trx_conc_state (trx_tab trx_demo2 2) = TRX_COMMITTED_IN_MEMORY"
    using trx_demo1_state(3) [of 2] assign_keeps(4) [of 2 1 trx_ref trx_demo1]
    by (simp add: trx_demo2_def commit_in_memory_def)
  ultimately show ?thesis
    using read_view_snapshot [OF trx_ref_ok _ trx_demo1_reach, of 1 trx_demo2 "nn 8", OF _ _ _ _ trx_demo2_reach rv]
    by (auto simp: dulint_of_nat_val trx_demo1_state simp del: One_nat_def)
qed

text \<open>
  Transaction 1 writes and commits, transaction 2 opens a view, purge takes its view: the undo log
  of transaction 7 with the number 8 may go, and the reader sees its changes.
\<close>

definition purge_demo1 :: trx_sys where
  "purge_demo1 = (let s = trx_start_low trx_ref 1 (trx_sys_start trx_ref (nn 7))
     in s\<lparr>trx_tab := (trx_tab s)(1 := (trx_tab s 1)\<lparr>insert_undo := True, update_undo := True\<rparr>)\<rparr>)"

definition purge_demo2 :: trx_sys where
  "purge_demo2 = commit_in_memory 1 (commit_log 1 (commit_take_no trx_ref 1 purge_demo1))"

definition purge_demo3 :: trx_sys where
  "purge_demo3 = trx_assign_read_view trx_ref 2 (trx_start_low trx_ref 2 (commit_end 1 purge_demo2))"

definition purge_demo :: trx_sys where
  "purge_demo = trx_purge_view trx_ref purge_demo3"

lemmas commit_simps = commit_take_no_def trx_sys_get_new_trx_no_def commit_log_def trx_purge_add_update_undo_to_history_def
  commit_in_memory_def commit_end_def commit_writes_def

lemma purge_demo1_reach: "trx_reach trx_ref (trx_sys_start trx_ref (nn 7)) purge_demo1"
proof -
  let ?s = "trx_sys_start trx_ref (nn 7)"
  have "trx_step trx_ref ?s (trx_start_low trx_ref 1 ?s)"
    by (rule trx_step.start) (simp_all add: trx_demo_simps)
  moreover have "trx_step trx_ref (trx_start_low trx_ref 1 ?s) purge_demo1"
    unfolding purge_demo1_def Let_def by (rule trx_step.undo) (simp_all add: trx_demo_simps)
  ultimately show ?thesis by (meson trx_reach.intros)
qed

lemma purge_demo2_reach: "trx_reach trx_ref (trx_sys_start trx_ref (nn 7)) purge_demo2"
proof -
  have "trx_step trx_ref purge_demo1 (commit_take_no trx_ref 1 purge_demo1)"
    by (rule trx_step.take_no) (simp_all add: purge_demo1_def trx_demo_simps commit_simps)
  moreover have "trx_step trx_ref (commit_take_no trx_ref 1 purge_demo1) (commit_log 1 (commit_take_no trx_ref 1 purge_demo1))"
    by (rule trx_step.log) (simp_all add: purge_demo1_def trx_demo_simps commit_simps)
  moreover have "trx_step trx_ref (commit_log 1 (commit_take_no trx_ref 1 purge_demo1)) purge_demo2"
    unfolding purge_demo2_def by (rule trx_step.in_memory) (simp_all add: purge_demo1_def trx_demo_simps commit_simps)
  ultimately show ?thesis using purge_demo1_reach by (meson trx_reach.intros)
qed

lemma purge_demo2_state:
  "trx_conc_state (trx_tab purge_demo2 1) = TRX_COMMITTED_IN_MEMORY" "trx_tab purge_demo2 2 = trx_zero"
  "max_trx_id purge_demo2 = nn 9" "history purge_demo2 = [(nn 7, nn 8)]" "trx_list purge_demo2 = [1]"
  "view_list purge_demo2 = [0]" "view_heap purge_demo2 = 1" "purge_view purge_demo2 = Some 0"
  by (simp_all add: purge_demo2_def purge_demo1_def trx_demo_simps commit_simps)

lemma purge_demo3_reach: "trx_reach trx_ref (trx_sys_start trx_ref (nn 7)) purge_demo3"
proof -
  have "trx_step trx_ref purge_demo2 (commit_end 1 purge_demo2)"
    by (rule trx_step.finish) (simp add: purge_demo2_state del: One_nat_def)
  moreover have "trx_step trx_ref (commit_end 1 purge_demo2) (trx_start_low trx_ref 2 (commit_end 1 purge_demo2))"
    by (rule trx_step.start) (simp_all add: commit_end_def Let_def purge_demo2_state trx_zero_def dulint_of_nat_val)
  moreover have "trx_step trx_ref (trx_start_low trx_ref 2 (commit_end 1 purge_demo2)) purge_demo3"
    unfolding purge_demo3_def
    by (rule trx_step.read) (simp_all add: commit_end_def Let_def purge_demo2_state trx_start_low_def
      trx_sys_get_new_trx_id_def trx_zero_def)
  ultimately show ?thesis using purge_demo2_reach by (meson trx_reach.intros)
qed

lemma purge_demo3_state:
  "history purge_demo3 = [(nn 7, nn 8)]" "view_list purge_demo3 = [1, 0]" "view_heap purge_demo3 = 2" "purge_view purge_demo3 = Some 0"
  "view_tab purge_demo3 1 = \<lparr>can_be_too_old = False, low_limit_no = nn 10, low_limit_id = nn 10, up_limit_id = nn 10,
     view_trx_ids = [], view_creator = Some 2\<rparr>" "trx_id (trx_tab purge_demo3 2) = nn 9"
  by (simp_all add: purge_demo3_def commit_end_def Let_def purge_demo2_state trx_start_low_def new_view_def
    trx_sys_get_new_trx_id_def trx_zero_def trx_assign_read_view_def read_view_open_now_def dulint_of_nat_val)

lemma purge_demo_state:
  "history purge_demo = [(nn 7, nn 8)]" "view_list purge_demo = [1, 2]" "purge_view purge_demo = Some 2"
  "low_limit_no (view_tab purge_demo 2) = nn 10"
  by (simp_all add: purge_demo_def trx_purge_view_def purge_demo3_state read_view_close_def Let_def trx_purge_sys_create_def
    copy_now_rec new_view_def copy_rec_def del: One_nat_def)

lemma purge_view_safe_witness:
  "read_view_sees_trx_id trx_ref (view_tab purge_demo 1) (nn 7) \<and> \<not> trx_purge_update_undo_must_exist trx_ref (nn 7) purge_demo"
proof -
  have r: "trx_reach trx_ref (trx_sys_start trx_ref (nn 7)) purge_demo"
    using purge_demo3_reach trx_step.purge [of trx_ref purge_demo3] unfolding purge_demo_def by (meson trx_reach.intros)
  show ?thesis
    by (rule purge_view_safe [OF trx_ref_ok _ r, of "nn 7" "nn 8" 2 1]) (simp_all add: purge_demo_state dulint_of_nat_val)
qed

section \<open>The other readers\<close>

text \<open>The version that a consistent read returns is the newest one that its view sees.\<close>

lemma row_vers_first:
  "row_vers_build_for_consistent_read A view (v # vs) = find (\<lambda>x. read_view_sees_trx_id A view (fst x)) vs"
  by (induction vs arbitrary: v) auto

text \<open>A page of a secondary index passes only if the view sees every transaction that changed it.\<close>

lemma sec_page_sees:
  assumes A: "trx_api_ok A" and v: "view_shape view" and wf: "dulint_wf i" "dulint_wf page_max"
    and p: "lock_sec_rec_cons_read_sees A False view page_max" and i: "dulint_val i \<le> dulint_val page_max"
  shows "read_view_sees_trx_id A view i"
proof -
  have u: "dulint_wf (up_limit_id view)" using v by (auto simp: view_shape_def)
  then have "dulint_val page_max < dulint_val (up_limit_id view)"
    using p by (auto simp: lock_sec_rec_cons_read_sees_def trx_cmp [OF A wf(2)] split: if_splits)
  then show ?thesis using i by (simp add: read_view_sees_trx_id_def trx_cmp [OF A wf(1) u])
qed

section \<open>Two slips\<close>

text \<open>C37. \<open>trx_list_insert_ordered\<close> puts a transaction that belongs at the end of the list at its
front. After a restart that finds two active transactions in this order, the older one is not
reported as active, and a new read view sees its uncommitted changes.\<close>

theorem recovered_trx_dirty_read:
  assumes "trx_api_ok A" "dulint_wf (trx_id (trx_tab s t))" "dulint_wf (trx_id (trx_tab s u))" "dulint_wf (max_trx_id s)"
    "dulint_val (trx_id (trx_tab s u)) < dulint_val (trx_id (trx_tab s t))"
    "trx_conc_state (trx_tab s t) = TRX_ACTIVE" "trx_conc_state (trx_tab s u) = TRX_ACTIVE" "trx_list s = []"
  shows "let s1 = trx_list_insert_ordered A u (trx_list_insert_ordered A t s); (v, s2) = read_view_open_now A None s1 in
    u \<in> set (trx_list s1) \<and> trx_conc_state (trx_tab s1 u) = TRX_ACTIVE
    \<and> \<not> trx_is_active A (trx_id (trx_tab s1 u)) s1 \<and> read_view_sees_trx_id A (view_tab s2 v) (trx_id (trx_tab s2 u))"
proof -
  let ?s1 = "trx_list_insert_ordered A u (trx_list_insert_ordered A t s)"
  have e: "?s1 = s\<lparr>trx_list := [u, t]\<rparr>"
    using assms by (simp add: trx_list_insert_ordered_def trx_cmp [OF assms(1)])
  have r: "read_view_open_now A None ?s1 = new_view (open_rec A None ?s1) (#) ?s1" by (rule open_now_rec)
  have "view_trx_ids (open_rec A None ?s1) = [trx_id (trx_tab s u), trx_id (trx_tab s t)]"
    using assms(6,7) by (simp add: open_rec_def e case_prod_beta Let_def)
  then have "up_limit_id (open_rec A None ?s1) = trx_id (trx_tab s t)"
    by (simp add: open_rec_def case_prod_beta Let_def split: if_splits)
  then have "read_view_sees_trx_id A (open_rec A None ?s1) (trx_id (trx_tab s u))"
    using assms by (simp add: read_view_sees_trx_id_def trx_cmp)
  moreover have "\<not> trx_is_active A (trx_id (trx_tab s u)) ?s1"
    using assms by (simp add: trx_is_active_def trx_list_get_min_trx_id_def e trx_cmp)
  ultimately show ?thesis using assms(7) unfolding Let_def r by (simp add: new_view_def e)
qed

definition recovered_demo :: trx_sys where
  "recovered_demo = (trx_sys_start trx_ref (nn 9))\<lparr>trx_tab := \<lambda>t. trx_zero\<lparr>trx_id := nn (t + 3), trx_conc_state := TRX_ACTIVE\<rparr>\<rparr>"

lemma recovered_trx_dirty_read_witness:
  "\<not> trx_is_active trx_ref (nn 3) (trx_list_insert_ordered trx_ref 0 (trx_list_insert_ordered trx_ref 5 recovered_demo))"
proof -
  have f: "trx_list recovered_demo = []" "max_trx_id recovered_demo = nn 9"
    "trx_tab recovered_demo t = trx_zero\<lparr>trx_id := nn (t + 3), trx_conc_state := TRX_ACTIVE\<rparr>" for t
    by (simp_all add: recovered_demo_def trx_sys_start_def trx_purge_sys_create_def read_view_oldest_copy_or_open_new_def
      read_view_open_now_def new_view_def)
  have "trx_tab (trx_list_insert_ordered trx_ref 0 (trx_list_insert_ordered trx_ref 5 recovered_demo)) = trx_tab recovered_demo"
    by (simp add: trx_list_insert_ordered_def split: option.splits)
  then show ?thesis
    using recovered_trx_dirty_read [OF trx_ref_ok, of recovered_demo 5 0] by (simp add: f dulint_of_nat_val Let_def case_prod_beta)
qed

text \<open>A transaction that has changed rows but inserted none (or the other way round) commits without
a number and without a place in a history list: the test of \<open>trx_commit_off_kernel\<close> asks for both undo
logs. Its undo log stays with the transaction object, purge never finds it, and it is not in the
part of the code that flushes the log.\<close>

theorem commit_without_number:
  assumes "trx_conc_state (trx_tab s t) = TRX_ACTIVE" "update_undo (trx_tab s t)" "\<not> insert_undo (trx_tab s t)"
    "trx_pc (trx_tab s t) = Running"
  shows "let s' = trx_commit_off_kernel A t s in
    trx_conc_state (trx_tab s' t) = TRX_NOT_STARTED \<and> history s' = history s \<and> update_undo (trx_tab s' t)
    \<and> trx_no (trx_tab s' t) = trx_no (trx_tab s t) \<and> max_trx_id s' = max_trx_id s"
  using assms by (simp add: trx_commit_off_kernel_def commit_writes_def commit_end_def commit_in_memory_def
      read_view_close_def Let_def split: option.splits)

lemma commit_without_number_witness:
  "let s = trx_start_low trx_ref 1 (trx_sys_start trx_ref (nn 7));
       s' = trx_commit_off_kernel trx_ref 1 (s\<lparr>trx_tab := (trx_tab s)(1 := (trx_tab s 1)\<lparr>update_undo := True\<rparr>)\<rparr>)
   in history s' = [] \<and> update_undo (trx_tab s' 1)"
proof -
  let ?s = "trx_start_low trx_ref 1 (trx_sys_start trx_ref (nn 7))"
  let ?u = "?s\<lparr>trx_tab := (trx_tab ?s)(1 := (trx_tab ?s 1)\<lparr>update_undo := True\<rparr>)\<rparr>"
  have "history ?u = []" "trx_conc_state (trx_tab ?u 1) = TRX_ACTIVE" "update_undo (trx_tab ?u 1)" "\<not> insert_undo (trx_tab ?u 1)"
    "trx_pc (trx_tab ?u 1) = Running" by (simp_all add: trx_demo_simps)
  with commit_without_number [of ?u 1 trx_ref] show ?thesis by (simp add: Let_def)
qed

end
