(* ===== verification/Lock_Sys.thy ===== *)
theory Lock_Sys
  imports Ut_Byte
begin

text \<open>
  \<open>lock0lock.h\<close> and \<open>lock0lock.cc\<close>: the transaction locks on records and tables. The state is what
  \<open>kernel_mutex\<close> protects: the record locks in the order of their hash chain, the table locks in the
  order of the tables' lists, and of each transaction its lock list, the lock it waits for and its
  queue state. The locks of one page lie in one hash chain, so the walk over a page's locks
  (\<open>lock_rec_get_first_on_page_addr\<close>, \<open>lock_rec_get_next_on_page\<close>) is the walk over the
  subsequence of that page, whatever the hash function.
\<close>

section \<open>Modes\<close>

definition LOCK_IS :: ulint where "LOCK_IS = 2"
definition LOCK_IX :: ulint where "LOCK_IX = 3"
definition LOCK_S :: ulint where "LOCK_S = 4"
definition LOCK_X :: ulint where "LOCK_X = 5"
definition LOCK_AUTO_INC :: ulint where "LOCK_AUTO_INC = 6"
definition LOCK_MODE_MASK :: ulint where "LOCK_MODE_MASK = 0xF"
definition LOCK_TABLE :: ulint where "LOCK_TABLE = 16"
definition LOCK_REC :: ulint where "LOCK_REC = 32"
definition LOCK_TYPE_MASK :: ulint where "LOCK_TYPE_MASK = 0xF0"
definition LOCK_WAIT :: ulint where "LOCK_WAIT = 256"
definition LOCK_GAP :: ulint where "LOCK_GAP = 512"

lemmas lock_consts = LOCK_IS_def LOCK_IX_def LOCK_S_def LOCK_X_def LOCK_AUTO_INC_def
  LOCK_MODE_MASK_def LOCK_TABLE_def LOCK_REC_def LOCK_TYPE_MASK_def LOCK_WAIT_def LOCK_GAP_def

definition lock_mode_stronger_or_eq :: "ulint \<Rightarrow> ulint \<Rightarrow> bool" where
  "lock_mode_stronger_or_eq mode1 mode2 \<longleftrightarrow>
     (if mode1 = LOCK_X then True
      else if mode1 = LOCK_AUTO_INC \<and> mode2 = LOCK_AUTO_INC then True
      else if mode1 = LOCK_S \<and> (mode2 = LOCK_S \<or> mode2 = LOCK_IS) then True
      else if mode1 = LOCK_IX \<and> (mode2 = LOCK_IX \<or> mode2 = LOCK_IS) then True
      else False)"

definition lock_mode_compatible :: "ulint \<Rightarrow> ulint \<Rightarrow> bool" where
  "lock_mode_compatible mode1 mode2 \<longleftrightarrow>
     (if mode1 = LOCK_S \<and> (mode2 = LOCK_IS \<or> mode2 = LOCK_S) then True
      else if mode1 = LOCK_X then False
      else if mode1 = LOCK_AUTO_INC \<and> (mode2 = LOCK_IS \<or> mode2 = LOCK_IX) then True
      else if mode1 = LOCK_IS \<and> (mode2 = LOCK_IS \<or> mode2 = LOCK_IX \<or> mode2 = LOCK_AUTO_INC \<or> mode2 = LOCK_S)
      then True
      else if mode1 = LOCK_IX \<and> (mode2 = LOCK_IS \<or> mode2 = LOCK_AUTO_INC \<or> mode2 = LOCK_IX) then True
      else False)"

definition lock_get_confl_mode :: "ulint \<Rightarrow> ulint" where
  "lock_get_confl_mode mode = (if mode = LOCK_S then LOCK_X else LOCK_S)"

section \<open>Locks and the state\<close>

text \<open>
  \<open>lock_id\<close> stands for the address of the lock object. The two members of the union are the
  \<open>rl_\<close> and \<open>tl_\<close> fields. Transactions, indexes and tables are numbers.
\<close>

record lock =
  lock_id :: nat
  lock_trx :: nat
  type_mode :: ulint
  lock_index :: nat
  rl_space :: ulint
  rl_page_no :: ulint
  rl_n_bits :: nat
  rl_bitmap :: "byte list"
  tl_table :: nat

record trx =
  trx_locks :: "nat list"
  wait_lock :: "nat option"
  que_lock_wait :: bool
  auto_inc_lock :: "nat option"

text \<open>
  \<open>page_n_heap\<close> is the \<open>PAGE_N_HEAP\<close> field of a page's header, which the sizes of bitmaps depend on.
\<close>

record lock_sys =
  rec_locks :: "lock list"
  tab_locks :: "lock list"
  trxs :: "nat \<Rightarrow> trx"
  next_id :: nat
  page_n_heap :: "ulint \<Rightarrow> ulint \<Rightarrow> nat"

record rec_addr =
  r_space :: ulint
  r_page_no :: ulint
  r_heap_no :: nat

text \<open>The heap numbers of the two system records are 0 and 1 (\<open>page0page.h\<close>).\<close>

definition page_rec_is_supremum :: "rec_addr \<Rightarrow> bool" where
  "page_rec_is_supremum r \<longleftrightarrow> r_heap_no r = 1"

definition lock_get_mode :: "lock \<Rightarrow> ulint" where
  "lock_get_mode l = type_mode l AND LOCK_MODE_MASK"

definition lock_get_type :: "lock \<Rightarrow> ulint" where
  "lock_get_type l = type_mode l AND LOCK_TYPE_MASK"

definition lock_get_wait :: "lock \<Rightarrow> bool" where
  "lock_get_wait l \<longleftrightarrow> type_mode l AND LOCK_WAIT \<noteq> 0"

definition lock_rec_get_gap :: "lock \<Rightarrow> bool" where
  "lock_rec_get_gap l \<longleftrightarrow> type_mode l AND LOCK_GAP \<noteq> 0"

definition lock_rec_set_gap :: "lock \<Rightarrow> bool \<Rightarrow> lock" where
  "lock_rec_set_gap l val =
     (if val then l\<lparr>type_mode := type_mode l OR LOCK_GAP\<rparr>
      else l\<lparr>type_mode := type_mode l AND NOT LOCK_GAP\<rparr>)"

definition lock_has_to_wait :: "lock \<Rightarrow> lock \<Rightarrow> bool" where
  "lock_has_to_wait lock1 lock2 \<longleftrightarrow>
     lock_trx lock1 \<noteq> lock_trx lock2 \<and> \<not> lock_mode_compatible (lock_get_mode lock1) (lock_get_mode lock2)"

definition upd_lock :: "nat \<Rightarrow> (lock \<Rightarrow> lock) \<Rightarrow> lock list \<Rightarrow> lock list" where
  "upd_lock i f ls = map (\<lambda>l. if lock_id l = i then f l else l) ls"

definition lock_set_lock_and_trx_wait :: "nat \<Rightarrow> nat \<Rightarrow> lock_sys \<Rightarrow> lock_sys" where
  "lock_set_lock_and_trx_wait i t s =
     (let f = (\<lambda>l. l\<lparr>type_mode := type_mode l OR LOCK_WAIT\<rparr>) in
      s\<lparr>rec_locks := upd_lock i f (rec_locks s), tab_locks := upd_lock i f (tab_locks s),
        trxs := (trxs s)(t := trxs s t\<lparr>wait_lock := Some i\<rparr>)\<rparr>)"

definition lock_reset_lock_and_trx_wait :: "lock \<Rightarrow> lock_sys \<Rightarrow> lock_sys" where
  "lock_reset_lock_and_trx_wait l s =
     (let f = (\<lambda>l. l\<lparr>type_mode := type_mode l AND NOT LOCK_WAIT\<rparr>); t = lock_trx l in
      s\<lparr>rec_locks := upd_lock (lock_id l) f (rec_locks s), tab_locks := upd_lock (lock_id l) f (tab_locks s),
        trxs := (trxs s)(t := trxs s t\<lparr>wait_lock := None\<rparr>)\<rparr>)"

section \<open>The bitmap of a record lock\<close>

definition lock_rec_get_nth_bit :: "lock \<Rightarrow> nat \<Rightarrow> bool" where
  "lock_rec_get_nth_bit l i \<longleftrightarrow>
     (if rl_n_bits l \<le> i then False
      else ut_bit_get_nth (ucast (rl_bitmap l ! (i div 8))) (i mod 8) \<noteq> 0)"

definition lock_rec_set_nth_bit :: "lock \<Rightarrow> nat \<Rightarrow> lock" where
  "lock_rec_set_nth_bit l i =
     l\<lparr>rl_bitmap := (rl_bitmap l)
         [i div 8 := ucast (ut_bit_set_nth (ucast (rl_bitmap l ! (i div 8))) (i mod 8) True)]\<rparr>"

definition lock_rec_reset_nth_bit :: "lock \<Rightarrow> nat \<Rightarrow> lock" where
  "lock_rec_reset_nth_bit l i =
     l\<lparr>rl_bitmap := (rl_bitmap l)
         [i div 8 := ucast (ut_bit_set_nth (ucast (rl_bitmap l ! (i div 8))) (i mod 8) False)]\<rparr>"

definition lock_rec_find_set_bit :: "lock \<Rightarrow> nat option" where
  "lock_rec_find_set_bit l = find (lock_rec_get_nth_bit l) [0..<rl_n_bits l]"

definition lock_rec_bitmap_reset :: "lock \<Rightarrow> lock" where
  "lock_rec_bitmap_reset l = l\<lparr>rl_bitmap := replicate (rl_n_bits l div 8) 0 @ drop (rl_n_bits l div 8) (rl_bitmap l)\<rparr>"

section \<open>Walks\<close>

definition page_queue :: "lock_sys \<Rightarrow> ulint \<Rightarrow> ulint \<Rightarrow> lock list" where
  "page_queue s space page_no = filter (\<lambda>l. rl_space l = space \<and> rl_page_no l = page_no) (rec_locks s)"

definition rec_queue :: "lock_sys \<Rightarrow> rec_addr \<Rightarrow> lock list" where
  "rec_queue s r = filter (\<lambda>l. lock_rec_get_nth_bit l (r_heap_no r)) (page_queue s (r_space r) (r_page_no r))"

definition table_queue :: "lock_sys \<Rightarrow> nat \<Rightarrow> lock list" where
  "table_queue s t = filter (\<lambda>l. tl_table l = t) (tab_locks s)"

definition lock_rec_expl_exist_on_page :: "lock_sys \<Rightarrow> ulint \<Rightarrow> ulint \<Rightarrow> bool" where
  "lock_rec_expl_exist_on_page s space page_no \<longleftrightarrow> page_queue s space page_no \<noteq> []"

definition lock_rec_has_expl :: "lock_sys \<Rightarrow> ulint \<Rightarrow> rec_addr \<Rightarrow> nat \<Rightarrow> lock option" where
  "lock_rec_has_expl s mode r t =
     find (\<lambda>l. lock_trx l = t \<and> lock_mode_stronger_or_eq (lock_get_mode l) mode \<and> \<not> lock_get_wait l
         \<and> \<not> (lock_rec_get_gap l \<or> page_rec_is_supremum r)) (rec_queue s r)"

definition lock_rec_other_has_expl_req :: "lock_sys \<Rightarrow> ulint \<Rightarrow> bool \<Rightarrow> bool \<Rightarrow> rec_addr \<Rightarrow> nat \<Rightarrow> lock option" where
  "lock_rec_other_has_expl_req s mode gap wait r t =
     find (\<lambda>l. lock_trx l \<noteq> t \<and> (gap \<or> \<not> (lock_rec_get_gap l \<or> page_rec_is_supremum r))
         \<and> (wait \<or> \<not> lock_get_wait l) \<and> lock_mode_stronger_or_eq (lock_get_mode l) mode) (rec_queue s r)"

definition lock_rec_find_similar_on_page :: "lock_sys \<Rightarrow> ulint \<Rightarrow> rec_addr \<Rightarrow> nat \<Rightarrow> lock option" where
  "lock_rec_find_similar_on_page s tm r t =
     find (\<lambda>l. lock_trx l = t \<and> type_mode l = tm \<and> r_heap_no r < rl_n_bits l)
       (page_queue s (r_space r) (r_page_no r))"

definition lock_table_has :: "lock_sys \<Rightarrow> nat \<Rightarrow> nat \<Rightarrow> ulint \<Rightarrow> lock option" where
  "lock_table_has s t table mode =
     find (\<lambda>l. lock_trx l = t \<and> lock_mode_stronger_or_eq (lock_get_mode l) mode) (rev (table_queue s table))"

section \<open>Deadlocks\<close>

definition LOCK_MAX_N_STEPS_IN_DEADLOCK_CHECK :: nat where
  "LOCK_MAX_N_STEPS_IN_DEADLOCK_CHECK = 1000000"

text \<open>
  The locks that a walk back from a lock meets: on its record (\<open>lock_rec_get_prev\<close>) or in the list
  of its table.
\<close>

definition locks_before :: "lock_sys \<Rightarrow> lock \<Rightarrow> lock list" where
  "locks_before s w =
     (if lock_get_type w = LOCK_TABLE
      then rev (takeWhile (\<lambda>l. lock_id l \<noteq> lock_id w) (table_queue s (tl_table w)))
      else case lock_rec_find_set_bit w of None \<Rightarrow> []
        | Some bit_no \<Rightarrow>
          rev (filter (\<lambda>l. lock_rec_get_nth_bit l bit_no)
            (takeWhile (\<lambda>l. lock_id l \<noteq> lock_id w) (page_queue s (rl_space w) (rl_page_no w)))))"

definition lock_by_id :: "lock_sys \<Rightarrow> nat \<Rightarrow> lock option" where
  "lock_by_id s i = find (\<lambda>l. lock_id l = i) (rec_locks s @ tab_locks s)"

text \<open>
  The search: \<open>fuel\<close> bounds its depth, \<open>marks\<close> are the transactions whose \<open>deadlock_mark\<close> is set,
  \<open>cost\<close> is the step counter. The walk over the locks before \<open>w\<close> is the inner loop. \<open>None\<close> is
  running out of fuel or a wait lock that does not exist.
\<close>

fun lock_deadlock_recursive ::
      "nat \<Rightarrow> lock_sys \<Rightarrow> nat \<Rightarrow> nat \<Rightarrow> lock \<Rightarrow> nat list \<Rightarrow> nat \<Rightarrow> (bool \<times> nat list \<times> nat) option"
  and deadlock_walk ::
      "nat \<Rightarrow> lock_sys \<Rightarrow> nat \<Rightarrow> nat \<Rightarrow> lock \<Rightarrow> lock list \<Rightarrow> nat list \<Rightarrow> nat \<Rightarrow> (bool \<times> nat list \<times> nat) option"
  where
  "lock_deadlock_recursive 0 s start t w marks cost = None"
| "lock_deadlock_recursive (Suc fuel) s start t w marks cost =
     (if t \<in> set marks then Some (True, marks, cost)
      else let cost = cost + 1 in
        if LOCK_MAX_N_STEPS_IN_DEADLOCK_CHECK < cost then Some (True, marks, cost)
        else deadlock_walk fuel s start t w (locks_before s w) marks cost)"
| "deadlock_walk fuel s start t w [] marks cost = Some (False, t # marks, cost)"
| "deadlock_walk fuel s start t w (l # ls) marks cost =
     (if lock_has_to_wait w l
      then if lock_trx l = start then Some (True, marks, cost)
        else if que_lock_wait (trxs s (lock_trx l))
        then case wait_lock (trxs s (lock_trx l)) of None \<Rightarrow> None
          | Some i \<Rightarrow> (case lock_by_id s i of None \<Rightarrow> None
            | Some w' \<Rightarrow> (case lock_deadlock_recursive fuel s start (lock_trx l) w' marks cost of
                None \<Rightarrow> None
              | Some (True, marks, cost) \<Rightarrow> Some (True, marks, cost)
              | Some (False, marks, cost) \<Rightarrow> deadlock_walk fuel s start t w ls marks cost))
        else deadlock_walk fuel s start t w ls marks cost
      else deadlock_walk fuel s start t w ls marks cost)"

text \<open>
  Every call raises the cost before it goes deeper, so the depth is at most the cost limit and the
  fuel is enough. All marks are clear at the start. A missing wait lock cannot happen (below).
\<close>

definition lock_deadlock_occurs :: "lock_sys \<Rightarrow> lock \<Rightarrow> nat \<Rightarrow> bool option" where
  "lock_deadlock_occurs s l t =
     map_option fst (lock_deadlock_recursive (LOCK_MAX_N_STEPS_IN_DEADLOCK_CHECK + 2) s t t l [] 0)"

section \<open>Record locks\<close>

datatype db_err = DB_SUCCESS | DB_LOCK_WAIT | DB_DEADLOCK

definition LOCK_PAGE_BITMAP_MARGIN :: nat where "LOCK_PAGE_BITMAP_MARGIN = 64"

definition lock_rec_create :: "ulint \<Rightarrow> rec_addr \<Rightarrow> nat \<Rightarrow> nat \<Rightarrow> lock_sys \<Rightarrow> lock_sys \<times> nat" where
  "lock_rec_create tm r index t s =
     (let tm = (if page_rec_is_supremum r then tm AND NOT LOCK_GAP else tm);
          n_bits = page_n_heap s (r_space r) (r_page_no r) + LOCK_PAGE_BITMAP_MARGIN;
          n_bytes = n_bits div 8 + 1;
          i = next_id s;
          l = \<lparr>lock_id = i, lock_trx = t, type_mode = (tm AND NOT LOCK_TYPE_MASK) OR LOCK_REC,
               lock_index = index, rl_space = r_space r, rl_page_no = r_page_no r,
               rl_n_bits = n_bytes * 8, rl_bitmap = replicate n_bytes 0, tl_table = 0\<rparr>;
          l = lock_rec_set_nth_bit (lock_rec_bitmap_reset l) (r_heap_no r);
          s = s\<lparr>rec_locks := rec_locks s @ [l], next_id := i + 1,
                trxs := (trxs s)(t := trxs s t\<lparr>trx_locks := trx_locks (trxs s t) @ [i]\<rparr>)\<rparr>
      in (if tm AND LOCK_WAIT \<noteq> 0 then lock_set_lock_and_trx_wait i t s else s, i))"

text \<open>
  \<open>lock_rec_enqueue_waiting\<close>: the query thread is not being stopped already (the source's
  \<open>ut_a(0)\<close>); its suspension and the time stamps are left out.
\<close>

definition lock_rec_enqueue_waiting ::
    "ulint \<Rightarrow> rec_addr \<Rightarrow> nat \<Rightarrow> nat \<Rightarrow> lock_sys \<Rightarrow> (lock_sys \<times> db_err) option" where
  "lock_rec_enqueue_waiting tm r index t s =
     (case lock_rec_create (tm OR LOCK_WAIT) r index t s of (s, i) \<Rightarrow>
        case lock_by_id s i of None \<Rightarrow> None | Some l \<Rightarrow>
        (case lock_deadlock_occurs s l t of None \<Rightarrow> None
         | Some True \<Rightarrow>
             let s = lock_reset_lock_and_trx_wait l s;
                 s = s\<lparr>rec_locks := upd_lock i (\<lambda>l. lock_rec_reset_nth_bit l (r_heap_no r)) (rec_locks s)\<rparr>
             in Some (s, DB_DEADLOCK)
         | Some False \<Rightarrow>
             Some (s\<lparr>trxs := (trxs s)(t := trxs s t\<lparr>que_lock_wait := True\<rparr>)\<rparr>, DB_LOCK_WAIT)))"

definition lock_rec_add_to_queue :: "ulint \<Rightarrow> rec_addr \<Rightarrow> nat \<Rightarrow> nat \<Rightarrow> lock_sys \<Rightarrow> lock_sys" where
  "lock_rec_add_to_queue tm r index t s =
     (let tm = tm OR LOCK_REC;
          tm = (if page_rec_is_supremum r then tm AND NOT LOCK_GAP else tm);
          somebody_waits = list_ex (\<lambda>l. lock_get_wait l \<and> lock_rec_get_nth_bit l (r_heap_no r))
            (page_queue s (r_space r) (r_page_no r))
      in case lock_rec_find_similar_on_page s tm r t of
           Some similar \<Rightarrow>
             if \<not> somebody_waits \<and> tm AND LOCK_WAIT = 0
             then s\<lparr>rec_locks := upd_lock (lock_id similar)
                      (\<lambda>l. lock_rec_set_nth_bit l (r_heap_no r)) (rec_locks s)\<rparr>
             else fst (lock_rec_create tm r index t s)
         | None \<Rightarrow> fst (lock_rec_create tm r index t s))"

definition lock_rec_lock_fast :: "bool \<Rightarrow> ulint \<Rightarrow> rec_addr \<Rightarrow> nat \<Rightarrow> nat \<Rightarrow> lock_sys \<Rightarrow> lock_sys option" where
  "lock_rec_lock_fast impl mode r index t s =
     (case page_queue s (r_space r) (r_page_no r) of
        [] \<Rightarrow> Some (if \<not> impl then fst (lock_rec_create mode r index t s) else s)
      | [l] \<Rightarrow>
          if lock_trx l \<noteq> t \<or> type_mode l \<noteq> mode OR LOCK_REC \<or> rl_n_bits l \<le> r_heap_no r then None
          else Some (if \<not> impl
            then s\<lparr>rec_locks := upd_lock (lock_id l) (\<lambda>l. lock_rec_set_nth_bit l (r_heap_no r)) (rec_locks s)\<rparr>
            else s)
      | _ \<Rightarrow> None)"

definition lock_rec_lock_slow ::
    "bool \<Rightarrow> ulint \<Rightarrow> rec_addr \<Rightarrow> nat \<Rightarrow> nat \<Rightarrow> lock_sys \<Rightarrow> (lock_sys \<times> db_err) option" where
  "lock_rec_lock_slow impl mode r index t s =
     (let confl_mode = lock_get_confl_mode mode in
      if lock_rec_has_expl s mode r t \<noteq> None then Some (s, DB_SUCCESS)
      else if lock_rec_other_has_expl_req s confl_mode False True r t \<noteq> None
      then lock_rec_enqueue_waiting mode r index t s
      else Some (if \<not> impl then lock_rec_add_to_queue (LOCK_REC OR mode) r index t s else s, DB_SUCCESS))"

definition lock_rec_lock ::
    "bool \<Rightarrow> ulint \<Rightarrow> rec_addr \<Rightarrow> nat \<Rightarrow> nat \<Rightarrow> lock_sys \<Rightarrow> (lock_sys \<times> db_err) option" where
  "lock_rec_lock impl mode r index t s =
     (case lock_rec_lock_fast impl mode r index t s of
        Some s \<Rightarrow> Some (s, DB_SUCCESS)
      | None \<Rightarrow> lock_rec_lock_slow impl mode r index t s)"

definition lock_rec_has_to_wait_in_queue :: "lock_sys \<Rightarrow> lock \<Rightarrow> bool" where
  "lock_rec_has_to_wait_in_queue s w =
     (case lock_rec_find_set_bit w of None \<Rightarrow> False
      | Some heap_no \<Rightarrow>
        list_ex (\<lambda>l. lock_has_to_wait w l \<and> lock_rec_get_nth_bit l heap_no)
          (takeWhile (\<lambda>l. lock_id l \<noteq> lock_id w) (page_queue s (rl_space w) (rl_page_no w))))"

definition trx_end_lock_wait :: "nat \<Rightarrow> lock_sys \<Rightarrow> lock_sys" where
  "trx_end_lock_wait t s = s\<lparr>trxs := (trxs s)(t := trxs s t\<lparr>que_lock_wait := False\<rparr>)\<rparr>"

definition lock_grant :: "lock \<Rightarrow> lock_sys \<Rightarrow> lock_sys" where
  "lock_grant l s =
     (let s = lock_reset_lock_and_trx_wait l s; t = lock_trx l;
          s = (if lock_get_mode l = LOCK_AUTO_INC
               then s\<lparr>trxs := (trxs s)(t := trxs s t\<lparr>auto_inc_lock := Some (lock_id l)\<rparr>)\<rparr> else s)
      in trx_end_lock_wait t s)"

definition lock_rec_cancel :: "lock \<Rightarrow> lock_sys \<Rightarrow> lock_sys" where
  "lock_rec_cancel l s =
     (let s = (case lock_rec_find_set_bit l of None \<Rightarrow> s | Some i \<Rightarrow>
            s\<lparr>rec_locks := upd_lock (lock_id l) (\<lambda>l. lock_rec_reset_nth_bit l i) (rec_locks s)\<rparr>);
          s = lock_reset_lock_and_trx_wait l s
      in trx_end_lock_wait (lock_trx l) s)"

text \<open>The loop that grants: the identities are those of the page's queue, the locks are read anew.\<close>

fun grant_waiting :: "nat list \<Rightarrow> lock_sys \<Rightarrow> lock_sys" where
  "grant_waiting [] s = s"
| "grant_waiting (i # is) s =
     (case lock_by_id s i of None \<Rightarrow> grant_waiting is s
      | Some l \<Rightarrow>
        if lock_get_wait l \<and> \<not> lock_rec_has_to_wait_in_queue s l
        then grant_waiting is (lock_grant l s)
        else grant_waiting is s)"

definition lock_rec_discard :: "lock \<Rightarrow> lock_sys \<Rightarrow> lock_sys" where
  "lock_rec_discard l s =
     (let t = lock_trx l in
      s\<lparr>rec_locks := filter (\<lambda>l'. lock_id l' \<noteq> lock_id l) (rec_locks s),
        trxs := (trxs s)(t := trxs s t\<lparr>trx_locks := removeAll (lock_id l) (trx_locks (trxs s t))\<rparr>)\<rparr>)"

definition lock_rec_dequeue_from_page :: "lock \<Rightarrow> lock_sys \<Rightarrow> lock_sys" where
  "lock_rec_dequeue_from_page l s =
     (let s = lock_rec_discard l s
      in grant_waiting (map lock_id (page_queue s (rl_space l) (rl_page_no l))) s)"

definition lock_rec_free_all_from_discard_page :: "ulint \<Rightarrow> ulint \<Rightarrow> lock_sys \<Rightarrow> lock_sys" where
  "lock_rec_free_all_from_discard_page space page_no s = fold lock_rec_discard (page_queue s space page_no) s"

definition lock_rec_reset_and_release_wait :: "rec_addr \<Rightarrow> lock_sys \<Rightarrow> lock_sys" where
  "lock_rec_reset_and_release_wait r s =
     fold (\<lambda>l s. if lock_get_wait l then lock_rec_cancel l s
         else s\<lparr>rec_locks := upd_lock (lock_id l) (\<lambda>l. lock_rec_reset_nth_bit l (r_heap_no r)) (rec_locks s)\<rparr>)
       (rec_queue s r) s"

text \<open>
  The heir is another record, so the locks that the loop adds are not on the record it walks over;
  the loop is one over the locks that are there at its start.
\<close>

definition lock_rec_inherit_to_gap :: "rec_addr \<Rightarrow> rec_addr \<Rightarrow> lock_sys \<Rightarrow> lock_sys" where
  "lock_rec_inherit_to_gap heir r s =
     fold (\<lambda>l s. lock_rec_add_to_queue ((type_mode l OR LOCK_GAP) AND NOT LOCK_WAIT) heir
           (lock_index l) (lock_trx l) s) (rec_queue s r) s"

definition lock_rec_move :: "rec_addr \<Rightarrow> rec_addr \<Rightarrow> lock_sys \<Rightarrow> lock_sys" where
  "lock_rec_move receiver donator s =
     fold (\<lambda>l s.
         let s = s\<lparr>rec_locks := upd_lock (lock_id l) (\<lambda>l. lock_rec_reset_nth_bit l (r_heap_no donator)) (rec_locks s)\<rparr>;
             s = (if lock_get_wait l then lock_reset_lock_and_trx_wait l s else s)
         in lock_rec_add_to_queue (type_mode l) receiver (lock_index l) (lock_trx l) s)
       (rec_queue s donator) s"

section \<open>The operations that the rest of the engine calls\<close>

text \<open>
  \<open>impl_trx\<close> is the transaction with an implicit lock on the record, found by the row code
  (\<open>lock_clust_rec_some_has_impl\<close>, \<open>row_vers_impl_x_locked_off_kernel\<close>).
\<close>

definition lock_rec_convert_impl_to_expl :: "nat option \<Rightarrow> rec_addr \<Rightarrow> nat \<Rightarrow> lock_sys \<Rightarrow> lock_sys" where
  "lock_rec_convert_impl_to_expl impl_trx r index s =
     (case impl_trx of None \<Rightarrow> s
      | Some t \<Rightarrow> if lock_rec_has_expl s LOCK_X r t = None
          then lock_rec_add_to_queue (LOCK_REC OR LOCK_X) r index t s else s)"

definition BTR_NO_LOCKING_FLAG :: ulint where "BTR_NO_LOCKING_FLAG = 2"

definition lock_clust_rec_modify_check_and_lock ::
    "ulint \<Rightarrow> nat option \<Rightarrow> rec_addr \<Rightarrow> nat \<Rightarrow> nat \<Rightarrow> lock_sys \<Rightarrow> (lock_sys \<times> db_err) option" where
  "lock_clust_rec_modify_check_and_lock flags impl_trx r index t s =
     (if flags AND BTR_NO_LOCKING_FLAG \<noteq> 0 then Some (s, DB_SUCCESS)
      else lock_rec_lock True LOCK_X r index t (lock_rec_convert_impl_to_expl impl_trx r index s))"

definition lock_clust_rec_read_check_and_lock ::
    "ulint \<Rightarrow> nat option \<Rightarrow> rec_addr \<Rightarrow> nat \<Rightarrow> ulint \<Rightarrow> nat \<Rightarrow> lock_sys \<Rightarrow> (lock_sys \<times> db_err) option" where
  "lock_clust_rec_read_check_and_lock flags impl_trx r index mode t s =
     (if flags AND BTR_NO_LOCKING_FLAG \<noteq> 0 then Some (s, DB_SUCCESS)
      else let s = (if \<not> page_rec_is_supremum r then lock_rec_convert_impl_to_expl impl_trx r index s else s)
      in lock_rec_lock False mode r index t s)"

definition lock_sec_rec_modify_check_and_lock ::
    "ulint \<Rightarrow> rec_addr \<Rightarrow> nat \<Rightarrow> nat \<Rightarrow> lock_sys \<Rightarrow> (lock_sys \<times> db_err) option" where
  "lock_sec_rec_modify_check_and_lock flags r index t s =
     (if flags AND BTR_NO_LOCKING_FLAG \<noteq> 0 then Some (s, DB_SUCCESS)
      else lock_rec_lock True LOCK_X r index t s)"

text \<open>
  The insert check, with the successor record; the result says whether locks are inherited. The
  source tests \<open>flags && BTR_NO_LOCKING_FLAG\<close>: any flag at all skips the check.
\<close>

definition lock_rec_insert_check_and_lock ::
    "ulint \<Rightarrow> rec_addr \<Rightarrow> nat \<Rightarrow> nat \<Rightarrow> lock_sys \<Rightarrow> (lock_sys \<times> db_err \<times> bool) option" where
  "lock_rec_insert_check_and_lock flags next_rec index t s =
     (if flags \<noteq> 0 \<and> BTR_NO_LOCKING_FLAG \<noteq> 0 then Some (s, DB_SUCCESS, False)
      else if rec_queue s next_rec = [] then Some (s, DB_SUCCESS, False)
      else if lock_rec_other_has_expl_req s LOCK_S True True next_rec t \<noteq> None
      then map_option (\<lambda>(s, e). (s, e, True)) (lock_rec_enqueue_waiting (LOCK_X OR LOCK_GAP) next_rec index t s)
      else Some (s, DB_SUCCESS, True))"

text \<open>\<open>lock_cancel_waiting_and_release\<close> and the release of all locks of a transaction, record locks.\<close>

definition lock_cancel_waiting_rec :: "lock \<Rightarrow> lock_sys \<Rightarrow> lock_sys" where
  "lock_cancel_waiting_rec l s =
     trx_end_lock_wait (lock_trx l) (lock_reset_lock_and_trx_wait l (lock_rec_dequeue_from_page l s))"

end
