(* ===== verification/Lock_Safety.thy ===== *)
theory Lock_Safety
  imports Lock_Sys
begin

text \<open>
  Correctness of the record locks: the invariant of the lock queues, its preservation by every
  operation, and what follows for the states that the engine can reach.
\<close>

section \<open>Flags and bitmaps\<close>

lemma type_mode_or:
  "(a OR LOCK_WAIT) AND LOCK_MODE_MASK = a AND LOCK_MODE_MASK"
  "(a OR LOCK_WAIT) AND LOCK_TYPE_MASK = a AND LOCK_TYPE_MASK"
  "(a OR LOCK_WAIT) AND LOCK_GAP = a AND LOCK_GAP"
  "(a OR LOCK_GAP) AND LOCK_MODE_MASK = a AND LOCK_MODE_MASK"
  "(a OR LOCK_GAP) AND LOCK_WAIT = a AND LOCK_WAIT"
  "(a OR LOCK_REC) AND LOCK_MODE_MASK = a AND LOCK_MODE_MASK"
  "(a OR LOCK_REC) AND LOCK_WAIT = a AND LOCK_WAIT"
  "(a OR LOCK_REC) AND LOCK_GAP = a AND LOCK_GAP"
  "(LOCK_REC OR a) AND LOCK_MODE_MASK = a AND LOCK_MODE_MASK"
  "(LOCK_REC OR a) AND LOCK_WAIT = a AND LOCK_WAIT"
  "(LOCK_REC OR a) AND LOCK_GAP = a AND LOCK_GAP"
  "(a OR LOCK_WAIT) AND LOCK_WAIT \<noteq> 0" "(a OR LOCK_GAP) AND LOCK_GAP \<noteq> 0"
  by (simp_all add: lock_consts bit.conj_disj_distrib2)

lemma type_mode_and_not:
  "(a AND NOT LOCK_WAIT) AND LOCK_MODE_MASK = a AND LOCK_MODE_MASK"
  "(a AND NOT LOCK_WAIT) AND LOCK_TYPE_MASK = a AND LOCK_TYPE_MASK"
  "(a AND NOT LOCK_WAIT) AND LOCK_GAP = a AND LOCK_GAP"
  "(a AND NOT LOCK_WAIT) AND LOCK_WAIT = 0"
  "(a AND NOT LOCK_GAP) AND LOCK_MODE_MASK = a AND LOCK_MODE_MASK"
  "(a AND NOT LOCK_GAP) AND LOCK_WAIT = a AND LOCK_WAIT"
  "(a AND NOT LOCK_GAP) AND LOCK_GAP = 0"
  "(a AND NOT LOCK_TYPE_MASK) AND LOCK_MODE_MASK = a AND LOCK_MODE_MASK"
  "(a AND NOT LOCK_TYPE_MASK) AND LOCK_WAIT = a AND LOCK_WAIT"
  "(a AND NOT LOCK_TYPE_MASK) AND LOCK_GAP = a AND LOCK_GAP"
  "((a AND NOT LOCK_TYPE_MASK) OR LOCK_REC) AND LOCK_TYPE_MASK = LOCK_REC"
  by (simp_all add: lock_consts bit.conj_disj_distrib2 and.assoc)

definition rlock_wf :: "lock \<Rightarrow> bool" where
  "rlock_wf l \<longleftrightarrow> rl_n_bits l = 8 * length (rl_bitmap l)
     \<and> (lock_get_mode l = LOCK_S \<or> lock_get_mode l = LOCK_X) \<and> lock_get_type l = LOCK_REC"

lemma byte_bit_back:
  assumes "j < 8"
  shows "ut_bit_get_nth (ucast (ucast (ut_bit_set_nth (ucast (b :: byte)) i v) :: byte)) j \<noteq> 0
    \<longleftrightarrow> (if j = i \<and> i < 31 then v else if i < 31 then ut_bit_get_nth (ucast b) j \<noteq> 0
         else bit (ut_bit_set_nth (ucast b) i v) j)"
  using assms by (auto simp: ut_bit_get_nth_bit bit_simps bit_ut_bit_set_nth)

lemma get_set_nth_bit:
  assumes "rl_n_bits l = 8 * length (rl_bitmap l)" and "i < rl_n_bits l"
  shows "lock_rec_get_nth_bit (lock_rec_set_nth_bit l i) j \<longleftrightarrow> j = i \<or> lock_rec_get_nth_bit l j"
    "lock_rec_get_nth_bit (lock_rec_reset_nth_bit l i) j \<longleftrightarrow> j \<noteq> i \<and> lock_rec_get_nth_bit l j"
proof -
  have i: "i div 8 < length (rl_bitmap l)" using assms by simp
  have same: "j div 8 = i div 8 \<Longrightarrow> (j mod 8 = i mod 8 \<longleftrightarrow> j = i)" by (metis div_mult_mod_eq)
  show "lock_rec_get_nth_bit (lock_rec_set_nth_bit l i) j \<longleftrightarrow> j = i \<or> lock_rec_get_nth_bit l j"
  proof (cases "j div 8 = i div 8")
    case True
    then show ?thesis using i assms same
      by (auto simp: lock_rec_get_nth_bit_def lock_rec_set_nth_bit_def byte_bit_back)
  next
    case False
    then have "j \<noteq> i" by auto
    with False show ?thesis by (simp add: lock_rec_get_nth_bit_def lock_rec_set_nth_bit_def)
  qed
  show "lock_rec_get_nth_bit (lock_rec_reset_nth_bit l i) j \<longleftrightarrow> j \<noteq> i \<and> lock_rec_get_nth_bit l j"
  proof (cases "j div 8 = i div 8")
    case True
    then show ?thesis using i assms same
      by (auto simp: lock_rec_get_nth_bit_def lock_rec_reset_nth_bit_def byte_bit_back)
  next
    case False
    then have "j \<noteq> i" by auto
    with False show ?thesis by (simp add: lock_rec_get_nth_bit_def lock_rec_reset_nth_bit_def)
  qed
qed

lemma set_nth_bit_simps [simp]:
  "lock_id (lock_rec_set_nth_bit l i) = lock_id l" "lock_trx (lock_rec_set_nth_bit l i) = lock_trx l"
  "type_mode (lock_rec_set_nth_bit l i) = type_mode l" "rl_space (lock_rec_set_nth_bit l i) = rl_space l"
  "rl_page_no (lock_rec_set_nth_bit l i) = rl_page_no l" "rl_n_bits (lock_rec_set_nth_bit l i) = rl_n_bits l"
  "lock_id (lock_rec_reset_nth_bit l i) = lock_id l" "lock_trx (lock_rec_reset_nth_bit l i) = lock_trx l"
  "type_mode (lock_rec_reset_nth_bit l i) = type_mode l" "rl_space (lock_rec_reset_nth_bit l i) = rl_space l"
  "rl_page_no (lock_rec_reset_nth_bit l i) = rl_page_no l" "rl_n_bits (lock_rec_reset_nth_bit l i) = rl_n_bits l"
  "length (rl_bitmap (lock_rec_set_nth_bit l i)) = length (rl_bitmap l)"
  "length (rl_bitmap (lock_rec_reset_nth_bit l i)) = length (rl_bitmap l)"
  by (simp_all add: lock_rec_set_nth_bit_def lock_rec_reset_nth_bit_def)

lemma nth_bit_bound: "lock_rec_get_nth_bit l i \<Longrightarrow> i < rl_n_bits l"
  by (auto simp: lock_rec_get_nth_bit_def split: if_splits)

lemma find_set_bit:
  "lock_rec_find_set_bit l = None \<longleftrightarrow> (\<forall>i. \<not> lock_rec_get_nth_bit l i)"
  "lock_rec_find_set_bit l = Some h \<Longrightarrow> lock_rec_get_nth_bit l h"
proof -
  show "lock_rec_find_set_bit l = None \<longleftrightarrow> (\<forall>i. \<not> lock_rec_get_nth_bit l i)"
    using nth_bit_bound by (auto simp: lock_rec_find_set_bit_def find_None_iff)
  show "lock_rec_find_set_bit l = Some h \<Longrightarrow> lock_rec_get_nth_bit l h"
    by (auto simp: lock_rec_find_set_bit_def find_Some_iff)
qed

section \<open>Queues\<close>

definition same_page :: "lock \<Rightarrow> lock \<Rightarrow> bool" where
  "same_page l l' \<longleftrightarrow> rl_space l = rl_space l' \<and> rl_page_no l = rl_page_no l'"

text \<open>
  \<open>goes_with l l'\<close>: the lock \<open>l'\<close>, if it is granted, is compatible with the earlier lock \<open>l\<close> of
  another transaction, granted or not, on every record that both are on. Gap locks and locks on
  the supremum do not count. \<open>blocked_by ls w\<close>: one of \<open>ls\<close> makes \<open>w\<close> wait.
\<close>

definition goes_with :: "lock \<Rightarrow> lock \<Rightarrow> bool" where
  "goes_with l l' \<longleftrightarrow> (\<forall>h. h \<noteq> 1 \<and> same_page l l' \<and> lock_trx l \<noteq> lock_trx l' \<and> \<not> lock_rec_get_gap l
     \<and> \<not> lock_rec_get_gap l' \<and> lock_rec_get_nth_bit l h \<and> lock_rec_get_nth_bit l' h \<and> \<not> lock_get_wait l'
     \<longrightarrow> lock_mode_compatible (lock_get_mode l) (lock_get_mode l'))"

definition blocked_by :: "lock list \<Rightarrow> lock \<Rightarrow> bool" where
  "blocked_by ls w \<longleftrightarrow> (\<exists>l \<in> set ls. same_page w l \<and> lock_has_to_wait w l
     \<and> (\<exists>h. lock_rec_get_nth_bit w h \<and> lock_rec_get_nth_bit l h))"

lemma same_page_refl [simp]: "same_page l l"
  by (simp add: same_page_def)

lemma blocked_byE:
  assumes "blocked_by ls w"
  obtains l h where "l \<in> set ls" "same_page w l" "lock_has_to_wait w l"
    "lock_rec_get_nth_bit w h" "lock_rec_get_nth_bit l h"
  using assms unfolding blocked_by_def by blast

definition single_bit :: "lock \<Rightarrow> bool" where
  "single_bit l \<longleftrightarrow> (\<exists>h. \<forall>i. lock_rec_get_nth_bit l i \<longleftrightarrow> i = h)"

definition fits :: "nat set \<Rightarrow> lock list \<Rightarrow> lock \<Rightarrow> bool" where
  "fits B ls w \<longleftrightarrow> (\<forall>l \<in> set ls. goes_with l w)
     \<and> (lock_get_wait w \<longrightarrow> single_bit w \<and> (lock_id w \<in> B \<longrightarrow> blocked_by ls w))"

text \<open>Every lock fits behind the ones before it; the waiting ones of \<open>B\<close> have a reason to wait.\<close>

definition queue_ok :: "nat set \<Rightarrow> lock list \<Rightarrow> bool" where
  "queue_ok B ls \<longleftrightarrow> (\<forall>xs w ys. ls = xs @ w # ys \<longrightarrow> fits B xs w)"

lemma queue_ok_Nil [simp]: "queue_ok B []"
  by (simp add: queue_ok_def)

lemma queue_ok_snoc [simp]: "queue_ok B (ls @ [l]) \<longleftrightarrow> queue_ok B ls \<and> fits B ls l"
proof (intro iffI conjI)
  assume q: "queue_ok B (ls @ [l])"
  then show "fits B ls l" by (simp add: queue_ok_def)
  show "queue_ok B ls" unfolding queue_ok_def
  proof (intro allI impI)
    fix xs w ys assume "ls = xs @ w # ys"
    then have "ls @ [l] = xs @ w # (ys @ [l])" by simp
    with q show "fits B xs w" unfolding queue_ok_def by blast
  qed
next
  assume "queue_ok B ls \<and> fits B ls l"
  then show "queue_ok B (ls @ [l])"
    unfolding queue_ok_def by (auto simp: append_eq_append_conv2 append_eq_Cons_conv Cons_eq_append_conv)
qed

lemma queue_ok_mono: "queue_ok B ls \<Longrightarrow> B' \<subseteq> B \<Longrightarrow> queue_ok B' ls"
  by (force simp: queue_ok_def fits_def)

text \<open>An update of all locks that keeps what the queue conditions depend on.\<close>

lemma queue_ok_map:
  assumes q: "queue_ok B ls" and ids: "\<And>l. lock_id (f l) = lock_id l"
    and at: "\<And>l. l \<in> set ls \<Longrightarrow> lock_trx (f l) = lock_trx l \<and> lock_get_mode (f l) = lock_get_mode l
      \<and> lock_rec_get_gap (f l) = lock_rec_get_gap l \<and> rl_space (f l) = rl_space l \<and> rl_page_no (f l) = rl_page_no l"
    and less: "\<And>l h. l \<in> set ls \<Longrightarrow> lock_rec_get_nth_bit (f l) h \<Longrightarrow> lock_rec_get_nth_bit l h"
    and still: "\<And>l h. l \<in> set ls \<Longrightarrow> lock_get_wait (f l) \<Longrightarrow> lock_get_wait l
      \<and> (lock_rec_get_nth_bit (f l) h \<longleftrightarrow> lock_rec_get_nth_bit l h)"
    and granted: "\<And>xs l ys h. ls = xs @ l # ys \<Longrightarrow> lock_get_wait l \<Longrightarrow> \<not> lock_get_wait (f l) \<Longrightarrow>
      lock_rec_get_nth_bit (f l) h \<Longrightarrow> \<not> blocked_by xs l"
    and keep: "\<And>w l h. w \<in> set ls \<Longrightarrow> l \<in> set ls \<Longrightarrow> lock_get_wait (f w) \<Longrightarrow> lock_id w \<in> B \<Longrightarrow> same_page w l \<Longrightarrow>
      lock_rec_get_nth_bit w h \<Longrightarrow> lock_rec_get_nth_bit l h \<Longrightarrow> lock_rec_get_nth_bit (f l) h"
    and sym: "\<And>l l'. l \<in> set ls \<Longrightarrow> l' \<in> set ls \<Longrightarrow>
      lock_mode_compatible (lock_get_mode l) (lock_get_mode l') = lock_mode_compatible (lock_get_mode l') (lock_get_mode l)"
  shows "queue_ok B (map f ls)"
  unfolding queue_ok_def
proof (intro allI impI)
  fix xs' w' ys' assume "map f ls = xs' @ w' # ys'"
  then obtain xs w ys where ls: "ls = xs @ w # ys" and e: "xs' = map f xs" "w' = f w"
    by (auto simp: map_eq_append_conv map_eq_Cons_conv)
  have w: "w \<in> set ls" and xs: "\<And>l. l \<in> set xs \<Longrightarrow> l \<in> set ls" using ls by auto
  have fit: "fits B xs w" using q ls by (simp add: queue_ok_def)
  have sp: "same_page (f l) (f w) \<longleftrightarrow> same_page l w" "same_page (f w) (f l) \<longleftrightarrow> same_page w l" if "l \<in> set xs" for l
    using at [OF w] at [OF xs [OF that]] by (simp_all add: same_page_def)
  have hw: "lock_has_to_wait (f w) (f l) \<longleftrightarrow> lock_has_to_wait w l" if "l \<in> set xs" for l
    using at [OF w] at [OF xs [OF that]] by (simp add: lock_has_to_wait_def)
  have "goes_with (f l) (f w)" if l: "l \<in> set xs" for l
    unfolding goes_with_def
  proof (intro allI impI, elim conjE)
    fix h assume h: "h \<noteq> 1" "same_page (f l) (f w)" "lock_trx (f l) \<noteq> lock_trx (f w)" "\<not> lock_rec_get_gap (f l)"
      "\<not> lock_rec_get_gap (f w)" "lock_rec_get_nth_bit (f l) h" "lock_rec_get_nth_bit (f w) h" "\<not> lock_get_wait (f w)"
    note b = less [OF xs [OF l] h(6)] less [OF w h(7)]
    have "lock_mode_compatible (lock_get_mode l) (lock_get_mode w)"
    proof (cases "lock_get_wait w")
      case True
      then have "\<not> blocked_by xs w" using granted [OF ls True h(8,7)] by simp
      with l b h sp [OF l] at [OF w] at [OF xs [OF l]] have "lock_mode_compatible (lock_get_mode w) (lock_get_mode l)"
        by (auto simp: blocked_by_def lock_has_to_wait_def same_page_def)
      then show ?thesis using sym [OF w xs [OF l]] by simp
    next
      case False
      then show ?thesis using fit l b h sp [OF l] at [OF w] at [OF xs [OF l]]
        by (auto simp: fits_def goes_with_def)
    qed
    then show "lock_mode_compatible (lock_get_mode (f l)) (lock_get_mode (f w))"
      using at [OF w] at [OF xs [OF l]] by simp
  qed
  moreover have "single_bit (f w)" if "lock_get_wait (f w)"
    using fit still [OF w that] by (auto simp: fits_def single_bit_def)
  moreover have "blocked_by (map f xs) (f w)" if wt: "lock_get_wait (f w)" "lock_id w \<in> B"
  proof -
    have "blocked_by xs w" using fit still [OF w wt(1)] wt(2) by (simp add: fits_def)
    then obtain l h where l: "l \<in> set xs" "same_page w l" "lock_has_to_wait w l"
      "lock_rec_get_nth_bit w h" "lock_rec_get_nth_bit l h" by (auto simp: blocked_by_def)
    have "lock_rec_get_nth_bit (f w) h" using still [OF w wt(1)] l(4) by simp
    moreover have "lock_rec_get_nth_bit (f l) h" using keep [OF w xs [OF l(1)] wt l(2,4,5)] .
    ultimately show ?thesis using l sp [OF l(1)] hw [OF l(1)] by (auto simp: blocked_by_def)
  qed
  ultimately show "fits B xs' w'" by (simp add: e fits_def ids)
qed

lemma queue_ok_insert:
  assumes "queue_ok B ls" and "\<And>xs w ys. ls = xs @ w # ys \<Longrightarrow> lock_id w = i \<Longrightarrow> lock_get_wait w \<Longrightarrow> blocked_by xs w"
  shows "queue_ok (insert i B) ls"
  using assms unfolding queue_ok_def fits_def by blast

lemma id_unique:
  "distinct (map lock_id ls) \<Longrightarrow> a \<in> set ls \<Longrightarrow> b \<in> set ls \<Longrightarrow> lock_id a = lock_id b \<Longrightarrow> a = b"
  by (simp add: distinct_map inj_on_def)

lemma split_filter:
  assumes "filter P ls = xs @ w # ys"
  obtains xs' ys' where "ls = xs' @ w # ys'" "xs = filter P xs'" "P w"
  using assms
proof (induction ls arbitrary: xs thesis)
  case (Cons a ls)
  show ?case
  proof (cases "P a \<and> xs = []")
    case True
    with Cons.prems show ?thesis by (intro Cons.prems(1) [of "[]" ls]) auto
  next
    case False
    with Cons.prems(2) obtain xs1 where "filter P ls = xs1 @ w # ys" "xs = (if P a then a # xs1 else xs1)"
      by (cases xs) (auto split: if_splits)
    then show ?thesis
      by (elim Cons.IH [rotated]) (rule Cons.prems(1) [of "a # _"], auto)
  qed
qed simp

lemma queue_ok_remove:
  assumes q: "queue_ok B ls" and d: "distinct (map lock_id ls)" and l: "l \<in> set ls"
  shows "queue_ok {i \<in> B. \<forall>w \<in> set ls. lock_id w = i \<longrightarrow> \<not> same_page w l} (filter (\<lambda>l'. lock_id l' \<noteq> lock_id l) ls)"
    (is "queue_ok ?B _")
  unfolding queue_ok_def
proof (intro allI impI)
  fix xs w ys assume "filter (\<lambda>l'. lock_id l' \<noteq> lock_id l) ls = xs @ w # ys"
  then obtain xs' ys' where ls: "ls = xs' @ w # ys'" and xs: "xs = filter (\<lambda>l'. lock_id l' \<noteq> lock_id l) xs'"
    by (rule split_filter)
  have fit: "fits B xs' w" using q ls by (simp add: queue_ok_def)
  have "blocked_by xs w" if wt: "lock_get_wait w" "lock_id w \<in> ?B"
  proof -
    have "blocked_by xs' w" using fit wt by (simp add: fits_def)
    then obtain b h where b: "b \<in> set xs'" "same_page w b" "lock_has_to_wait w b"
      "lock_rec_get_nth_bit w h" "lock_rec_get_nth_bit b h" by (rule blocked_byE)
    have "\<not> same_page w l" using wt(2) ls by auto
    with b(2) have "b \<noteq> l" by auto
    then have "lock_id b \<noteq> lock_id l" using id_unique [OF d _ l, of b] b(1) ls by auto
    with b xs show ?thesis by (auto simp: blocked_by_def)
  qed
  with fit xs show "fits ?B xs w" by (auto simp: fits_def)
qed

lemma distinct_split:
  assumes "distinct (map lock_id (xs @ w # ys))" and "l \<in> set (xs @ w # ys)" and "lock_id l = lock_id w"
  shows "l = w"
  by (rule id_unique [OF assms(1,2) _ assms(3)]) simp

lemma upd_lock_split:
  assumes "distinct (map lock_id (xs @ w # ys))"
  shows "upd_lock (lock_id w) f (xs @ w # ys) = xs @ f w # ys"
proof -
  have "map (\<lambda>l. if lock_id l = lock_id w then f l else l) zs = zs" if "lock_id w \<notin> lock_id ` set zs" for zs
    by (rule map_idI) (use that in \<open>metis imageI\<close>)
  then show ?thesis using assms by (simp add: upd_lock_def)
qed

lemma set_nth_bit_rest:
  "lock_get_mode (lock_rec_set_nth_bit l i) = lock_get_mode l" "lock_rec_get_gap (lock_rec_set_nth_bit l i) = lock_rec_get_gap l"
  "lock_get_wait (lock_rec_set_nth_bit l i) = lock_get_wait l" "lock_get_type (lock_rec_set_nth_bit l i) = lock_get_type l"
  "lock_get_mode (lock_rec_reset_nth_bit l i) = lock_get_mode l" "lock_rec_get_gap (lock_rec_reset_nth_bit l i) = lock_rec_get_gap l"
  "lock_get_wait (lock_rec_reset_nth_bit l i) = lock_get_wait l" "lock_get_type (lock_rec_reset_nth_bit l i) = lock_get_type l"
  by (simp_all add: lock_get_mode_def lock_rec_get_gap_def lock_get_wait_def lock_get_type_def)

text \<open>A bit set in a granted lock, where no lock on that record conflicts.\<close>

lemma queue_ok_set_bit:
  assumes q: "queue_ok B ls" and d: "distinct (map lock_id ls)" and s: "s \<in> set ls" "\<not> lock_get_wait s"
    and wf: "rl_n_bits s = 8 * length (rl_bitmap s)" "h < rl_n_bits s"
    and ok: "\<And>l. l \<in> set ls \<Longrightarrow> same_page l s \<Longrightarrow> lock_trx l \<noteq> lock_trx s \<Longrightarrow> \<not> lock_rec_get_gap l \<Longrightarrow> \<not> lock_rec_get_gap s \<Longrightarrow>
      lock_rec_get_nth_bit l h \<Longrightarrow> h \<noteq> 1 \<Longrightarrow>
      lock_mode_compatible (lock_get_mode l) (lock_get_mode s) \<and> lock_mode_compatible (lock_get_mode s) (lock_get_mode l)"
  shows "queue_ok B (upd_lock (lock_id s) (\<lambda>l. lock_rec_set_nth_bit l h) ls)"
  unfolding queue_ok_def
proof (intro allI impI)
  define f where "f = (\<lambda>l. if lock_id l = lock_id s then lock_rec_set_nth_bit l h else l)"
  fix xs' w' ys' assume "upd_lock (lock_id s) (\<lambda>l. lock_rec_set_nth_bit l h) ls = xs' @ w' # ys'"
  then obtain xs w ys where ls: "ls = xs @ w # ys" and e: "xs' = map f xs" "w' = f w"
    by (auto simp: upd_lock_def f_def [symmetric] map_eq_append_conv map_eq_Cons_conv)
  have fs: "f l = (if l = s then lock_rec_set_nth_bit s h else l)" if "l \<in> set ls" for l
    using id_unique [OF d that s(1)] by (auto simp: f_def)
  have w: "w \<in> set ls" and xs: "\<And>l. l \<in> set xs \<Longrightarrow> l \<in> set ls" using ls by auto
  note bits = get_set_nth_bit(1) [OF wf]
  have fit: "fits B xs w" using q ls by (simp add: queue_ok_def)
  have "goes_with (f l) (f w)" if l: "l \<in> set xs" for l
  proof -
    have g: "goes_with l w" using fit l by (simp add: fits_def)
    have "l \<noteq> w" using d ls l by auto
    then show ?thesis
      unfolding fs [OF w] fs [OF xs [OF l]]
      using g ok [OF w] ok [OF xs [OF l]]
      by (auto simp: goes_with_def bits set_nth_bit_rest same_page_def)
  qed
  moreover have "f w = w" if "lock_get_wait w'" using that s(2) e(2) fs [OF w] by (auto simp: set_nth_bit_rest split: if_splits)
  moreover have "blocked_by (map f xs) w" if bl: "blocked_by xs w"
  proof -
    obtain l i where l: "l \<in> set xs" "same_page w l" "lock_has_to_wait w l" "lock_rec_get_nth_bit w i" "lock_rec_get_nth_bit l i"
      using bl by (rule blocked_byE)
    then have "f l \<in> set (map f xs)" by simp
    moreover have "same_page w (f l)" "lock_has_to_wait w (f l)" "lock_rec_get_nth_bit (f l) i"
      unfolding fs [OF xs [OF l(1)]] using l bits by (auto simp: same_page_def lock_has_to_wait_def set_nth_bit_rest)
    ultimately show ?thesis using l(4) unfolding blocked_by_def by blast
  qed
  moreover have "lock_id (f w) = lock_id w" by (simp add: f_def)
  ultimately show "fits B xs' w'" using fit e by (auto simp: fits_def)
qed

lemma takeWhile_split:
  "distinct (map lock_id (xs @ w # ys)) \<Longrightarrow> takeWhile (\<lambda>l. lock_id l \<noteq> lock_id w) (xs @ w # ys) = xs"
proof (subst takeWhile_append2)
  assume d: "distinct (map lock_id (xs @ w # ys))"
  show "lock_id x \<noteq> lock_id w" if "x \<in> set xs" for x
    using d that by (auto simp: image_iff)
qed simp

lemma has_to_wait_blocked:
  assumes "rec_locks s = xs @ w # ys" "distinct (map lock_id (rec_locks s))" "single_bit w"
  shows "lock_rec_has_to_wait_in_queue s w \<longleftrightarrow> blocked_by xs w"
proof -
  let ?P = "same_page w"
  have P: "(\<lambda>l. rl_space l = rl_space w \<and> rl_page_no l = rl_page_no w) = ?P"
    by (auto simp: fun_eq_iff same_page_def)
  obtain h where h: "\<And>i. lock_rec_get_nth_bit w i \<longleftrightarrow> i = h" using assms(3) by (auto simp: single_bit_def)
  then have "lock_rec_find_set_bit w = Some h" using find_set_bit [of w] by (cases "lock_rec_find_set_bit w") auto
  moreover have "takeWhile (\<lambda>l. lock_id l \<noteq> lock_id w) (filter ?P xs @ w # filter ?P ys) = filter ?P xs"
    using distinct_map_filter [OF assms(2), of ?P] assms(1) by (intro takeWhile_split) simp
  ultimately show ?thesis
    using assms(1) same_page_refl [of w] by (auto simp: lock_rec_has_to_wait_in_queue_def page_queue_def P blocked_by_def list_ex_iff h)
qed

section \<open>The invariant\<close>

definition all_locks :: "lock_sys \<Rightarrow> lock list" where
  "all_locks s = rec_locks s @ tab_locks s"

definition sys_wf :: "lock_sys \<Rightarrow> bool" where
  "sys_wf s \<longleftrightarrow> distinct (map lock_id (all_locks s)) \<and> (\<forall>l \<in> set (all_locks s). lock_id l < next_id s)
     \<and> (\<forall>l \<in> set (rec_locks s). rlock_wf l)"

text \<open>A transaction waits for the one lock that waits for it, and is suspended exactly then.\<close>

definition wait_link :: "lock_sys \<Rightarrow> bool" where
  "wait_link s \<longleftrightarrow>
     (\<forall>l \<in> set (all_locks s). lock_get_wait l \<longrightarrow>
        wait_lock (trxs s (lock_trx l)) = Some (lock_id l) \<and> que_lock_wait (trxs s (lock_trx l)))
   \<and> (\<forall>t. que_lock_wait (trxs s t) \<longrightarrow> (\<exists>l \<in> set (all_locks s). lock_trx l = t \<and> lock_get_wait l))"

definition lock_inv :: "lock_sys \<Rightarrow> bool" where
  "lock_inv s \<longleftrightarrow> sys_wf s \<and> queue_ok UNIV (rec_locks s) \<and> wait_link s"

lemma sys_wf_rec: "sys_wf s \<Longrightarrow> distinct (map lock_id (rec_locks s))"
  by (simp add: sys_wf_def all_locks_def)

lemma rec_mode_sym:
  "rlock_wf l \<Longrightarrow> rlock_wf l' \<Longrightarrow>
   lock_mode_compatible (lock_get_mode l) (lock_get_mode l') = lock_mode_compatible (lock_get_mode l') (lock_get_mode l)"
  by (auto simp: rlock_wf_def lock_mode_compatible_def lock_consts)

lemma rec_confl_mode:
  assumes "rlock_wf l" "m = LOCK_S \<or> m = LOCK_X"
  shows "lock_mode_stronger_or_eq (lock_get_mode l) (lock_get_confl_mode m) \<longleftrightarrow>
      \<not> lock_mode_compatible (lock_get_mode l) m"
    "lock_mode_compatible (lock_get_mode l) m \<longleftrightarrow> lock_mode_compatible m (lock_get_mode l)"
  using assms by (auto simp: rlock_wf_def lock_mode_compatible_def lock_mode_stronger_or_eq_def
      lock_get_confl_mode_def lock_consts)

lemma find_SomeD: "find P xs = Some x \<Longrightarrow> P x \<and> x \<in> set xs"
  by (induction xs) (auto split: if_splits)

lemma lock_by_id_Some:
  "lock_by_id s i = Some l \<Longrightarrow> l \<in> set (all_locks s) \<and> lock_id l = i"
  unfolding lock_by_id_def all_locks_def by (drule find_SomeD) simp

lemma lock_by_id_in:
  assumes "distinct (map lock_id (all_locks s))" "l \<in> set (all_locks s)"
  shows "lock_by_id s (lock_id l) = Some l"
proof -
  have "lock_by_id s (lock_id l) \<noteq> None"
    using assms(2) by (auto simp: lock_by_id_def all_locks_def find_None_iff)
  then obtain l' where l': "lock_by_id s (lock_id l) = Some l'" by auto
  with id_unique [OF assms(1) _ assms(2), of l'] lock_by_id_Some [OF l'] show ?thesis by simp
qed

text \<open>The lock that \<open>lock_rec_create\<close> appends.\<close>

definition new_lock :: "ulint \<Rightarrow> rec_addr \<Rightarrow> nat \<Rightarrow> nat \<Rightarrow> lock_sys \<Rightarrow> lock" where
  "new_lock tm r index t s =
     (let tm = (if page_rec_is_supremum r then tm AND NOT LOCK_GAP else tm);
          n_bytes = (page_n_heap s (r_space r) (r_page_no r) + LOCK_PAGE_BITMAP_MARGIN) div 8 + 1
      in lock_rec_set_nth_bit (lock_rec_bitmap_reset
           \<lparr>lock_id = next_id s, lock_trx = t, type_mode = (tm AND NOT LOCK_TYPE_MASK) OR LOCK_REC,
            lock_index = index, rl_space = r_space r, rl_page_no = r_page_no r,
            rl_n_bits = n_bytes * 8, rl_bitmap = replicate n_bytes 0, tl_table = 0\<rparr>) (r_heap_no r))"

lemma empty_bit: "\<not> lock_rec_get_nth_bit (l\<lparr>rl_n_bits := 8 * n, rl_bitmap := replicate n 0\<rparr>) i"
  by (auto simp: lock_rec_get_nth_bit_def ut_bit_get_nth_bit)

lemma new_lock_simps:
  "lock_id (new_lock tm r index t s) = next_id s" "lock_trx (new_lock tm r index t s) = t"
  "rl_space (new_lock tm r index t s) = r_space r" "rl_page_no (new_lock tm r index t s) = r_page_no r"
  "lock_get_mode (new_lock tm r index t s) = tm AND LOCK_MODE_MASK"
  "lock_get_type (new_lock tm r index t s) = LOCK_REC"
  "lock_get_wait (new_lock tm r index t s) \<longleftrightarrow> tm AND LOCK_WAIT \<noteq> 0"
  "lock_rec_get_gap (new_lock tm r index t s) \<longleftrightarrow> tm AND LOCK_GAP \<noteq> 0 \<and> \<not> page_rec_is_supremum r"
  by (simp_all add: new_lock_def Let_def lock_rec_bitmap_reset_def lock_get_mode_def lock_get_type_def
      lock_get_wait_def lock_rec_get_gap_def type_mode_or type_mode_and_not)

lemma new_lock_bits:
  assumes "r_heap_no r < page_n_heap s (r_space r) (r_page_no r)"
  shows "lock_rec_get_nth_bit (new_lock tm r index t s) i \<longleftrightarrow> i = r_heap_no r"
    "rl_n_bits (new_lock tm r index t s) = 8 * length (rl_bitmap (new_lock tm r index t s))"
proof -
  define n where "n = (page_n_heap s (r_space r) (r_page_no r) + LOCK_PAGE_BITMAP_MARGIN) div 8 + 1"
  have n: "r_heap_no r < 8 * n" using assms by (simp add: n_def LOCK_PAGE_BITMAP_MARGIN_def)
  define tm' where "tm' = ((if page_rec_is_supremum r then tm AND NOT LOCK_GAP else tm) AND NOT LOCK_TYPE_MASK) OR LOCK_REC"
  let ?l = "\<lparr>lock_id = next_id s, lock_trx = t, type_mode = tm', lock_index = index, rl_space = r_space r,
    rl_page_no = r_page_no r, rl_n_bits = n * 8, rl_bitmap = replicate n 0, tl_table = 0\<rparr>"
  have l: "new_lock tm r index t s = lock_rec_set_nth_bit ?l (r_heap_no r)"
    by (simp add: new_lock_def Let_def lock_rec_bitmap_reset_def n_def tm'_def)
  have "\<not> lock_rec_get_nth_bit ?l j" for j
    by (auto simp: lock_rec_get_nth_bit_def ut_bit_get_nth_bit)
  then show "lock_rec_get_nth_bit (new_lock tm r index t s) i \<longleftrightarrow> i = r_heap_no r"
    unfolding l using n by (subst get_set_nth_bit) simp_all
  show "rl_n_bits (new_lock tm r index t s) = 8 * length (rl_bitmap (new_lock tm r index t s))"
    by (simp add: l)
qed

lemma bit_LOCK_WAIT: "bit LOCK_WAIT n \<longleftrightarrow> n = 8"
proof -
  have "bit LOCK_WAIT n \<longleftrightarrow> bit (2 ^ 8 :: ulint) n" by (simp only: LOCK_WAIT_def) simp
  also have "\<dots> \<longleftrightarrow> n = 8" unfolding bit_exp_iff by auto
  finally show ?thesis .
qed

lemma upd_lock_fresh: "i \<notin> lock_id ` set ls \<Longrightarrow> upd_lock i f ls = ls"
  unfolding upd_lock_def by (rule map_idI) (metis imageI)

lemma upd_lock_append: "upd_lock i f (xs @ [l]) = upd_lock i f xs @ [if lock_id l = i then f l else l]"
  by (simp add: upd_lock_def)

lemma create_eq:
  assumes "sys_wf s"
  shows "lock_rec_create tm r index t s = (s\<lparr>rec_locks := rec_locks s @ [new_lock tm r index t s], next_id := next_id s + 1,
    trxs := (trxs s)(t := trxs s t\<lparr>trx_locks := trx_locks (trxs s t) @ [next_id s],
      wait_lock := if tm AND LOCK_WAIT \<noteq> 0 then Some (next_id s) else wait_lock (trxs s t)\<rparr>)\<rparr>, next_id s)"
proof -
  have fresh: "next_id s \<notin> lock_id ` set (rec_locks s)" "next_id s \<notin> lock_id ` set (tab_locks s)"
    using assms by (force simp: sys_wf_def all_locks_def)+
  define tm' where "tm' = (if page_rec_is_supremum r then tm AND NOT LOCK_GAP else tm)"
  have w: "tm' AND LOCK_WAIT = tm AND LOCK_WAIT" by (simp add: tm'_def type_mode_and_not)
  have up: "l\<lparr>type_mode := type_mode l OR LOCK_WAIT\<rparr> = l" if "lock_get_wait l" for l
  proof -
    have "bit (type_mode l) 8"
    proof (rule ccontr)
      assume "\<not> bit (type_mode l) 8"
      then have "type_mode l AND LOCK_WAIT = 0" by (intro bit_eqI) (auto simp: bit_and_iff bit_LOCK_WAIT)
      with that show False by (simp add: lock_get_wait_def)
    qed
    then have "type_mode l OR LOCK_WAIT = type_mode l"
      by (intro bit_eqI) (auto simp: bit_or_iff bit_LOCK_WAIT)
    then show ?thesis by simp
  qed
  let ?n = "new_lock tm r index t s"
  let ?s = "s\<lparr>rec_locks := rec_locks s @ [?n], next_id := next_id s + 1,
    trxs := (trxs s)(t := trxs s t\<lparr>trx_locks := trx_locks (trxs s t) @ [next_id s]\<rparr>)\<rparr>"
  have c: "lock_rec_create tm r index t s =
      (if tm AND LOCK_WAIT \<noteq> 0 then lock_set_lock_and_trx_wait (next_id s) t ?s else ?s, next_id s)"
    unfolding lock_rec_create_def Let_def tm'_def [symmetric] w
    by (simp add: new_lock_def Let_def tm'_def)
  show ?thesis
  proof (cases "tm AND LOCK_WAIT = 0")
    case True
    then show ?thesis by (simp add: c)
  next
    case False
    then have "lock_get_wait ?n" by (simp add: new_lock_simps)
    from up [OF this] False show ?thesis
      using fresh by (simp add: c lock_set_lock_and_trx_wait_def Let_def upd_lock_append upd_lock_fresh new_lock_simps)
  qed
qed

section \<open>Granting at once\<close>

text \<open>\<open>admits s r tm t\<close>: a granted lock of \<open>t\<close> with these flags conflicts with no lock on the record.\<close>

definition admits :: "lock_sys \<Rightarrow> rec_addr \<Rightarrow> ulint \<Rightarrow> nat \<Rightarrow> bool" where
  "admits s r tm t \<longleftrightarrow> (\<forall>l \<in> set (rec_queue s r). lock_trx l \<noteq> t \<and> \<not> lock_rec_get_gap l \<and> tm AND LOCK_GAP = 0
     \<and> \<not> page_rec_is_supremum r \<longrightarrow> lock_mode_compatible (lock_get_mode l) (tm AND LOCK_MODE_MASK))"

definition heap_ok :: "lock_sys \<Rightarrow> rec_addr \<Rightarrow> bool" where
  "heap_ok s r \<longleftrightarrow> r_heap_no r < page_n_heap s (r_space r) (r_page_no r)"

definition rec_mode :: "ulint \<Rightarrow> bool" where
  "rec_mode tm \<longleftrightarrow> tm AND LOCK_MODE_MASK = LOCK_S \<or> tm AND LOCK_MODE_MASK = LOCK_X"

lemma rec_queue_iff:
  "l \<in> set (rec_queue s r) \<longleftrightarrow> l \<in> set (rec_locks s) \<and> rl_space l = r_space r \<and> rl_page_no l = r_page_no r
     \<and> lock_rec_get_nth_bit l (r_heap_no r)"
  by (auto simp: rec_queue_def page_queue_def)

lemma new_lock_wf: "heap_ok s r \<Longrightarrow> rec_mode tm \<Longrightarrow> rlock_wf (new_lock tm r index t s)"
  by (simp add: rlock_wf_def new_lock_bits heap_ok_def new_lock_simps rec_mode_def)

lemma sys_wf_append:
  assumes "sys_wf s" "rlock_wf l" "lock_id l = next_id s"
  shows "sys_wf (s\<lparr>rec_locks := rec_locks s @ [l], next_id := next_id s + 1, trxs := T\<rparr>)"
  using assms by (force simp: sys_wf_def all_locks_def less_Suc_eq)

lemma inv_create_granted:
  assumes inv: "lock_inv s" and r: "heap_ok s r" and tm: "rec_mode tm" "tm AND LOCK_WAIT = 0" and ok: "admits s r tm t"
  shows "lock_inv (fst (lock_rec_create tm r index t s))"
proof -
  let ?n = "new_lock tm r index t s"
  have wf: "sys_wf s" and q: "queue_ok UNIV (rec_locks s)" and wl: "wait_link s"
    using inv by (simp_all add: lock_inv_def)
  have "goes_with l ?n" if "l \<in> set (rec_locks s)" for l
    using ok that r by (auto simp: goes_with_def admits_def rec_queue_iff same_page_def new_lock_simps new_lock_bits
        heap_ok_def page_rec_is_supremum_def)
  moreover have "\<not> lock_get_wait ?n" using tm(2) by (simp add: new_lock_simps)
  ultimately have "fits UNIV (rec_locks s) ?n" by (simp add: fits_def)
  moreover have "wait_link (fst (lock_rec_create tm r index t s))"
    using wl \<open>\<not> lock_get_wait ?n\<close> tm(2) by (auto simp: create_eq [OF wf] wait_link_def all_locks_def)
  ultimately show ?thesis
    using q sys_wf_append [OF wf new_lock_wf [OF r tm(1)]] by (simp add: lock_inv_def create_eq [OF wf] new_lock_simps)
qed

lemma all_locks_upd:
  "all_locks (s\<lparr>rec_locks := upd_lock i f (rec_locks s)\<rparr>) = upd_lock i f (rec_locks s) @ tab_locks s"
  by (simp add: all_locks_def)

text \<open>An update that leaves what is not the bitmap leaves the links and the shape of the state.\<close>

lemma upd_bits_frame:
  assumes wf: "sys_wf s" and wl: "wait_link s"
    and f: "\<And>l. lock_id (f l) = lock_id l \<and> lock_trx (f l) = lock_trx l \<and> type_mode (f l) = type_mode l
      \<and> rl_n_bits (f l) = rl_n_bits l \<and> length (rl_bitmap (f l)) = length (rl_bitmap l)"
  shows "sys_wf (s\<lparr>rec_locks := map f (rec_locks s)\<rparr>)" "wait_link (s\<lparr>rec_locks := map f (rec_locks s)\<rparr>)"
proof -
  have m: "map lock_id (map f ls) = map lock_id ls" for ls by (simp add: f comp_def)
  show "sys_wf (s\<lparr>rec_locks := map f (rec_locks s)\<rparr>)"
    using wf f by (auto simp: sys_wf_def all_locks_def m rlock_wf_def lock_get_mode_def lock_get_type_def comp_def)
  have w: "lock_get_wait (f l) = lock_get_wait l" for l by (simp add: lock_get_wait_def f)
  show "wait_link (s\<lparr>rec_locks := map f (rec_locks s)\<rparr>)"
    unfolding wait_link_def all_locks_def
  proof (intro conjI ballI allI impI)
    fix t assume "que_lock_wait (trxs (s\<lparr>rec_locks := map f (rec_locks s)\<rparr>) t)"
    then obtain l where "l \<in> set (rec_locks s @ tab_locks s)" "lock_trx l = t" "lock_get_wait l"
      using wl by (auto simp: wait_link_def all_locks_def)
    then show "\<exists>l \<in> set (rec_locks (s\<lparr>rec_locks := map f (rec_locks s)\<rparr>) @ tab_locks (s\<lparr>rec_locks := map f (rec_locks s)\<rparr>)).
        lock_trx l = t \<and> lock_get_wait l"
      using w [of l] f [of l] by simp (metis UnE UnI1 UnI2 imageI)
  qed (use wl in \<open>auto simp: wait_link_def all_locks_def w f\<close>)
qed

lemma inv_set_bit:
  assumes inv: "lock_inv s" and l: "l \<in> set (rec_locks s)" "\<not> lock_get_wait l" "r_heap_no r < rl_n_bits l"
    "rl_space l = r_space r" "rl_page_no l = r_page_no r"
    and ok: "admits s r (type_mode l) (lock_trx l)"
  shows "lock_inv (s\<lparr>rec_locks := upd_lock (lock_id l) (\<lambda>l. lock_rec_set_nth_bit l (r_heap_no r)) (rec_locks s)\<rparr>)"
proof -
  have wf: "sys_wf s" and q: "queue_ok UNIV (rec_locks s)" and wl: "wait_link s"
    using inv by (simp_all add: lock_inv_def)
  have rw: "rlock_wf l'" if "l' \<in> set (rec_locks s)" for l' using wf that by (simp add: sys_wf_def)
  have "queue_ok UNIV (upd_lock (lock_id l) (\<lambda>l. lock_rec_set_nth_bit l (r_heap_no r)) (rec_locks s))"
  proof (rule queue_ok_set_bit [OF q sys_wf_rec [OF wf] l(1,2)])
    show "rl_n_bits l = 8 * length (rl_bitmap l)" using rw [OF l(1)] by (simp add: rlock_wf_def)
    fix l' assume l': "l' \<in> set (rec_locks s)" "same_page l' l" "lock_trx l' \<noteq> lock_trx l" "\<not> lock_rec_get_gap l'"
      "\<not> lock_rec_get_gap l" "lock_rec_get_nth_bit l' (r_heap_no r)" "r_heap_no r \<noteq> 1"
    then have "lock_mode_compatible (lock_get_mode l') (lock_get_mode l)"
      using ok l(4,5) by (auto simp: admits_def rec_queue_iff same_page_def lock_rec_get_gap_def lock_get_mode_def
          page_rec_is_supremum_def)
    then show "lock_mode_compatible (lock_get_mode l') (lock_get_mode l) \<and> lock_mode_compatible (lock_get_mode l) (lock_get_mode l')"
      using rec_mode_sym [OF rw [OF l'(1)] rw [OF l(1)]] by simp
  qed (rule l(3))
  then show ?thesis
    using upd_bits_frame [OF wf wl, of "\<lambda>l'. if lock_id l' = lock_id l then lock_rec_set_nth_bit l' (r_heap_no r) else l'"]
    by (simp add: lock_inv_def upd_lock_def)
qed

lemma inv_add_to_queue:
  assumes inv: "lock_inv s" and r: "heap_ok s r" and tm: "rec_mode tm" "tm AND LOCK_WAIT = 0" and ok: "admits s r tm t"
  shows "lock_inv (lock_rec_add_to_queue tm r index t s)"
proof -
  define tm' where "tm' = (if page_rec_is_supremum r then (tm OR LOCK_REC) AND NOT LOCK_GAP else tm OR LOCK_REC)"
  have tm': "rec_mode tm'" "tm' AND LOCK_WAIT = 0" "admits s r tm' t"
    using tm ok by (auto simp: tm'_def rec_mode_def admits_def type_mode_or type_mode_and_not)
  have c: "lock_inv (fst (lock_rec_create tm' r index t s))" by (rule inv_create_granted [OF inv r tm'])
  have st: "lock_inv (s\<lparr>rec_locks := upd_lock (lock_id l) (\<lambda>l. lock_rec_set_nth_bit l (r_heap_no r)) (rec_locks s)\<rparr>)"
    if "lock_rec_find_similar_on_page s tm' r t = Some l" for l
  proof -
    from find_SomeD [OF that [unfolded lock_rec_find_similar_on_page_def]]
    have "lock_trx l = t" "type_mode l = tm'" "r_heap_no r < rl_n_bits l" "l \<in> set (page_queue s (r_space r) (r_page_no r))"
      by auto
    then show ?thesis using tm' by (intro inv_set_bit [OF inv]) (auto simp: page_queue_def lock_get_wait_def)
  qed
  show ?thesis
    unfolding lock_rec_add_to_queue_def Let_def tm'_def [symmetric]
    using c st by (auto split: option.split)
qed

section \<open>The deadlock search\<close>

text \<open>
  \<open>waits_path s w t\<close>: a transaction that waits with the lock \<open>w\<close> waits, directly or through
  other waiting transactions, for the transaction \<open>t\<close>.
\<close>

inductive waits_path :: "lock_sys \<Rightarrow> lock \<Rightarrow> nat \<Rightarrow> bool" for s where
  direct: "l \<in> set (locks_before s w) \<Longrightarrow> lock_has_to_wait w l \<Longrightarrow> waits_path s w (lock_trx l)"
| through: "l \<in> set (locks_before s w) \<Longrightarrow> lock_has_to_wait w l \<Longrightarrow> que_lock_wait (trxs s (lock_trx l)) \<Longrightarrow>
    wait_lock (trxs s (lock_trx l)) = Some i \<Longrightarrow> lock_by_id s i = Some w' \<Longrightarrow> waits_path s w' t \<Longrightarrow> waits_path s w t"

inductive_cases waits_pathE: "waits_path s w t"

definition clear_of :: "lock_sys \<Rightarrow> nat \<Rightarrow> lock \<Rightarrow> lock \<Rightarrow> bool" where
  "clear_of s start w l \<longleftrightarrow> (lock_has_to_wait w l \<longrightarrow> lock_trx l \<noteq> start \<and>
     (\<forall>i w'. que_lock_wait (trxs s (lock_trx l)) \<longrightarrow> wait_lock (trxs s (lock_trx l)) = Some i \<longrightarrow>
        lock_by_id s i = Some w' \<longrightarrow> \<not> waits_path s w' start))"

lemma no_path:
  assumes "\<And>l. l \<in> set (locks_before s w) \<Longrightarrow> clear_of s start w l"
  shows "\<not> waits_path s w start"
proof
  assume "waits_path s w start"
  then show False
    by (rule waits_pathE) (use assms in \<open>auto simp: clear_of_def\<close>)
qed

lemma search_False:
  "lock_deadlock_recursive fuel s start t w marks cost = Some (False, m, c) \<Longrightarrow> \<not> waits_path s w start"
  "deadlock_walk fuel s start t w ls marks cost = Some (False, m, c) \<Longrightarrow> l \<in> set ls \<Longrightarrow> clear_of s start w l"
proof (induction fuel s start t w marks cost and fuel s start t w ls marks cost arbitrary: m c and m c l
    rule: lock_deadlock_recursive_deadlock_walk.induct)
  case (2 fuel s start t w marks cost)
  have "deadlock_walk fuel s start t w (locks_before s w) marks (cost + 1) = Some (False, m, c)"
    "t \<notin> set marks" "\<not> LOCK_MAX_N_STEPS_IN_DEADLOCK_CHECK < cost + 1"
    using "2.prems" by (auto simp: Let_def split: if_splits)
  then show ?case using "2.IH" by (intro no_path) auto
next
  case (4 fuel s start t w l' ls marks cost)
  show ?case
  proof (cases "lock_has_to_wait w l'")
    case False
    then have "deadlock_walk fuel s start t w ls marks cost = Some (False, m, c)" using "4.prems"(1) by simp
    then show ?thesis using "4.IH"(4) False "4.prems"(2) by (auto simp: clear_of_def)
  next
    case True
    then have ns: "lock_trx l' \<noteq> start" using "4.prems"(1) by auto
    show ?thesis
    proof (cases "que_lock_wait (trxs s (lock_trx l'))")
      case False
      then have "deadlock_walk fuel s start t w ls marks cost = Some (False, m, c)" using "4.prems"(1) True ns by simp
      then show ?thesis using "4.IH"(3) True False ns "4.prems"(2) by (auto simp: clear_of_def)
    next
      case que: True
      obtain i w' where w': "wait_lock (trxs s (lock_trx l')) = Some i" "lock_by_id s i = Some w'"
        using "4.prems"(1) True ns que by (auto split: option.splits)
      obtain m1 c1 where r: "lock_deadlock_recursive fuel s start (lock_trx l') w' marks cost = Some (False, m1, c1)"
        and rest: "deadlock_walk fuel s start t w ls m1 c1 = Some (False, m, c)"
        using "4.prems"(1) True ns que w' by (auto split: option.splits bool.splits)
      have "\<not> waits_path s w' start" using "4.IH"(1) [OF True ns que w' r] .
      moreover have "clear_of s start w l" if "l \<in> set ls"
        using "4.IH"(2) [OF True ns que w' r refl refl refl rest that] .
      ultimately show ?thesis using "4.prems"(2) ns w' by (auto simp: clear_of_def)
    qed
  qed
qed simp_all

definition waits_ok :: "lock_sys \<Rightarrow> bool" where
  "waits_ok s \<longleftrightarrow> (\<forall>t. que_lock_wait (trxs s t) \<longrightarrow>
     (\<exists>i w. wait_lock (trxs s t) = Some i \<and> lock_by_id s i = Some w))"

abbreviation "dl_max \<equiv> LOCK_MAX_N_STEPS_IN_DEADLOCK_CHECK"

lemma search_total:
  assumes "waits_ok s"
  shows "dl_max + 2 \<le> fuel + cost \<Longrightarrow> cost \<le> dl_max \<Longrightarrow>
      \<exists>b m c. lock_deadlock_recursive fuel s start t w marks cost = Some (b, m, c) \<and> (\<not> b \<longrightarrow> cost \<le> c \<and> c \<le> dl_max)"
    "dl_max + 2 \<le> fuel + cost \<Longrightarrow> cost \<le> dl_max \<Longrightarrow>
      \<exists>b m c. deadlock_walk fuel s start t w ls marks cost = Some (b, m, c) \<and> (\<not> b \<longrightarrow> cost \<le> c \<and> c \<le> dl_max)"
  using assms
proof (induction fuel s start t w marks cost and fuel s start t w ls marks cost
    rule: lock_deadlock_recursive_deadlock_walk.induct)
  case (2 fuel s start t w marks cost)
  show ?case
  proof (cases "t \<in> set marks \<or> dl_max < cost + 1")
    case False
    from "2.IH" [of "cost + 1"] "2.prems" False show ?thesis by (auto simp: Let_def)
  qed (auto simp: Let_def)
next
  case (4 fuel s start t w l ls marks cost)
  show ?case
  proof (cases "lock_has_to_wait w l \<and> lock_trx l \<noteq> start")
    case True
    show ?thesis
    proof (cases "que_lock_wait (trxs s (lock_trx l))")
      case que: True
      obtain i w' where w': "wait_lock (trxs s (lock_trx l)) = Some i" "lock_by_id s i = Some w'"
        using "4.prems"(3) que by (auto simp: waits_ok_def)
      obtain b m c where r: "lock_deadlock_recursive fuel s start (lock_trx l) w' marks cost = Some (b, m, c)"
        and bc: "\<not> b \<longrightarrow> cost \<le> c \<and> c \<le> dl_max"
        using "4.IH"(1) [of i w'] True que w' "4.prems" by blast
      show ?thesis
      proof (cases b)
        case False
        with bc have c: "cost \<le> c" "c \<le> dl_max" by simp_all
        obtain b2 m2 c2 where "deadlock_walk fuel s start t w ls m c = Some (b2, m2, c2)" "\<not> b2 \<longrightarrow> c \<le> c2 \<and> c2 \<le> dl_max"
          using "4.IH"(2) [of i w' "(False, m, c)" False "(m, c)" m c] True que w' r False c "4.prems" by auto
        then show ?thesis using True que w' r False c by auto
      qed (use True que w' r in auto)
    next
      case False
      then show ?thesis using "4.IH"(3) True "4.prems" by auto
    qed
  qed (use "4.IH"(4) "4.prems" in auto)
qed auto

lemma deadlock_occurs_total:
  assumes "waits_ok s" shows "lock_deadlock_occurs s l t \<noteq> None"
  using search_total(1) [OF assms, of "dl_max + 2" 0 t t l "[]"] by (auto simp: lock_deadlock_occurs_def)

lemma deadlock_occurs_False:
  "lock_deadlock_occurs s l t = Some False \<Longrightarrow> \<not> waits_path s l t"
  by (auto simp: lock_deadlock_occurs_def simp del: lock_deadlock_recursive.simps dest: search_False(1))

section \<open>Waiting\<close>

lemma waits_ok_link: "sys_wf s \<Longrightarrow> wait_link s \<Longrightarrow> waits_ok s"
  unfolding waits_ok_def wait_link_def sys_wf_def by (metis lock_by_id_in)

lemma wait_link_none:
  "wait_link s \<Longrightarrow> \<not> que_lock_wait (trxs s t) \<Longrightarrow> l \<in> set (all_locks s) \<Longrightarrow> lock_trx l = t \<Longrightarrow> \<not> lock_get_wait l"
  by (auto simp: wait_link_def)

lemma reset_wait_bits:
  "lock_rec_get_nth_bit (l\<lparr>type_mode := m\<rparr>) = lock_rec_get_nth_bit l"
  by (rule ext) (simp add: lock_rec_get_nth_bit_def)

lemma reset_wait_simps:
  "lock_get_wait (l\<lparr>type_mode := type_mode l AND NOT LOCK_WAIT\<rparr>) = False"
  "lock_get_mode (l\<lparr>type_mode := type_mode l AND NOT LOCK_WAIT\<rparr>) = lock_get_mode l"
  "lock_get_type (l\<lparr>type_mode := type_mode l AND NOT LOCK_WAIT\<rparr>) = lock_get_type l"
  "lock_rec_get_gap (l\<lparr>type_mode := type_mode l AND NOT LOCK_WAIT\<rparr>) = lock_rec_get_gap l"
  "lock_rec_get_nth_bit (l\<lparr>type_mode := type_mode l AND NOT LOCK_WAIT\<rparr>) i = lock_rec_get_nth_bit l i"
  "lock_rec_find_set_bit (l\<lparr>type_mode := type_mode l AND NOT LOCK_WAIT\<rparr>) = lock_rec_find_set_bit l"
  by (simp_all add: lock_get_wait_def lock_get_mode_def lock_get_type_def lock_rec_get_gap_def type_mode_and_not
      reset_wait_bits lock_rec_find_set_bit_def)

lemma inv_enqueue:
  assumes inv: "lock_inv s" and r: "heap_ok s r" and tm: "rec_mode tm" and run: "\<not> que_lock_wait (trxs s t)"
    and b: "b \<in> set (rec_queue s r)" "lock_trx b \<noteq> t"
      "\<not> lock_mode_compatible (tm AND LOCK_MODE_MASK) (lock_get_mode b)"
  obtains s' e where "lock_rec_enqueue_waiting tm r index t s = Some (s', e)" "lock_inv s'" "e \<noteq> DB_SUCCESS"
    "page_n_heap s' = page_n_heap s"
proof -
  have wf: "sys_wf s" and q: "queue_ok UNIV (rec_locks s)" and wl: "wait_link s"
    using inv by (simp_all add: lock_inv_def)
  define n where "n = new_lock (tm OR LOCK_WAIT) r index t s"
  define s1 where "s1 = fst (lock_rec_create (tm OR LOCK_WAIT) r index t s)"
  have tw: "(tm OR LOCK_WAIT) AND LOCK_WAIT \<noteq> 0" by (rule type_mode_or)
  have c: "lock_rec_create (tm OR LOCK_WAIT) r index t s = (s1, next_id s)"
    by (simp add: s1_def create_eq [OF wf])
  have s1: "s1 = s\<lparr>rec_locks := rec_locks s @ [n], next_id := next_id s + 1,
      trxs := (trxs s)(t := trxs s t\<lparr>trx_locks := trx_locks (trxs s t) @ [next_id s], wait_lock := Some (next_id s)\<rparr>)\<rparr>"
    using tw by (simp add: s1_def create_eq [OF wf] n_def)
  have n: "lock_id n = next_id s" "lock_trx n = t" "lock_get_wait n" "rl_space n = r_space r" "rl_page_no n = r_page_no r"
    "\<And>i. lock_rec_get_nth_bit n i \<longleftrightarrow> i = r_heap_no r" "lock_get_mode n = tm AND LOCK_MODE_MASK"
    using r tw by (simp_all add: n_def new_lock_simps new_lock_bits heap_ok_def type_mode_or)
  have nwf: "rlock_wf n" unfolding n_def by (rule new_lock_wf [OF r]) (use tm in \<open>simp add: rec_mode_def type_mode_or\<close>)
  have wf1: "sys_wf s1" unfolding s1 by (rule sys_wf_append [OF wf nwf n(1)])
  have all1: "set (all_locks s1) = insert n (set (all_locks s))" by (simp add: s1 all_locks_def)
  have by_id: "lock_by_id s1 (next_id s) = Some n"
    using lock_by_id_in [of s1 n] wf1 all1 n(1) by (simp add: sys_wf_def)
  have "waits_ok s1"
    unfolding waits_ok_def
  proof (intro allI impI)
    fix t' assume "que_lock_wait (trxs s1 t')"
    with run have t': "t' \<noteq> t" "que_lock_wait (trxs s t')" by (auto simp: s1 split: if_splits)
    then obtain l where l: "l \<in> set (all_locks s)" "wait_lock (trxs s t') = Some (lock_id l)"
      using wl by (auto simp: wait_link_def)
    then have "lock_by_id s1 (lock_id l) = Some l" using wf1 all1 by (intro lock_by_id_in) (simp_all add: sys_wf_def)
    then show "\<exists>i w. wait_lock (trxs s1 t') = Some i \<and> lock_by_id s1 i = Some w"
      using t'(1) l(2) by (simp add: s1)
  qed
  from deadlock_occurs_total [OF this] obtain d where d: "lock_deadlock_occurs s1 n t = Some d" by auto
  have none: "\<not> lock_get_wait l" if "l \<in> set (all_locks s)" "lock_trx l = t" for l
    using wait_link_none [OF wl run that] .
  show thesis
  proof (cases d)
    case False
    let ?s2 = "s1\<lparr>trxs := (trxs s1)(t := trxs s1 t\<lparr>que_lock_wait := True\<rparr>)\<rparr>"
    have "blocked_by (rec_locks s) n"
      using b n unfolding blocked_by_def
      by (intro bexI [of _ b]) (auto simp: rec_queue_iff same_page_def lock_has_to_wait_def)
    then have "fits UNIV (rec_locks s) n"
      using n(3,6) by (auto simp: fits_def goes_with_def single_bit_def)
    moreover have "wait_link ?s2"
      unfolding wait_link_def
    proof (intro conjI ballI allI impI)
      fix l assume "l \<in> set (all_locks ?s2)" "lock_get_wait l"
      then have "l = n \<or> l \<in> set (all_locks s) \<and> lock_trx l \<noteq> t"
        using none by (auto simp: all_locks_def s1)
      then show "wait_lock (trxs ?s2 (lock_trx l)) = Some (lock_id l)" "que_lock_wait (trxs ?s2 (lock_trx l))"
        using wl \<open>lock_get_wait l\<close> n(1,2) by (auto simp: s1 wait_link_def)
    next
      fix t' assume "que_lock_wait (trxs ?s2 t')"
      then have "t' = t \<or> que_lock_wait (trxs s t')" by (auto simp: s1 split: if_splits)
      then show "\<exists>l \<in> set (all_locks ?s2). lock_trx l = t' \<and> lock_get_wait l"
        using wl n(2,3) unfolding wait_link_def by (auto simp: s1 all_locks_def)
    qed
    ultimately have "lock_inv ?s2"
      using q wf1 by (simp add: lock_inv_def s1 sys_wf_def all_locks_def)
    moreover have "lock_rec_enqueue_waiting tm r index t s = Some (?s2, DB_LOCK_WAIT)"
      using False d by (simp add: lock_rec_enqueue_waiting_def c by_id)
    ultimately show thesis by (intro that [of ?s2 DB_LOCK_WAIT]) (simp_all add: s1)
  next
    case True
    define n' where "n' = lock_rec_reset_nth_bit (n\<lparr>type_mode := type_mode n AND NOT LOCK_WAIT\<rparr>) (r_heap_no r)"
    define s2 where "s2 = s1\<lparr>rec_locks := rec_locks s @ [n'],
        trxs := (trxs s1)(t := trxs s1 t\<lparr>wait_lock := None\<rparr>)\<rparr>"
    have fresh: "next_id s \<notin> lock_id ` set (rec_locks s)" "next_id s \<notin> lock_id ` set (tab_locks s)"
      using wf by (force simp: sys_wf_def all_locks_def)+
    have res: "lock_rec_enqueue_waiting tm r index t s = Some (s2, DB_DEADLOCK)"
    proof -
      have "lock_rec_enqueue_waiting tm r index t s = Some (let s = lock_reset_lock_and_trx_wait n s1
          in s\<lparr>rec_locks := upd_lock (next_id s1 - 1) (\<lambda>l. lock_rec_reset_nth_bit l (r_heap_no r)) (rec_locks s)\<rparr>, DB_DEADLOCK)"
        using True d by (simp add: lock_rec_enqueue_waiting_def c by_id Let_def) (simp add: s1)
      also have "\<dots> = Some (s2, DB_DEADLOCK)"
        using fresh n(1,2) by (simp add: lock_reset_lock_and_trx_wait_def Let_def s1 s2_def
            upd_lock_append upd_lock_fresh n'_def)
      finally show ?thesis .
    qed
    have wb: "rl_n_bits n = 8 * length (rl_bitmap n)" "r_heap_no r < rl_n_bits n"
      using nwf nth_bit_bound [of n "r_heap_no r"] n(6) by (simp_all add: rlock_wf_def)
    have n': "lock_id n' = next_id s" "lock_trx n' = t" "\<not> lock_get_wait n'" "\<And>i. \<not> lock_rec_get_nth_bit n' i" "rlock_wf n'"
      using n nwf get_set_nth_bit(2) [of "n\<lparr>type_mode := type_mode n AND NOT LOCK_WAIT\<rparr>" "r_heap_no r"] wb
      by (auto simp: n'_def set_nth_bit_rest reset_wait_simps rlock_wf_def)
    have "sys_wf (s\<lparr>rec_locks := rec_locks s @ [n'], next_id := next_id s + 1, trxs := trxs s2\<rparr>)"
      by (rule sys_wf_append [OF wf n'(5,1)])
    then have "sys_wf s2" by (simp add: s2_def s1 sys_wf_def all_locks_def)
    moreover have "queue_ok UNIV (rec_locks s2)" using q n' by (simp add: s2_def fits_def goes_with_def)
    moreover have "wait_link s2"
      unfolding wait_link_def
    proof (intro conjI ballI allI impI)
      fix l assume l: "l \<in> set (all_locks s2)" "lock_get_wait l"
      with n'(3) have "l \<in> set (all_locks s)" by (auto simp: s2_def s1 all_locks_def)
      with l(2) none have "l \<in> set (all_locks s)" "lock_trx l \<noteq> t" by auto
      then show "wait_lock (trxs s2 (lock_trx l)) = Some (lock_id l)" "que_lock_wait (trxs s2 (lock_trx l))"
        using wl l(2) by (auto simp: s2_def s1 wait_link_def)
    next
      fix t' assume "que_lock_wait (trxs s2 t')"
      with run have "que_lock_wait (trxs s t')" by (auto simp: s2_def s1 split: if_splits)
      then obtain l where "l \<in> set (all_locks s)" "lock_trx l = t'" "lock_get_wait l" using wl by (auto simp: wait_link_def)
      then show "\<exists>l \<in> set (all_locks s2). lock_trx l = t' \<and> lock_get_wait l" by (auto simp: s2_def s1 all_locks_def)
    qed
    ultimately show thesis using res by (intro that [of s2 DB_DEADLOCK]) (simp_all add: lock_inv_def s2_def s1)
  qed
qed

section \<open>Lock requests\<close>

lemma mode_flags:
  assumes "m = LOCK_S \<or> m = LOCK_X"
  shows "m AND LOCK_MODE_MASK = m" "m AND LOCK_WAIT = 0" "m AND LOCK_GAP = 0" "rec_mode m"
    "rec_mode (LOCK_REC OR m)" "rec_mode (m OR LOCK_GAP)" "(m OR LOCK_REC) AND LOCK_WAIT = 0"
  using assms by (auto simp: rec_mode_def type_mode_or) (simp_all add: lock_consts)

lemma rec_wf: "lock_inv s \<Longrightarrow> l \<in> set (rec_locks s) \<Longrightarrow> rlock_wf l"
  by (simp add: lock_inv_def sys_wf_def)

lemma other_none_admits:
  assumes inv: "lock_inv s" and m: "m = LOCK_S \<or> m = LOCK_X"
    and none: "lock_rec_other_has_expl_req s (lock_get_confl_mode m) False True r t = None"
  shows "admits s r m t"
  unfolding admits_def
proof (intro ballI impI, elim conjE)
  fix l assume l: "l \<in> set (rec_queue s r)" "lock_trx l \<noteq> t" "\<not> lock_rec_get_gap l" "\<not> page_rec_is_supremum r"
  have "\<not> lock_mode_stronger_or_eq (lock_get_mode l) (lock_get_confl_mode m)"
    using none l by (auto simp: lock_rec_other_has_expl_req_def find_None_iff)
  then show "lock_mode_compatible (lock_get_mode l) (m AND LOCK_MODE_MASK)"
    using rec_confl_mode(1) [OF rec_wf [OF inv], of l m] l(1) m by (simp add: mode_flags rec_queue_iff)
qed

lemma inv_fast:
  assumes inv: "lock_inv s" and r: "heap_ok s r" and m: "m = LOCK_S \<or> m = LOCK_X"
    and f: "lock_rec_lock_fast impl m r index t s = Some s'"
  shows "lock_inv s'"
proof (cases impl)
  case True
  then have "s' = s" using f by (auto simp: lock_rec_lock_fast_def split: list.splits if_splits)
  with inv show ?thesis by simp
next
  case False
  consider "page_queue s (r_space r) (r_page_no r) = []" "s' = fst (lock_rec_create m r index t s)"
    | l where "page_queue s (r_space r) (r_page_no r) = [l]" "lock_trx l = t" "type_mode l = m OR LOCK_REC"
      "r_heap_no r < rl_n_bits l"
      "s' = s\<lparr>rec_locks := upd_lock (lock_id l) (\<lambda>l. lock_rec_set_nth_bit l (r_heap_no r)) (rec_locks s)\<rparr>"
    using f False by (auto simp: lock_rec_lock_fast_def split: list.splits if_splits)
  then show ?thesis
  proof cases
    case 1
    then have "admits s r m t" by (simp add: admits_def rec_queue_def)
    then show ?thesis unfolding 1(2) using mode_flags [OF m] by (intro inv_create_granted [OF inv r]) simp_all
  next
    case 2
    have l: "l \<in> set (page_queue s (r_space r) (r_page_no r))" using 2(1) by simp
    have "admits s r (type_mode l) (lock_trx l)" using 2(1) by (simp add: admits_def rec_queue_def)
    then show ?thesis unfolding 2(5)
      using l 2(3,4) mode_flags [OF m] by (intro inv_set_bit [OF inv]) (auto simp: page_queue_def lock_get_wait_def)
  qed
qed

lemma heap_frame:
  "page_n_heap (fst (lock_rec_create tm r index t s)) = page_n_heap s"
  "page_n_heap (lock_rec_add_to_queue tm r index t s) = page_n_heap s"
  by (simp_all add: lock_rec_create_def lock_rec_add_to_queue_def Let_def lock_set_lock_and_trx_wait_def split: option.split)

lemma inv_lock:
  assumes inv: "lock_inv s" and r: "heap_ok s r" and m: "m = LOCK_S \<or> m = LOCK_X" and run: "\<not> que_lock_wait (trxs s t)"
  obtains s' e where "lock_rec_lock impl m r index t s = Some (s', e)" "lock_inv s'" "page_n_heap s' = page_n_heap s"
proof (cases "lock_rec_lock_fast impl m r index t s")
  case (Some s')
  moreover have "page_n_heap s' = page_n_heap s"
    using Some by (auto simp: lock_rec_lock_fast_def heap_frame split: list.splits if_splits)
  ultimately show ?thesis using inv_fast [OF inv r m] that [of s' DB_SUCCESS] by (simp add: lock_rec_lock_def)
next
  case None
  then have slow: "lock_rec_lock impl m r index t s = lock_rec_lock_slow impl m r index t s"
    by (simp add: lock_rec_lock_def)
  show ?thesis
  proof (cases "lock_rec_has_expl s m r t \<noteq> None")
    case True
    then show ?thesis using inv slow that [of s DB_SUCCESS] by (simp add: lock_rec_lock_slow_def)
  next
    case has: False
    show ?thesis
    proof (cases "lock_rec_other_has_expl_req s (lock_get_confl_mode m) False True r t")
      case None
      note ad = other_none_admits [OF inv m None]
      have "lock_inv (lock_rec_add_to_queue (LOCK_REC OR m) r index t s)"
        using mode_flags [OF m] ad by (intro inv_add_to_queue [OF inv r]) (simp_all add: admits_def type_mode_or)
      then show ?thesis
        using that [of "if \<not> impl then lock_rec_add_to_queue (LOCK_REC OR m) r index t s else s" DB_SUCCESS] inv slow has None
        by (simp add: lock_rec_lock_slow_def heap_frame)
    next
      case (Some b)
      from find_SomeD [OF this [unfolded lock_rec_other_has_expl_req_def]]
      have b: "b \<in> set (rec_queue s r)" "lock_trx b \<noteq> t"
        "lock_mode_stronger_or_eq (lock_get_mode b) (lock_get_confl_mode m)" by auto
      then have "\<not> lock_mode_compatible (m AND LOCK_MODE_MASK) (lock_get_mode b)"
        using rec_confl_mode [OF rec_wf [OF inv], of b m] m by (simp add: mode_flags rec_queue_iff)
      then obtain s' e where "lock_rec_enqueue_waiting m r index t s = Some (s', e)" "lock_inv s'"
        "page_n_heap s' = page_n_heap s"
        by (rule inv_enqueue [OF inv r mode_flags(4) [OF m] run b(1,2)])
      then show ?thesis using that slow has Some by (simp add: lock_rec_lock_slow_def)
    qed
  qed
qed

lemma inv_insert:
  assumes inv: "lock_inv s" and r: "heap_ok s r" and run: "\<not> que_lock_wait (trxs s t)"
  obtains s' e i where "lock_rec_insert_check_and_lock flags r index t s = Some (s', e, i)" "lock_inv s'"
    "page_n_heap s' = page_n_heap s"
proof (cases "flags \<noteq> 0 \<and> BTR_NO_LOCKING_FLAG \<noteq> 0 \<or> rec_queue s r = [] \<or> lock_rec_other_has_expl_req s LOCK_S True True r t = None")
  case True
  then have "\<exists>e i. lock_rec_insert_check_and_lock flags r index t s = Some (s, e, i)"
    by (auto simp: lock_rec_insert_check_and_lock_def)
  then show ?thesis using that inv by blast
next
  case False
  then obtain b where o: "lock_rec_other_has_expl_req s LOCK_S True True r t = Some b" by auto
  from find_SomeD [OF this [unfolded lock_rec_other_has_expl_req_def]]
  have b: "b \<in> set (rec_queue s r)" "lock_trx b \<noteq> t" by auto
  have "rlock_wf b" using rec_wf [OF inv] b(1) by (simp add: rec_queue_iff)
  then have "\<not> lock_mode_compatible ((LOCK_X OR LOCK_GAP) AND LOCK_MODE_MASK) (lock_get_mode b)"
    by (auto simp: rlock_wf_def type_mode_or lock_mode_compatible_def lock_consts)
  then obtain s' e where "lock_rec_enqueue_waiting (LOCK_X OR LOCK_GAP) r index t s = Some (s', e)" "lock_inv s'"
    "page_n_heap s' = page_n_heap s"
    by (rule inv_enqueue [OF inv r mode_flags(6) [of LOCK_X, simplified] run b])
  then show ?thesis using that [of s' e True] o False by (simp add: lock_rec_insert_check_and_lock_def)
qed

section \<open>Granting after a release\<close>

text \<open>The links, without the transactions \<open>X\<close>, whose wait is being ended.\<close>

definition link :: "nat set \<Rightarrow> lock_sys \<Rightarrow> bool" where
  "link X s \<longleftrightarrow>
     (\<forall>l \<in> set (all_locks s). lock_get_wait l \<longrightarrow> lock_trx l \<notin> X \<and>
        wait_lock (trxs s (lock_trx l)) = Some (lock_id l) \<and> que_lock_wait (trxs s (lock_trx l)))
   \<and> (\<forall>t. t \<notin> X \<longrightarrow> que_lock_wait (trxs s t) \<longrightarrow> (\<exists>l \<in> set (all_locks s). lock_trx l = t \<and> lock_get_wait l))"

lemma wait_link_iff: "wait_link s \<longleftrightarrow> link {} s"
  by (simp add: wait_link_def link_def)

definition inv_on :: "nat set \<Rightarrow> nat set \<Rightarrow> lock_sys \<Rightarrow> bool" where
  "inv_on B X s \<longleftrightarrow> sys_wf s \<and> queue_ok B (rec_locks s) \<and> link X s"

lemma lock_inv_iff: "lock_inv s \<longleftrightarrow> inv_on UNIV {} s"
  by (simp add: lock_inv_def inv_on_def wait_link_iff)

abbreviation "granted_form l \<equiv> l\<lparr>type_mode := type_mode l AND NOT LOCK_WAIT\<rparr>"

lemma upd_lock_mem:
  assumes "distinct (map lock_id ls)" "l \<in> set ls"
  shows "l' \<in> set (upd_lock (lock_id l) f ls) \<longleftrightarrow> l' = f l \<or> (l' \<in> set ls \<and> l' \<noteq> l)"
proof -
  have "(if lock_id l'' = lock_id l then f l'' else l'') = (if l'' = l then f l else l'')" if "l'' \<in> set ls" for l''
    using id_unique [OF assms(1) that assms(2)] by auto
  then show ?thesis using assms(2) by (auto simp: upd_lock_def image_iff)
qed

lemma upd_lock_ids:
  assumes "\<And>l. lock_id (f l) = lock_id l"
  shows "map lock_id (upd_lock i f ls) = map lock_id ls" "lock_id ` set (upd_lock i f ls) = lock_id ` set ls"
proof -
  show "map lock_id (upd_lock i f ls) = map lock_id ls" using assms by (simp add: upd_lock_def comp_def)
  then have "set (map lock_id (upd_lock i f ls)) = set (map lock_id ls)" by (simp only:)
  then show "lock_id ` set (upd_lock i f ls) = lock_id ` set ls" by simp
qed

lemma rec_not_tab:
  assumes "sys_wf s" "l \<in> set (rec_locks s)"
  shows "lock_id l \<notin> lock_id ` set (tab_locks s)"
  using assms by (auto simp: sys_wf_def all_locks_def)

text \<open>A record lock that stops waiting; \<open>f\<close> clears its wait flag and may clear its bits.\<close>

lemma link_end_wait:
  assumes wf: "sys_wf s" and lk: "link X s" and l: "l \<in> set (rec_locks s)" "lock_get_wait l"
    and f: "\<not> lock_get_wait (f l)"
  shows "link X (s\<lparr>rec_locks := upd_lock (lock_id l) f (rec_locks s),
      trxs := (trxs s)(lock_trx l := trxs s (lock_trx l)\<lparr>wait_lock := None, que_lock_wait := False\<rparr>)\<rparr>)"
    (is "link X ?s")
proof -
  note mem = upd_lock_mem [OF sys_wf_rec [OF wf] l(1), of _ f]
  have d: "distinct (map lock_id (all_locks s))" using wf by (simp add: sys_wf_def)
  have la: "l \<in> set (all_locks s)" using l(1) by (simp add: all_locks_def)
  have other: "lock_trx l' \<noteq> lock_trx l" if "l' \<in> set (all_locks s)" "lock_get_wait l'" "l' \<noteq> l" for l'
  proof
    have "wait_lock (trxs s (lock_trx l')) = Some (lock_id l')" "wait_lock (trxs s (lock_trx l)) = Some (lock_id l)"
      using lk that la l(2) by (simp_all add: link_def)
    moreover assume "lock_trx l' = lock_trx l"
    ultimately have "lock_id l' = lock_id l" by simp
    with id_unique [OF d that(1) la] that(3) show False by simp
  qed
  have all: "l' \<in> set (all_locks ?s) \<longleftrightarrow> l' = f l \<or> (l' \<in> set (all_locks s) \<and> l' \<noteq> l)" for l'
    using rec_not_tab [OF wf l(1)] by (auto simp: all_locks_def mem)
  show ?thesis
    unfolding link_def
  proof (intro conjI ballI allI impI)
    fix l' assume "l' \<in> set (all_locks ?s)" "lock_get_wait l'"
    with f have "l' \<in> set (all_locks s)" "lock_get_wait l'" "l' \<noteq> l" by (auto simp: all)
    with other [OF this] lk show "lock_trx l' \<notin> X" "wait_lock (trxs ?s (lock_trx l')) = Some (lock_id l')"
      "que_lock_wait (trxs ?s (lock_trx l'))" by (auto simp: link_def)
  next
    fix t assume "t \<notin> X" "que_lock_wait (trxs ?s t)"
    then have "t \<noteq> lock_trx l" "que_lock_wait (trxs s t)" by (auto split: if_splits)
    with lk \<open>t \<notin> X\<close> obtain l' where "l' \<in> set (all_locks s)" "lock_trx l' = t" "lock_get_wait l'" by (auto simp: link_def)
    with \<open>t \<noteq> lock_trx l\<close> show "\<exists>l \<in> set (all_locks ?s). lock_trx l = t \<and> lock_get_wait l" by (auto simp: all)
  qed
qed

lemma sys_wf_upd:
  assumes "sys_wf s" and "\<And>l. lock_id (f l) = lock_id l" and "\<And>l. l \<in> set (rec_locks s) \<Longrightarrow> rlock_wf l \<Longrightarrow> rlock_wf (f l)"
  shows "sys_wf (s\<lparr>rec_locks := upd_lock i f (rec_locks s), trxs := T\<rparr>)"
proof -
  have "map lock_id (upd_lock i f ls) = map lock_id ls" for ls using upd_lock_ids(1) [of f] assms(2) .
  moreover have "lock_id (if lock_id l = i then f l else l) = lock_id l" for l by (simp add: assms(2))
  ultimately show ?thesis using assms by (auto simp: sys_wf_def all_locks_def upd_lock_def comp_def)
qed

lemma grant_eq:
  assumes wf: "sys_wf s" and l: "l \<in> set (rec_locks s)"
  shows "lock_grant l s = s\<lparr>rec_locks := upd_lock (lock_id l) granted_form (rec_locks s),
      trxs := (trxs s)(lock_trx l := trxs s (lock_trx l)\<lparr>wait_lock := None, que_lock_wait := False\<rparr>)\<rparr>"
proof -
  have "lock_get_mode l \<noteq> LOCK_AUTO_INC" using wf l by (auto simp: sys_wf_def rlock_wf_def lock_consts)
  then show ?thesis
    using rec_not_tab [OF assms]
    by (simp add: lock_grant_def lock_reset_lock_and_trx_wait_def trx_end_lock_wait_def Let_def upd_lock_fresh)
qed

lemma granted_form_wf: "rlock_wf l \<Longrightarrow> rlock_wf (granted_form l)"
  by (simp add: rlock_wf_def reset_wait_simps)

lemma inv_grant:
  assumes inv: "inv_on B X s" and l: "l \<in> set (rec_locks s)" "lock_get_wait l"
    and free: "\<not> lock_rec_has_to_wait_in_queue s l"
  shows "inv_on (insert (lock_id l) B) X (lock_grant l s)"
proof -
  have wf: "sys_wf s" and q: "queue_ok B (rec_locks s)" and lk: "link X s" using inv by (simp_all add: inv_on_def)
  note d = sys_wf_rec [OF wf]
  let ?f = "\<lambda>l'. if lock_id l' = lock_id l then granted_form l' else l'"
  have f: "?f l' = (if l' = l then granted_form l else l')" if "l' \<in> set (rec_locks s)" for l'
    using id_unique [OF d that l(1)] by auto
  have "queue_ok B (map ?f (rec_locks s))"
  proof (rule queue_ok_map [OF q])
    fix xs l' ys h assume ls: "rec_locks s = xs @ l' # ys" and w: "lock_get_wait l'" "\<not> lock_get_wait (?f l')"
    then have "l' \<in> set (rec_locks s)" by simp
    with f [OF this] w have e: "l' = l" by (auto split: if_splits)
    have "single_bit l" using q ls l(2) by (auto simp: queue_ok_def fits_def e)
    then show "\<not> blocked_by xs l'" using free has_to_wait_blocked [OF ls d] by (simp add: e)
  next
    fix l1 l2 assume "l1 \<in> set (rec_locks s)" "l2 \<in> set (rec_locks s)"
    then show "lock_mode_compatible (lock_get_mode l1) (lock_get_mode l2) = lock_mode_compatible (lock_get_mode l2) (lock_get_mode l1)"
      using wf by (intro rec_mode_sym) (auto simp: sys_wf_def)
  qed (auto simp: reset_wait_simps split: if_splits)
  then have "queue_ok B (rec_locks (lock_grant l s))" by (simp add: grant_eq [OF wf l(1)] upd_lock_def)
  moreover have "\<not> lock_get_wait w" if "w \<in> set (rec_locks (lock_grant l s))" "lock_id w = lock_id l" for w
    using that id_unique [OF d _ l(1), of w] upd_lock_mem [OF d l(1)]
    by (auto simp: grant_eq [OF wf l(1)] reset_wait_simps)
  ultimately have "queue_ok (insert (lock_id l) B) (rec_locks (lock_grant l s))"
    by (intro queue_ok_insert) auto
  then show ?thesis
    using link_end_wait [OF wf lk l, of granted_form] sys_wf_upd [OF wf, of granted_form]
    by (simp add: inv_on_def grant_eq [OF wf l(1)] reset_wait_simps granted_form_wf)
qed

lemma inv_grant_waiting:
  "inv_on B X s \<Longrightarrow> set ids \<subseteq> lock_id ` set (rec_locks s) \<Longrightarrow>
   inv_on (set ids \<union> B) X (grant_waiting ids s) \<and> page_n_heap (grant_waiting ids s) = page_n_heap s"
proof (induction ids arbitrary: B s)
  case (Cons i ids)
  have wf: "sys_wf s" and q: "queue_ok B (rec_locks s)" using Cons.prems(1) by (simp_all add: inv_on_def)
  obtain l where l: "l \<in> set (rec_locks s)" "i = lock_id l" using Cons.prems(2) by auto
  then have by_id: "lock_by_id s i = Some l"
    using wf by (simp add: lock_by_id_in sys_wf_def all_locks_def)
  show ?case
  proof (cases "lock_get_wait l \<and> \<not> lock_rec_has_to_wait_in_queue s l")
    case True
    have "lock_id ` set (rec_locks (lock_grant l s)) = lock_id ` set (rec_locks s)"
      by (simp add: grant_eq [OF wf l(1)] upd_lock_ids)
    then have "set ids \<subseteq> lock_id ` set (rec_locks (lock_grant l s))" using Cons.prems(2) by simp
    from Cons.IH [OF inv_grant [OF Cons.prems(1) l(1)] this] True show ?thesis
      by (simp add: by_id [unfolded l(2)] l(2) grant_eq [OF wf l(1)] Un_commute)
  next
    case False
    have "queue_ok (insert i B) (rec_locks s)"
    proof (rule queue_ok_insert [OF q])
      fix xs w ys assume ls: "rec_locks s = xs @ w # ys" and w: "lock_id w = i" "lock_get_wait w"
      then have "w = l" using id_unique [OF sys_wf_rec [OF wf] _ l(1), of w] l(2) by simp
      moreover have "single_bit w" using q ls w(2) by (auto simp: queue_ok_def fits_def)
      ultimately show "blocked_by xs w"
        using False w(2) has_to_wait_blocked [OF ls sys_wf_rec [OF wf]] by simp
    qed
    then have "inv_on (insert i B) X s" using Cons.prems(1) by (simp add: inv_on_def)
    from Cons.IH [OF this] Cons.prems(2) False show ?thesis by (auto simp: by_id)
  qed
qed simp

section \<open>Releases\<close>

lemma discard_all: "set (all_locks (lock_rec_discard l s)) = {l' \<in> set (rec_locks s). lock_id l' \<noteq> lock_id l} \<union> set (tab_locks s)"
  by (auto simp: lock_rec_discard_def Let_def all_locks_def)

lemma discard_wf:
  assumes "sys_wf s"
  shows "sys_wf (lock_rec_discard l s)"
proof -
  have r: "rec_locks (lock_rec_discard l s) = filter (\<lambda>l'. lock_id l' \<noteq> lock_id l) (rec_locks s)"
    "tab_locks (lock_rec_discard l s) = tab_locks s" "next_id (lock_rec_discard l s) = next_id s"
    by (simp_all add: lock_rec_discard_def Let_def)
  have "distinct (map lock_id (filter (\<lambda>l'. lock_id l' \<noteq> lock_id l) (rec_locks s)))"
    by (rule distinct_map_filter [OF sys_wf_rec [OF assms]])
  then show ?thesis
    using assms unfolding sys_wf_def all_locks_def r by auto
qed

lemma discard_mem:
  assumes "sys_wf s" "l \<in> set (rec_locks s)"
  shows "l' \<in> set (all_locks (lock_rec_discard l s)) \<longleftrightarrow> l' \<in> set (all_locks s) \<and> l' \<noteq> l"
proof -
  have "l' = l" if "l' \<in> set (rec_locks s)" "lock_id l' = lock_id l"
    using id_unique [OF sys_wf_rec [OF assms(1)] that(1) assms(2) that(2)] .
  moreover have "l' \<noteq> l" if "l' \<in> set (tab_locks s)" using rec_not_tab [OF assms] that by blast
  moreover have "l' \<in> set (all_locks (lock_rec_discard l s)) \<longleftrightarrow> (l' \<in> set (rec_locks s) \<and> lock_id l' \<noteq> lock_id l) \<or> l' \<in> set (tab_locks s)"
    unfolding discard_all by blast
  moreover have "l' \<in> set (all_locks s) \<longleftrightarrow> l' \<in> set (rec_locks s) \<or> l' \<in> set (tab_locks s)" by (simp add: all_locks_def)
  ultimately show ?thesis by blast
qed

lemma inv_discard:
  assumes inv: "lock_inv s" and l: "l \<in> set (rec_locks s)"
  shows "inv_on {i. \<forall>w \<in> set (rec_locks s). lock_id w = i \<longrightarrow> \<not> same_page w l} (if lock_get_wait l then {lock_trx l} else {})
     (lock_rec_discard l s)" (is "inv_on ?B ?X ?s")
proof -
  have wf: "sys_wf s" and q: "queue_ok UNIV (rec_locks s)" and lk: "link {} s" using inv by (simp_all add: lock_inv_iff inv_on_def)
  note d = sys_wf_rec [OF wf]
  have da: "distinct (map lock_id (all_locks s))" using wf by (simp add: sys_wf_def)
  have la: "l \<in> set (all_locks s)" using l by (simp add: all_locks_def)
  note ne = discard_mem [OF wf l]
  have "sys_wf ?s"
    by (rule discard_wf [OF wf])
  moreover have "queue_ok ?B (rec_locks ?s)"
    using queue_ok_remove [OF q d l] by (simp add: lock_rec_discard_def Let_def)
  moreover have "link ?X ?s"
    unfolding link_def
  proof (intro conjI ballI allI impI)
    fix l' assume l': "l' \<in> set (all_locks ?s)" "lock_get_wait l'"
    then have a: "l' \<in> set (all_locks s)" "l' \<noteq> l" by (simp_all add: ne)
    then have w: "wait_lock (trxs s (lock_trx l')) = Some (lock_id l')" "que_lock_wait (trxs s (lock_trx l'))"
      using lk l'(2) by (auto simp: link_def)
    show "wait_lock (trxs ?s (lock_trx l')) = Some (lock_id l')" "que_lock_wait (trxs ?s (lock_trx l'))"
      using w by (auto simp: lock_rec_discard_def Let_def)
    have "lock_trx l' \<noteq> lock_trx l" if "lock_get_wait l"
    proof
      assume "lock_trx l' = lock_trx l"
      then have "lock_id l' = lock_id l" using w(1) lk la that by (simp add: link_def)
      with id_unique [OF da a(1) la] a(2) show False by simp
    qed
    then show "lock_trx l' \<notin> ?X" by auto
  next
    fix t assume t: "t \<notin> ?X" "que_lock_wait (trxs ?s t)"
    then have "que_lock_wait (trxs s t)" by (auto simp: lock_rec_discard_def Let_def split: if_splits)
    then obtain l' where l': "l' \<in> set (all_locks s)" "lock_trx l' = t" "lock_get_wait l'" using lk by (auto simp: link_def)
    then have "l' \<noteq> l" using t(1) by auto
    with l' show "\<exists>l \<in> set (all_locks ?s). lock_trx l = t \<and> lock_get_wait l" by (auto simp: ne)
  qed
  ultimately show ?thesis by (simp add: inv_on_def)
qed

lemma inv_on_UNIV:
  assumes "inv_on B X s" and "\<And>l. l \<in> set (rec_locks s) \<Longrightarrow> lock_get_wait l \<Longrightarrow> lock_id l \<in> B"
  shows "inv_on UNIV X s"
proof -
  have "queue_ok UNIV (rec_locks s)" unfolding queue_ok_def
  proof (intro allI impI)
    fix xs w ys assume ls: "rec_locks s = xs @ w # ys"
    then have "fits B xs w" using assms(1) by (simp add: inv_on_def queue_ok_def)
    then show "fits UNIV xs w" using assms(2) [of w] ls by (auto simp: fits_def)
  qed
  then show ?thesis using assms(1) by (simp add: inv_on_def)
qed

lemma grant_ids: "lock_id ` set (rec_locks (lock_grant l s)) = lock_id ` set (rec_locks s)"
  by (simp add: lock_grant_def lock_reset_lock_and_trx_wait_def trx_end_lock_wait_def Let_def upd_lock_ids)

lemma grant_waiting_ids: "lock_id ` set (rec_locks (grant_waiting ids s)) = lock_id ` set (rec_locks s)"
  by (induction ids arbitrary: s) (auto simp: grant_ids split: option.splits)

lemma inv_dequeue:
  assumes inv: "lock_inv s" and l: "l \<in> set (rec_locks s)"
  shows "inv_on UNIV (if lock_get_wait l then {lock_trx l} else {}) (lock_rec_dequeue_from_page l s)"
    "page_n_heap (lock_rec_dequeue_from_page l s) = page_n_heap s"
proof -
  let ?s = "lock_rec_discard l s"
  let ?B = "{i. \<forall>w \<in> set (rec_locks s). lock_id w = i \<longrightarrow> \<not> same_page w l}"
  let ?ids = "map lock_id (page_queue ?s (rl_space l) (rl_page_no l))"
  have d: "distinct (map lock_id (rec_locks s))" using inv by (simp add: lock_inv_def sys_wf_rec)
  have sub: "set ?ids \<subseteq> lock_id ` set (rec_locks ?s)" by (auto simp: page_queue_def)
  note g = inv_grant_waiting [OF inv_discard [OF inv l] sub]
  have dq: "lock_rec_dequeue_from_page l s = grant_waiting ?ids ?s" by (simp add: lock_rec_dequeue_from_page_def Let_def)
  show "inv_on UNIV (if lock_get_wait l then {lock_trx l} else {}) (lock_rec_dequeue_from_page l s)"
    unfolding dq
  proof (rule inv_on_UNIV [OF conjunct1 [OF g]])
    fix w assume "w \<in> set (rec_locks (grant_waiting ?ids ?s))"
    then obtain w' where w': "w' \<in> set (rec_locks ?s)" "lock_id w' = lock_id w"
      using grant_waiting_ids [of ?ids ?s] by (metis image_iff)
    then have ws: "w' \<in> set (rec_locks s)" by (auto simp: lock_rec_discard_def Let_def)
    show "lock_id w \<in> set ?ids \<union> ?B"
    proof (cases "same_page w' l")
      case True
      then have "w' \<in> set (page_queue ?s (rl_space l) (rl_page_no l))" using w'(1) by (simp add: page_queue_def same_page_def)
      then show ?thesis unfolding w'(2) [symmetric] set_map by blast
    next
      case False
      then show ?thesis using id_unique [OF d _ ws] w'(2) by auto
    qed
  qed
  show "page_n_heap (lock_rec_dequeue_from_page l s) = page_n_heap s"
    unfolding dq using conjunct2 [OF g] by (simp add: lock_rec_discard_def Let_def)
qed

end
