(* ===== verification/Lock_Release.thy ===== *)
theory Lock_Release
  imports Lock_Safety
begin

text \<open>
  The invariant of the lock queues under cancels, releases and the passing on of locks to other
  records.
\<close>

section \<open>Cancelling a wait\<close>

lemma grant_waiting_all_ids:
  "lock_id ` set (all_locks (grant_waiting ids s)) = lock_id ` set (all_locks s)"
proof (induction ids arbitrary: s)
  case (Cons i ids)
  have "lock_id ` set (all_locks (lock_grant l s)) = lock_id ` set (all_locks s)" for l
    by (simp add: lock_grant_def lock_reset_lock_and_trx_wait_def trx_end_lock_wait_def Let_def all_locks_def
        image_Un upd_lock_ids)
  then show ?case by (simp add: Cons.IH split: option.split)
qed simp

lemma dequeue_gone:
  assumes "sys_wf s" "l \<in> set (rec_locks s)"
  shows "lock_id l \<notin> lock_id ` set (all_locks (lock_rec_dequeue_from_page l s))"
  using rec_not_tab [OF assms] unfolding lock_rec_dequeue_from_page_def Let_def grant_waiting_all_ids discard_all
  by auto

lemma link_end_gone:
  assumes "link {t} s" "set (all_locks s') = set (all_locks s)"
    "trxs s' = (trxs s)(t := tr)" "\<not> que_lock_wait tr"
  shows "link {} s'"
  using assms by (auto simp: link_def)

lemma inv_cancel_waiting:
  assumes inv: "lock_inv s" and l: "l \<in> set (rec_locks s)" "lock_get_wait l"
  shows "lock_inv (lock_cancel_waiting_rec l s)" "page_n_heap (lock_cancel_waiting_rec l s) = page_n_heap s"
proof -
  let ?s = "lock_rec_dequeue_from_page l s"
  have wf: "sys_wf s" using inv by (simp add: lock_inv_def)
  have d: "inv_on UNIV {lock_trx l} ?s" using inv_dequeue(1) [OF inv l(1)] l(2) by simp
  have gone: "lock_id l \<notin> lock_id ` set (rec_locks ?s)" "lock_id l \<notin> lock_id ` set (tab_locks ?s)"
    using dequeue_gone [OF wf l(1)] by (auto simp: all_locks_def)
  have e: "lock_cancel_waiting_rec l s =
      ?s\<lparr>trxs := (trxs ?s)(lock_trx l := trxs ?s (lock_trx l)\<lparr>wait_lock := None, que_lock_wait := False\<rparr>)\<rparr>"
    using gone by (simp add: lock_cancel_waiting_rec_def lock_reset_lock_and_trx_wait_def trx_end_lock_wait_def Let_def
        upd_lock_fresh)
  have "link {} (lock_cancel_waiting_rec l s)"
    by (rule link_end_gone [of "lock_trx l" ?s _ "trxs ?s (lock_trx l)\<lparr>wait_lock := None, que_lock_wait := False\<rparr>"]) (use d in \<open>simp_all add: inv_on_def e all_locks_def\<close>)
  then show "lock_inv (lock_cancel_waiting_rec l s)"
    using d by (simp add: lock_inv_iff inv_on_def e sys_wf_def all_locks_def)
  show "page_n_heap (lock_cancel_waiting_rec l s) = page_n_heap s"
    by (simp add: e inv_dequeue(2) [OF inv l(1)])
qed

lemma upd_lock_upd:
  assumes "\<And>l. lock_id (g l) = lock_id l"
  shows "upd_lock i f (upd_lock i g ls) = upd_lock i (\<lambda>l. f (g l)) ls"
  using assms by (simp add: upd_lock_def)

section \<open>The locks on a record that goes\<close>

definition on_rec :: "rec_addr \<Rightarrow> lock \<Rightarrow> bool" where
  "on_rec r l \<longleftrightarrow> rl_space l = r_space r \<and> rl_page_no l = r_page_no r \<and> lock_rec_get_nth_bit l (r_heap_no r)"

text \<open>One turn of the loop of \<open>lock_rec_reset_and_release_wait\<close>.\<close>

definition release_step :: "rec_addr \<Rightarrow> lock \<Rightarrow> lock_sys \<Rightarrow> lock_sys" where
  "release_step r l s = (if lock_get_wait l then lock_rec_cancel l s
     else s\<lparr>rec_locks := upd_lock (lock_id l) (\<lambda>l. lock_rec_reset_nth_bit l (r_heap_no r)) (rec_locks s)\<rparr>)"

definition gone_form :: "rec_addr \<Rightarrow> lock \<Rightarrow> lock" where
  "gone_form r l = (if lock_get_wait l then granted_form (lock_rec_reset_nth_bit l (r_heap_no r))
     else lock_rec_reset_nth_bit l (r_heap_no r))"

lemma type_mode_bits [simp]: "lock_rec_get_nth_bit (l\<lparr>type_mode := x\<rparr>) h \<longleftrightarrow> lock_rec_get_nth_bit l h"
  by (simp add: lock_rec_get_nth_bit_def)

lemma gone_form_simps:
  "lock_id (gone_form r l) = lock_id l" "lock_trx (gone_form r l) = lock_trx l"
  "rl_space (gone_form r l) = rl_space l" "rl_page_no (gone_form r l) = rl_page_no l"
  "lock_get_mode (gone_form r l) = lock_get_mode l" "lock_rec_get_gap (gone_form r l) = lock_rec_get_gap l"
  "\<not> lock_get_wait (gone_form r l)" "rlock_wf l \<Longrightarrow> rlock_wf (gone_form r l)"
  by (simp_all add: gone_form_def reset_wait_simps set_nth_bit_rest rlock_wf_def
      lock_get_wait_def lock_get_mode_def lock_rec_get_gap_def lock_get_type_def type_mode_and_not)

lemma gone_form_bits:
  "rlock_wf l \<Longrightarrow> on_rec r l \<Longrightarrow> lock_rec_get_nth_bit (gone_form r l) h \<longleftrightarrow> h \<noteq> r_heap_no r \<and> lock_rec_get_nth_bit l h"
  using get_set_nth_bit(2) [of l "r_heap_no r" h] nth_bit_bound [of l "r_heap_no r"]
  by (simp add: gone_form_def rlock_wf_def on_rec_def)

lemma release_step_eq:
  assumes wf: "sys_wf s" and l: "l \<in> set (rec_locks s)" "on_rec r l" and sb: "lock_get_wait l \<longrightarrow> single_bit l"
  shows "release_step r l s = s\<lparr>rec_locks := upd_lock (lock_id l) (gone_form r) (rec_locks s),
      trxs := (if lock_get_wait l
        then (trxs s)(lock_trx l := trxs s (lock_trx l)\<lparr>wait_lock := None, que_lock_wait := False\<rparr>) else trxs s)\<rparr>"
proof -
  have d: "distinct (map lock_id (rec_locks s))" by (rule sys_wf_rec [OF wf])
  have same: "upd_lock (lock_id l) f (rec_locks s) = upd_lock (lock_id l) g (rec_locks s)" if "f l = g l" for f g
    unfolding upd_lock_def
    by (rule map_cong) (use that id_unique [OF d _ l(1)] in auto)
  show ?thesis
  proof (cases "lock_get_wait l")
    case True
    from sb True l(2) have "\<And>h. lock_rec_get_nth_bit l h \<longleftrightarrow> h = r_heap_no r"
      by (auto simp: single_bit_def on_rec_def)
    then have "lock_rec_find_set_bit l = Some (r_heap_no r)"
      using find_set_bit [of l] by (cases "lock_rec_find_set_bit l") auto
    moreover have "upd_lock (lock_id l) (\<lambda>l. granted_form (lock_rec_reset_nth_bit l (r_heap_no r))) (rec_locks s) =
        upd_lock (lock_id l) (gone_form r) (rec_locks s)"
      by (rule same) (simp add: gone_form_def True)
    ultimately show ?thesis using True rec_not_tab [OF wf l(1)]
      by (simp add: release_step_def lock_rec_cancel_def Let_def lock_reset_lock_and_trx_wait_def trx_end_lock_wait_def
          upd_lock_upd upd_lock_fresh)
  next
    case False
    have "upd_lock (lock_id l) (\<lambda>l. lock_rec_reset_nth_bit l (r_heap_no r)) (rec_locks s) =
        upd_lock (lock_id l) (gone_form r) (rec_locks s)"
      by (rule same) (simp add: gone_form_def False)
    with False show ?thesis by (simp add: release_step_def)
  qed
qed

lemma inv_release_step:
  assumes inv: "inv_on B {} s" and l: "l \<in> set (rec_locks s)" "on_rec r l"
    and B: "\<And>w. w \<in> set (rec_locks s) \<Longrightarrow> lock_get_wait w \<Longrightarrow> on_rec r w \<Longrightarrow> lock_id w \<notin> B"
  shows "inv_on (insert (lock_id l) B) {} (release_step r l s)"
proof -
  have wf: "sys_wf s" and q: "queue_ok B (rec_locks s)" and lk: "link {} s" using inv by (simp_all add: inv_on_def)
  note d = sys_wf_rec [OF wf]
  have rw: "rlock_wf l'" if "l' \<in> set (rec_locks s)" for l' using wf that by (simp add: sys_wf_def)
  have sb: "lock_get_wait w \<longrightarrow> single_bit w" if "w \<in> set (rec_locks s)" for w
    using q that split_list [OF that] by (auto simp: queue_ok_def fits_def)
  note e = release_step_eq [OF wf l sb [OF l(1)]]
  define f where "f = (\<lambda>l'. if lock_id l' = lock_id l then gone_form r l' else l')"
  have f: "f l' = (if l' = l then gone_form r l else l')" if "l' \<in> set (rec_locks s)" for l'
    using id_unique [OF d that l(1)] by (auto simp: f_def)
  have bits: "lock_rec_get_nth_bit (f l') h \<longleftrightarrow> lock_rec_get_nth_bit l' h \<and> (l' = l \<longrightarrow> h \<noteq> r_heap_no r)"
    if "l' \<in> set (rec_locks s)" for l' h
    using f [OF that] gone_form_bits [OF rw [OF l(1)] l(2)] by auto
  have wait: "lock_get_wait (f l') \<longleftrightarrow> lock_get_wait l' \<and> l' \<noteq> l" if "l' \<in> set (rec_locks s)" for l'
    using f [OF that] by (auto simp: gone_form_simps)
  have "queue_ok B (map f (rec_locks s))"
  proof (rule queue_ok_map [OF q])
    fix xs l' ys h assume ls: "rec_locks s = xs @ l' # ys" and w: "lock_get_wait l'" "\<not> lock_get_wait (f l')"
      "lock_rec_get_nth_bit (f l') h"
    have l': "l' \<in> set (rec_locks s)" using ls by simp
    with w wait have "l' = l" by auto
    with sb [OF l'] w(1) l(2) bits [OF l', of h] w(3) show "\<not> blocked_by xs l'"
      by (auto simp: single_bit_def on_rec_def)
  next
    fix w l' h assume a: "w \<in> set (rec_locks s)" "l' \<in> set (rec_locks s)" "lock_get_wait (f w)" "lock_id w \<in> B"
      "same_page w l'" "lock_rec_get_nth_bit w h" "lock_rec_get_nth_bit l' h"
    then have "\<not> on_rec r w" using B wait [OF a(1)] by auto
    then show "lock_rec_get_nth_bit (f l') h"
      using a bits [OF a(2)] l(2) by (auto simp: on_rec_def same_page_def)
  next
    fix l1 l2 assume "l1 \<in> set (rec_locks s)" "l2 \<in> set (rec_locks s)"
    then show "lock_mode_compatible (lock_get_mode l1) (lock_get_mode l2) = lock_mode_compatible (lock_get_mode l2) (lock_get_mode l1)"
      by (intro rec_mode_sym rw)
  qed (use bits wait in \<open>auto simp: f_def gone_form_simps\<close>)
  then have "queue_ok B (rec_locks (release_step r l s))" by (simp add: e upd_lock_def f_def)
  moreover have "\<not> lock_get_wait w" if "w \<in> set (rec_locks (release_step r l s))" "lock_id w = lock_id l" for w
    using that id_unique [OF d _ l(1), of w] by (auto simp: e upd_lock_mem [OF d l(1)] gone_form_simps)
  ultimately have "queue_ok (insert (lock_id l) B) (rec_locks (release_step r l s))"
    by (intro queue_ok_insert) auto
  moreover have "sys_wf (release_step r l s)"
    unfolding e by (rule sys_wf_upd [OF wf]) (simp_all add: gone_form_simps)
  moreover have "link {} (release_step r l s)"
  proof (cases "lock_get_wait l")
    case True
    then show ?thesis using link_end_wait [OF wf lk l(1) True, of "gone_form r"] by (simp add: e gone_form_simps)
  next
    case False
    have "set (all_locks (release_step r l s)) = insert (gone_form r l) (set (all_locks s) - {l})"
      using rec_not_tab [OF wf l(1)] l(1) by (auto simp: e all_locks_def upd_lock_mem [OF d l(1)])
    with False lk show ?thesis
      by (auto simp: link_def e gone_form_simps)
  qed
  ultimately show ?thesis by (simp add: inv_on_def)
qed

lemma insert_compl: "a \<notin> X \<Longrightarrow> insert a (- insert a X) = - X"
  by auto

lemma inv_release_loop:
  "inv_on (- lock_id ` set qs) {} s \<Longrightarrow> set qs \<subseteq> {l \<in> set (rec_locks s). on_rec r l} \<Longrightarrow> distinct (map lock_id qs) \<Longrightarrow>
   (\<And>w. w \<in> set (rec_locks s) \<Longrightarrow> lock_get_wait w \<Longrightarrow> on_rec r w \<Longrightarrow> w \<in> set qs) \<Longrightarrow>
   inv_on UNIV {} (fold (release_step r) qs s) \<and> page_n_heap (fold (release_step r) qs s) = page_n_heap s"
proof (induction qs arbitrary: s)
  case (Cons l qs)
  have wf: "sys_wf s" using Cons.prems(1) by (simp add: inv_on_def)
  have l: "l \<in> set (rec_locks s)" "on_rec r l" using Cons.prems(2) by auto
  have q: "queue_ok (- lock_id ` set (l # qs)) (rec_locks s)" using Cons.prems(1) by (simp add: inv_on_def)
  have sb: "lock_get_wait l \<longrightarrow> single_bit l"
    using q split_list [OF l(1)] by (auto simp: queue_ok_def fits_def)
  note e = release_step_eq [OF wf l sb]
  note mem = upd_lock_mem [OF sys_wf_rec [OF wf] l(1), of _ "gone_form r"]
  have B: "insert (lock_id l) (- lock_id ` set (l # qs)) = - lock_id ` set qs"
  proof -
    have "lock_id l \<notin> set (map lock_id qs)" using Cons.prems(3) by simp
    then show ?thesis unfolding set_map list.set image_insert by (rule insert_compl)
  qed
  have "inv_on (- lock_id ` set qs) {} (release_step r l s)"
    unfolding B [symmetric] by (rule inv_release_step [OF Cons.prems(1) l]) (use Cons.prems(4) in auto)
  moreover have "set qs \<subseteq> {l' \<in> set (rec_locks (release_step r l s)). on_rec r l'}"
    using Cons.prems(2,3) by (auto simp: e mem)
  moreover have "w \<in> set qs" if "w \<in> set (rec_locks (release_step r l s))" "lock_get_wait w" "on_rec r w" for w
    using that Cons.prems(4) [of w] by (auto simp: e mem gone_form_simps)
  ultimately have "inv_on UNIV {} (fold (release_step r) qs (release_step r l s)) \<and>
      page_n_heap (fold (release_step r) qs (release_step r l s)) = page_n_heap (release_step r l s)"
    using Cons.prems(3) by (intro Cons.IH) auto
  then show ?case by (simp add: e)
qed simp

lemma inv_reset_and_release:
  assumes inv: "lock_inv s"
  shows "lock_inv (lock_rec_reset_and_release_wait r s)" "page_n_heap (lock_rec_reset_and_release_wait r s) = page_n_heap s"
proof -
  have q: "set (rec_queue s r) = {l \<in> set (rec_locks s). on_rec r l}" by (auto simp: rec_queue_iff on_rec_def)
  have d: "distinct (map lock_id (rec_queue s r))"
    using inv by (simp add: rec_queue_def page_queue_def distinct_map_filter lock_inv_def sys_wf_rec)
  have "inv_on UNIV {} s" using inv by (simp add: lock_inv_iff)
  then have "inv_on (- lock_id ` set (rec_queue s r)) {} s" using queue_ok_mono by (auto simp: inv_on_def)
  from inv_release_loop [OF this, of r] q d
  have "inv_on UNIV {} (fold (release_step r) (rec_queue s r) s) \<and>
      page_n_heap (fold (release_step r) (rec_queue s r) s) = page_n_heap s" by auto
  moreover have "lock_rec_reset_and_release_wait r s = fold (release_step r) (rec_queue s r) s"
    by (simp add: lock_rec_reset_and_release_wait_def release_step_def [abs_def])
  ultimately show "lock_inv (lock_rec_reset_and_release_wait r s)"
    "page_n_heap (lock_rec_reset_and_release_wait r s) = page_n_heap s" by (simp_all add: lock_inv_iff)
qed

section \<open>Locks passed on\<close>

lemma inherit_turn:
  assumes "lock_inv s" "heap_ok s heir" "rlock_wf l"
  shows "lock_inv (lock_rec_add_to_queue ((type_mode l OR LOCK_GAP) AND NOT LOCK_WAIT) heir (lock_index l) (lock_trx l) s)"
proof -
  have "rec_mode ((type_mode l OR LOCK_GAP) AND NOT LOCK_WAIT)"
    using assms(3) by (simp add: rec_mode_def rlock_wf_def lock_get_mode_def type_mode_or type_mode_and_not)
  moreover have "((type_mode l OR LOCK_GAP) AND NOT LOCK_WAIT) AND LOCK_GAP \<noteq> 0"
    unfolding type_mode_and_not by (rule type_mode_or)
  then have "admits s heir ((type_mode l OR LOCK_GAP) AND NOT LOCK_WAIT) (lock_trx l)"
    by (simp add: admits_def)
  ultimately show ?thesis
    using assms(1,2) by (auto simp: type_mode_and_not intro!: inv_add_to_queue)
qed

lemma inv_inherit:
  assumes inv: "lock_inv s" and r: "heap_ok s heir"
  shows "lock_inv (lock_rec_inherit_to_gap heir r s)" "page_n_heap (lock_rec_inherit_to_gap heir r s) = page_n_heap s"
proof -
  define f :: "lock \<Rightarrow> lock_sys \<Rightarrow> lock_sys"
    where "f = (\<lambda>l s. lock_rec_add_to_queue ((type_mode l OR LOCK_GAP) AND NOT LOCK_WAIT) heir (lock_index l) (lock_trx l) s)"
  have "lock_inv (fold f qs s') \<and> page_n_heap (fold f qs s') = page_n_heap s'"
    if "lock_inv s'" "heap_ok s' heir" "\<And>l. l \<in> set qs \<Longrightarrow> rlock_wf l" for qs :: "lock list" and s'
    using that
  proof (induction qs arbitrary: s')
    case (Cons l qs)
    have "lock_inv (f l s')" "page_n_heap (f l s') = page_n_heap s'"
      using Cons.prems by (simp_all add: f_def heap_frame inherit_turn)
    then show ?case using Cons.IH [of "f l s'"] Cons.prems(2,3) by (simp add: heap_ok_def)
  qed simp
  from this [OF inv r, of "rec_queue s r"]
  show "lock_inv (lock_rec_inherit_to_gap heir r s)" "page_n_heap (lock_rec_inherit_to_gap heir r s) = page_n_heap s"
    using rec_wf [OF inv] by (auto simp: lock_rec_inherit_to_gap_def f_def rec_queue_iff)
qed

lemma inv_convert:
  assumes inv: "lock_inv s" and r: "heap_ok s r" and ok: "\<And>t. impl = Some t \<Longrightarrow> admits s r LOCK_X t"
  shows "lock_inv (lock_rec_convert_impl_to_expl impl r index s)"
    "page_n_heap (lock_rec_convert_impl_to_expl impl r index s) = page_n_heap s"
proof -
  have "lock_inv (lock_rec_add_to_queue (LOCK_REC OR LOCK_X) r index t s)" if "impl = Some t" for t
    using mode_flags [of LOCK_X] ok [OF that] by (intro inv_add_to_queue [OF inv r]) (simp_all add: admits_def type_mode_or)
  then show "lock_inv (lock_rec_convert_impl_to_expl impl r index s)"
    "page_n_heap (lock_rec_convert_impl_to_expl impl r index s) = page_n_heap s"
    using inv by (auto simp: lock_rec_convert_impl_to_expl_def heap_frame split: option.split)
qed

end
