(* ===== verification/Lock_Table.thy ===== *)
theory Lock_Table
  imports Lock_Release
begin

text \<open>
  Table locks and the release of all locks of a transaction (\<open>lock0lock.cc\<close>), with what the code
  does where it differs from what a table lock means: \<open>lock_table_other_has_incompatible\<close> looks at
  the locks of the transaction itself, and \<open>lock_table_has_to_wait_in_queue\<close> always answers yes.
\<close>

section \<open>Operations\<close>

text \<open>
  \<open>auto_id\<close> is the lock object \<open>table->auto_inc_lock\<close>, allocated with the table. \<open>None\<close> is the failed
  assertion on \<open>trx->auto_inc_lock\<close>.
\<close>

definition lock_table_create :: "nat \<Rightarrow> nat \<Rightarrow> ulint \<Rightarrow> nat \<Rightarrow> lock_sys \<Rightarrow> (lock_sys \<times> nat) option" where
  "lock_table_create table auto_id tm t s =
     (if tm = LOCK_AUTO_INC \<and> auto_inc_lock (trxs s t) = None then None
      else let auto = (tm = LOCK_AUTO_INC);
               i = (if auto then auto_id else next_id s);
               l = \<lparr>lock_id = i, lock_trx = t, type_mode = tm OR LOCK_TABLE, lock_index = 0, rl_space = 0,
                    rl_page_no = 0, rl_n_bits = 0, rl_bitmap = [], tl_table = table\<rparr>;
               tr = trxs s t;
               tr = (if auto then tr\<lparr>auto_inc_lock := Some i\<rparr> else tr);
               tr = tr\<lparr>trx_locks := trx_locks tr @ [i]\<rparr>;
               s = s\<lparr>tab_locks := tab_locks s @ [l], next_id := (if auto then next_id s else i + 1),
                     trxs := (trxs s)(t := tr)\<rparr>
           in Some (if tm AND LOCK_WAIT \<noteq> 0 then lock_set_lock_and_trx_wait i t s else s, i))"

definition lock_table_remove_low :: "lock \<Rightarrow> lock_sys \<Rightarrow> lock_sys" where
  "lock_table_remove_low l s =
     (let t = lock_trx l; tr = trxs s t;
          tr = (if auto_inc_lock tr = Some (lock_id l) then tr\<lparr>auto_inc_lock := None\<rparr> else tr);
          tr = tr\<lparr>trx_locks := removeAll (lock_id l) (trx_locks tr)\<rparr>
      in s\<lparr>tab_locks := filter (\<lambda>l'. lock_id l' \<noteq> lock_id l) (tab_locks s), trxs := (trxs s)(t := tr)\<rparr>)"

definition lock_table_enqueue_waiting ::
    "ulint \<Rightarrow> nat \<Rightarrow> nat \<Rightarrow> nat \<Rightarrow> lock_sys \<Rightarrow> (lock_sys \<times> db_err) option" where
  "lock_table_enqueue_waiting mode table auto_id t s =
     (case lock_table_create table auto_id (mode OR LOCK_WAIT) t s of None \<Rightarrow> None
      | Some (s, i) \<Rightarrow> (case lock_by_id s i of None \<Rightarrow> None
        | Some l \<Rightarrow> (case lock_deadlock_occurs s l t of None \<Rightarrow> None
          | Some True \<Rightarrow> Some (lock_table_remove_low l (lock_reset_lock_and_trx_wait l s), DB_DEADLOCK)
          | Some False \<Rightarrow> Some (s\<lparr>trxs := (trxs s)(t := trxs s t\<lparr>que_lock_wait := True\<rparr>)\<rparr>, DB_LOCK_WAIT))))"

definition lock_table_other_has_incompatible :: "lock_sys \<Rightarrow> nat \<Rightarrow> bool \<Rightarrow> nat \<Rightarrow> ulint \<Rightarrow> bool" where
  "lock_table_other_has_incompatible s t wait table mode =
     list_ex (\<lambda>l. lock_trx l = t \<and> \<not> lock_mode_compatible (lock_get_mode l) mode \<and> (wait \<or> \<not> lock_get_wait l))
       (rev (table_queue s table))"

definition lock_table :: "ulint \<Rightarrow> nat \<Rightarrow> nat \<Rightarrow> ulint \<Rightarrow> nat \<Rightarrow> lock_sys \<Rightarrow> (lock_sys \<times> db_err) option" where
  "lock_table flags table auto_id mode t s =
     (if flags AND BTR_NO_LOCKING_FLAG \<noteq> 0 then Some (s, DB_SUCCESS)
      else if lock_table_has s t table mode \<noteq> None then Some (s, DB_SUCCESS)
      else if lock_table_other_has_incompatible s t True table mode
      then lock_table_enqueue_waiting mode table auto_id t s
      else map_option (\<lambda>(s, i). (s, DB_SUCCESS)) (lock_table_create table auto_id mode t s))"

definition lock_is_on_table :: "lock_sys \<Rightarrow> nat \<Rightarrow> bool" where
  "lock_is_on_table s table \<longleftrightarrow> table_queue s table \<noteq> []"

definition lock_table_has_to_wait_in_queue :: "lock_sys \<Rightarrow> lock \<Rightarrow> bool" where
  "lock_table_has_to_wait_in_queue s w =
     (if list_ex (lock_has_to_wait w) (takeWhile (\<lambda>l. lock_id l \<noteq> lock_id w) (table_queue s (tl_table w)))
      then True else True)"

text \<open>The loop of \<open>lock_table_dequeue\<close>, over the locks behind the one that is removed.\<close>

fun grant_table_waiting :: "nat list \<Rightarrow> lock_sys \<Rightarrow> lock_sys" where
  "grant_table_waiting [] s = s"
| "grant_table_waiting (i # ids) s =
     (case lock_by_id s i of None \<Rightarrow> grant_table_waiting ids s
      | Some l \<Rightarrow>
        if lock_get_wait l \<and> \<not> lock_table_has_to_wait_in_queue s l
        then grant_table_waiting ids (lock_grant l s)
        else grant_table_waiting ids s)"

definition lock_table_dequeue :: "lock \<Rightarrow> lock_sys \<Rightarrow> lock_sys" where
  "lock_table_dequeue l s =
     (let behind = tl (dropWhile (\<lambda>l'. lock_id l' \<noteq> lock_id l) (table_queue s (tl_table l)))
      in grant_table_waiting (map lock_id behind) (lock_table_remove_low l s))"

definition lock_table_unlock_auto_inc :: "nat \<Rightarrow> lock_sys \<Rightarrow> lock_sys" where
  "lock_table_unlock_auto_inc t s =
     (case auto_inc_lock (trxs s t) of None \<Rightarrow> s
      | Some i \<Rightarrow> (case lock_by_id s i of None \<Rightarrow> s | Some l \<Rightarrow> lock_table_dequeue l s))"

definition lock_dequeue :: "lock \<Rightarrow> lock_sys \<Rightarrow> lock_sys" where
  "lock_dequeue l s = (if lock_get_type l = LOCK_REC then lock_rec_dequeue_from_page l s else lock_table_dequeue l s)"

text \<open>
  \<open>lock_release_off_kernel\<close>: the loop ends when the transaction's list is empty. The pauses every
  1000 locks, in which others may take the kernel mutex, are left out.
\<close>

partial_function (option) lock_release_off_kernel :: "nat \<Rightarrow> lock_sys \<Rightarrow> lock_sys option" where
  "lock_release_off_kernel t s =
     (if trx_locks (trxs s t) = [] then Some s
      else case lock_by_id s (last (trx_locks (trxs s t))) of None \<Rightarrow> None
        | Some l \<Rightarrow> lock_release_off_kernel t (lock_dequeue l s))"

definition lock_cancel_waiting_and_release :: "lock \<Rightarrow> lock_sys \<Rightarrow> lock_sys" where
  "lock_cancel_waiting_and_release l s =
     trx_end_lock_wait (lock_trx l) (lock_reset_lock_and_trx_wait l (lock_dequeue l s))"

text \<open>\<open>lock_reset_all_on_table\<close>: \<open>in_table\<close> says which table an index belongs to.\<close>

definition lock_reset_all_on_table_for_trx :: "(nat \<Rightarrow> nat) \<Rightarrow> nat \<Rightarrow> nat \<Rightarrow> lock_sys \<Rightarrow> lock_sys option" where
  "lock_reset_all_on_table_for_trx in_table table t s =
     fold (\<lambda>i st. case st of None \<Rightarrow> None
        | Some s \<Rightarrow> (case lock_by_id s i of None \<Rightarrow> None
          | Some l \<Rightarrow>
            if lock_get_type l = LOCK_REC \<and> in_table (lock_index l) = table
            then if lock_get_wait l then None else Some (lock_rec_discard l s)
            else if lock_get_type l = LOCK_TABLE \<and> tl_table l = table
            then if lock_get_wait l then None else Some (lock_table_remove_low l s)
            else Some s))
       (rev (trx_locks (trxs s t))) (Some s)"

partial_function (option) lock_reset_all_on_table :: "(nat \<Rightarrow> nat) \<Rightarrow> nat \<Rightarrow> lock_sys \<Rightarrow> lock_sys option" where
  "lock_reset_all_on_table in_table table s =
     (case table_queue s table of [] \<Rightarrow> Some s
      | l # _ \<Rightarrow> if lock_get_wait l then None
          else (case lock_reset_all_on_table_for_trx in_table table (lock_trx l) s of None \<Rightarrow> None
            | Some s \<Rightarrow> lock_reset_all_on_table in_table table s))"

section \<open>Table locks and the invariant\<close>

lemma table_type_mode:
  "(tm OR LOCK_TABLE) AND LOCK_MODE_MASK = tm AND LOCK_MODE_MASK"
  "(tm OR LOCK_TABLE) AND LOCK_WAIT = tm AND LOCK_WAIT"
  by (simp_all add: lock_consts bit.conj_disj_distrib2)

text \<open>The loop never grants: a table lock that waits waits until it is cancelled.\<close>

lemma grant_table_waiting_id: "grant_table_waiting ids s = s"
  by (induction ids) (auto simp: lock_table_has_to_wait_in_queue_def split: option.split)

lemma table_dequeue_remove: "lock_table_dequeue l s = lock_table_remove_low l s"
  by (simp add: lock_table_dequeue_def Let_def grant_table_waiting_id)

definition new_table_lock :: "nat \<Rightarrow> nat \<Rightarrow> ulint \<Rightarrow> nat \<Rightarrow> lock" where
  "new_table_lock i table tm t = \<lparr>lock_id = i, lock_trx = t, type_mode = tm OR LOCK_TABLE, lock_index = 0,
     rl_space = 0, rl_page_no = 0, rl_n_bits = 0, rl_bitmap = [], tl_table = table\<rparr>"

lemma new_table_lock_simps [simp]:
  "lock_id (new_table_lock i table tm t) = i" "lock_trx (new_table_lock i table tm t) = t"
  "tl_table (new_table_lock i table tm t) = table" "lock_get_mode (new_table_lock i table tm t) = tm AND LOCK_MODE_MASK"
  "lock_get_wait (new_table_lock i table tm t) \<longleftrightarrow> tm AND LOCK_WAIT \<noteq> 0"
  by (simp_all add: new_table_lock_def lock_get_mode_def lock_get_wait_def table_type_mode)

lemma table_create_eq:
  assumes "sys_wf s" "tm \<noteq> LOCK_AUTO_INC"
  shows "lock_table_create table auto_id tm t s = Some (s\<lparr>tab_locks := tab_locks s @ [new_table_lock (next_id s) table tm t],
      next_id := next_id s + 1,
      trxs := (trxs s)(t := trxs s t\<lparr>trx_locks := trx_locks (trxs s t) @ [next_id s],
        wait_lock := if tm AND LOCK_WAIT \<noteq> 0 then Some (next_id s) else wait_lock (trxs s t)\<rparr>)\<rparr>, next_id s)"
proof -
  have fresh: "next_id s \<notin> lock_id ` set (rec_locks s)" "next_id s \<notin> lock_id ` set (tab_locks s)"
    using assms(1) by (force simp: sys_wf_def all_locks_def)+
  have w: "(tm OR LOCK_TABLE) OR LOCK_WAIT = tm OR LOCK_TABLE" if "tm AND LOCK_WAIT \<noteq> 0"
  proof -
    have "bit tm 8"
    proof (rule ccontr)
      assume "\<not> bit tm 8"
      then have "tm AND LOCK_WAIT = 0" by (intro bit_eqI) (auto simp: bit_and_iff bit_LOCK_WAIT)
      with that show False by simp
    qed
    then show ?thesis by (intro bit_eqI) (auto simp: bit_or_iff bit_LOCK_WAIT)
  qed
  show ?thesis
    using assms(2) fresh w by (simp add: lock_table_create_def new_table_lock_def Let_def lock_set_lock_and_trx_wait_def
        upd_lock_append upd_lock_fresh)
qed

lemma sys_wf_tab_append:
  assumes "sys_wf s" "lock_id l = next_id s"
  shows "sys_wf (s\<lparr>tab_locks := tab_locks s @ [l], next_id := next_id s + 1, trxs := T\<rparr>)"
  using assms by (force simp: sys_wf_def all_locks_def less_Suc_eq)

lemma table_mode_flags:
  assumes "mode \<in> {LOCK_IS, LOCK_IX, LOCK_S, LOCK_X}"
  shows "mode \<noteq> LOCK_AUTO_INC" "mode OR LOCK_WAIT \<noteq> LOCK_AUTO_INC" "mode AND LOCK_WAIT = 0"
    "mode AND LOCK_MODE_MASK = mode" "(mode OR LOCK_WAIT) AND LOCK_WAIT \<noteq> 0" "(mode OR LOCK_WAIT) AND LOCK_MODE_MASK = mode"
  using assms by (auto simp: lock_consts)

lemma inv_table_create:
  assumes inv: "lock_inv s" and m: "mode \<in> {LOCK_IS, LOCK_IX, LOCK_S, LOCK_X}"
  obtains s' i where "lock_table_create table auto_id mode t s = Some (s', i)" "lock_inv s'" "page_n_heap s' = page_n_heap s"
proof -
  have wf: "sys_wf s" and q: "queue_ok UNIV (rec_locks s)" and wl: "wait_link s"
    using inv by (simp_all add: lock_inv_def)
  note e = table_create_eq [OF wf table_mode_flags(1) [OF m], of table auto_id t]
  let ?n = "new_table_lock (next_id s) table mode t"
  let ?s = "s\<lparr>tab_locks := tab_locks s @ [?n], next_id := next_id s + 1,
      trxs := (trxs s)(t := trxs s t\<lparr>trx_locks := trx_locks (trxs s t) @ [next_id s],
        wait_lock := if mode AND LOCK_WAIT \<noteq> 0 then Some (next_id s) else wait_lock (trxs s t)\<rparr>)\<rparr>"
  have nw: "\<not> lock_get_wait ?n" using table_mode_flags(3) [OF m] by simp
  have "sys_wf ?s" by (rule sys_wf_tab_append [OF wf]) simp
  moreover have "wait_link ?s"
    using wl nw table_mode_flags(3) [OF m] by (auto simp: wait_link_def all_locks_def)
  ultimately have "lock_inv ?s" using q by (simp add: lock_inv_def)
  then show thesis by (rule that [OF e]) simp
qed

lemma inv_table_enqueue:
  assumes inv: "lock_inv s" and m: "mode \<in> {LOCK_IS, LOCK_IX, LOCK_S, LOCK_X}" and run: "\<not> que_lock_wait (trxs s t)"
  obtains s' e where "lock_table_enqueue_waiting mode table auto_id t s = Some (s', e)" "lock_inv s'" "e \<noteq> DB_SUCCESS"
    "page_n_heap s' = page_n_heap s"
proof -
  have wf: "sys_wf s" and q: "queue_ok UNIV (rec_locks s)" and wl: "wait_link s"
    using inv by (simp_all add: lock_inv_def)
  note m' = table_mode_flags [OF m]
  define n where "n = new_table_lock (next_id s) table (mode OR LOCK_WAIT) t"
  define s1 where "s1 = s\<lparr>tab_locks := tab_locks s @ [n], next_id := next_id s + 1,
      trxs := (trxs s)(t := trxs s t\<lparr>trx_locks := trx_locks (trxs s t) @ [next_id s], wait_lock := Some (next_id s)\<rparr>)\<rparr>"
  have c: "lock_table_create table auto_id (mode OR LOCK_WAIT) t s = Some (s1, next_id s)"
    using m'(5) by (simp add: table_create_eq [OF wf m'(2)] s1_def n_def)
  have n: "lock_id n = next_id s" "lock_trx n = t" "lock_get_wait n" using m'(5) by (simp_all add: n_def)
  have wf1: "sys_wf s1" unfolding s1_def by (rule sys_wf_tab_append [OF wf n(1)])
  have all1: "set (all_locks s1) = insert n (set (all_locks s))" by (auto simp: s1_def all_locks_def)
  have by_id: "lock_by_id s1 (next_id s) = Some n"
    using lock_by_id_in [of s1 n] wf1 all1 n(1) by (simp add: sys_wf_def)
  have "waits_ok s1"
    unfolding waits_ok_def
  proof (intro allI impI)
    fix t' assume "que_lock_wait (trxs s1 t')"
    with run have t': "t' \<noteq> t" "que_lock_wait (trxs s t')" by (auto simp: s1_def split: if_splits)
    then obtain l where l: "l \<in> set (all_locks s)" "wait_lock (trxs s t') = Some (lock_id l)"
      using wl by (auto simp: wait_link_def)
    then have "lock_by_id s1 (lock_id l) = Some l" using wf1 all1 by (intro lock_by_id_in) (simp_all add: sys_wf_def)
    then show "\<exists>i w. wait_lock (trxs s1 t') = Some i \<and> lock_by_id s1 i = Some w"
      using t'(1) l(2) by (simp add: s1_def)
  qed
  from deadlock_occurs_total [OF this] obtain d where d: "lock_deadlock_occurs s1 n t = Some d" by auto
  have none: "\<not> lock_get_wait l" if "l \<in> set (all_locks s)" "lock_trx l = t" for l
    using wait_link_none [OF wl run that] .
  show thesis
  proof (cases d)
    case False
    let ?s2 = "s1\<lparr>trxs := (trxs s1)(t := trxs s1 t\<lparr>que_lock_wait := True\<rparr>)\<rparr>"
    have "wait_link ?s2"
      unfolding wait_link_def
    proof (intro conjI ballI allI impI)
      fix l assume "l \<in> set (all_locks ?s2)" "lock_get_wait l"
      then have "l = n \<or> l \<in> set (all_locks s) \<and> lock_trx l \<noteq> t"
        using none by (auto simp: all_locks_def s1_def)
      then show "wait_lock (trxs ?s2 (lock_trx l)) = Some (lock_id l)" "que_lock_wait (trxs ?s2 (lock_trx l))"
        using wl \<open>lock_get_wait l\<close> n(1,2) by (auto simp: s1_def wait_link_def)
    next
      fix t' assume "que_lock_wait (trxs ?s2 t')"
      then have "t' = t \<or> que_lock_wait (trxs s t')" by (auto simp: s1_def split: if_splits)
      then show "\<exists>l \<in> set (all_locks ?s2). lock_trx l = t' \<and> lock_get_wait l"
        using wl n(2,3) unfolding wait_link_def by (auto simp: s1_def all_locks_def)
    qed
    then have "lock_inv ?s2"
      using q wf1 by (simp add: lock_inv_def s1_def sys_wf_def all_locks_def)
    moreover have "lock_table_enqueue_waiting mode table auto_id t s = Some (?s2, DB_LOCK_WAIT)"
      using False d by (simp add: lock_table_enqueue_waiting_def c by_id)
    ultimately show thesis by (intro that [of ?s2 DB_LOCK_WAIT]) (simp_all add: s1_def)
  next
    case True
    let ?s2 = "lock_table_remove_low n (lock_reset_lock_and_trx_wait n s1)"
    have fresh: "next_id s \<notin> lock_id ` set (rec_locks s)" "next_id s \<notin> lock_id ` set (tab_locks s)"
      using wf by (force simp: sys_wf_def all_locks_def)+
    have f: "filter (\<lambda>l'. lock_id l' \<noteq> next_id s) (tab_locks s) = tab_locks s"
      using fresh(2) by (intro filter_True) (metis imageI)
    have e: "rec_locks ?s2 = rec_locks s" "tab_locks ?s2 = tab_locks s" "next_id ?s2 = next_id s + 1"
      "page_n_heap ?s2 = page_n_heap s" "\<And>t'. t' \<noteq> t \<Longrightarrow> trxs ?s2 t' = trxs s t'"
      "que_lock_wait (trxs ?s2 t) \<longleftrightarrow> que_lock_wait (trxs s t)"
      using n fresh f by (simp_all add: lock_table_remove_low_def lock_reset_lock_and_trx_wait_def Let_def s1_def
          upd_lock_append upd_lock_fresh)
    have "sys_wf ?s2" using wf by (auto simp: sys_wf_def all_locks_def e less_Suc_eq)
    moreover have "wait_link ?s2"
      unfolding wait_link_def all_locks_def e
    proof (intro conjI ballI allI impI)
      fix l assume l: "l \<in> set (rec_locks s @ tab_locks s)" "lock_get_wait l"
      with none [of l] have "lock_trx l \<noteq> t" by (auto simp: all_locks_def)
      then show "wait_lock (trxs ?s2 (lock_trx l)) = Some (lock_id l)" "que_lock_wait (trxs ?s2 (lock_trx l))"
        using wl l by (simp_all add: e wait_link_def all_locks_def)
    next
      fix t' assume "que_lock_wait (trxs ?s2 t')"
      with run e(5,6) have "que_lock_wait (trxs s t')" by (cases "t' = t") auto
      then show "\<exists>l \<in> set (rec_locks s @ tab_locks s). lock_trx l = t' \<and> lock_get_wait l"
        using wl by (simp add: wait_link_def all_locks_def)
    qed
    ultimately have "lock_inv ?s2" using q by (simp add: lock_inv_def e)
    moreover have "lock_table_enqueue_waiting mode table auto_id t s = Some (?s2, DB_DEADLOCK)"
      using True d by (simp add: lock_table_enqueue_waiting_def c by_id)
    ultimately show thesis by (intro that [of ?s2 DB_DEADLOCK]) (simp_all add: e)
  qed
qed

lemma inv_table:
  assumes inv: "lock_inv s" and m: "mode \<in> {LOCK_IS, LOCK_IX, LOCK_S, LOCK_X}" and run: "\<not> que_lock_wait (trxs s t)"
  obtains s' e where "lock_table flags table auto_id mode t s = Some (s', e)" "lock_inv s'" "page_n_heap s' = page_n_heap s"
proof -
  obtain s1 i where c: "lock_table_create table auto_id mode t s = Some (s1, i)" "lock_inv s1" "page_n_heap s1 = page_n_heap s"
    by (rule inv_table_create [OF inv m])
  obtain s2 e where w: "lock_table_enqueue_waiting mode table auto_id t s = Some (s2, e)" "lock_inv s2" "page_n_heap s2 = page_n_heap s"
    by (rule inv_table_enqueue [OF inv m run])
  show thesis
    using that [of s DB_SUCCESS] that [of s1 DB_SUCCESS] that [of s2 e] c w inv
    by (cases "flags AND BTR_NO_LOCKING_FLAG \<noteq> 0 \<or> lock_table_has s t table mode \<noteq> None";
        cases "lock_table_other_has_incompatible s t True table mode") (auto simp: lock_table_def)
qed

lemma tab_not_rec:
  assumes "sys_wf s" "l \<in> set (tab_locks s)"
  shows "lock_id l \<notin> lock_id ` set (rec_locks s)"
  using assms by (auto simp: sys_wf_def all_locks_def)

lemma remove_frame:
  "rec_locks (lock_table_remove_low l s) = rec_locks s" "next_id (lock_table_remove_low l s) = next_id s"
  "tab_locks (lock_table_remove_low l s) = filter (\<lambda>l'. lock_id l' \<noteq> lock_id l) (tab_locks s)"
  "page_n_heap (lock_table_remove_low l s) = page_n_heap s"
  "wait_lock (trxs (lock_table_remove_low l s) t) = wait_lock (trxs s t)"
  "que_lock_wait (trxs (lock_table_remove_low l s) t) = que_lock_wait (trxs s t)"
  by (simp_all add: lock_table_remove_low_def Let_def)

lemma remove_mem:
  assumes "sys_wf s" "l \<in> set (tab_locks s)"
  shows "l' \<in> set (all_locks (lock_table_remove_low l s)) \<longleftrightarrow> l' \<in> set (all_locks s) \<and> l' \<noteq> l"
proof -
  have dt: "distinct (map lock_id (tab_locks s))" using assms(1) by (simp add: sys_wf_def all_locks_def)
  have "l' = l" if "l' \<in> set (tab_locks s)" "lock_id l' = lock_id l"
    using id_unique [OF dt that(1) assms(2) that(2)] .
  moreover have "l' \<noteq> l" if "l' \<in> set (rec_locks s)" using tab_not_rec [OF assms] that by blast
  moreover have "l' \<in> set (all_locks (lock_table_remove_low l s)) \<longleftrightarrow> (l' \<in> set (tab_locks s) \<and> lock_id l' \<noteq> lock_id l) \<or> l' \<in> set (rec_locks s)"
    by (auto simp: all_locks_def remove_frame)
  moreover have "l' \<in> set (all_locks s) \<longleftrightarrow> l' \<in> set (rec_locks s) \<or> l' \<in> set (tab_locks s)" by (simp add: all_locks_def)
  ultimately show ?thesis by blast
qed

lemma inv_table_remove:
  assumes inv: "lock_inv s" and l: "l \<in> set (tab_locks s)"
  shows "inv_on UNIV (if lock_get_wait l then {lock_trx l} else {}) (lock_table_remove_low l s)" (is "inv_on UNIV ?X ?s")
proof -
  have wf: "sys_wf s" and q: "queue_ok UNIV (rec_locks s)" and lk: "link {} s" using inv by (simp_all add: lock_inv_iff inv_on_def)
  have da: "distinct (map lock_id (all_locks s))" using wf by (simp add: sys_wf_def)
  then have dt: "distinct (map lock_id (tab_locks s))" by (simp add: all_locks_def)
  have la: "l \<in> set (all_locks s)" using l by (simp add: all_locks_def)
  note ne = remove_mem [OF wf l]
  have "distinct (map lock_id (all_locks ?s))"
    using da distinct_map_filter [OF dt, of "\<lambda>l'. lock_id l' \<noteq> lock_id l"] by (auto simp: all_locks_def remove_frame)
  then have "sys_wf ?s" using wf unfolding sys_wf_def remove_frame by (simp add: ne)
  moreover have "link ?X ?s"
    unfolding link_def remove_frame
  proof (intro conjI ballI allI impI)
    fix l' assume l': "l' \<in> set (all_locks ?s)" "lock_get_wait l'"
    then have a: "l' \<in> set (all_locks s)" "l' \<noteq> l" by (simp_all add: ne)
    then show w: "wait_lock (trxs s (lock_trx l')) = Some (lock_id l')" "que_lock_wait (trxs s (lock_trx l'))"
      using lk l'(2) by (auto simp: link_def)
    have "lock_trx l' \<noteq> lock_trx l" if "lock_get_wait l"
    proof
      assume "lock_trx l' = lock_trx l"
      then have "lock_id l' = lock_id l" using w(1) lk la that by (simp add: link_def)
      with id_unique [OF da a(1) la] a(2) show False by simp
    qed
    then show "lock_trx l' \<notin> ?X" by auto
  next
    fix t assume t: "t \<notin> ?X" "que_lock_wait (trxs s t)"
    then obtain l' where l': "l' \<in> set (all_locks s)" "lock_trx l' = t" "lock_get_wait l'" using lk by (auto simp: link_def)
    then have "l' \<noteq> l" using t(1) by auto
    with l' show "\<exists>l \<in> set (all_locks ?s). lock_trx l = t \<and> lock_get_wait l" by (auto simp: ne)
  qed
  ultimately show ?thesis using q by (simp add: inv_on_def remove_frame)
qed

lemma inv_cancel_table:
  assumes inv: "lock_inv s" and l: "l \<in> set (tab_locks s)" "lock_get_wait l"
  shows "lock_inv (trx_end_lock_wait (lock_trx l) (lock_reset_lock_and_trx_wait l (lock_table_remove_low l s)))" (is "lock_inv ?s'")
proof -
  let ?s = "lock_table_remove_low l s"
  have wf: "sys_wf s" using inv by (simp add: lock_inv_def)
  have d: "inv_on UNIV {lock_trx l} ?s" using inv_table_remove [OF inv l(1)] l(2) by simp
  have gone: "lock_id l \<notin> lock_id ` set (rec_locks ?s)" "lock_id l \<notin> lock_id ` set (tab_locks ?s)"
    using tab_not_rec [OF wf l(1)] by (auto simp: remove_frame)
  have e: "?s' = ?s\<lparr>trxs := (trxs ?s)(lock_trx l := trxs ?s (lock_trx l)\<lparr>wait_lock := None, que_lock_wait := False\<rparr>)\<rparr>"
    using gone by (simp add: lock_reset_lock_and_trx_wait_def trx_end_lock_wait_def Let_def upd_lock_fresh)
  have "link {} ?s'"
    by (rule link_end_gone [of "lock_trx l" ?s _ "trxs ?s (lock_trx l)\<lparr>wait_lock := None, que_lock_wait := False\<rparr>"])
      (use d in \<open>simp_all add: inv_on_def e all_locks_def\<close>)
  then show ?thesis using d by (simp add: lock_inv_iff inv_on_def e sys_wf_def all_locks_def)
qed

end
