(* ===== verification/Lock_Trx.thy ===== *)
theory Lock_Trx
  imports Lock_Table
begin

text \<open>
  The lists of locks of the transactions, the release of all locks of a transaction, and the states
  that the operations can reach.
\<close>

section \<open>Whose lock is whose\<close>

definition sig :: "lock \<Rightarrow> nat \<times> nat \<times> ulint \<times> ulint" where
  "sig l = (lock_id l, lock_trx l, lock_get_type l, lock_get_mode l)"

text \<open>Every transaction's list holds exactly its locks; no lock is an AUTO-INC lock (see below).\<close>

definition trx_ok :: "lock_sys \<Rightarrow> bool" where
  "trx_ok s \<longleftrightarrow> (\<forall>l \<in> set (tab_locks s). lock_get_type l = LOCK_TABLE)
     \<and> (\<forall>l \<in> set (all_locks s). lock_get_mode l \<noteq> LOCK_AUTO_INC)
     \<and> (\<forall>t. auto_inc_lock (trxs s t) = None \<and> distinct (trx_locks (trxs s t))
         \<and> set (trx_locks (trxs s t)) = lock_id ` {l \<in> set (all_locks s). lock_trx l = t})"

text \<open>\<open>keeps s s'\<close>: the same locks of the same transactions, other flags and bitmaps.\<close>

definition keeps :: "lock_sys \<Rightarrow> lock_sys \<Rightarrow> bool" where
  "keeps s s' \<longleftrightarrow> map sig (rec_locks s') = map sig (rec_locks s) \<and> map sig (tab_locks s') = map sig (tab_locks s)
     \<and> (\<forall>t. trx_locks (trxs s' t) = trx_locks (trxs s t) \<and> auto_inc_lock (trxs s' t) = auto_inc_lock (trxs s t))"

lemma keeps_refl [simp]: "keeps s s"
  by (simp add: keeps_def)

lemma keeps_trans: "keeps s s' \<Longrightarrow> keeps s' s'' \<Longrightarrow> keeps s s''"
  by (simp add: keeps_def)

lemma map_sig_mem:
  assumes "map sig xs = map sig ys" "l \<in> set xs"
  obtains l' where "l' \<in> set ys" "sig l' = sig l"
proof -
  have "sig l \<in> set (map sig ys)" using assms by (metis imageI set_map)
  then show thesis using that by auto
qed

lemma keeps_all: "keeps s s' \<Longrightarrow> map sig (all_locks s') = map sig (all_locks s)"
  by (simp add: keeps_def all_locks_def)

lemma sig_ids:
  assumes "map sig xs = map sig ys"
  shows "lock_id ` {l \<in> set xs. lock_trx l = t} \<subseteq> lock_id ` {l \<in> set ys. lock_trx l = t}"
proof
  fix i assume "i \<in> lock_id ` {l \<in> set xs. lock_trx l = t}"
  then obtain l where l: "l \<in> set xs" "lock_trx l = t" "i = lock_id l" by auto
  obtain l' where "l' \<in> set ys" "sig l' = sig l" using map_sig_mem [OF assms l(1)] .
  with l show "i \<in> lock_id ` {l \<in> set ys. lock_trx l = t}" by (auto simp: sig_def image_iff)
qed

lemma trx_ok_keeps:
  assumes ok: "trx_ok s" and k: "keeps s s'"
  shows "trx_ok s'"
  unfolding trx_ok_def
proof (intro conjI ballI allI)
  fix l assume "l \<in> set (tab_locks s')"
  with k obtain l' where "l' \<in> set (tab_locks s)" "sig l' = sig l" unfolding keeps_def by (metis map_sig_mem)
  with ok show "lock_get_type l = LOCK_TABLE" by (auto simp: trx_ok_def sig_def)
next
  fix l assume "l \<in> set (all_locks s')"
  with keeps_all [OF k] obtain l' where "l' \<in> set (all_locks s)" "sig l' = sig l" by (metis map_sig_mem)
  with ok show "lock_get_mode l \<noteq> LOCK_AUTO_INC" by (auto simp: trx_ok_def sig_def)
next
  fix t
  show "set (trx_locks (trxs s' t)) = lock_id ` {l \<in> set (all_locks s'). lock_trx l = t}"
    using ok k sig_ids [OF keeps_all [OF k], of t] sig_ids [OF keeps_all [OF k, symmetric], of t]
    unfolding trx_ok_def keeps_def by auto
qed (use ok k in \<open>auto simp: trx_ok_def keeps_def\<close>)

lemma keeps_upd:
  assumes "\<And>l. sig (f l) = sig l" "\<And>l. sig (g l) = sig l"
    and "\<And>t. trx_locks (T t) = trx_locks (trxs s t) \<and> auto_inc_lock (T t) = auto_inc_lock (trxs s t)"
  shows "keeps s (s\<lparr>rec_locks := upd_lock i f (rec_locks s), tab_locks := upd_lock j g (tab_locks s), trxs := T\<rparr>)"
    "keeps s (s\<lparr>rec_locks := upd_lock i f (rec_locks s)\<rparr>)" "keeps s (s\<lparr>trxs := T\<rparr>)"
  using assms by (auto simp: keeps_def upd_lock_def comp_def)

lemma sig_wait [simp]: "sig (l\<lparr>type_mode := type_mode l AND NOT LOCK_WAIT\<rparr>) = sig l"
  "sig (l\<lparr>type_mode := type_mode l OR LOCK_WAIT\<rparr>) = sig l"
  "sig (lock_rec_set_nth_bit l i) = sig l" "sig (lock_rec_reset_nth_bit l i) = sig l"
  by (simp_all add: sig_def lock_get_type_def lock_get_mode_def type_mode_or type_mode_and_not)

lemma keeps_set_bit: "keeps s (s\<lparr>rec_locks := upd_lock i (\<lambda>l. lock_rec_set_nth_bit l h) (rec_locks s)\<rparr>)"
  "keeps s (s\<lparr>rec_locks := upd_lock i (\<lambda>l. lock_rec_reset_nth_bit l h) (rec_locks s)\<rparr>)"
  by (rule keeps_upd(2), simp, simp, simp)+

lemma keeps_reset_wait: "keeps s (lock_reset_lock_and_trx_wait l s)"
  unfolding lock_reset_lock_and_trx_wait_def Let_def by (rule keeps_upd(1)) simp_all

lemma keeps_end_wait: "keeps s (trx_end_lock_wait t s)"
  unfolding trx_end_lock_wait_def by (rule keeps_upd(3) [where f = id and g = id]) simp_all

lemma keeps_que: "keeps s (s\<lparr>trxs := (trxs s)(t := trxs s t\<lparr>que_lock_wait := b\<rparr>)\<rparr>)"
  by (rule keeps_upd(3) [where f = id and g = id]) simp_all

lemma keeps_grant:
  assumes "lock_get_mode l \<noteq> LOCK_AUTO_INC"
  shows "keeps s (lock_grant l s)"
  using assms keeps_trans [OF keeps_reset_wait keeps_end_wait] by (simp add: lock_grant_def Let_def)

lemma keeps_grant_waiting: "trx_ok s \<Longrightarrow> keeps s (grant_waiting ids s)"
proof (induction ids arbitrary: s)
  case (Cons i ids)
  show ?case
  proof (cases "lock_by_id s i")
    case None
    then show ?thesis using Cons by simp
  next
    case (Some l)
    then have "lock_get_mode l \<noteq> LOCK_AUTO_INC"
      using lock_by_id_Some [OF Some] Cons.prems by (auto simp: trx_ok_def)
    then have k: "keeps s (lock_grant l s)" by (rule keeps_grant)
    show ?thesis using Some Cons.IH [OF trx_ok_keeps [OF Cons.prems k]] keeps_trans [OF k] Cons by simp
  qed
qed simp

lemma keeps_cancel: "keeps s (lock_rec_cancel l s)"
proof -
  let ?s = "case lock_rec_find_set_bit l of None \<Rightarrow> s | Some i \<Rightarrow>
            s\<lparr>rec_locks := upd_lock (lock_id l) (\<lambda>l. lock_rec_reset_nth_bit l i) (rec_locks s)\<rparr>"
  have "keeps s ?s" by (simp add: keeps_set_bit split: option.split)
  from keeps_trans [OF keeps_trans [OF this keeps_reset_wait] keeps_end_wait]
  show ?thesis by (simp add: lock_rec_cancel_def Let_def)
qed

section \<open>Locks made and locks removed\<close>

lemma trx_ok_create:
  assumes ok: "trx_ok s" and wf: "sys_wf s" and tm: "rec_mode tm"
  shows "trx_ok (fst (lock_rec_create tm r index t s))"
proof -
  have fresh: "next_id s \<notin> lock_id ` set (all_locks s)" using wf by (force simp: sys_wf_def)
  have fresh': "next_id s \<notin> set (trx_locks (trxs s t))" using ok fresh by (auto simp: trx_ok_def)
  have m: "lock_get_mode (new_lock tm r index t s) \<noteq> LOCK_AUTO_INC"
    using tm by (auto simp: new_lock_simps rec_mode_def lock_consts)
  show ?thesis
    unfolding trx_ok_def
  proof (intro conjI ballI allI)
    fix t'
    have "{l \<in> set (all_locks (fst (lock_rec_create tm r index t s))). lock_trx l = t'} =
        (if t' = t then {new_lock tm r index t s} else {}) \<union> {l \<in> set (all_locks s). lock_trx l = t'}"
      by (auto simp: create_eq [OF wf] all_locks_def new_lock_simps)
    then show "set (trx_locks (trxs (fst (lock_rec_create tm r index t s)) t')) =
        lock_id ` {l \<in> set (all_locks (fst (lock_rec_create tm r index t s))). lock_trx l = t'}"
      using ok by (auto simp: create_eq [OF wf] trx_ok_def new_lock_simps)
  qed (use ok m fresh' in \<open>auto simp: create_eq [OF wf] all_locks_def trx_ok_def\<close>)
qed

lemma trx_ok_table_create:
  assumes ok: "trx_ok s" and wf: "sys_wf s" and tm: "tm \<noteq> LOCK_AUTO_INC" "tm AND LOCK_MODE_MASK \<noteq> LOCK_AUTO_INC"
    "(tm OR LOCK_TABLE) AND LOCK_TYPE_MASK = LOCK_TABLE"
    and c: "lock_table_create table auto_id tm t s = Some (s', i)"
  shows "trx_ok s'"
proof -
  have fresh: "next_id s \<notin> lock_id ` set (all_locks s)" using wf by (force simp: sys_wf_def)
  have fresh': "next_id s \<notin> set (trx_locks (trxs s t))" using ok fresh by (auto simp: trx_ok_def)
  let ?n = "new_table_lock (next_id s) table tm t"
  have e: "rec_locks s' = rec_locks s" "tab_locks s' = tab_locks s @ [?n]"
    "trx_locks (trxs s' t') = (if t' = t then trx_locks (trxs s t) @ [next_id s] else trx_locks (trxs s t'))"
    "auto_inc_lock (trxs s' t') = auto_inc_lock (trxs s t')" for t'
    using c by (auto simp: table_create_eq [OF wf tm(1)])
  show ?thesis
    unfolding trx_ok_def
  proof (intro conjI ballI allI)
    fix t'
    have "{l \<in> set (all_locks s'). lock_trx l = t'} =
        (if t' = t then {?n} else {}) \<union> {l \<in> set (all_locks s). lock_trx l = t'}"
      by (auto simp: e all_locks_def)
    then show "set (trx_locks (trxs s' t')) = lock_id ` {l \<in> set (all_locks s'). lock_trx l = t'}"
      using ok by (auto simp: e trx_ok_def)
  next
    fix l assume "l \<in> set (tab_locks s')"
    then show "lock_get_type l = LOCK_TABLE" using ok tm(3) by (auto simp: e trx_ok_def lock_get_type_def new_table_lock_def)
  qed (use ok tm fresh' in \<open>auto simp: e all_locks_def trx_ok_def\<close>)
qed

text \<open>A lock taken out of its list and of its transaction's list.\<close>

lemma trx_ok_removed:
  assumes ok: "trx_ok s" and wf: "sys_wf s" and l: "l \<in> set (all_locks s)"
    and all: "\<And>l'. l' \<in> set (all_locks s') \<longleftrightarrow> l' \<in> set (all_locks s) \<and> l' \<noteq> l" and tab: "set (tab_locks s') \<subseteq> set (tab_locks s)"
    and T: "\<And>t. trx_locks (trxs s' t) = (if t = lock_trx l then removeAll (lock_id l) (trx_locks (trxs s t)) else trx_locks (trxs s t))"
      "\<And>t. auto_inc_lock (trxs s' t) = None"
  shows "trx_ok s'"
  unfolding trx_ok_def
proof (intro conjI ballI allI)
  have d: "distinct (map lock_id (all_locks s))" using wf by (simp add: sys_wf_def)
  fix t
  have "lock_id ` {l' \<in> set (all_locks s'). lock_trx l' = t} =
      lock_id ` {l' \<in> set (all_locks s). lock_trx l' = t} - (if t = lock_trx l then {lock_id l} else {})"
    using all l id_unique [OF d _ l] by (auto simp: image_iff)
  then show "set (trx_locks (trxs s' t)) = lock_id ` {l' \<in> set (all_locks s'). lock_trx l' = t}"
    using ok by (auto simp: T trx_ok_def)
qed (use ok all tab T in \<open>auto simp: trx_ok_def distinct_removeAll\<close>)

lemma trx_ok_discard:
  assumes "trx_ok s" "sys_wf s" "l \<in> set (rec_locks s)"
  shows "trx_ok (lock_rec_discard l s)"
  by (rule trx_ok_removed [OF assms(1,2) _ discard_mem [OF assms(2,3)]])
    (use assms in \<open>auto simp: all_locks_def lock_rec_discard_def Let_def trx_ok_def\<close>)

lemma trx_ok_remove:
  assumes "trx_ok s" "sys_wf s" "l \<in> set (tab_locks s)"
  shows "trx_ok (lock_table_remove_low l s)"
  by (rule trx_ok_removed [OF assms(1,2) _ remove_mem [OF assms(2,3)]])
    (use assms in \<open>auto simp: all_locks_def lock_table_remove_low_def Let_def trx_ok_def\<close>)

lemma trx_ok_dequeue:
  assumes "trx_ok s" "sys_wf s" "l \<in> set (rec_locks s)"
  shows "trx_ok (lock_rec_dequeue_from_page l s)" "keeps (lock_rec_discard l s) (lock_rec_dequeue_from_page l s)"
proof -
  note k = keeps_grant_waiting [OF trx_ok_discard [OF assms]]
  show "keeps (lock_rec_discard l s) (lock_rec_dequeue_from_page l s)"
    unfolding lock_rec_dequeue_from_page_def Let_def by (rule k)
  then show "trx_ok (lock_rec_dequeue_from_page l s)" by (rule trx_ok_keeps [OF trx_ok_discard [OF assms]])
qed

end
