(* ===== verification/Lock_Reach.thy ===== *)
theory Lock_Reach
  imports Lock_Trx
begin

text \<open>
  The states that the record and table lock operations can reach from an empty lock system, with the
  properties that hold in all of them.
\<close>

section \<open>The lists of the transactions under requests\<close>

lemma trx_ok_add:
  assumes "trx_ok s" "sys_wf s" "rec_mode tm"
  shows "trx_ok (lock_rec_add_to_queue tm r index t s)"
proof -
  define tm' where "tm' = (if page_rec_is_supremum r then (tm OR LOCK_REC) AND NOT LOCK_GAP else tm OR LOCK_REC)"
  have "rec_mode tm'" using assms(3) by (simp add: tm'_def rec_mode_def type_mode_or type_mode_and_not)
  then have "trx_ok (fst (lock_rec_create tm' r index t s))" by (rule trx_ok_create [OF assms(1,2)])
  then show ?thesis
    unfolding lock_rec_add_to_queue_def Let_def tm'_def [symmetric]
    using trx_ok_keeps [OF assms(1) keeps_set_bit(1)] by (simp split: option.split)
qed

lemma trx_ok_enqueue:
  assumes "trx_ok s" "sys_wf s" "rec_mode tm" and e: "lock_rec_enqueue_waiting tm r index t s = Some (s', err)"
  shows "trx_ok s'"
proof -
  obtain s1 i where c: "lock_rec_create (tm OR LOCK_WAIT) r index t s = (s1, i)" by (cases "lock_rec_create (tm OR LOCK_WAIT) r index t s")
  have "rec_mode (tm OR LOCK_WAIT)" using assms(3) by (simp add: rec_mode_def type_mode_or)
  then have "trx_ok s1" using trx_ok_create [OF assms(1,2), of "tm OR LOCK_WAIT" r index t] c by simp
  moreover have "keeps s1 s'"
    using e keeps_trans [OF keeps_reset_wait keeps_set_bit(2)]
    by (auto simp: lock_rec_enqueue_waiting_def c Let_def keeps_que split: option.splits bool.splits)
  ultimately show ?thesis by (rule trx_ok_keeps)
qed

lemma trx_ok_lock:
  assumes ok: "trx_ok s" and wf: "sys_wf s" and m: "m = LOCK_S \<or> m = LOCK_X"
    and l: "lock_rec_lock impl m r index t s = Some (s', e)"
  shows "trx_ok s'"
proof -
  have "trx_ok s'" if "lock_rec_lock_fast impl m r index t s = Some s'"
    using that trx_ok_create [OF ok wf mode_flags(4) [OF m]] trx_ok_keeps [OF ok keeps_set_bit(1)] ok
    by (auto simp: lock_rec_lock_fast_def split: list.splits if_splits)
  moreover have "trx_ok s'" if "lock_rec_lock_slow impl m r index t s = Some (s', e)"
    using that trx_ok_add [OF ok wf mode_flags(5) [OF m]] trx_ok_enqueue [OF ok wf mode_flags(4) [OF m]] ok
    by (auto simp: lock_rec_lock_slow_def Let_def split: if_splits)
  ultimately show ?thesis using l by (auto simp: lock_rec_lock_def split: option.splits)
qed

lemma trx_ok_insert:
  assumes "trx_ok s" "sys_wf s" "lock_rec_insert_check_and_lock flags r index t s = Some (s', e, i)"
  shows "trx_ok s'"
  using assms(3) trx_ok_enqueue [OF assms(1,2) mode_flags(6) [of LOCK_X, simplified]] assms(1)
  by (auto simp: lock_rec_insert_check_and_lock_def split: if_splits)

lemma trx_ok_inherit:
  assumes inv: "lock_inv s" and ok: "trx_ok s" and h: "heap_ok s heir"
  shows "trx_ok (lock_rec_inherit_to_gap heir r s)"
proof -
  define f :: "lock \<Rightarrow> lock_sys \<Rightarrow> lock_sys"
    where "f = (\<lambda>l s. lock_rec_add_to_queue ((type_mode l OR LOCK_GAP) AND NOT LOCK_WAIT) heir (lock_index l) (lock_trx l) s)"
  have "trx_ok (fold f qs s')" if "lock_inv s'" "trx_ok s'" "heap_ok s' heir" "\<And>l. l \<in> set qs \<Longrightarrow> rlock_wf l"
    for qs :: "lock list" and s'
    using that
  proof (induction qs arbitrary: s')
    case (Cons l qs)
    have m: "rec_mode ((type_mode l OR LOCK_GAP) AND NOT LOCK_WAIT)"
      using Cons.prems(4) [of l] by (simp add: rec_mode_def rlock_wf_def lock_get_mode_def type_mode_or type_mode_and_not)
    have "lock_inv (f l s')" unfolding f_def by (rule inherit_turn) (use Cons.prems in auto)
    moreover have "trx_ok (f l s')"
      unfolding f_def by (rule trx_ok_add [OF Cons.prems(2) _ m]) (use Cons.prems(1) in \<open>simp add: lock_inv_def\<close>)
    moreover have "heap_ok (f l s') heir" using Cons.prems(3) by (simp add: f_def heap_ok_def heap_frame)
    ultimately show ?case using Cons.IH [of "f l s'"] Cons.prems(4) by simp
  qed simp
  from this [OF inv ok h, of "rec_queue s r"] rec_wf [OF inv] show ?thesis
    by (auto simp: lock_rec_inherit_to_gap_def f_def rec_queue_iff)
qed

lemma keeps_reset_and_release: "keeps s (lock_rec_reset_and_release_wait r s)"
proof -
  have "keeps s (release_step r l s)" for l s by (simp add: release_step_def keeps_cancel keeps_set_bit)
  then have "keeps s (fold (release_step r) qs s)" for qs
    by (induction qs arbitrary: s) (auto intro: keeps_trans)
  then show ?thesis by (simp add: lock_rec_reset_and_release_wait_def release_step_def [abs_def])
qed

lemma trx_ok_convert:
  assumes "trx_ok s" "sys_wf s"
  shows "trx_ok (lock_rec_convert_impl_to_expl impl r index s)"
  using trx_ok_add [OF assms mode_flags(5) [of LOCK_X]] assms
  by (simp add: lock_rec_convert_impl_to_expl_def split: option.split)

lemma trx_ok_table:
  assumes ok: "trx_ok s" and wf: "sys_wf s" and m: "mode \<in> {LOCK_IS, LOCK_IX, LOCK_S, LOCK_X}"
    and l: "lock_table flags table auto_id mode t s = Some (s', e)"
  shows "trx_ok s'"
proof -
  have c: "trx_ok s1" if "lock_table_create table auto_id mode t s = Some (s1, i)" for s1 i
    by (rule trx_ok_table_create [OF ok wf _ _ _ that]) (use m in \<open>auto simp: lock_consts\<close>)
  have cw: "trx_ok s1 \<and> sys_wf s1 \<and> (\<exists>l. lock_by_id s1 i = Some l \<and> l \<in> set (tab_locks s1))"
    if a: "lock_table_create table auto_id (mode OR LOCK_WAIT) t s = Some (s1, i)" for s1 i
  proof -
    note m' = table_mode_flags [OF m]
    have "trx_ok s1" by (rule trx_ok_table_create [OF ok wf _ _ _ a]) (use m in \<open>auto simp: lock_consts\<close>)
    have e: "s1 = s\<lparr>tab_locks := tab_locks s @ [new_table_lock (next_id s) table (mode OR LOCK_WAIT) t], next_id := next_id s + 1,
        trxs := (trxs s)(t := trxs s t\<lparr>trx_locks := trx_locks (trxs s t) @ [next_id s], wait_lock := Some (next_id s)\<rparr>)\<rparr>"
      "i = next_id s" using a m'(5) by (auto simp: table_create_eq [OF wf m'(2)])
    have w1: "sys_wf s1" unfolding e(1) by (rule sys_wf_tab_append [OF wf]) simp
    let ?n = "new_table_lock (next_id s) table (mode OR LOCK_WAIT) t"
    have "?n \<in> set (tab_locks s1)" by (simp add: e)
    moreover have "lock_by_id s1 (lock_id ?n) = Some ?n"
      by (rule lock_by_id_in) (use w1 in \<open>simp_all add: sys_wf_def e(1) all_locks_def\<close>)
    ultimately show ?thesis using \<open>trx_ok s1\<close> w1 e(2) by auto
  qed
  have "trx_ok s'" if w: "lock_table_enqueue_waiting mode table auto_id t s = Some (s', e)"
  proof -
    from w obtain s1 i where a: "lock_table_create table auto_id (mode OR LOCK_WAIT) t s = Some (s1, i)"
      by (auto simp: lock_table_enqueue_waiting_def split: option.splits)
    from cw [OF a] obtain l where s1: "trx_ok s1" "sys_wf s1" and l: "lock_by_id s1 i = Some l" "l \<in> set (tab_locks s1)" by auto
    from w a l consider "s' = lock_table_remove_low l (lock_reset_lock_and_trx_wait l s1)"
      | "s' = s1\<lparr>trxs := (trxs s1)(t := trxs s1 t\<lparr>que_lock_wait := True\<rparr>)\<rparr>"
      by (auto simp: lock_table_enqueue_waiting_def split: option.splits bool.splits)
    then show ?thesis
    proof cases
      case 1
      have k: "lock_table_remove_low l (lock_reset_lock_and_trx_wait l s1) =
          lock_reset_lock_and_trx_wait l (lock_table_remove_low l s1)"
        by (cases "trxs s1 (lock_trx l)")
          (simp add: lock_table_remove_low_def lock_reset_lock_and_trx_wait_def Let_def upd_lock_def filter_map comp_def
            if_distrib [of lock_id] cong: if_cong)
      show ?thesis unfolding 1 k by (rule trx_ok_keeps [OF trx_ok_remove [OF s1 l(2)] keeps_reset_wait])
    next
      case 2
      show ?thesis unfolding 2 by (rule trx_ok_keeps [OF s1(1) keeps_que])
    qed
  qed
  with l ok c show ?thesis by (auto simp: lock_table_def split: if_splits)
qed

section \<open>The release of everything\<close>

lemma grant_que: "que_lock_wait (trxs (lock_grant l s) t) \<Longrightarrow> que_lock_wait (trxs s t)"
  by (auto simp: lock_grant_def lock_reset_lock_and_trx_wait_def trx_end_lock_wait_def Let_def split: if_splits)

lemma grant_waiting_que: "que_lock_wait (trxs (grant_waiting ids s) t) \<Longrightarrow> que_lock_wait (trxs s t)"
proof (induction ids arbitrary: s)
  case (Cons i ids)
  have "que_lock_wait (trxs (lock_grant l s) t) \<Longrightarrow> que_lock_wait (trxs s t)" for l by (rule grant_que)
  with Cons.IH [of s] Cons.IH [of "lock_grant (the (lock_by_id s i)) s"] Cons.prems show ?case
    by (simp split: option.splits if_splits)
qed simp

lemma dequeue_que: "que_lock_wait (trxs (lock_rec_dequeue_from_page l s) t) \<Longrightarrow> que_lock_wait (trxs s t)"
  unfolding lock_rec_dequeue_from_page_def Let_def
  by (drule grant_waiting_que) (auto simp: lock_rec_discard_def Let_def split: if_splits)

text \<open>One turn of the loop, for a transaction that does not wait.\<close>

lemma release_turn:
  assumes inv: "lock_inv s" and ok: "trx_ok s" and run: "\<not> que_lock_wait (trxs s t)"
    and i: "i \<in> set (trx_locks (trxs s t))"
  obtains l where "lock_by_id s i = Some l" "lock_trx l = t" "lock_inv (lock_dequeue l s)" "trx_ok (lock_dequeue l s)"
    "\<not> que_lock_wait (trxs (lock_dequeue l s) t)" "trx_locks (trxs (lock_dequeue l s) t) = removeAll i (trx_locks (trxs s t))"
    "page_n_heap (lock_dequeue l s) = page_n_heap s"
proof -
  have wf: "sys_wf s" and wl: "wait_link s" using inv by (simp_all add: lock_inv_def)
  obtain l where l: "l \<in> set (all_locks s)" "lock_trx l = t" "i = lock_id l"
    using ok i by (auto simp: trx_ok_def)
  have b: "lock_by_id s i = Some l" using lock_by_id_in [of s l] wf l by (simp add: sys_wf_def)
  have nw: "\<not> lock_get_wait l" using wait_link_none [OF wl run l(1,2)] .
  show thesis
  proof (cases "l \<in> set (rec_locks s)")
    case True
    then have "lock_get_type l = LOCK_REC" using rec_wf [OF inv] by (simp add: rlock_wf_def)
    then have e: "lock_dequeue l s = lock_rec_dequeue_from_page l s" by (simp add: lock_dequeue_def)
    have "trx_locks (trxs (lock_rec_dequeue_from_page l s) t) = removeAll i (trx_locks (trxs s t))"
      using trx_ok_dequeue(2) [OF ok wf True] l by (simp add: keeps_def lock_rec_discard_def Let_def)
    then show thesis
      using that [OF b l(2)] inv_dequeue [OF inv True] trx_ok_dequeue(1) [OF ok wf True] dequeue_que run nw
      by (auto simp: e lock_inv_iff)
  next
    case False
    then have tab: "l \<in> set (tab_locks s)" using l(1) by (simp add: all_locks_def)
    then have "lock_get_type l = LOCK_TABLE" using ok by (simp add: trx_ok_def)
    then have e: "lock_dequeue l s = lock_table_remove_low l s" by (simp add: lock_dequeue_def lock_consts table_dequeue_remove)
    have "trx_locks (trxs (lock_table_remove_low l s) t) = removeAll i (trx_locks (trxs s t))"
      using l by (simp add: lock_table_remove_low_def Let_def)
    then show thesis
      using that [OF b l(2)] inv_table_remove [OF inv tab] trx_ok_remove [OF ok wf tab] run nw
      by (simp add: e lock_inv_iff remove_frame)
  qed
qed

lemma release_total:
  "lock_inv s \<Longrightarrow> trx_ok s \<Longrightarrow> \<not> que_lock_wait (trxs s t) \<Longrightarrow>
   \<exists>s'. lock_release_off_kernel t s = Some s' \<and> lock_inv s' \<and> trx_ok s' \<and> trx_locks (trxs s' t) = []
     \<and> \<not> que_lock_wait (trxs s' t) \<and> page_n_heap s' = page_n_heap s"
proof (induction "length (trx_locks (trxs s t))" arbitrary: s rule: less_induct)
  case less
  show ?case
  proof (cases "trx_locks (trxs s t) = []")
    case True
    then show ?thesis using less.prems by (subst lock_release_off_kernel.simps) simp
  next
    case False
    then have i: "last (trx_locks (trxs s t)) \<in> set (trx_locks (trxs s t))" by simp
    obtain l where l: "lock_by_id s (last (trx_locks (trxs s t))) = Some l" "lock_trx l = t" "lock_inv (lock_dequeue l s)"
      "trx_ok (lock_dequeue l s)" "\<not> que_lock_wait (trxs (lock_dequeue l s) t)"
      "trx_locks (trxs (lock_dequeue l s) t) = removeAll (last (trx_locks (trxs s t))) (trx_locks (trxs s t))"
      "page_n_heap (lock_dequeue l s) = page_n_heap s"
      by (rule release_turn [OF less.prems i])
    have "length (trx_locks (trxs (lock_dequeue l s) t)) < length (trx_locks (trxs s t))"
      unfolding l(6) using i by (rule length_removeAll_less)
    from less.hyps [OF this l(3-5)] l(1,7) False show ?thesis
      by (subst lock_release_off_kernel.simps) simp
  qed
qed

text \<open>Cancelling, for both kinds of locks.\<close>

lemma cancel_ok:
  assumes inv: "lock_inv s" and ok: "trx_ok s" and l: "l \<in> set (all_locks s)" "lock_get_wait l"
  shows "lock_inv (lock_cancel_waiting_and_release l s)" "trx_ok (lock_cancel_waiting_and_release l s)"
proof -
  have wf: "sys_wf s" using inv by (simp add: lock_inv_def)
  have k: "trx_ok (lock_cancel_waiting_and_release l s)" if "trx_ok (lock_dequeue l s)"
    unfolding lock_cancel_waiting_and_release_def
    by (rule trx_ok_keeps [OF that keeps_trans [OF keeps_reset_wait keeps_end_wait]])
  have "lock_inv (lock_cancel_waiting_and_release l s) \<and> trx_ok (lock_cancel_waiting_and_release l s)"
  proof (cases "l \<in> set (rec_locks s)")
    case True
    then have "lock_get_type l = LOCK_REC" using rec_wf [OF inv] by (simp add: rlock_wf_def)
    then have e: "lock_dequeue l s = lock_rec_dequeue_from_page l s" by (simp add: lock_dequeue_def)
    then show ?thesis using inv_cancel_waiting(1) [OF inv True l(2)] trx_ok_dequeue(1) [OF ok wf True] k
      by (simp add: lock_cancel_waiting_and_release_def lock_cancel_waiting_rec_def)
  next
    case False
    then have tab: "l \<in> set (tab_locks s)" using l(1) by (simp add: all_locks_def)
    then have "lock_get_type l = LOCK_TABLE" using ok by (simp add: trx_ok_def)
    then have e: "lock_dequeue l s = lock_table_remove_low l s" by (simp add: lock_dequeue_def lock_consts table_dequeue_remove)
    then show ?thesis using inv_cancel_table [OF inv tab l(2)] trx_ok_remove [OF ok wf tab] k
      by (simp add: lock_cancel_waiting_and_release_def)
  qed
  then show "lock_inv (lock_cancel_waiting_and_release l s)" "trx_ok (lock_cancel_waiting_and_release l s)" by simp_all
qed

section \<open>Reachable states\<close>

definition lock_sys_create :: lock_sys where
  "lock_sys_create = \<lparr>rec_locks = [], tab_locks = [],
     trxs = (\<lambda>t. \<lparr>trx_locks = [], wait_lock = None, que_lock_wait = False, auto_inc_lock = None\<rparr>),
     next_id = 0, page_n_heap = (\<lambda>space page_no. 0)\<rparr>"

text \<open>
  The calls that the engine makes, by a transaction that is not suspended. A conversion of an
  implicit lock finds no other lock on the record that conflicts with it.
\<close>

inductive lock_step :: "lock_sys \<Rightarrow> lock_sys \<Rightarrow> bool" where
  rec_request: "heap_ok s r \<Longrightarrow> m = LOCK_S \<or> m = LOCK_X \<Longrightarrow> \<not> que_lock_wait (trxs s t) \<Longrightarrow>
    lock_rec_lock impl m r index t s = Some (s', e) \<Longrightarrow> lock_step s s'"
| insert_check: "heap_ok s r \<Longrightarrow> \<not> que_lock_wait (trxs s t) \<Longrightarrow>
    lock_rec_insert_check_and_lock flags r index t s = Some (s', e, inherit) \<Longrightarrow> lock_step s s'"
| inherit: "heap_ok s heir \<Longrightarrow> lock_step s (lock_rec_inherit_to_gap heir r s)"
| reset_release: "lock_step s (lock_rec_reset_and_release_wait r s)"
| convert: "heap_ok s r \<Longrightarrow> (\<And>t. impl = Some t \<Longrightarrow> admits s r LOCK_X t) \<Longrightarrow>
    lock_step s (lock_rec_convert_impl_to_expl impl r index s)"
| table_request: "mode \<in> {LOCK_IS, LOCK_IX, LOCK_S, LOCK_X} \<Longrightarrow> \<not> que_lock_wait (trxs s t) \<Longrightarrow>
    lock_table flags table auto_id mode t s = Some (s', e) \<Longrightarrow> lock_step s s'"
| release: "\<not> que_lock_wait (trxs s t) \<Longrightarrow> lock_release_off_kernel t s = Some s' \<Longrightarrow> lock_step s s'"
| cancel: "l \<in> set (all_locks s) \<Longrightarrow> lock_get_wait l \<Longrightarrow> lock_step s (lock_cancel_waiting_and_release l s)"
| page_grows: "lock_step s (s\<lparr>page_n_heap := heaps\<rparr>)"

inductive lock_reach :: "lock_sys \<Rightarrow> bool" where
  init: "lock_reach lock_sys_create"
| step: "lock_reach s \<Longrightarrow> lock_step s s' \<Longrightarrow> lock_reach s'"

inductive_cases lock_stepE: "lock_step s s'"

lemma step_ok:
  assumes "lock_step s s'" "lock_inv s" "trx_ok s"
  shows "lock_inv s' \<and> trx_ok s'"
  using assms
proof (induction rule: lock_step.induct)
  case (rec_request s r m t impl index s' e)
  have wf: "sys_wf s" using rec_request by (simp add: lock_inv_def)
  from inv_lock [OF rec_request(5,1,2,3), of impl index] rec_request(4) have "lock_inv s'" by (metis option.inject prod.inject)
  then show ?case using trx_ok_lock [OF rec_request(6) wf rec_request(2,4)] by simp
next
  case (insert_check s r t flags index s' e inherit)
  have wf: "sys_wf s" using insert_check by (simp add: lock_inv_def)
  from inv_insert [OF insert_check(4,1,2), of flags index] insert_check(3) have "lock_inv s'" by (metis option.inject prod.inject)
  then show ?case using trx_ok_insert [OF insert_check(5) wf insert_check(3)] by simp
next
  case (inherit s heir r)
  then show ?case using inv_inherit(1) trx_ok_inherit by simp
next
  case (reset_release s r)
  then show ?case using inv_reset_and_release(1) trx_ok_keeps [OF _ keeps_reset_and_release] by simp
next
  case (convert s r impl index)
  then show ?case using inv_convert(1) [of s r impl index] trx_ok_convert [of s impl r index] by (simp add: lock_inv_def)
next
  case (table_request mode s t flags table auto_id s' e)
  have wf: "sys_wf s" using table_request by (simp add: lock_inv_def)
  from inv_table [OF table_request(4,1,2), of flags table auto_id] table_request(3) have "lock_inv s'"
    by (metis option.inject prod.inject)
  then show ?case using trx_ok_table [OF table_request(5) wf table_request(1,3)] by simp
next
  case (release s t s')
  then show ?case using release_total [of s t] by auto
next
  case (cancel l s)
  then show ?case using cancel_ok by simp
next
  case (page_grows s heaps)
  then show ?case by (simp add: lock_inv_def sys_wf_def wait_link_def all_locks_def trx_ok_def)
qed

lemma reach_ok:
  assumes "lock_reach s"
  shows "lock_inv s" "trx_ok s"
proof -
  have "lock_inv s \<and> trx_ok s"
    using assms
  proof induction
    case init
    show ?case by (simp add: lock_sys_create_def lock_inv_def sys_wf_def wait_link_def all_locks_def trx_ok_def)
  next
    case (step s s')
    then show ?case using step_ok by blast
  qed
  then show "lock_inv s" "trx_ok s" by simp_all
qed

end
