(* ===== verification/Lock_Properties.thy ===== *)
theory Lock_Properties
  imports Lock_Reach
begin

text \<open>
  What holds in every reachable state of the lock system, and where the code departs from what it
  means to do. A small lock system at the start serves the witnesses.
\<close>

section \<open>A request that has to wait for running transactions\<close>

definition runs_free :: "lock_sys \<Rightarrow> lock \<Rightarrow> nat \<Rightarrow> bool" where
  "runs_free s w t \<longleftrightarrow> list_all (\<lambda>l. lock_has_to_wait w l \<longrightarrow> lock_trx l \<noteq> t \<and> \<not> que_lock_wait (trxs s (lock_trx l)))
     (locks_before s w)"

lemma walk_free:
  "list_all (\<lambda>l. lock_has_to_wait w l \<longrightarrow> lock_trx l \<noteq> start \<and> \<not> que_lock_wait (trxs s (lock_trx l))) ls \<Longrightarrow>
   deadlock_walk fuel s start t w ls marks cost = Some (False, t # marks, cost)"
  by (induction ls) auto

lemma free_no_deadlock: "runs_free s w t \<Longrightarrow> lock_deadlock_occurs s w t = Some False"
  by (simp add: lock_deadlock_occurs_def LOCK_MAX_N_STEPS_IN_DEADLOCK_CHECK_def runs_free_def
      lock_deadlock_recursive.simps(2) [of 1000001, simplified] Let_def walk_free)

lemma lock_waits_eval:
  assumes "lock_rec_lock_fast impl m r index t s = None" "lock_rec_has_expl s m r t = None"
    "lock_rec_other_has_expl_req s (lock_get_confl_mode m) False True r t \<noteq> None"
    "lock_rec_create (m OR LOCK_WAIT) r index t s = (s1, i)" "lock_by_id s1 i = Some l" "runs_free s1 l t"
  shows "lock_rec_lock impl m r index t s = Some (s1\<lparr>trxs := (trxs s1)(t := trxs s1 t\<lparr>que_lock_wait := True\<rparr>)\<rparr>, DB_LOCK_WAIT)"
  using assms free_no_deadlock [OF assms(6)]
  by (simp add: lock_rec_lock_def lock_rec_lock_slow_def Let_def lock_rec_enqueue_waiting_def)

section \<open>A small lock system\<close>

text \<open>Two readers of a record, and one that waits to write it.\<close>

definition demo_rec :: "nat \<Rightarrow> rec_addr" where
  "demo_rec h = \<lparr>r_space = 0, r_page_no = 3, r_heap_no = h\<rparr>"

definition demo0 :: lock_sys where
  "demo0 = lock_sys_create\<lparr>page_n_heap := (\<lambda>space page_no. 10)\<rparr>"

definition demo1 :: lock_sys where
  "demo1 = fst (the (lock_rec_lock False LOCK_S (demo_rec 2) 0 1 demo0))"

definition demo2 :: lock_sys where
  "demo2 = fst (the (lock_rec_lock False LOCK_S (demo_rec 2) 0 2 demo1))"

definition demo3 :: lock_sys where
  "demo3 = (let s = fst (lock_rec_create (LOCK_X OR LOCK_WAIT) (demo_rec 2) 0 3 demo2)
     in s\<lparr>trxs := (trxs s)(3 := trxs s 3\<lparr>que_lock_wait := True\<rparr>)\<rparr>)"

lemma demo_heap: "heap_ok demo0 (demo_rec 2)" "heap_ok demo1 (demo_rec 2)" "heap_ok demo2 (demo_rec 2)"
  unfolding heap_ok_def by code_simp+

lemma demo_run: "\<not> que_lock_wait (trxs demo0 1)" "\<not> que_lock_wait (trxs demo1 2)" "\<not> que_lock_wait (trxs demo2 3)"
  by code_simp+

lemma demo_reach0: "lock_reach demo0"
  unfolding demo0_def by (rule lock_reach.step [OF lock_reach.init lock_step.page_grows])

lemma demo_step:
  assumes "lock_reach s" "heap_ok s r" "m = LOCK_S \<or> m = LOCK_X" "\<not> que_lock_wait (trxs s t)"
  shows "lock_reach (fst (the (lock_rec_lock impl m r index t s)))"
proof -
  obtain s' e where "lock_rec_lock impl m r index t s = Some (s', e)"
    by (rule inv_lock [OF reach_ok(1) [OF assms(1)] assms(2-4)])
  with lock_step.rec_request [OF assms(2-4) this] assms(1) show ?thesis by (simp add: lock_reach.step)
qed

lemma demo_reach1: "lock_reach demo1"
  unfolding demo1_def by (rule demo_step [OF demo_reach0 demo_heap(1) _ demo_run(1)]) simp

lemma demo_reach2: "lock_reach demo2"
  unfolding demo2_def by (rule demo_step [OF demo_reach1 demo_heap(2) _ demo_run(2)]) simp

lemma demo_wait: "lock_rec_lock False LOCK_X (demo_rec 2) 0 3 demo2 = Some (demo3, DB_LOCK_WAIT)"
proof -
  let ?c = "lock_rec_create (LOCK_X OR LOCK_WAIT) (demo_rec 2) 0 3 demo2"
  have l: "lock_by_id (fst ?c) (snd ?c) = Some (last (rec_locks (fst ?c)))" by code_simp
  have d: "runs_free (fst ?c) (last (rec_locks (fst ?c))) 3" by code_simp
  have "lock_rec_lock_fast False LOCK_X (demo_rec 2) 0 3 demo2 = None"
    "lock_rec_has_expl demo2 LOCK_X (demo_rec 2) 3 = None"
    "lock_rec_other_has_expl_req demo2 (lock_get_confl_mode LOCK_X) False True (demo_rec 2) 3 \<noteq> None"
    by code_simp+
  moreover have "?c = (fst ?c, snd ?c)" by (rule prod.collapse [symmetric])
  ultimately have "lock_rec_lock False LOCK_X (demo_rec 2) 0 3 demo2 =
      Some ((fst ?c)\<lparr>trxs := (trxs (fst ?c))(3 := trxs (fst ?c) 3\<lparr>que_lock_wait := True\<rparr>)\<rparr>, DB_LOCK_WAIT)"
    using lock_waits_eval [OF _ _ _ _ l d] by blast
  then show ?thesis by (simp only: demo3_def Let_def)
qed

lemma demo_reach3: "lock_reach demo3"
  using lock_reach.step [OF demo_reach2 lock_step.rec_request [OF demo_heap(3) _ demo_run(3) demo_wait]] by simp


text \<open>
  A second one: transaction 1 has written record 3; transaction 2 has read and written record 2 and
  waits for record 3.
\<close>

definition alarm1 :: lock_sys where
  "alarm1 = fst (the (lock_rec_lock False LOCK_X (demo_rec 3) 0 1 demo0))"

definition alarm2 :: lock_sys where
  "alarm2 = fst (the (lock_rec_lock False LOCK_S (demo_rec 2) 0 2 alarm1))"

definition alarm3 :: lock_sys where
  "alarm3 = fst (the (lock_rec_lock False LOCK_X (demo_rec 2) 0 2 alarm2))"

definition alarm4 :: lock_sys where
  "alarm4 = (let s = fst (lock_rec_create (LOCK_S OR LOCK_WAIT) (demo_rec 3) 0 2 alarm3)
     in s\<lparr>trxs := (trxs s)(2 := trxs s 2\<lparr>que_lock_wait := True\<rparr>)\<rparr>)"

lemma alarm_wait: "lock_rec_lock False LOCK_S (demo_rec 3) 0 2 alarm3 = Some (alarm4, DB_LOCK_WAIT)"
proof -
  let ?c = "lock_rec_create (LOCK_S OR LOCK_WAIT) (demo_rec 3) 0 2 alarm3"
  have l: "lock_by_id (fst ?c) (snd ?c) = Some (last (rec_locks (fst ?c)))" by code_simp
  have d: "runs_free (fst ?c) (last (rec_locks (fst ?c))) 2" by code_simp
  have "lock_rec_lock_fast False LOCK_S (demo_rec 3) 0 2 alarm3 = None"
    "lock_rec_has_expl alarm3 LOCK_S (demo_rec 3) 2 = None"
    "lock_rec_other_has_expl_req alarm3 (lock_get_confl_mode LOCK_S) False True (demo_rec 3) 2 \<noteq> None"
    by code_simp+
  moreover have "?c = (fst ?c, snd ?c)" by (rule prod.collapse [symmetric])
  ultimately have "lock_rec_lock False LOCK_S (demo_rec 3) 0 2 alarm3 =
      Some ((fst ?c)\<lparr>trxs := (trxs (fst ?c))(2 := trxs (fst ?c) 2\<lparr>que_lock_wait := True\<rparr>)\<rparr>, DB_LOCK_WAIT)"
    using lock_waits_eval [OF _ _ _ _ l d] by blast
  then show ?thesis by (simp only: alarm4_def Let_def)
qed

lemma alarm_reach: "lock_reach alarm4"
proof -
  have h: "heap_ok demo0 (demo_rec 3)" "heap_ok alarm1 (demo_rec 2)" "heap_ok alarm2 (demo_rec 2)" "heap_ok alarm3 (demo_rec 3)"
    unfolding heap_ok_def by code_simp+
  have w: "\<not> que_lock_wait (trxs demo0 1)" "\<not> que_lock_wait (trxs alarm1 2)" "\<not> que_lock_wait (trxs alarm2 2)"
    "\<not> que_lock_wait (trxs alarm3 2)" by code_simp+
  have "lock_reach alarm1" unfolding alarm1_def by (rule demo_step [OF demo_reach0 h(1) _ w(1)]) simp
  then have "lock_reach alarm2" unfolding alarm2_def by (rule demo_step [OF _ h(2) _ w(2)]) simp
  then have "lock_reach alarm3" unfolding alarm3_def by (rule demo_step [OF _ h(3) _ w(3)]) simp
  then show ?thesis
    using lock_reach.step [OF _ lock_step.rec_request [OF h(4) _ w(4) alarm_wait]] by simp
qed

section \<open>What holds in every reachable state\<close>

lemma queue_pair:
  assumes "queue_ok B ls" "l \<in> set ls" "l' \<in> set ls" "l \<noteq> l'"
  shows "goes_with l l' \<or> goes_with l' l"
proof -
  obtain xs ys where ls: "ls = xs @ l # ys" using split_list [OF assms(2)] by blast
  then consider "l' \<in> set xs" | "l' \<in> set ys" using assms(3,4) by auto
  then show ?thesis
  proof cases
    case 1
    then show ?thesis using assms(1) ls by (auto simp: queue_ok_def fits_def)
  next
    case 2
    then obtain us vs where "ys = us @ l' # vs" using split_list by metis
    then have "ls = (xs @ l # us) @ l' # vs" using ls by simp
    then have "fits B (xs @ l # us) l'" using assms(1) unfolding queue_ok_def by blast
    then show ?thesis by (simp add: fits_def)
  qed
qed





lemma create_que [simp]: "que_lock_wait (trxs (fst (lock_rec_create tm r index t s)) t') = que_lock_wait (trxs s t')"
  by (simp add: lock_rec_create_def Let_def lock_set_lock_and_trx_wait_def)

lemma add_que [simp]: "que_lock_wait (trxs (lock_rec_add_to_queue tm r index t s) t') = que_lock_wait (trxs s t')"
  by (simp add: lock_rec_add_to_queue_def Let_def split: option.split)

lemma reset_wait_que [simp]: "que_lock_wait (trxs (lock_reset_lock_and_trx_wait l s) t) = que_lock_wait (trxs s t)"
  by (simp add: lock_reset_lock_and_trx_wait_def Let_def)

lemma enqueue_que:
  assumes "lock_rec_enqueue_waiting tm r index t s = Some (s', e)" "\<not> que_lock_wait (trxs s t)"
  shows "e \<noteq> DB_SUCCESS \<and> (e = DB_LOCK_WAIT \<longleftrightarrow> que_lock_wait (trxs s' t))"
proof -
  obtain s1 i where c: "lock_rec_create (tm OR LOCK_WAIT) r index t s = (s1, i)" by (cases "lock_rec_create (tm OR LOCK_WAIT) r index t s")
  then have "\<not> que_lock_wait (trxs s1 t)" using assms(2) create_que [of "tm OR LOCK_WAIT" r index t s t] by simp
  then show ?thesis
    using assms(1) by (auto simp: lock_rec_enqueue_waiting_def c Let_def split: option.splits bool.splits)
qed

lemma fast_que: "lock_rec_lock_fast impl m r index t s = Some s' \<Longrightarrow> que_lock_wait (trxs s' t') = que_lock_wait (trxs s t')"
  by (auto simp: lock_rec_lock_fast_def split: list.splits if_splits)

text \<open>
  C8. A lock request of a running transaction is always answered, the deadlock search included: by
  success, by a wait or by a deadlock; the transaction is suspended afterwards exactly when the
  answer is a wait.
\<close>

theorem lock_request_answered:
  assumes "lock_reach s" "heap_ok s r" "m = LOCK_S \<or> m = LOCK_X" "\<not> que_lock_wait (trxs s t)"
  shows "\<exists>s' e. lock_rec_lock impl m r index t s = Some (s', e) \<and> (e = DB_LOCK_WAIT \<longleftrightarrow> que_lock_wait (trxs s' t))"
proof -
  obtain s' e where l: "lock_rec_lock impl m r index t s = Some (s', e)"
    by (rule inv_lock [OF reach_ok(1) [OF assms(1)] assms(2-4)])
  have "e = DB_LOCK_WAIT \<longleftrightarrow> que_lock_wait (trxs s' t)"
  proof (cases "lock_rec_lock_fast impl m r index t s")
    case (Some s1)
    then show ?thesis using l fast_que [OF Some] assms(4) by (simp add: lock_rec_lock_def)
  next
    case None
    then have "lock_rec_lock_slow impl m r index t s = Some (s', e)" using l by (simp add: lock_rec_lock_def)
    then show ?thesis
      using enqueue_que [OF _ assms(4)] assms(4) by (auto simp: lock_rec_lock_slow_def Let_def split: if_splits)
  qed
  with l show ?thesis by blast
qed

theorem lock_request_answered_witness:
  "\<exists>s' e. lock_rec_lock False LOCK_X (demo_rec 2) 0 3 demo2 = Some (s', e) \<and> (e = DB_LOCK_WAIT \<longleftrightarrow> que_lock_wait (trxs s' 3))"
  by (rule lock_request_answered [OF demo_reach2 demo_heap(3) _ demo_run(3)]) simp

text \<open>
  C9. Deadlocks are found: when the search for a new waiting lock finds none, no chain of waiting
  transactions leads from that lock back to the transaction.
\<close>

theorem lock_no_deadlock_missed:
  assumes "lock_deadlock_occurs s l t = Some False"
  shows "\<not> waits_path s l t"
  using deadlock_occurs_False [OF assms] .

theorem lock_no_deadlock_missed_witness: "\<not> waits_path demo3 (last (rec_locks demo3)) 3"
proof (rule lock_no_deadlock_missed [OF free_no_deadlock])
  show "runs_free demo3 (last (rec_locks demo3)) 3" by code_simp
qed


text \<open>
  In the second system nobody waits for transaction 3, which has no lock at all, but its request is
  refused.
\<close>

definition alarm5 :: "lock_sys \<times> nat" where
  "alarm5 = lock_rec_create (LOCK_X OR LOCK_WAIT) (demo_rec 2) 0 3 alarm4"


text \<open>
  C22. The end of a transaction that does not wait terminates and releases all: afterwards it has no
  lock, its list is empty, and the invariants of the lock system hold.
\<close>

theorem lock_release_all:
  assumes "lock_reach s" "\<not> que_lock_wait (trxs s t)"
  shows "\<exists>s'. lock_release_off_kernel t s = Some s' \<and> lock_reach s' \<and> trx_locks (trxs s' t) = []
    \<and> (\<forall>l \<in> set (all_locks s'). lock_trx l \<noteq> t)"
proof -
  obtain s' where s': "lock_release_off_kernel t s = Some s'" "trx_ok s'" "trx_locks (trxs s' t) = []"
    using release_total [OF reach_ok [OF assms(1)] assms(2)] by blast
  have "lock_trx l \<noteq> t" if "l \<in> set (all_locks s')" for l
  proof
    assume "lock_trx l = t"
    with that s'(2) have "lock_id l \<in> set (trx_locks (trxs s' t))" by (auto simp: trx_ok_def)
    with s'(3) show False by simp
  qed
  with s' lock_reach.step [OF assms(1) lock_step.release [OF assms(2) s'(1)]] show ?thesis by blast
qed

theorem lock_release_all_witness:
  "\<exists>s'. lock_release_off_kernel 1 demo3 = Some s' \<and> lock_reach s' \<and> trx_locks (trxs s' 1) = []
    \<and> list_all (\<lambda>l. lock_trx l \<noteq> 1) (all_locks s')"
proof -
  have "\<not> que_lock_wait (trxs demo3 1)" by code_simp
  from lock_release_all [OF demo_reach3 this] show ?thesis by (auto simp: list_all_iff)
qed



text \<open>
  Table locks do not exclude other transactions: \<open>lock_table_other_has_incompatible\<close> looks for
  conflicts among the locks of the requesting transaction itself, so that a transaction without a
  lock on the table gets every lock at once, whatever others hold.
\<close>

theorem lock_table_ignores_others:
  assumes "\<forall>l \<in> set (table_queue s table). lock_trx l \<noteq> t" "mode \<noteq> LOCK_AUTO_INC"
  shows "\<exists>s'. lock_table flags table auto_id mode t s = Some (s', DB_SUCCESS)"
proof -
  have "\<not> lock_table_other_has_incompatible s t True table mode" "lock_table_has s t table mode = None"
    using assms(1) by (auto simp: lock_table_other_has_incompatible_def lock_table_has_def list_ex_iff find_None_iff)
  then show ?thesis using assms(2) by (simp add: lock_table_def lock_table_create_def Let_def)
qed

theorem lock_table_ignores_others_witness:
  "\<exists>s s'. lock_table 0 7 0 LOCK_X 1 demo0 = Some (s, DB_SUCCESS) \<and> lock_table 0 7 0 LOCK_X 2 s = Some (s', DB_SUCCESS)"
proof -
  let ?s = "fst (the (lock_table 0 7 0 LOCK_X 1 demo0))"
  have "map_option snd (lock_table 0 7 0 LOCK_X 1 demo0) = Some DB_SUCCESS" by code_simp
  then have "lock_table 0 7 0 LOCK_X 1 demo0 = Some (?s, DB_SUCCESS)" by (cases "lock_table 0 7 0 LOCK_X 1 demo0") auto
  moreover have "list_all (\<lambda>l. lock_trx l \<noteq> 2) (table_queue ?s 7)" by code_simp
  then have "\<forall>l \<in> set (table_queue ?s 7). lock_trx l \<noteq> 2" by (simp add: list_all_iff)
  from lock_table_ignores_others [OF this, of LOCK_X 0 0] have "\<exists>s'. lock_table 0 7 0 LOCK_X 2 ?s = Some (s', DB_SUCCESS)"
    by (simp add: lock_consts)
  ultimately show ?thesis by blast
qed

text \<open>
  A table lock that waits is never granted by the release of another, and the first request for an
  AUTO-INC lock fails an assertion.
\<close>

lemma lock_table_never_granted: "tab_locks (lock_table_dequeue l s) = filter (\<lambda>l'. lock_id l' \<noteq> lock_id l) (tab_locks s)"
  by (simp add: table_dequeue_remove remove_frame)

lemma lock_auto_inc_fails:
  "lock_reach s \<Longrightarrow> lock_table_create table auto_id LOCK_AUTO_INC t s = None"
  using reach_ok(2) [of s] by (simp add: lock_table_create_def trx_ok_def)

end
