(* ===== verification/Lock_Update.thy ===== *)
theory Lock_Update
  imports Lock_Properties
begin

text \<open>
  \<open>lock_update_*\<close>, \<open>lock_move_*\<close> and the infimum store of \<open>lock0lock.cc\<close>: what a change of the
  records of a page does to the locks. A page is its space and page number; a record of it its heap
  number. What the code reads of the pages, the next record and the lists of records that it walks
  with two cursors, are arguments.
\<close>

section \<open>Operations\<close>

definition page_rec :: "ulint \<times> ulint \<Rightarrow> nat \<Rightarrow> rec_addr" where
  "page_rec p h = \<lparr>r_space = fst p, r_page_no = snd p, r_heap_no = h\<rparr>"

definition page_get_infimum_rec :: "ulint \<times> ulint \<Rightarrow> rec_addr" where
  "page_get_infimum_rec p = page_rec p 0"

definition page_get_supremum_rec :: "ulint \<times> ulint \<Rightarrow> rec_addr" where
  "page_get_supremum_rec p = page_rec p 1"

definition lock_update_split_right ::
    "(rec_addr \<Rightarrow> rec_addr) \<Rightarrow> ulint \<times> ulint \<Rightarrow> ulint \<times> ulint \<Rightarrow> lock_sys \<Rightarrow> lock_sys" where
  "lock_update_split_right rec_next right_page left_page s =
     (let s = lock_rec_move (page_get_supremum_rec right_page) (page_get_supremum_rec left_page) s
      in lock_rec_inherit_to_gap (page_get_supremum_rec left_page) (rec_next (page_get_infimum_rec right_page)) s)"

definition lock_update_merge_right :: "rec_addr \<Rightarrow> ulint \<times> ulint \<Rightarrow> lock_sys \<Rightarrow> lock_sys" where
  "lock_update_merge_right orig_succ left_page s =
     (let s = lock_rec_inherit_to_gap orig_succ (page_get_supremum_rec left_page) s;
          s = lock_rec_reset_and_release_wait (page_get_supremum_rec left_page) s
      in lock_rec_free_all_from_discard_page (fst left_page) (snd left_page) s)"

definition lock_update_root_raise :: "ulint \<times> ulint \<Rightarrow> ulint \<times> ulint \<Rightarrow> lock_sys \<Rightarrow> lock_sys" where
  "lock_update_root_raise new_page root s =
     lock_rec_move (page_get_supremum_rec new_page) (page_get_supremum_rec root) s"

definition lock_update_copy_and_discard :: "ulint \<times> ulint \<Rightarrow> ulint \<times> ulint \<Rightarrow> lock_sys \<Rightarrow> lock_sys" where
  "lock_update_copy_and_discard new_page page s =
     (let s = lock_rec_move (page_get_supremum_rec new_page) (page_get_supremum_rec page) s
      in lock_rec_free_all_from_discard_page (fst page) (snd page) s)"

definition lock_update_split_left ::
    "(rec_addr \<Rightarrow> rec_addr) \<Rightarrow> ulint \<times> ulint \<Rightarrow> ulint \<times> ulint \<Rightarrow> lock_sys \<Rightarrow> lock_sys" where
  "lock_update_split_left rec_next right_page left_page s =
     lock_rec_inherit_to_gap (page_get_supremum_rec left_page) (rec_next (page_get_infimum_rec right_page)) s"

definition lock_update_merge_left ::
    "(rec_addr \<Rightarrow> rec_addr) \<Rightarrow> ulint \<times> ulint \<Rightarrow> rec_addr \<Rightarrow> ulint \<times> ulint \<Rightarrow> lock_sys \<Rightarrow> lock_sys" where
  "lock_update_merge_left rec_next left_page orig_pred right_page s =
     (let s = (if rec_next orig_pred \<noteq> page_get_supremum_rec left_page
            then lock_rec_reset_and_release_wait (page_get_supremum_rec left_page)
              (lock_rec_inherit_to_gap (rec_next orig_pred) (page_get_supremum_rec left_page) s)
            else s);
          s = lock_rec_move (page_get_supremum_rec left_page) (page_get_supremum_rec right_page) s
      in lock_rec_free_all_from_discard_page (fst right_page) (snd right_page) s)"

definition lock_rec_reset_and_inherit_gap_locks :: "rec_addr \<Rightarrow> rec_addr \<Rightarrow> lock_sys \<Rightarrow> lock_sys" where
  "lock_rec_reset_and_inherit_gap_locks heir r s =
     lock_rec_inherit_to_gap heir r (lock_rec_reset_and_release_wait heir s)"

text \<open>\<open>recs\<close>: the records of the page in their order, from the infimum to the supremum.\<close>

definition lock_update_discard :: "rec_addr list \<Rightarrow> rec_addr \<Rightarrow> ulint \<times> ulint \<Rightarrow> lock_sys \<Rightarrow> lock_sys" where
  "lock_update_discard recs heir page s =
     (if page_queue s (fst page) (snd page) = [] then s
      else let s = fold (\<lambda>r s. lock_rec_reset_and_release_wait r (lock_rec_inherit_to_gap heir r s)) recs s
        in lock_rec_free_all_from_discard_page (fst page) (snd page) s)"

definition lock_update_insert :: "(rec_addr \<Rightarrow> rec_addr) \<Rightarrow> rec_addr \<Rightarrow> lock_sys \<Rightarrow> lock_sys" where
  "lock_update_insert rec_next r s = lock_rec_inherit_to_gap r (rec_next r) s"

definition lock_update_delete :: "(rec_addr \<Rightarrow> rec_addr) \<Rightarrow> rec_addr \<Rightarrow> lock_sys \<Rightarrow> lock_sys" where
  "lock_update_delete rec_next r s =
     lock_rec_reset_and_release_wait r (lock_rec_inherit_to_gap (rec_next r) r s)"

definition lock_rec_store_on_page_infimum :: "rec_addr \<Rightarrow> lock_sys \<Rightarrow> lock_sys" where
  "lock_rec_store_on_page_infimum r s = lock_rec_move (page_rec (r_space r, r_page_no r) 0) r s"

definition lock_rec_restore_from_page_infimum :: "rec_addr \<Rightarrow> ulint \<times> ulint \<Rightarrow> lock_sys \<Rightarrow> lock_sys" where
  "lock_rec_restore_from_page_infimum r page s = lock_rec_move r (page_get_infimum_rec page) s"

text \<open>
  One record of \<open>lock_move_rec_list_end\<close> and \<open>lock_move_rec_list_start\<close>: the lock is read anew,
  its bit is moved to the other page. The pairs are those that the two cursors meet; the locks are
  those of the old page, in the order of its queue.
\<close>

definition move_bit :: "nat \<Rightarrow> rec_addr \<times> rec_addr \<Rightarrow> lock_sys \<Rightarrow> lock_sys" where
  "move_bit i rr s =
     (case lock_by_id s i of None \<Rightarrow> s
      | Some l \<Rightarrow>
        if lock_rec_get_nth_bit l (r_heap_no (fst rr))
        then let s = s\<lparr>rec_locks := upd_lock i (\<lambda>l. lock_rec_reset_nth_bit l (r_heap_no (fst rr))) (rec_locks s)\<rparr>;
                 s = (if lock_get_wait l then lock_reset_lock_and_trx_wait l s else s)
             in lock_rec_add_to_queue (type_mode l) (snd rr) (lock_index l) (lock_trx l) s
        else s)"

definition lock_move_rec_list :: "(rec_addr \<times> rec_addr) list \<Rightarrow> ulint \<times> ulint \<Rightarrow> lock_sys \<Rightarrow> lock_sys" where
  "lock_move_rec_list pairs page s =
     fold (\<lambda>l. fold (move_bit (lock_id l)) pairs) (page_queue s (fst page) (snd page)) s"

text \<open>
  \<open>cur1\<close> are the records of the page from \<open>r\<close> on (the infimum is skipped) without the supremum,
  \<open>cur2\<close> those of the new page from its first user record on.
\<close>

definition lock_move_rec_list_end :: "rec_addr list \<Rightarrow> rec_addr list \<Rightarrow> ulint \<times> ulint \<Rightarrow> lock_sys \<Rightarrow> lock_sys" where
  "lock_move_rec_list_end cur1 cur2 page s = lock_move_rec_list (zip cur1 cur2) page s"

text \<open>
  \<open>cur1\<close> are the user records of the page before \<open>r\<close>, \<open>cur2\<close> those of the new page behind \<open>old_end\<close>.
\<close>

definition lock_move_rec_list_start :: "rec_addr list \<Rightarrow> rec_addr list \<Rightarrow> ulint \<times> ulint \<Rightarrow> lock_sys \<Rightarrow> lock_sys" where
  "lock_move_rec_list_start cur1 cur2 page s = lock_move_rec_list (zip cur1 cur2) page s"

text \<open>
  \<open>lock_move_reorganize_page\<close>: the bits and waits of all locks of the page are cleared, then every
  lock is put on the records anew from its copy. \<open>pairs\<close> are the records of the page and of its old
  copy, from the infimum to the supremum.
\<close>

definition lock_move_reorganize_page :: "(rec_addr \<times> rec_addr) list \<Rightarrow> ulint \<times> ulint \<Rightarrow> lock_sys \<Rightarrow> lock_sys" where
  "lock_move_reorganize_page pairs page s =
     (let old_locks = page_queue s (fst page) (snd page);
          s = fold (\<lambda>l s.
                let s = s\<lparr>rec_locks := upd_lock (lock_id l) lock_rec_bitmap_reset (rec_locks s)\<rparr>
                in if lock_get_wait l then lock_reset_lock_and_trx_wait l s else s) old_locks s
      in fold (\<lambda>l. fold (\<lambda>rr s.
           if lock_rec_get_nth_bit l (r_heap_no (snd rr))
           then lock_rec_add_to_queue (type_mode l) (fst rr) (lock_index l) (lock_trx l) s else s) pairs)
         old_locks s)"

section \<open>Inherited locks\<close>

definition same_kind :: "lock \<Rightarrow> lock \<Rightarrow> bool" where
  "same_kind l l' \<longleftrightarrow> lock_trx l' = lock_trx l \<and> type_mode l' = type_mode l"

lemma same_kind_refl [simp]: "same_kind l l"
  by (simp add: same_kind_def)

text \<open>Adding a lock to a queue keeps all locks on all records.\<close>

lemma add_mono:
  assumes inv: "lock_inv s" and h: "heap_ok s r" and l: "l \<in> set (rec_queue s q)"
  shows "\<exists>l' \<in> set (rec_queue (lock_rec_add_to_queue tm r index t s) q). same_kind l l'"
proof -
  have wf: "sys_wf s" using inv by (simp add: lock_inv_def)
  have c: "\<exists>l' \<in> set (rec_queue (fst (lock_rec_create tm' r index t s)) q). same_kind l l'" for tm'
    using l by (intro bexI [of _ l]) (auto simp: rec_queue_iff create_eq [OF wf])
  have b: "\<exists>l' \<in> set (rec_queue (s\<lparr>rec_locks := upd_lock i (\<lambda>l. lock_rec_set_nth_bit l (r_heap_no r)) (rec_locks s)\<rparr>) q).
      same_kind l l'" if ok: "\<And>l. l \<in> set (rec_locks s) \<Longrightarrow> lock_id l = i \<Longrightarrow> r_heap_no r < rl_n_bits l" for i
  proof -
    let ?l = "if lock_id l = i then lock_rec_set_nth_bit l (r_heap_no r) else l"
    have lr: "l \<in> set (rec_locks s)" using l by (simp add: rec_queue_iff)
    have "rlock_wf l" using rec_wf [OF inv lr] .
    then have "lock_rec_get_nth_bit ?l (r_heap_no q)"
      using l ok [OF lr] by (auto simp: rec_queue_iff rlock_wf_def get_set_nth_bit(1))
    moreover have "?l \<in> set (upd_lock i (\<lambda>l. lock_rec_set_nth_bit l (r_heap_no r)) (rec_locks s))"
      using lr by (auto simp: upd_lock_def)
    ultimately show ?thesis using l by (intro bexI [of _ ?l]) (auto simp: rec_queue_iff same_kind_def)
  qed
  show ?thesis
  proof (cases "lock_rec_find_similar_on_page s
      (if page_rec_is_supremum r then (tm OR LOCK_REC) AND NOT LOCK_GAP else tm OR LOCK_REC) r t")
    case None
    then show ?thesis using c by (simp add: lock_rec_add_to_queue_def Let_def)
  next
    case (Some sim)
    from find_SomeD [OF this [unfolded lock_rec_find_similar_on_page_def]]
    have sim: "r_heap_no r < rl_n_bits sim" "sim \<in> set (rec_locks s)" by (auto simp: page_queue_def)
    have "r_heap_no r < rl_n_bits l'" if "l' \<in> set (rec_locks s)" "lock_id l' = lock_id sim" for l'
      using id_unique [OF sys_wf_rec [OF wf] that(1) sim(2) that(2)] sim(1) by simp
    from b [OF this] Some c show ?thesis by (simp add: lock_rec_add_to_queue_def Let_def)
  qed
qed

text \<open>The lock that it adds.\<close>

lemma add_there:
  assumes inv: "lock_inv s" and h: "heap_ok s r" and tm: "tm AND LOCK_WAIT = 0"
  shows "\<exists>l \<in> set (rec_queue (lock_rec_add_to_queue tm r index t s) r). lock_trx l = t
    \<and> lock_get_mode l = tm AND LOCK_MODE_MASK \<and> \<not> lock_get_wait l
    \<and> (page_rec_is_supremum r \<or> lock_rec_get_gap l = (tm AND LOCK_GAP \<noteq> 0))"
proof -
  have wf: "sys_wf s" using inv by (simp add: lock_inv_def)
  define tm' where "tm' = (if page_rec_is_supremum r then (tm OR LOCK_REC) AND NOT LOCK_GAP else tm OR LOCK_REC)"
  have f: "tm' AND LOCK_MODE_MASK = tm AND LOCK_MODE_MASK" "tm' AND LOCK_WAIT = 0"
    "page_rec_is_supremum r \<or> tm' AND LOCK_GAP = tm AND LOCK_GAP"
    using tm by (simp_all add: tm'_def type_mode_or type_mode_and_not)
  have c: "new_lock tm' r index t s \<in> set (rec_queue (fst (lock_rec_create tm' r index t s)) r)"
    using h by (simp add: rec_queue_iff create_eq [OF wf] new_lock_simps new_lock_bits heap_ok_def)
  show ?thesis
  proof (cases "lock_rec_add_to_queue tm r index t s = fst (lock_rec_create tm' r index t s)")
    case True
    then show ?thesis using c f by (intro bexI [of _ "new_lock tm' r index t s"]) (auto simp: new_lock_simps)
  next
    case False
    then obtain sim where e: "lock_rec_find_similar_on_page s tm' r t = Some sim"
      "lock_rec_add_to_queue tm r index t s =
         s\<lparr>rec_locks := upd_lock (lock_id sim) (\<lambda>l. lock_rec_set_nth_bit l (r_heap_no r)) (rec_locks s)\<rparr>"
      unfolding lock_rec_add_to_queue_def Let_def tm'_def [symmetric] by (auto split: option.splits if_splits)
    from find_SomeD [OF e(1) [unfolded lock_rec_find_similar_on_page_def]]
    have sim: "lock_trx sim = t" "type_mode sim = tm'" "r_heap_no r < rl_n_bits sim" "sim \<in> set (rec_locks s)"
      "rl_space sim = r_space r" "rl_page_no sim = r_page_no r" by (auto simp: page_queue_def)
    let ?l = "lock_rec_set_nth_bit sim (r_heap_no r)"
    have "lock_rec_get_nth_bit ?l (r_heap_no r)"
      using rec_wf [OF inv sim(4)] sim(3) by (simp add: rlock_wf_def get_set_nth_bit(1))
    moreover have "?l \<in> set (upd_lock (lock_id sim) (\<lambda>l. lock_rec_set_nth_bit l (r_heap_no r)) (rec_locks s))"
      using sim(4) by (auto simp: upd_lock_def)
    ultimately show ?thesis
      using sim f by (intro bexI [of _ ?l]) (auto simp: e(2) rec_queue_iff set_nth_bit_rest lock_get_mode_def
          lock_get_wait_def lock_rec_get_gap_def)
  qed
qed

lemma inherit_keeps:
  assumes "lock_inv s" "heap_ok s heir" "l \<in> set (rec_queue s q)" "\<And>l. l \<in> set qs \<Longrightarrow> rlock_wf l"
  shows "\<exists>l' \<in> set (rec_queue (fold (\<lambda>l s. lock_rec_add_to_queue ((type_mode l OR LOCK_GAP) AND NOT LOCK_WAIT) heir
           (lock_index l) (lock_trx l) s) qs s) q). same_kind l l'"
  using assms
proof (induction qs arbitrary: s l)
  case Nil
  then show ?case using same_kind_refl [of l] by (simp add: bexI [of _ l])
next
  case (Cons a qs)
  let ?s = "lock_rec_add_to_queue ((type_mode a OR LOCK_GAP) AND NOT LOCK_WAIT) heir (lock_index a) (lock_trx a) s"
  obtain l1 where l1: "l1 \<in> set (rec_queue ?s q)" "same_kind l l1" using add_mono [OF Cons.prems(1-3)] by blast
  have "lock_inv ?s" by (rule inherit_turn) (use Cons.prems in auto)
  moreover have "heap_ok ?s heir" using Cons.prems(2) by (simp add: heap_ok_def heap_frame)
  ultimately show ?case
    using Cons.IH [OF _ _ l1(1)] Cons.prems(4) l1(2) by (fastforce simp: same_kind_def)
qed

text \<open>The heir has every lock of the record, as a granted gap lock.\<close>

definition inherited :: "rec_addr \<Rightarrow> lock \<Rightarrow> lock \<Rightarrow> bool" where
  "inherited heir l l' \<longleftrightarrow> lock_trx l' = lock_trx l \<and> lock_get_mode l' = lock_get_mode l \<and> \<not> lock_get_wait l'
     \<and> (page_rec_is_supremum heir \<or> lock_rec_get_gap l')"

lemma inherit_there:
  assumes inv: "lock_inv s" and h: "heap_ok s heir" and l: "l \<in> set (rec_queue s r)"
  shows "\<exists>l' \<in> set (rec_queue (lock_rec_inherit_to_gap heir r s) heir). inherited heir l l'"
proof -
  let ?f = "\<lambda>l s. lock_rec_add_to_queue ((type_mode l OR LOCK_GAP) AND NOT LOCK_WAIT) heir (lock_index l) (lock_trx l) s"
  have "\<exists>l' \<in> set (rec_queue (fold ?f qs s) heir). inherited heir l l'"
    if "lock_inv s" "heap_ok s heir" "l \<in> set qs" "\<And>l. l \<in> set qs \<Longrightarrow> rlock_wf l" for qs s
    using that
  proof (induction qs arbitrary: s)
    case (Cons a qs)
    have i: "lock_inv (?f a s)" by (rule inherit_turn) (use Cons.prems in auto)
    have h: "heap_ok (?f a s) heir" using Cons.prems(2) by (simp add: heap_ok_def heap_frame)
    show ?case
    proof (cases "l = a")
      case True
      obtain l1 where l1: "l1 \<in> set (rec_queue (?f a s) heir)" "lock_trx l1 = lock_trx a"
        "lock_get_mode l1 = ((type_mode a OR LOCK_GAP) AND NOT LOCK_WAIT) AND LOCK_MODE_MASK" "\<not> lock_get_wait l1"
        "page_rec_is_supremum heir \<or> lock_rec_get_gap l1 = (((type_mode a OR LOCK_GAP) AND NOT LOCK_WAIT) AND LOCK_GAP \<noteq> 0)"
        using add_there [OF Cons.prems(1,2), of "(type_mode a OR LOCK_GAP) AND NOT LOCK_WAIT" "lock_index a" "lock_trx a"]
        by (auto simp: type_mode_and_not)
      have "((type_mode a OR LOCK_GAP) AND NOT LOCK_WAIT) AND LOCK_GAP \<noteq> 0"
        unfolding type_mode_and_not by (rule type_mode_or)
      with l1 have "inherited heir l l1"
        by (simp add: inherited_def True lock_get_mode_def type_mode_or type_mode_and_not)
      moreover obtain l2 where "l2 \<in> set (rec_queue (fold ?f qs (?f a s)) heir)" "same_kind l1 l2"
        using inherit_keeps [OF i h l1(1), of qs] Cons.prems(4) by auto
      ultimately show ?thesis
        by (intro bexI [of _ l2]) (auto simp: inherited_def same_kind_def lock_get_mode_def lock_get_wait_def lock_rec_get_gap_def)
    next
      case False
      then show ?thesis using Cons.IH [OF i h] Cons.prems(3,4) by simp
    qed
  qed simp
  from this [OF inv h l] rec_wf [OF inv] show ?thesis
    by (auto simp: lock_rec_inherit_to_gap_def rec_queue_iff)
qed

section \<open>Released records\<close>

text \<open>A granted lock on another record keeps its place, and no lock of the record stays.\<close>

lemma release_loop_frame:
  "inv_on (- lock_id ` set qs) {} s \<Longrightarrow> set qs \<subseteq> {l \<in> set (rec_locks s). on_rec r l} \<Longrightarrow> distinct (map lock_id qs) \<Longrightarrow>
   (\<And>w. w \<in> set (rec_locks s) \<Longrightarrow> on_rec r w \<Longrightarrow> w \<in> set qs) \<Longrightarrow>
   (\<forall>l \<in> set (rec_locks (fold (release_step r) qs s)). \<not> on_rec r l) \<and>
   (\<forall>l \<in> set (rec_locks s). \<not> lock_get_wait l \<longrightarrow> on_rec q l \<longrightarrow> q \<noteq> r \<longrightarrow>
      (\<exists>l' \<in> set (rec_locks (fold (release_step r) qs s)). on_rec q l' \<and> same_kind l l'))"
proof (induction qs arbitrary: s)
  case Nil
  then show ?case by (auto intro: same_kind_refl)
next
  case (Cons a qs)
  have wf: "sys_wf s" using Cons.prems(1) by (simp add: inv_on_def)
  have a: "a \<in> set (rec_locks s)" "on_rec r a" using Cons.prems(2) by auto
  have aw: "rlock_wf a" using wf a(1) by (simp add: sys_wf_def)
  have qo: "queue_ok (- lock_id ` set (a # qs)) (rec_locks s)" using Cons.prems(1) by (simp add: inv_on_def)
  have sb: "lock_get_wait a \<longrightarrow> single_bit a" using qo split_list [OF a(1)] by (auto simp: queue_ok_def fits_def)
  note e = release_step_eq [OF wf a sb]
  note mem = upd_lock_mem [OF sys_wf_rec [OF wf] a(1), of _ "gone_form r"]
  have B: "insert (lock_id a) (- lock_id ` set (a # qs)) = - lock_id ` set qs"
  proof -
    have "lock_id a \<notin> set (map lock_id qs)" using Cons.prems(3) by simp
    then show ?thesis unfolding set_map list.set image_insert by (rule insert_compl)
  qed
  have i: "inv_on (- lock_id ` set qs) {} (release_step r a s)"
    unfolding B [symmetric] by (rule inv_release_step [OF Cons.prems(1) a]) (use Cons.prems(4) in auto)
  have gone: "\<not> on_rec r (gone_form r a)" using gone_form_bits [OF aw a(2)] by (auto simp: on_rec_def)
  have "set qs \<subseteq> {l' \<in> set (rec_locks (release_step r a s)). on_rec r l'}"
    using Cons.prems(2,3) by (auto simp: e mem)
  moreover have "w \<in> set qs" if "w \<in> set (rec_locks (release_step r a s))" "on_rec r w" for w
    using that Cons.prems(4) [of w] gone by (auto simp: e mem)
  ultimately have IH: "(\<forall>l \<in> set (rec_locks (fold (release_step r) qs (release_step r a s))). \<not> on_rec r l) \<and>
   (\<forall>l \<in> set (rec_locks (release_step r a s)). \<not> lock_get_wait l \<longrightarrow> on_rec q l \<longrightarrow> q \<noteq> r \<longrightarrow>
      (\<exists>l' \<in> set (rec_locks (fold (release_step r) qs (release_step r a s))). on_rec q l' \<and> same_kind l l'))"
    using Cons.prems(3) by (intro Cons.IH [OF i]) auto
  have step: "\<exists>l' \<in> set (rec_locks (release_step r a s)). \<not> lock_get_wait l' \<and> on_rec q l' \<and> same_kind l l'"
    if l: "l \<in> set (rec_locks s)" "\<not> lock_get_wait l" "on_rec q l" "q \<noteq> r" for l
  proof (cases "l = a")
    case True
    have "r_heap_no q \<noteq> r_heap_no r"
      using l(3,4) a(2) by (cases q; cases r) (auto simp: True on_rec_def)
    then have "on_rec q (gone_form r a)" using l(3) gone_form_bits [OF aw a(2)] by (auto simp: True on_rec_def gone_form_simps)
    moreover have "same_kind a (gone_form r a)" using l(2) by (simp add: True gone_form_def same_kind_def)
    ultimately show ?thesis using True by (intro bexI [of _ "gone_form r a"]) (auto simp: e mem gone_form_simps)
  next
    case False
    then show ?thesis using l by (intro bexI [of _ l]) (auto simp: e mem)
  qed
  show ?case
    using IH step by (simp add: same_kind_def) metis
qed

lemma reset_frame:
  assumes inv: "lock_inv s"
  shows "rec_queue (lock_rec_reset_and_release_wait r s) r = []"
    "l \<in> set (rec_queue s q) \<Longrightarrow> \<not> lock_get_wait l \<Longrightarrow> q \<noteq> r \<Longrightarrow>
       \<exists>l' \<in> set (rec_queue (lock_rec_reset_and_release_wait r s) q). same_kind l l'"
proof -
  have q: "l \<in> set (rec_queue s' r') \<longleftrightarrow> l \<in> set (rec_locks s') \<and> on_rec r' l" for l s' r'
    by (auto simp: rec_queue_iff on_rec_def)
  have d: "distinct (map lock_id (rec_queue s r))"
    using inv by (simp add: rec_queue_def page_queue_def distinct_map_filter lock_inv_def sys_wf_rec)
  have "inv_on UNIV {} s" using inv by (simp add: lock_inv_iff)
  then have i: "inv_on (- lock_id ` set (rec_queue s r)) {} s" using queue_ok_mono by (auto simp: inv_on_def)
  have e: "lock_rec_reset_and_release_wait r s = fold (release_step r) (rec_queue s r) s"
    by (simp add: lock_rec_reset_and_release_wait_def release_step_def [abs_def])
  have f: "(\<forall>l \<in> set (rec_locks (fold (release_step r) (rec_queue s r) s)). \<not> on_rec r l) \<and>
     (\<forall>l \<in> set (rec_locks s). \<not> lock_get_wait l \<longrightarrow> on_rec q l \<longrightarrow> q \<noteq> r \<longrightarrow>
      (\<exists>l' \<in> set (rec_locks (fold (release_step r) (rec_queue s r) s)). on_rec q l' \<and> same_kind l l'))" for q
    by (rule release_loop_frame [OF i _ d]) (auto simp: q)
  have "l \<notin> set (rec_queue (lock_rec_reset_and_release_wait r s) r)" for l
    using f unfolding e q by blast
  then show "rec_queue (lock_rec_reset_and_release_wait r s) r = []"
    by (metis list.set_intros(1) neq_Nil_conv)
  show "\<exists>l' \<in> set (rec_queue (lock_rec_reset_and_release_wait r s) q). same_kind l l'"
    if "l \<in> set (rec_queue s q)" "\<not> lock_get_wait l" "q \<noteq> r"
  proof -
    have "l \<in> set (rec_locks s)" "on_rec q l" using that(1) by (simp_all add: q)
    with that(2,3) f [of q] obtain l' where "l' \<in> set (rec_locks (fold (release_step r) (rec_queue s r) s))" "on_rec q l'" "same_kind l l'"
      by blast
    then show ?thesis unfolding e by (intro bexI [of _ l']) (simp_all add: q)
  qed
qed

text \<open>
  C18. The delete of a record leaves no lock on it, and every lock that was on it, granted or waiting,
  is a granted gap lock of the same transaction and mode on the next record afterwards (a plain lock
  on the supremum); the state is one of the reachable ones.
\<close>

theorem lock_update_delete_inherits:
  assumes "lock_reach s" "heap_ok s (rec_next r)" "rec_next r \<noteq> r"
  shows "lock_reach (lock_update_delete rec_next r s) \<and> rec_queue (lock_update_delete rec_next r s) r = []
    \<and> (\<forall>l \<in> set (rec_queue s r). \<exists>l' \<in> set (rec_queue (lock_update_delete rec_next r s) (rec_next r)). inherited (rec_next r) l l')"
proof (intro conjI ballI)
  let ?h = "rec_next r"
  let ?s = "lock_rec_inherit_to_gap ?h r s"
  have inv: "lock_inv s" by (rule reach_ok(1) [OF assms(1)])
  have i: "lock_inv ?s" by (rule inv_inherit(1) [OF inv assms(2)])
  have "lock_reach ?s" by (rule lock_reach.step [OF assms(1) lock_step.inherit [OF assms(2)]])
  then show "lock_reach (lock_update_delete rec_next r s)"
    unfolding lock_update_delete_def by (rule lock_reach.step [OF _ lock_step.reset_release])
  show "rec_queue (lock_update_delete rec_next r s) r = []"
    unfolding lock_update_delete_def by (rule reset_frame(1) [OF i])
  fix l assume "l \<in> set (rec_queue s r)"
  then obtain l1 where l1: "l1 \<in> set (rec_queue ?s ?h)" "inherited ?h l l1" using inherit_there [OF inv assms(2)] by blast
  then have "\<not> lock_get_wait l1" by (simp add: inherited_def)
  from reset_frame(2) [OF i l1(1) this assms(3)] obtain l2
    where "l2 \<in> set (rec_queue (lock_update_delete rec_next r s) ?h)" "same_kind l1 l2"
    by (auto simp: lock_update_delete_def)
  then show "\<exists>l' \<in> set (rec_queue (lock_update_delete rec_next r s) ?h). inherited ?h l l'"
    using l1(2) by (intro bexI [of _ l2]) (auto simp: inherited_def same_kind_def lock_get_mode_def lock_get_wait_def lock_rec_get_gap_def)
qed

theorem lock_update_delete_inherits_witness:
  "lock_reach (lock_update_delete (\<lambda>r. demo_rec 3) (demo_rec 2) demo3)
    \<and> rec_queue (lock_update_delete (\<lambda>r. demo_rec 3) (demo_rec 2) demo3) (demo_rec 2) = []"
proof -
  have "heap_ok demo3 (demo_rec 3)" unfolding heap_ok_def by code_simp
  moreover have "demo_rec 3 \<noteq> demo_rec 2" by (simp add: demo_rec_def)
  ultimately show ?thesis using lock_update_delete_inherits [OF demo_reach3, of "\<lambda>r. demo_rec 3" "demo_rec 2"] by simp
qed

end
