(* ===== verification/Sync_Rw.thy ===== *)
theory Sync_Rw
  imports Inno_Prelude
begin

text \<open>
  The reader-writer latch of \<open>sync0rw.cc\<close>. Its fields are protected by the latch's own mutex, which
  is not recursive: \<open>rw_mutex\<close> is the thread that holds it, and an operation that enters the mutex
  while it is held does not get on, \<open>None\<close>. Statistics, debug lists and the names of files are left
  out.
\<close>

section \<open>The latch\<close>

definition RW_LOCK_NOT_LOCKED :: ulint where "RW_LOCK_NOT_LOCKED = 350"
definition RW_LOCK_EX :: ulint where "RW_LOCK_EX = 351"
definition RW_LOCK_SHARED :: ulint where "RW_LOCK_SHARED = 352"
definition RW_LOCK_WAIT_EX :: ulint where "RW_LOCK_WAIT_EX = 353"

lemmas rw_codes = RW_LOCK_NOT_LOCKED_def RW_LOCK_EX_def RW_LOCK_SHARED_def RW_LOCK_WAIT_EX_def

record rw_lock =
  reader_count :: ulint
  writer :: ulint
  writer_thread :: nat
  writer_count :: ulint
  rw_pass :: ulint
  waiters :: ulint
  writer_is_wait_ex :: bool
  rw_mutex :: "nat option"

definition rw_lock_create_func :: "rw_lock \<Rightarrow> rw_lock" where
  "rw_lock_create_func lock =
     lock\<lparr>rw_mutex := None, waiters := 0, writer := RW_LOCK_NOT_LOCKED, writer_count := 0, reader_count := 0,
       writer_is_wait_ex := False\<rparr>"

definition rw_mutex_enter :: "nat \<Rightarrow> rw_lock \<Rightarrow> rw_lock option" where
  "rw_mutex_enter me lock = (if rw_mutex lock = None then Some (lock\<lparr>rw_mutex := Some me\<rparr>) else None)"

definition rw_mutex_exit :: "rw_lock \<Rightarrow> rw_lock" where
  "rw_mutex_exit lock = lock\<lparr>rw_mutex := None\<rparr>"

section \<open>Shared locking\<close>

definition rw_lock_s_lock_low :: "rw_lock \<Rightarrow> bool \<times> rw_lock" where
  "rw_lock_s_lock_low lock =
     (if writer lock = RW_LOCK_NOT_LOCKED then (True, lock\<lparr>reader_count := reader_count lock + 1\<rparr>)
      else (False, lock))"

text \<open>\<open>False\<close>: the thread goes on with \<open>rw_lock_s_lock_spin\<close>.\<close>

definition rw_lock_s_lock_func :: "nat \<Rightarrow> rw_lock \<Rightarrow> (bool \<times> rw_lock) option" where
  "rw_lock_s_lock_func me lock =
     (case rw_mutex_enter me lock of None \<Rightarrow> None
      | Some lock \<Rightarrow> let (got, lock) = rw_lock_s_lock_low lock in Some (got, rw_mutex_exit lock))"

text \<open>One round of the spin; a thread that does not get the latch waits in the wait array for a signal.\<close>

definition rw_lock_s_lock_spin :: "nat \<Rightarrow> rw_lock \<Rightarrow> (bool \<times> rw_lock) option" where
  "rw_lock_s_lock_spin me lock =
     (case rw_mutex_enter me lock of None \<Rightarrow> None
      | Some lock \<Rightarrow> let (got, lock) = rw_lock_s_lock_low lock in
          if got then Some (True, rw_mutex_exit lock)
          else Some (False, rw_mutex_exit (lock\<lparr>waiters := 1\<rparr>)))"

definition rw_lock_s_lock_func_nowait :: "nat \<Rightarrow> rw_lock \<Rightarrow> (bool \<times> rw_lock) option" where
  "rw_lock_s_lock_func_nowait me lock =
     (case rw_mutex_enter me lock of None \<Rightarrow> None
      | Some lock \<Rightarrow>
        let (success, lock) = (if writer lock = RW_LOCK_NOT_LOCKED
            then (True, lock\<lparr>reader_count := reader_count lock + 1\<rparr>) else (False, lock))
        in Some (success, rw_mutex_exit lock))"

definition rw_lock_s_lock_direct :: "rw_lock \<Rightarrow> rw_lock" where
  "rw_lock_s_lock_direct lock = lock\<lparr>reader_count := reader_count lock + 1\<rparr>"

text \<open>The first component: waiting threads are signalled. A failing \<open>ut_a\<close> is \<open>None\<close> as well.\<close>

definition rw_lock_s_unlock_func :: "nat \<Rightarrow> rw_lock \<Rightarrow> (bool \<times> rw_lock) option" where
  "rw_lock_s_unlock_func me lock =
     (case rw_mutex_enter me lock of None \<Rightarrow> None
      | Some lock \<Rightarrow>
        if reader_count lock = 0 then None
        else let lock = lock\<lparr>reader_count := reader_count lock - 1\<rparr>;
                 (sg, lock) = (if waiters lock \<noteq> 0 \<and> reader_count lock = 0 then (True, lock\<lparr>waiters := 0\<rparr>) else (False, lock))
             in Some (sg, rw_mutex_exit lock))"

definition rw_lock_s_unlock_direct :: "rw_lock \<Rightarrow> rw_lock" where
  "rw_lock_s_unlock_direct lock = lock\<lparr>reader_count := reader_count lock - 1\<rparr>"

section \<open>Exclusive locking\<close>

text \<open>
  A free latch gets \<open>RW_LOCK_EX\<close> as its \<open>waiters\<close> (\<open>rw_lock_set_waiters\<close>), its \<open>writer\<close> stays, and
  the thread is not noted.
\<close>

definition rw_lock_x_lock_low :: "nat \<Rightarrow> ulint \<Rightarrow> rw_lock \<Rightarrow> ulint \<times> rw_lock" where
  "rw_lock_x_lock_low me pass lock =
     (if writer lock = RW_LOCK_NOT_LOCKED then
        if reader_count lock = 0 then
          (RW_LOCK_EX, lock\<lparr>waiters := RW_LOCK_EX, writer_count := writer_count lock + 1, rw_pass := pass\<rparr>)
        else (RW_LOCK_WAIT_EX, lock\<lparr>writer := RW_LOCK_WAIT_EX, writer_thread := me, rw_pass := pass, writer_is_wait_ex := True\<rparr>)
      else if writer lock = RW_LOCK_WAIT_EX \<and> writer_thread lock = me then
        if reader_count lock = 0 then
          (RW_LOCK_EX, lock\<lparr>writer := RW_LOCK_EX, writer_count := writer_count lock + 1, writer_is_wait_ex := False\<rparr>)
        else (RW_LOCK_WAIT_EX, lock)
      else if writer lock = RW_LOCK_EX \<and> writer_thread lock = me \<and> rw_pass lock = 0 \<and> pass = 0 then
        (RW_LOCK_EX, lock\<lparr>writer_count := writer_count lock + 1\<rparr>)
      else (RW_LOCK_NOT_LOCKED, lock))"

text \<open>
  The function never leaves the mutex that it enters first: with the latch it returns inside of it,
  without the latch it enters it again and waits for itself (or stops in \<open>ut_error\<close> before).
\<close>

definition rw_lock_x_lock_func :: "nat \<Rightarrow> ulint \<Rightarrow> rw_lock \<Rightarrow> rw_lock option" where
  "rw_lock_x_lock_func me pass lock =
     (case rw_mutex_enter me lock of None \<Rightarrow> None
      | Some lock \<Rightarrow>
        let (state, lock) = rw_lock_x_lock_low me pass lock
        in if state = RW_LOCK_EX then Some lock
           else rw_mutex_enter me lock)"

definition rw_lock_x_lock_func_nowait :: "nat \<Rightarrow> rw_lock \<Rightarrow> (bool \<times> rw_lock) option" where
  "rw_lock_x_lock_func_nowait me lock =
     (case rw_mutex_enter me lock of None \<Rightarrow> None
      | Some lock \<Rightarrow>
        let (success, lock) =
          (if reader_count lock = 0 \<and> (writer lock = RW_LOCK_NOT_LOCKED
               \<or> (writer lock = RW_LOCK_EX \<and> rw_pass lock = 0 \<and> writer_thread lock = me))
           then (True, lock\<lparr>writer := RW_LOCK_EX, writer_thread := me, writer_count := writer_count lock + 1, rw_pass := 0\<rparr>)
           else (False, lock))
        in Some (success, rw_mutex_exit lock))"

definition rw_lock_x_lock_direct :: "nat \<Rightarrow> rw_lock \<Rightarrow> rw_lock" where
  "rw_lock_x_lock_direct me lock =
     lock\<lparr>writer := RW_LOCK_EX, writer_thread := me, writer_count := writer_count lock + 1, rw_pass := 0\<rparr>"

text \<open>There is no \<open>mutex_exit\<close>, and the signal asks for a \<open>writer\<close> of 0, a value that it never has.\<close>

definition rw_lock_x_unlock_func :: "nat \<Rightarrow> rw_lock \<Rightarrow> (bool \<times> rw_lock) option" where
  "rw_lock_x_unlock_func me lock =
     (case rw_mutex_enter me lock of None \<Rightarrow> None
      | Some lock \<Rightarrow>
        let lock = lock\<lparr>writer_count := writer_count lock - 1\<rparr>;
            lock = (if writer_count lock = 0 then lock\<lparr>writer := RW_LOCK_NOT_LOCKED\<rparr> else lock);
            (sg, lock) = (if 0 < waiters lock \<and> writer lock = 0 then (True, lock\<lparr>waiters := 0\<rparr>) else (False, lock))
        in Some (sg, lock))"

text \<open>In the source its name is \<open>rw_lock_s_unlock_direct\<close>, for the second time.\<close>

definition rw_lock_x_unlock_direct :: "rw_lock \<Rightarrow> rw_lock" where
  "rw_lock_x_unlock_direct lock =
     (let lock = lock\<lparr>writer_count := writer_count lock - 1\<rparr>
      in if writer_count lock = 0 then lock\<lparr>writer := RW_LOCK_NOT_LOCKED\<rparr> else lock)"

definition rw_lock_x_lock_move_ownership :: "nat \<Rightarrow> rw_lock \<Rightarrow> rw_lock option" where
  "rw_lock_x_lock_move_ownership me lock =
     (case rw_mutex_enter me lock of None \<Rightarrow> None
      | Some lock \<Rightarrow> Some (rw_mutex_exit (lock\<lparr>writer_thread := me, rw_pass := 0\<rparr>)))"

definition rw_lock_validate :: "rw_lock \<Rightarrow> bool" where
  "rw_lock_validate lock \<longleftrightarrow>
     (reader_count lock = 0 \<or> writer lock \<noteq> RW_LOCK_EX)
     \<and> (writer lock = RW_LOCK_EX \<or> writer lock = RW_LOCK_WAIT_EX \<or> writer lock = RW_LOCK_NOT_LOCKED)
     \<and> (waiters lock = 0 \<or> waiters lock = 1) \<and> (writer lock \<noteq> RW_LOCK_EX \<or> 0 < writer_count lock)"

lemmas rw_defs = rw_mutex_enter_def rw_mutex_exit_def rw_lock_s_lock_low_def rw_lock_s_lock_func_def rw_lock_s_lock_spin_def
  rw_lock_s_lock_func_nowait_def rw_lock_s_unlock_func_def rw_lock_x_lock_low_def rw_lock_x_lock_func_def
  rw_lock_x_lock_func_nowait_def rw_lock_x_unlock_func_def rw_lock_x_unlock_direct_def rw_lock_x_lock_move_ownership_def

section \<open>Locking without waiting\<close>

text \<open>
  The part of the interface that works: shared locks, exclusive locks without waiting, and the direct
  exclusive unlock, whose caller holds the latch. \<open>readers\<close> and \<open>writers\<close> are the threads that hold
  the latch, one entry for every time.
\<close>

inductive rw_reach :: "rw_lock \<Rightarrow> nat list \<Rightarrow> nat list \<Rightarrow> bool" where
  create: "rw_reach (rw_lock_create_func lock) [] []"
| s_lock: "rw_reach lock rs ws \<Longrightarrow> rw_lock_s_lock_func t lock = Some (got, lock') \<Longrightarrow> length rs + 1 < 2 ^ 64 \<Longrightarrow>
     rw_reach lock' (if got then t # rs else rs) ws"
| s_spin: "rw_reach lock rs ws \<Longrightarrow> rw_lock_s_lock_spin t lock = Some (got, lock') \<Longrightarrow> length rs + 1 < 2 ^ 64 \<Longrightarrow>
     rw_reach lock' (if got then t # rs else rs) ws"
| s_nowait: "rw_reach lock rs ws \<Longrightarrow> rw_lock_s_lock_func_nowait t lock = Some (got, lock') \<Longrightarrow> length rs + 1 < 2 ^ 64 \<Longrightarrow>
     rw_reach lock' (if got then t # rs else rs) ws"
| s_unlock: "rw_reach lock rs ws \<Longrightarrow> t \<in> set rs \<Longrightarrow> rw_lock_s_unlock_func t lock = Some (sg, lock') \<Longrightarrow>
     rw_reach lock' (remove1 t rs) ws"
| x_nowait: "rw_reach lock rs ws \<Longrightarrow> rw_lock_x_lock_func_nowait t lock = Some (got, lock') \<Longrightarrow> length ws + 1 < 2 ^ 64 \<Longrightarrow>
     rw_reach lock' rs (if got then t # ws else ws)"
| x_unlock: "rw_reach lock rs ws \<Longrightarrow> t \<in> set ws \<Longrightarrow> rw_reach (rw_lock_x_unlock_direct lock) rs (remove1 t ws)"

definition rw_inv :: "rw_lock \<Rightarrow> nat list \<Rightarrow> nat list \<Rightarrow> bool" where
  "rw_inv lock rs ws \<longleftrightarrow> rw_mutex lock = None \<and> unat (reader_count lock) = length rs \<and> unat (writer_count lock) = length ws
     \<and> (waiters lock = 0 \<or> waiters lock = 1)
     \<and> (if ws = [] then writer lock = RW_LOCK_NOT_LOCKED
        else writer lock = RW_LOCK_EX \<and> rs = [] \<and> rw_pass lock = 0 \<and> (\<forall>w \<in> set ws. w = writer_thread lock))"

lemma count_up: "unat (c :: ulint) = n \<Longrightarrow> n + 1 < 2 ^ 64 \<Longrightarrow> unat (c + 1) = Suc n"
  by (simp add: unat_word_ariths)

lemma count_down: "unat (c :: ulint) = n \<Longrightarrow> 0 < n \<Longrightarrow> unat (c - 1) = n - 1"
  by (subst unat_minus_one) auto

lemma rw_inv_zero: "rw_inv lock rs ws \<Longrightarrow> reader_count lock = 0 \<longleftrightarrow> rs = []"
  by (auto simp: rw_inv_def unat_eq_0 [symmetric])

lemma rw_reach_inv: "rw_reach lock rs ws \<Longrightarrow> rw_inv lock rs ws"
proof (induction rule: rw_reach.induct)
  case (create lock)
  show ?case by (simp add: rw_inv_def rw_lock_create_func_def)
next
  case (s_lock lock rs ws t got lock')
  then show ?case
    by (auto simp: rw_inv_def rw_defs Let_def count_up rw_codes split: if_splits)
next
  case (s_spin lock rs ws t got lock')
  then show ?case
    by (auto simp: rw_inv_def rw_defs Let_def count_up rw_codes split: if_splits)
next
  case (s_nowait lock rs ws t got lock')
  then show ?case
    by (auto simp: rw_inv_def rw_defs Let_def count_up rw_codes split: if_splits)
next
  case (s_unlock lock rs ws t sg lock')
  then have "0 < length rs" "length (remove1 t rs) = length rs - 1" by (auto simp: length_remove1)
  with s_unlock show ?case
    by (auto simp: rw_inv_def rw_defs Let_def count_down split: if_splits)
next
  case (x_nowait lock rs ws t got lock')
  then show ?case using rw_inv_zero [of lock rs ws]
    by (auto simp: rw_inv_def rw_defs Let_def count_up rw_codes split: if_splits)
next
  case (x_unlock lock rs ws t)
  then have l: "0 < length ws" "length (remove1 t ws) = length ws - 1" by (auto simp: length_remove1)
  have "writer_count lock - 1 = 0 \<longleftrightarrow> remove1 t ws = []"
    using x_unlock.IH l count_down [of "writer_count lock" "length ws"] by (auto simp: rw_inv_def unat_eq_0 [symmetric])
  with x_unlock.IH l show ?case
    by (auto simp: rw_inv_def rw_lock_x_unlock_direct_def Let_def count_down dest: subsetD [OF set_remove1_subset])
qed

text \<open>C38. With shared locks and the exclusive lock without waiting the latch excludes: while a thread
holds it exclusively, no other thread holds it in any mode, at most one thread holds it exclusively
(as often as it likes), and the latch passes its own check.\<close>

theorem rw_nowait_exclusive:
  assumes "rw_reach lock rs ws" "w \<in> set ws"
  shows "rs = [] \<and> set ws = {w} \<and> writer_thread lock = w \<and> rw_lock_validate lock"
proof -
  have ne: "ws \<noteq> []" using assms(2) by auto
  with rw_reach_inv [OF assms(1)] have i: "unat (reader_count lock) = length rs" "unat (writer_count lock) = length ws"
    "waiters lock = 0 \<or> waiters lock = 1" "writer lock = RW_LOCK_EX" "rs = []" "\<forall>w \<in> set ws. w = writer_thread lock"
    by (simp_all add: rw_inv_def)
  then have "reader_count lock = 0" "writer_count lock \<noteq> 0" using ne by (auto simp: unat_eq_0 [symmetric])
  moreover have w: "w = writer_thread lock" using i(6) assms(2) by blast
  moreover have "set ws = {writer_thread lock}" using i(6) assms(2) unfolding w by blast
  ultimately show ?thesis using i(3-5) by (simp add: rw_lock_validate_def word_gt_0)
qed

definition rw_new :: rw_lock where
  "rw_new = rw_lock_create_func \<lparr>reader_count = 0, writer = 0, writer_thread = 0, writer_count = 0, rw_pass = 0, waiters = 0,
     writer_is_wait_ex = False, rw_mutex = None\<rparr>"

lemma rw_nowait_exclusive_witness:
  "\<exists>l1 l2. rw_lock_x_lock_func_nowait 7 rw_new = Some (True, l1) \<and> rw_lock_s_lock_func 8 l1 = Some (False, l2)
     \<and> writer_thread l2 = 7 \<and> rw_lock_validate l2"
proof -
  obtain l1 where 1: "rw_lock_x_lock_func_nowait 7 rw_new = Some (True, l1)" "writer l1 = RW_LOCK_EX" "rw_mutex l1 = None"
    by (simp add: rw_new_def rw_lock_create_func_def rw_defs)
  then have 2: "rw_lock_s_lock_func 8 l1 = Some (False, l1\<lparr>rw_mutex := None\<rparr>)"
    by (simp add: rw_defs rw_codes)
  have "rw_reach rw_new [] []" unfolding rw_new_def by (rule rw_reach.create)
  from rw_reach.x_nowait [OF this 1(1)] have "rw_reach l1 [] [7]" by simp
  from rw_reach.s_lock [OF this 2] have "rw_reach (l1\<lparr>rw_mutex := None\<rparr>) [] [7]" by simp
  from rw_nowait_exclusive [OF this, of 7] 1 2 show ?thesis by auto
qed



end
