(* ===== verification/Data_Tuple.thy ===== *)
theory Data_Tuple
  imports Mach_Data Ut_Rnd
begin

text \<open>
  Data types, fields and tuples: \<open>data0type.inl\<close>, \<open>data0data.inl\<close> and the checks of \<open>data0data.cc\<close>.
  A tuple is the logical record that is built in memory; its fields point to their data. The array
  of the fields is a list, of which a tuple uses the first \<open>dt_n_fields\<close>. A failing \<open>ut_a\<close> is \<open>None\<close>.
\<close>

section \<open>Types\<close>

definition DATA_VARCHAR :: ulint where "DATA_VARCHAR = 1"
definition DATA_CHAR :: ulint where "DATA_CHAR = 2"
definition DATA_FIXBINARY :: ulint where "DATA_FIXBINARY = 3"
definition DATA_BINARY :: ulint where "DATA_BINARY = 4"
definition DATA_BLOB :: ulint where "DATA_BLOB = 5"
definition DATA_INT :: ulint where "DATA_INT = 6"
definition DATA_SYS_CHILD :: ulint where "DATA_SYS_CHILD = 7"
definition DATA_SYS :: ulint where "DATA_SYS = 8"
definition DATA_FLOAT :: ulint where "DATA_FLOAT = 9"
definition DATA_DOUBLE :: ulint where "DATA_DOUBLE = 10"
definition DATA_DECIMAL :: ulint where "DATA_DECIMAL = 11"
definition DATA_VARMYSQL :: ulint where "DATA_VARMYSQL = 12"
definition DATA_MYSQL :: ulint where "DATA_MYSQL = 13"

definition DATA_ROW_ID :: ulint where "DATA_ROW_ID = 0"
definition DATA_ROW_ID_LEN :: ulint where "DATA_ROW_ID_LEN = 6"
definition DATA_TRX_ID :: ulint where "DATA_TRX_ID = 1"
definition DATA_TRX_ID_LEN :: ulint where "DATA_TRX_ID_LEN = 6"
definition DATA_ROLL_PTR :: ulint where "DATA_ROLL_PTR = 2"
definition DATA_ROLL_PTR_LEN :: ulint where "DATA_ROLL_PTR_LEN = 7"

lemmas data_codes = DATA_VARCHAR_def DATA_CHAR_def DATA_FIXBINARY_def DATA_BINARY_def DATA_BLOB_def DATA_INT_def
  DATA_SYS_CHILD_def DATA_SYS_def DATA_FLOAT_def DATA_DOUBLE_def DATA_DECIMAL_def DATA_VARMYSQL_def DATA_MYSQL_def
  DATA_ROW_ID_def DATA_ROW_ID_LEN_def DATA_TRX_ID_def DATA_TRX_ID_LEN_def DATA_ROLL_PTR_def DATA_ROLL_PTR_LEN_def

record dtype =
  mtype :: ulint
  prtype :: ulint
  type_len :: ulint
  prec :: ulint

text \<open>\<open>prtype\<close> is assigned to \<open>prec\<close>, which is overwritten; the type keeps its old \<open>prtype\<close>.\<close>

definition dtype_set :: "dtype \<Rightarrow> ulint \<Rightarrow> ulint \<Rightarrow> ulint \<Rightarrow> ulint \<Rightarrow> dtype" where
  "dtype_set type mt prt ln pr = type\<lparr>mtype := mt, prec := prt, type_len := ln, prec := pr\<rparr>"

definition dtype_get_pad_char :: "dtype \<Rightarrow> ulint" where
  "dtype_get_pad_char type =
     (if mtype type = DATA_CHAR \<or> mtype type = DATA_VARCHAR \<or> mtype type = DATA_FIXBINARY \<or> mtype type = DATA_FIXBINARY
      then 32 else ULINT_UNDEFINED)"

definition dtype_store_for_order_and_null_size :: "mem \<Rightarrow> ptr \<Rightarrow> dtype \<Rightarrow> mem" where
  "dtype_store_for_order_and_null_size m buf type =
     mach_write_to_2 (m(buf := ucast (mtype type AND 0xff), buf + 1 := ucast (prtype type AND 0xff))) (buf + 2)
       (type_len type AND 0xffff)"

definition dtype_read_for_order_and_null_size :: "mem \<Rightarrow> dtype \<Rightarrow> ptr \<Rightarrow> dtype" where
  "dtype_read_for_order_and_null_size m type buf =
     type\<lparr>mtype := ucast (m buf), prtype := ucast (m (buf + 1)), type_len := mach_read_from_2 m (buf + 2)\<rparr>"

definition dtype_get_fixed_size :: "dtype \<Rightarrow> ulint option" where
  "dtype_get_fixed_size type =
     (if mtype type \<in> {DATA_CHAR, DATA_FIXBINARY, DATA_INT, DATA_FLOAT, DATA_DOUBLE, DATA_MYSQL} then Some (type_len type)
      else if mtype type = DATA_SYS then
        Some (if prtype type = DATA_ROW_ID then DATA_ROW_ID_LEN
          else if prtype type = DATA_TRX_ID then DATA_TRX_ID_LEN
          else if prtype type = DATA_ROLL_PTR then DATA_ROLL_PTR_LEN else 0)
      else if mtype type \<in> {DATA_VARCHAR, DATA_BINARY, DATA_DECIMAL, DATA_VARMYSQL, DATA_BLOB} then Some 0
      else None)"

definition dtype_get_sql_null_size :: "dtype \<Rightarrow> ulint option" where
  "dtype_get_sql_null_size type = dtype_get_fixed_size type"

definition dtype_is_fixed_size :: "dtype \<Rightarrow> bool option" where
  "dtype_is_fixed_size type = map_option (\<lambda>size. size \<noteq> 0) (dtype_get_fixed_size type)"

section \<open>Fields and tuples\<close>

record dfield =
  dfield_data :: ptr
  dfield_len :: ulint
  dfield_type :: dtype
  col_no :: ulint

record dtuple =
  dt_info_bits :: ulint
  dt_n_fields :: ulint
  dt_n_fields_cmp :: ulint
  dt_fields :: "dfield list"

definition dfield_set_data :: "dfield \<Rightarrow> ptr \<Rightarrow> ulint \<Rightarrow> dfield" where
  "dfield_set_data field d n = field\<lparr>dfield_len := n, dfield_data := d\<rparr>"

definition dfield_copy_data :: "dfield \<Rightarrow> dfield \<Rightarrow> dfield" where
  "dfield_copy_data field1 field2 = field1\<lparr>dfield_len := dfield_len field2, dfield_data := dfield_data field2\<rparr>"

definition dfield_datas_are_binary_equal :: "mem \<Rightarrow> dfield \<Rightarrow> dfield \<Rightarrow> bool" where
  "dfield_datas_are_binary_equal m field1 field2 =
     (if dfield_len field1 \<noteq> dfield_len field2
         \<or> (dfield_len field1 \<noteq> UNIV_SQL_NULL
            \<and> mem_bytes m (dfield_data field1) (unat (dfield_len field1)) \<noteq> mem_bytes m (dfield_data field2) (unat (dfield_len field1)))
      then False else True)"

definition dfield_data_is_binary_equal :: "mem \<Rightarrow> dfield \<Rightarrow> ulint \<Rightarrow> ptr \<Rightarrow> bool" where
  "dfield_data_is_binary_equal m field n d =
     (if dfield_len field \<noteq> n then False else if n = UNIV_SQL_NULL then False
      else if mem_bytes m d (unat n) \<noteq> mem_bytes m (dfield_data field) (unat n) then False else True)"

definition dtuple_set_n_fields :: "dtuple \<Rightarrow> ulint \<Rightarrow> dtuple" where
  "dtuple_set_n_fields tuple n = tuple\<lparr>dt_n_fields := n, dt_n_fields_cmp := n\<rparr>"

definition dtuple_get_nth_field :: "dtuple \<Rightarrow> nat \<Rightarrow> dfield" where
  "dtuple_get_nth_field tuple n = dt_fields tuple ! n"

text \<open>The fields in use, those that the loops \<open>for(i = 0; i < n_fields; i ++)\<close> go through.\<close>

definition dtuple_fields :: "dtuple \<Rightarrow> dfield list" where
  "dtuple_fields tuple = take (unat (dt_n_fields tuple)) (dt_fields tuple)"

fun data_size_loop :: "dfield list \<Rightarrow> ulint \<Rightarrow> ulint option" where
  "data_size_loop [] sm = Some sm"
| "data_size_loop (field # fs) sm =
     (let ln = dfield_len field in
      if ln = UNIV_SQL_NULL then
        (case dtype_get_sql_null_size (dfield_type field) of None \<Rightarrow> None | Some ln \<Rightarrow> data_size_loop fs (sm + ln))
      else data_size_loop fs (sm + ln))"

definition dtuple_get_data_size :: "dtuple \<Rightarrow> ulint option" where
  "dtuple_get_data_size tuple = data_size_loop (dtuple_fields tuple) 0"

definition dfield_check_typed_no_assert :: "dfield \<Rightarrow> bool" where
  "dfield_check_typed_no_assert field =
     (if mtype (dfield_type field) > DATA_MYSQL \<or> mtype (dfield_type field) < DATA_VARCHAR then False else True)"

definition dtuple_set_types_binary :: "dtuple \<Rightarrow> nat \<Rightarrow> dtuple" where
  "dtuple_set_types_binary tuple n =
     tuple\<lparr>dt_fields := map (\<lambda>f. f\<lparr>dfield_type := dtype_set (dfield_type f) DATA_BINARY 0 0 0\<rparr>) (take n (dt_fields tuple))
       @ drop n (dt_fields tuple)\<rparr>"

text \<open>
  The hash value of a tuple, \<open>tree\<close> being \<open>ut_fold_dulint(tree_id)\<close>, which the repository does not
  define. The loop, then the prefix of the next field.
\<close>

fun dtuple_fold_loop :: "mem \<Rightarrow> dfield list \<Rightarrow> ulint \<Rightarrow> ulint" where
  "dtuple_fold_loop m [] h = h"
| "dtuple_fold_loop m (field # fs) h =
     dtuple_fold_loop m fs
       (if dfield_len field \<noteq> UNIV_SQL_NULL
        then ut_fold_ulint_pair h (ut_fold_binary m (dfield_data field) (dfield_len field)) else h)"

definition dtuple_fold :: "mem \<Rightarrow> dtuple \<Rightarrow> nat \<Rightarrow> ulint \<Rightarrow> ulint \<Rightarrow> ulint" where
  "dtuple_fold m tuple n n_bytes tree =
     (let h = dtuple_fold_loop m (take n (dt_fields tuple)) tree in
      if n_bytes > 0 then
        let field = dtuple_get_nth_field tuple n; ln = dfield_len field in
        if ln \<noteq> UNIV_SQL_NULL then
          let ln = (if ln > n_bytes then n_bytes else ln) in ut_fold_ulint_pair h (ut_fold_binary m (dfield_data field) ln)
        else h
      else h)"

section \<open>Lemmas\<close>

text \<open>The value of a field: nothing for SQL NULL, or its bytes. \<open>field_store_len\<close> and \<open>field_space\<close> are what it
  takes in a record.\<close>

definition field_value :: "mem \<Rightarrow> dfield \<Rightarrow> byte list option" where
  "field_value m field =
     (if dfield_len field = UNIV_SQL_NULL then None else Some (mem_bytes m (dfield_data field) (unat (dfield_len field))))"

definition field_store_len :: "dfield \<Rightarrow> ulint option" where
  "field_store_len field =
     (if dfield_len field = UNIV_SQL_NULL then dtype_get_sql_null_size (dfield_type field) else Some (dfield_len field))"

definition field_space :: "dfield \<Rightarrow> nat" where
  "field_space field = (case field_store_len field of None \<Rightarrow> 0 | Some n \<Rightarrow> unat n)"

definition tuple_values :: "mem \<Rightarrow> dtuple \<Rightarrow> byte list option list" where
  "tuple_values m tuple = map (field_value m) (dtuple_fields tuple)"

lemma length_dtuple_fields:
  "unat (dt_n_fields tuple) \<le> length (dt_fields tuple) \<Longrightarrow> length (dtuple_fields tuple) = unat (dt_n_fields tuple)"
  by (simp add: dtuple_fields_def)

lemma data_size_Cons:
  "data_size_loop (f # fs) sm = (case field_store_len f of None \<Rightarrow> None | Some n \<Rightarrow> data_size_loop fs (sm + n))"
  by (simp add: field_store_len_def Let_def)

lemma data_size_sum:
  assumes "\<forall>f \<in> set fs. field_store_len f \<noteq> None" "unat sm + (\<Sum>f \<leftarrow> fs. field_space f) < 2 ^ 64"
  shows "\<exists>r. data_size_loop fs sm = Some r \<and> unat r = unat sm + (\<Sum>f \<leftarrow> fs. field_space f)"
  using assms
proof (induction fs arbitrary: sm)
  case (Cons f fs)
  then obtain k where k: "field_store_len f = Some k" by auto
  then have "field_space f = unat k" by (simp add: field_space_def)
  moreover from this have "unat (sm + k) = unat sm + unat k" using Cons.prems(2) by (intro unat_plus) simp
  ultimately show ?case using Cons.IH [of "sm + k"] Cons.prems k by (simp add: data_size_Cons add.assoc del: data_size_loop.simps)
qed simp

lemma data_size_some:
  "data_size_loop fs sm = Some r \<Longrightarrow> \<forall>f \<in> set fs. field_store_len f \<noteq> None"
  by (induction fs arbitrary: sm) (auto simp: data_size_Cons simp del: data_size_loop.simps(2) split: option.splits)

text \<open>The bytes that determine a column's order survive the trip through \<open>data0type\<close>'s four bytes.\<close>

lemma ucast_low: "unat (x :: ulint) < 2 ^ 8 \<Longrightarrow> ucast (ucast (x AND 0xff) :: byte) = x"
proof -
  assume "unat x < 2 ^ 8"
  then have a: "x AND 0xff = x" using unat_and_mask [of x 8] by (simp add: word_unat_eq_iff mask_eq_exp_minus_1)
  have "unat (ucast (ucast x :: byte) :: ulint) = unat x" using \<open>unat x < 2 ^ 8\<close> by (simp add: unat_simps)
  then show ?thesis unfolding a by (simp add: word_unat_eq_iff)
qed

lemma dtype_store_read:
  assumes "unat (mtype type) < 2 ^ 8" "unat (prtype type) < 2 ^ 8" "unat (type_len type) < 2 ^ 16"
  shows "dtype_read_for_order_and_null_size (dtype_store_for_order_and_null_size m buf type) type' buf =
    type'\<lparr>mtype := mtype type, prtype := prtype type, type_len := type_len type\<rparr>"
proof -
  have b: "type_len type AND 0xffff = type_len type"
    using assms(3) unat_and_mask [of "type_len type" 16] by (simp add: word_unat_eq_iff mask_eq_exp_minus_1)
  define n where "n = m(buf := ucast (mtype type AND 0xff), buf + 1 := ucast (prtype type AND 0xff))"
  have f: "mach_write_to_2 n (buf + 2) (type_len type) i = n i" if "i < buf + 2" for i
    using c2.wr_frame [OF assms(3)] that by blast
  have "mach_read_from_2 (mach_write_to_2 n (buf + 2) (type_len type)) (buf + 2) = type_len type"
    by (rule c2.rd_wr) (rule assms)
  moreover have "n buf = ucast (mtype type AND 0xff)" "n (buf + 1) = ucast (prtype type AND 0xff)" by (simp_all add: n_def)
  ultimately show ?thesis
    unfolding dtype_read_for_order_and_null_size_def dtype_store_for_order_and_null_size_def n_def [symmetric] b
    by (simp only: f ucast_low assms less_add_same_cancel1)
qed

end
