(* ===== verification/Rem_Rec.thy ===== *)
theory Rem_Rec
  imports Data_Tuple
begin

text \<open>
  Physical records: \<open>rem0rec.inl\<close> and \<open>rem0rec.cc\<close>. A record is known by its origin \<open>rec\<close>, the
  address of the data of its first field; the six bytes before it are the header, before them stand
  the ends of the fields, one or two bytes each, the first field's nearest to the header.
  A failing \<open>ut_a\<close> is \<open>None\<close>.
\<close>

section \<open>The header\<close>

definition REC_MAX_N_FIELDS :: ulint where "REC_MAX_N_FIELDS = 1024 - 1"
definition REC_N_EXTRA_BYTES :: nat where "REC_N_EXTRA_BYTES = 6"
definition REC_INFO_BITS :: nat where "REC_INFO_BITS = 6"
definition REC_1BYTE_OFFS_LIMIT :: ulint where "REC_1BYTE_OFFS_LIMIT = 0x7f"

definition REC_NEXT :: nat where "REC_NEXT = 2"
definition REC_NEXT_MASK :: ulint where "REC_NEXT_MASK = 0xFFFF"
definition REC_NEXT_SHIFT :: nat where "REC_NEXT_SHIFT = 0"
definition REC_SHORT :: nat where "REC_SHORT = 3"
definition REC_SHORT_MASK :: ulint where "REC_SHORT_MASK = 0x1"
definition REC_SHORT_SHIFT :: nat where "REC_SHORT_SHIFT = 0"
definition REC_N_FIELDS :: nat where "REC_N_FIELDS = 4"
definition REC_N_FIELDS_MASK :: ulint where "REC_N_FIELDS_MASK = 0x7FE"
definition REC_N_FIELDS_SHIFT :: nat where "REC_N_FIELDS_SHIFT = 1"
definition REC_HEAP_NO :: nat where "REC_HEAP_NO = 5"
definition REC_HEAP_NO_MASK :: ulint where "REC_HEAP_NO_MASK = 0xFFF8"
definition REC_HEAP_NO_SHIFT :: nat where "REC_HEAP_NO_SHIFT = 3"
definition REC_N_OWNED :: nat where "REC_N_OWNED = 6"
definition REC_N_OWNED_MASK :: ulint where "REC_N_OWNED_MASK = 0xF"
definition REC_N_OWNED_SHIFT :: nat where "REC_N_OWNED_SHIFT = 0"
definition REC_INFO_BITS_MASK :: ulint where "REC_INFO_BITS_MASK = 0xF0"
definition REC_INFO_BITS_SHIFT :: nat where "REC_INFO_BITS_SHIFT = 0"
definition REC_INFO_DELETED_FLAG :: ulint where "REC_INFO_DELETED_FLAG = 0x20"
definition REC_1BYTE_SQL_NULL_MASK :: ulint where "REC_1BYTE_SQL_NULL_MASK = 0x80"
definition REC_2BYTE_SQL_NULL_MASK :: ulint where "REC_2BYTE_SQL_NULL_MASK = 0x8000"
definition REC_2BYTE_EXTERN_MASK :: ulint where "REC_2BYTE_EXTERN_MASK = 0x4000"

definition rec_get_bit_field_1 :: "mem \<Rightarrow> ptr \<Rightarrow> nat \<Rightarrow> ulint \<Rightarrow> nat \<Rightarrow> ulint" where
  "rec_get_bit_field_1 m rec offs msk shift = drop_bit shift (mach_read_from_1 m (rec - offs) AND msk)"

text \<open>The value is shifted to the right; all one byte fields have the shift 0.\<close>

definition rec_set_bit_field_1 :: "mem \<Rightarrow> ptr \<Rightarrow> ulint \<Rightarrow> nat \<Rightarrow> ulint \<Rightarrow> nat \<Rightarrow> mem" where
  "rec_set_bit_field_1 m rec val offs msk shift =
     mach_write_to_1 m (rec - offs) ((mach_read_from_1 m (rec - offs) AND NOT msk) OR drop_bit shift val)"

definition rec_get_bit_field_2 :: "mem \<Rightarrow> ptr \<Rightarrow> nat \<Rightarrow> ulint \<Rightarrow> nat \<Rightarrow> ulint" where
  "rec_get_bit_field_2 m rec offs msk shift = drop_bit shift (mach_read_from_2 m (rec - offs) AND msk)"

text \<open>What stood in the field is kept and what stood beside it is cleared: the mask is not inverted.\<close>

definition rec_set_bit_field_2 :: "mem \<Rightarrow> ptr \<Rightarrow> ulint \<Rightarrow> nat \<Rightarrow> ulint \<Rightarrow> nat \<Rightarrow> mem" where
  "rec_set_bit_field_2 m rec val offs msk shift =
     mach_write_to_2 m (rec - offs) ((mach_read_from_2 m (rec - offs) AND msk) OR push_bit shift val)"

definition rec_get_next_offs :: "mem \<Rightarrow> ptr \<Rightarrow> ulint" where
  "rec_get_next_offs m rec = rec_get_bit_field_2 m rec REC_NEXT REC_NEXT_MASK REC_NEXT_SHIFT"

definition rec_set_next_offs :: "mem \<Rightarrow> ptr \<Rightarrow> ulint \<Rightarrow> mem" where
  "rec_set_next_offs m rec nxt = rec_set_bit_field_2 m rec nxt REC_NEXT REC_NEXT_MASK REC_NEXT_SHIFT"

definition rec_get_n_fields :: "mem \<Rightarrow> ptr \<Rightarrow> ulint" where
  "rec_get_n_fields m rec = rec_get_bit_field_2 m rec REC_N_FIELDS REC_N_FIELDS_MASK REC_N_FIELDS_SHIFT"

definition rec_set_n_fields :: "mem \<Rightarrow> ptr \<Rightarrow> ulint \<Rightarrow> mem" where
  "rec_set_n_fields m rec n = rec_set_bit_field_2 m rec n REC_N_FIELDS REC_N_FIELDS_MASK REC_N_FIELDS_SHIFT"

definition rec_get_n_owned :: "mem \<Rightarrow> ptr \<Rightarrow> ulint" where
  "rec_get_n_owned m rec = rec_get_bit_field_1 m rec REC_N_OWNED REC_N_OWNED_MASK REC_N_OWNED_SHIFT"

definition rec_set_n_owned :: "mem \<Rightarrow> ptr \<Rightarrow> ulint \<Rightarrow> mem" where
  "rec_set_n_owned m rec n = rec_set_bit_field_1 m rec n REC_N_OWNED REC_N_OWNED_MASK REC_N_OWNED_SHIFT"

definition rec_get_info_bits :: "mem \<Rightarrow> ptr \<Rightarrow> ulint" where
  "rec_get_info_bits m rec = rec_get_bit_field_1 m rec REC_INFO_BITS REC_INFO_BITS_MASK REC_INFO_BITS_SHIFT"

definition rec_set_info_bits :: "mem \<Rightarrow> ptr \<Rightarrow> ulint \<Rightarrow> mem" where
  "rec_set_info_bits m rec bits = rec_set_bit_field_1 m rec bits REC_INFO_BITS REC_INFO_BITS_MASK REC_INFO_BITS_SHIFT"

definition rec_info_bits_get_deleted_flag :: "ulint \<Rightarrow> bool" where
  "rec_info_bits_get_deleted_flag bits = (if bits AND REC_INFO_DELETED_FLAG \<noteq> 0 then True else False)"

definition rec_get_deleted_flag :: "mem \<Rightarrow> ptr \<Rightarrow> bool" where
  "rec_get_deleted_flag m rec = (if REC_INFO_DELETED_FLAG AND rec_get_info_bits m rec \<noteq> 0 then True else False)"

definition rec_set_deleted_flag :: "mem \<Rightarrow> ptr \<Rightarrow> bool \<Rightarrow> mem" where
  "rec_set_deleted_flag m rec flag =
     (let old_val = rec_get_info_bits m rec;
          new_val = (if flag then REC_INFO_DELETED_FLAG OR old_val else NOT REC_INFO_DELETED_FLAG AND old_val)
      in rec_set_info_bits m rec new_val)"

definition rec_get_heap_no :: "mem \<Rightarrow> ptr \<Rightarrow> ulint" where
  "rec_get_heap_no m rec = rec_get_bit_field_2 m rec REC_HEAP_NO REC_HEAP_NO_MASK REC_HEAP_NO_SHIFT"

definition rec_set_heap_no :: "mem \<Rightarrow> ptr \<Rightarrow> ulint \<Rightarrow> mem" where
  "rec_set_heap_no m rec n = rec_set_bit_field_2 m rec n REC_HEAP_NO REC_HEAP_NO_MASK REC_HEAP_NO_SHIFT"

definition rec_get_1byte_offs_flag :: "mem \<Rightarrow> ptr \<Rightarrow> bool" where
  "rec_get_1byte_offs_flag m rec = (rec_get_bit_field_1 m rec REC_SHORT REC_SHORT_MASK REC_SHORT_SHIFT \<noteq> 0)"

definition rec_set_1byte_offs_flag :: "mem \<Rightarrow> ptr \<Rightarrow> bool \<Rightarrow> mem" where
  "rec_set_1byte_offs_flag m rec flag = rec_set_bit_field_1 m rec (of_bool flag) REC_SHORT REC_SHORT_MASK REC_SHORT_SHIFT"

section \<open>The ends of the fields\<close>

definition rec_1_get_field_end_info :: "mem \<Rightarrow> ptr \<Rightarrow> nat \<Rightarrow> ulint" where
  "rec_1_get_field_end_info m rec n = mach_read_from_1 m (rec - (REC_N_EXTRA_BYTES + n + 1))"

definition rec_2_get_field_end_info :: "mem \<Rightarrow> ptr \<Rightarrow> nat \<Rightarrow> ulint" where
  "rec_2_get_field_end_info m rec n = mach_read_from_2 m (rec - (REC_N_EXTRA_BYTES + 2 * n + 2))"

definition rec_get_nth_field_extern_bit :: "mem \<Rightarrow> ptr \<Rightarrow> nat \<Rightarrow> bool" where
  "rec_get_nth_field_extern_bit m rec i =
     (if rec_get_1byte_offs_flag m rec then False
      else let info = rec_2_get_field_end_info m rec i in if info AND REC_2BYTE_EXTERN_MASK \<noteq> 0 then True else False)"

definition rec_contains_externally_stored_field :: "mem \<Rightarrow> ptr \<Rightarrow> bool" where
  "rec_contains_externally_stored_field m rec =
     (if rec_get_1byte_offs_flag m rec then False
      else list_ex (rec_get_nth_field_extern_bit m rec) [0..<unat (rec_get_n_fields m rec)])"

definition rec_1_get_prev_field_end_info :: "mem \<Rightarrow> ptr \<Rightarrow> nat \<Rightarrow> ulint" where
  "rec_1_get_prev_field_end_info m rec n = mach_read_from_1 m (rec - (REC_N_EXTRA_BYTES + n))"

definition rec_2_get_prev_field_end_info :: "mem \<Rightarrow> ptr \<Rightarrow> nat \<Rightarrow> ulint" where
  "rec_2_get_prev_field_end_info m rec n = mach_read_from_2 m (rec - (REC_N_EXTRA_BYTES + 2 * n))"

definition rec_1_set_field_end_info :: "mem \<Rightarrow> ptr \<Rightarrow> nat \<Rightarrow> ulint \<Rightarrow> mem" where
  "rec_1_set_field_end_info m rec n info = mach_write_to_1 m (rec - (REC_N_EXTRA_BYTES + n + 1)) info"

definition rec_2_set_field_end_info :: "mem \<Rightarrow> ptr \<Rightarrow> nat \<Rightarrow> ulint \<Rightarrow> mem" where
  "rec_2_set_field_end_info m rec n info = mach_write_to_2 m (rec - (REC_N_EXTRA_BYTES + 2 * n + 2)) info"

definition rec_1_get_field_start_offs :: "mem \<Rightarrow> ptr \<Rightarrow> nat \<Rightarrow> ulint" where
  "rec_1_get_field_start_offs m rec n =
     (if n = 0 then 0 else rec_1_get_prev_field_end_info m rec n AND NOT REC_1BYTE_SQL_NULL_MASK)"

definition rec_2_get_field_start_offs :: "mem \<Rightarrow> ptr \<Rightarrow> nat \<Rightarrow> ulint" where
  "rec_2_get_field_start_offs m rec n =
     (if n = 0 then 0
      else rec_2_get_prev_field_end_info m rec n AND NOT (REC_2BYTE_SQL_NULL_MASK OR REC_2BYTE_EXTERN_MASK))"

definition rec_get_field_start_offs :: "mem \<Rightarrow> ptr \<Rightarrow> nat \<Rightarrow> ulint" where
  "rec_get_field_start_offs m rec n =
     (if n = 0 then 0
      else if rec_get_1byte_offs_flag m rec then rec_1_get_field_start_offs m rec n
      else rec_2_get_field_start_offs m rec n)"

definition rec_get_nth_field_size :: "mem \<Rightarrow> ptr \<Rightarrow> nat \<Rightarrow> ulint" where
  "rec_get_nth_field_size m rec n =
     (let os = rec_get_field_start_offs m rec n; next_os = rec_get_field_start_offs m rec (n + 1) in next_os - os)"

text \<open>The mask of the long form clears bit 7 of the end, not the null bit.\<close>

definition rec_get_nth_field :: "mem \<Rightarrow> ptr \<Rightarrow> nat \<Rightarrow> (ptr \<times> ulint) option" where
  "rec_get_nth_field m rec n =
     (if n \<ge> 1024 then None
      else if rec = 0 then None
      else if rec_get_1byte_offs_flag m rec then
        let os = rec_1_get_field_start_offs m rec n; next_os = rec_1_get_field_end_info m rec n in
        if next_os AND REC_1BYTE_SQL_NULL_MASK \<noteq> 0 then Some (rec + unat os, UNIV_SQL_NULL)
        else let next_os = next_os AND NOT REC_1BYTE_SQL_NULL_MASK in Some (rec + unat os, next_os - os)
      else
        let os = rec_2_get_field_start_offs m rec n; next_os = rec_2_get_field_end_info m rec n in
        if next_os AND REC_2BYTE_SQL_NULL_MASK \<noteq> 0 then Some (rec + unat os, UNIV_SQL_NULL)
        else let next_os = next_os AND NOT (REC_1BYTE_SQL_NULL_MASK OR REC_2BYTE_EXTERN_MASK) in Some (rec + unat os, next_os - os))"

definition rec_get_data_size :: "mem \<Rightarrow> ptr \<Rightarrow> ulint" where
  "rec_get_data_size m rec = rec_get_field_start_offs m rec (unat (rec_get_n_fields m rec))"

definition rec_get_extra_size :: "mem \<Rightarrow> ptr \<Rightarrow> ulint" where
  "rec_get_extra_size m rec =
     (let n_fields = rec_get_n_fields m rec in
      if rec_get_1byte_offs_flag m rec then of_nat REC_N_EXTRA_BYTES + n_fields else of_nat REC_N_EXTRA_BYTES + 2 * n_fields)"

definition rec_get_size :: "mem \<Rightarrow> ptr \<Rightarrow> ulint" where
  "rec_get_size m rec =
     (let n_fields = rec_get_n_fields m rec in
      if rec_get_1byte_offs_flag m rec
      then of_nat REC_N_EXTRA_BYTES + n_fields + rec_1_get_field_start_offs m rec (unat n_fields)
      else of_nat REC_N_EXTRA_BYTES + 2 * n_fields + rec_2_get_field_start_offs m rec (unat n_fields))"

definition rec_get_end :: "mem \<Rightarrow> ptr \<Rightarrow> ptr" where
  "rec_get_end m rec = rec + unat (rec_get_data_size m rec)"

definition rec_get_start :: "mem \<Rightarrow> ptr \<Rightarrow> ptr" where
  "rec_get_start m rec = rec - unat (rec_get_extra_size m rec)"

section \<open>Changing a field\<close>

definition data_write_sql_null :: "mem \<Rightarrow> ptr \<Rightarrow> ulint \<Rightarrow> mem" where
  "data_write_sql_null m p ln = mem_put m p (replicate (unat ln) 0)"

definition rec_set_nth_field_null_bit :: "mem \<Rightarrow> ptr \<Rightarrow> nat \<Rightarrow> bool \<Rightarrow> mem" where
  "rec_set_nth_field_null_bit m rec i val =
     (if rec_get_1byte_offs_flag m rec then
        let info = rec_1_get_field_end_info m rec i;
            info = (if val then info OR REC_1BYTE_SQL_NULL_MASK else info AND NOT REC_1BYTE_SQL_NULL_MASK)
        in rec_1_set_field_end_info m rec i info
      else
        let info = rec_2_get_field_end_info m rec i;
            info = (if val then info OR REC_2BYTE_SQL_NULL_MASK else info AND NOT REC_2BYTE_SQL_NULL_MASK)
        in rec_2_set_field_end_info m rec i info)"

definition rec_set_nth_field_sql_null :: "mem \<Rightarrow> ptr \<Rightarrow> nat \<Rightarrow> mem" where
  "rec_set_nth_field_sql_null m rec n =
     (let offset = rec_get_field_start_offs m rec n;
          m = data_write_sql_null m (rec + unat offset) (rec_get_nth_field_size m rec n)
      in rec_set_nth_field_null_bit m rec n True)"

definition rec_set_nth_field :: "mem \<Rightarrow> ptr \<Rightarrow> nat \<Rightarrow> ptr \<Rightarrow> ulint \<Rightarrow> mem option" where
  "rec_set_nth_field m rec n d ln =
     (if ln = UNIV_SQL_NULL then Some (rec_set_nth_field_sql_null m rec n)
      else case rec_get_nth_field m rec n of None \<Rightarrow> None
        | Some (data2, len2) \<Rightarrow>
          let m = mem_put m data2 (mem_bytes m d (unat ln))
          in Some (if len2 = UNIV_SQL_NULL then rec_set_nth_field_null_bit m rec n False else m))"

definition rec_copy_nth_field :: "mem \<Rightarrow> ptr \<Rightarrow> ptr \<Rightarrow> nat \<Rightarrow> (mem \<times> ulint) option" where
  "rec_copy_nth_field m buf rec n =
     (case rec_get_nth_field m rec n of None \<Rightarrow> None
      | Some (p, ln) \<Rightarrow> if ln = UNIV_SQL_NULL then Some (m, ln) else Some (mem_put m buf (mem_bytes m p (unat ln)), ln))"

definition rec_copy :: "mem \<Rightarrow> ptr \<Rightarrow> ptr \<Rightarrow> mem \<times> ptr" where
  "rec_copy m buf rec =
     (let extra_len = unat (rec_get_extra_size m rec); data_len = unat (rec_get_data_size m rec)
      in (mem_put m buf (mem_bytes m (rec - extra_len) (extra_len + data_len)), buf + extra_len))"

text \<open>The copy of the first fields, into a buffer that is large enough; its end is not returned.\<close>

definition rec_copy_prefix_to_buf :: "mem \<Rightarrow> ptr \<Rightarrow> nat \<Rightarrow> ptr \<Rightarrow> mem \<times> ptr" where
  "rec_copy_prefix_to_buf m rec n_fields buf =
     (let area_end = unat (rec_get_field_start_offs m rec n_fields);
          area_start = (if rec_get_1byte_offs_flag m rec then REC_N_EXTRA_BYTES + n_fields else REC_N_EXTRA_BYTES + 2 * n_fields);
          prefix_len = area_start + area_end;
          m = mem_put m buf (mem_bytes m (rec - area_start) prefix_len);
          copy_rec = buf + area_start
      in (rec_set_n_fields m copy_rec (of_nat n_fields), copy_rec))"

section \<open>From tuples\<close>

definition rec_get_converted_extra_size :: "ulint \<Rightarrow> ulint \<Rightarrow> ulint" where
  "rec_get_converted_extra_size data_size n_fields =
     (if data_size \<le> REC_1BYTE_OFFS_LIMIT then of_nat REC_N_EXTRA_BYTES + n_fields else of_nat REC_N_EXTRA_BYTES + 2 * n_fields)"

definition rec_get_converted_size :: "dtuple \<Rightarrow> ulint option" where
  "rec_get_converted_size tuple =
     (case dtuple_get_data_size tuple of None \<Rightarrow> None
      | Some data_size \<Rightarrow> Some (data_size + rec_get_converted_extra_size data_size (dt_n_fields tuple)))"

text \<open>
  One turn of the loops: the data of the field behind the fields before it, and its end. The first
  argument tells the two loops apart, of the short and of the long form.
\<close>

definition conv_field :: "bool \<Rightarrow> ptr \<Rightarrow> nat \<Rightarrow> dfield \<Rightarrow> mem \<times> ulint \<Rightarrow> (mem \<times> ulint) option" where
  "conv_field short rec i field st =
     (let (m, end_offset) = st; ln = dfield_len field in
      if ln = UNIV_SQL_NULL then
        (case dtype_get_sql_null_size (dfield_type field) of None \<Rightarrow> None
         | Some ln \<Rightarrow>
           let m = data_write_sql_null m (rec + unat end_offset) ln;
               end_offset = end_offset + ln
           in Some (if short then rec_1_set_field_end_info m rec i (end_offset OR REC_1BYTE_SQL_NULL_MASK)
                    else rec_2_set_field_end_info m rec i (end_offset OR REC_2BYTE_SQL_NULL_MASK), end_offset))
      else
        let m = mem_put m (rec + unat end_offset) (mem_bytes m (dfield_data field) (unat ln));
            end_offset = end_offset + ln
        in Some (if short then rec_1_set_field_end_info m rec i end_offset
                 else rec_2_set_field_end_info m rec i end_offset, end_offset))"

fun conv_fields :: "bool \<Rightarrow> ptr \<Rightarrow> nat \<Rightarrow> dfield list \<Rightarrow> mem \<times> ulint \<Rightarrow> (mem \<times> ulint) option" where
  "conv_fields short rec i [] st = Some st"
| "conv_fields short rec i (field # fs) st =
     (case conv_field short rec i field st of None \<Rightarrow> None | Some st \<Rightarrow> conv_fields short rec (Suc i) fs st)"

text \<open>\<open>end_offset\<close> is never initialised in the source; its first value is an argument here.\<close>

definition rec_convert_dtuple_to_rec_low :: "mem \<Rightarrow> ptr \<Rightarrow> dtuple \<Rightarrow> ulint \<Rightarrow> ulint \<Rightarrow> (mem \<times> ptr) option" where
  "rec_convert_dtuple_to_rec_low m destination tuple data_size end_offset =
     (let n_fields = dt_n_fields tuple;
          rec = destination + unat (rec_get_converted_extra_size data_size n_fields);
          m = rec_set_n_fields m rec n_fields;
          m = rec_set_info_bits m rec (dt_info_bits tuple);
          short = (data_size \<le> REC_1BYTE_OFFS_LIMIT);
          m = rec_set_1byte_offs_flag m rec short
      in map_option (\<lambda>st. (fst st, rec)) (conv_fields short rec 0 (dtuple_fields tuple) (m, end_offset)))"

definition rec_convert_dtuple_to_rec :: "mem \<Rightarrow> ptr \<Rightarrow> dtuple \<Rightarrow> ulint \<Rightarrow> (mem \<times> ptr) option" where
  "rec_convert_dtuple_to_rec m destination tuple end_offset =
     (case dtuple_get_data_size tuple of None \<Rightarrow> None
      | Some data_size \<Rightarrow> rec_convert_dtuple_to_rec_low m destination tuple data_size end_offset)"

section \<open>Folding and checking\<close>

text \<open>\<open>tree\<close> is \<open>ut_fold_dulint(tree_id)\<close>.\<close>

fun rec_fold_loop :: "mem \<Rightarrow> ptr \<Rightarrow> nat \<Rightarrow> nat \<Rightarrow> ulint \<Rightarrow> ulint option" where
  "rec_fold_loop m rec i 0 h = Some h"
| "rec_fold_loop m rec i (Suc k) h =
     (case rec_get_nth_field m rec i of None \<Rightarrow> None
      | Some (d, ln) \<Rightarrow>
        rec_fold_loop m rec (Suc i) k (if ln \<noteq> UNIV_SQL_NULL then ut_fold_ulint_pair h (ut_fold_binary m d ln) else h))"

definition rec_fold :: "mem \<Rightarrow> ptr \<Rightarrow> nat \<Rightarrow> ulint \<Rightarrow> ulint \<Rightarrow> ulint option" where
  "rec_fold m rec n_fields n_bytes tree =
     (let n_fields_rec = unat (rec_get_n_fields m rec);
          n_fields = (if n_fields > n_fields_rec then n_fields_rec else n_fields);
          n_bytes = (if n_fields = n_fields_rec then 0 else n_bytes)
      in case rec_fold_loop m rec 0 n_fields tree of None \<Rightarrow> None
        | Some h \<Rightarrow>
          if n_bytes > 0 then
            case rec_get_nth_field m rec n_fields of None \<Rightarrow> None
            | Some (d, ln) \<Rightarrow>
              if ln \<noteq> UNIV_SQL_NULL then
                let ln = (if ln > n_bytes then n_bytes else ln) in Some (ut_fold_ulint_pair h (ut_fold_binary m d ln))
              else Some h
          else Some h)"

text \<open>The loop of \<open>rec_validate\<close> with \<open>len_sum\<close>; \<open>UNIV_PAGE_SIZE\<close> is a parameter, the check sum of bytes is unused.\<close>

fun rec_validate_loop :: "ulint \<Rightarrow> mem \<Rightarrow> ptr \<Rightarrow> nat \<Rightarrow> nat \<Rightarrow> ulint \<Rightarrow> (bool \<times> ulint) option" where
  "rec_validate_loop page_size m rec i 0 len_sum = Some (True, len_sum)"
| "rec_validate_loop page_size m rec i (Suc k) len_sum =
     (case rec_get_nth_field m rec i of None \<Rightarrow> None
      | Some (d, ln) \<Rightarrow>
        if \<not> (ln < page_size \<or> ln = UNIV_SQL_NULL) then Some (False, len_sum)
        else rec_validate_loop page_size m rec (Suc i) k
          (if ln \<noteq> UNIV_SQL_NULL then len_sum + ln else len_sum + rec_get_nth_field_size m rec i))"

definition rec_validate :: "ulint \<Rightarrow> mem \<Rightarrow> ptr \<Rightarrow> bool option" where
  "rec_validate page_size m rec =
     (if rec = 0 then None
      else let n_fields = rec_get_n_fields m rec in
        if n_fields = 0 \<or> n_fields > REC_MAX_N_FIELDS then Some False
        else case rec_validate_loop page_size m rec 0 (unat n_fields) 0 of None \<Rightarrow> None
          | Some (ok, len_sum) \<Rightarrow> if \<not> ok then Some False else if len_sum \<noteq> rec_get_data_size m rec then Some False else Some True)"

section \<open>The values of a record\<close>

definition rec_value :: "mem \<Rightarrow> ptr \<Rightarrow> nat \<Rightarrow> byte list option" where
  "rec_value m rec n =
     (case rec_get_nth_field m rec n of None \<Rightarrow> None
      | Some (p, ln) \<Rightarrow> if ln = UNIV_SQL_NULL then None else Some (mem_bytes m p (unat ln)))"

definition rec_values :: "mem \<Rightarrow> ptr \<Rightarrow> byte list option list" where
  "rec_values m rec = map (rec_value m rec) [0..<unat (rec_get_n_fields m rec)]"

section \<open>The bits of the header\<close>

lemma bit_small: "unat (x :: ulint) < 2 ^ k \<Longrightarrow> bit x n \<Longrightarrow> n < k"
proof (rule ccontr)
  assume x: "unat x < 2 ^ k" "bit x n" "\<not> n < k"
  then have "(2 :: nat) ^ k \<le> 2 ^ n" by simp
  with x(1) have "unat x < 2 ^ n" by linarith
  then have "drop_bit n x = 0" by (simp add: word_unat_eq_iff unat_drop)
  with x(2) show False by (simp add: bit_iff_odd_drop_bit)
qed

lemma rec_masks:
  "REC_NEXT_MASK = mask 16" "REC_SHORT_MASK = mask 1" "REC_N_FIELDS_MASK = push_bit 1 (mask 10)"
  "REC_HEAP_NO_MASK = push_bit 3 (mask 13)" "REC_N_OWNED_MASK = mask 4" "REC_INFO_BITS_MASK = push_bit 4 (mask 4)"
  "REC_INFO_DELETED_FLAG = 2 ^ 5" "REC_1BYTE_SQL_NULL_MASK = 2 ^ 7" "REC_2BYTE_SQL_NULL_MASK = 2 ^ 15"
  "REC_2BYTE_EXTERN_MASK = 2 ^ 14"
  by (simp_all add: REC_NEXT_MASK_def REC_SHORT_MASK_def REC_N_FIELDS_MASK_def REC_HEAP_NO_MASK_def REC_N_OWNED_MASK_def
      REC_INFO_BITS_MASK_def REC_INFO_DELETED_FLAG_def REC_1BYTE_SQL_NULL_MASK_def REC_2BYTE_SQL_NULL_MASK_def
      REC_2BYTE_EXTERN_MASK_def mask_eq_exp_minus_1)

lemmas rec_offs = REC_NEXT_def REC_SHORT_def REC_N_FIELDS_def REC_HEAP_NO_def REC_N_OWNED_def REC_INFO_BITS_def
  REC_N_EXTRA_BYTES_def REC_NEXT_SHIFT_def REC_SHORT_SHIFT_def REC_N_FIELDS_SHIFT_def REC_HEAP_NO_SHIFT_def
  REC_N_OWNED_SHIFT_def REC_INFO_BITS_SHIFT_def

lemmas rec_header_defs = rec_get_next_offs_def rec_set_next_offs_def rec_get_n_fields_def rec_set_n_fields_def
  rec_get_n_owned_def rec_set_n_owned_def rec_get_info_bits_def rec_set_info_bits_def rec_get_heap_no_def
  rec_set_heap_no_def rec_get_1byte_offs_flag_def rec_set_1byte_offs_flag_def rec_get_bit_field_1_def
  rec_set_bit_field_1_def rec_get_bit_field_2_def rec_set_bit_field_2_def

text \<open>The bits of the one and two byte reads, in terms of the bytes.\<close>

lemma bit_read_1: "bit (mach_read_from_1 m p) n \<longleftrightarrow> n < 8 \<and> bit (m p) n"
  by (auto simp: mach_read_from_1_def bit_simps dest: bit_imp_le_length)

lemma bit_read_2: "bit (mach_read_from_2 m p) n \<longleftrightarrow> (if n < 8 then bit (m (p + 1)) n else n < 16 \<and> bit (m p) (n - 8))"
proof -
  have "mach_read_from_2 m p = push_bit 8 (ucast (m p)) OR ucast (m (p + 1))"
    unfolding mach_read_from_2_def
    by (rule disjunctive_add) (auto simp: bit_simps dest: bit_imp_le_length)
  then show ?thesis by (auto simp: bit_simps dest: bit_imp_le_length)
qed

lemma bit_write_1: "bit (mach_write_to_1 m p x q) n \<longleftrightarrow> (if q = p then n < 8 \<and> bit x n else bit (m q) n)"
  by (auto simp: mach_write_to_1_def bit_simps)

lemma bit_write_2:
  "bit (mach_write_to_2 m p x q) n \<longleftrightarrow>
    (if q = p + 1 then n < 8 \<and> bit x n else if q = p then n < 8 \<and> bit x (n + 8) else bit (m q) n)"
  by (auto simp: mach_write_to_2_def bit_simps add.commute)

lemma rec_mask_bits:
  "bit REC_NEXT_MASK n \<longleftrightarrow> n < 16" "bit REC_SHORT_MASK n \<longleftrightarrow> n = 0" "bit REC_N_FIELDS_MASK n \<longleftrightarrow> 1 \<le> n \<and> n < 11"
  "bit REC_HEAP_NO_MASK n \<longleftrightarrow> 3 \<le> n \<and> n < 16" "bit REC_N_OWNED_MASK n \<longleftrightarrow> n < 4"
  "bit REC_INFO_BITS_MASK n \<longleftrightarrow> 4 \<le> n \<and> n < 8" "bit REC_INFO_DELETED_FLAG n \<longleftrightarrow> n = 5"
  "bit REC_1BYTE_SQL_NULL_MASK n \<longleftrightarrow> n = 7" "bit REC_2BYTE_SQL_NULL_MASK n \<longleftrightarrow> n = 15"
  "bit REC_2BYTE_EXTERN_MASK n \<longleftrightarrow> n = 14"
  unfolding rec_masks bit_push_bit_iff bit_mask_iff bit_exp_iff by auto

lemmas rec_bits = bit_read_1 bit_read_2 bit_write_1 bit_write_2 rec_mask_bits rec_offs bit_and_iff bit_or_iff bit_not_iff
  bit_drop_bit_eq bit_push_bit_iff bit_mask_iff

lemma write_1_other: "q \<noteq> p \<Longrightarrow> mach_write_to_1 m p x q = m q"
  by (simp add: mach_write_to_1_def)

lemma write_2_other: "q \<noteq> p \<Longrightarrow> q \<noteq> p + 1 \<Longrightarrow> mach_write_to_2 m p x q = m q"
  by (simp add: mach_write_to_2_def)

lemma rec_ptr: "6 \<le> (rec :: nat) \<Longrightarrow> \<exists>r. rec = r + 6" by (metis le_add_diff_inverse2)

lemma read_write_2: "unat x < 2 ^ 16 \<Longrightarrow> mach_read_from_2 (mach_write_to_2 m p x) p = x"
  by (rule c2.rd_wr)

lemma read_write_1: "unat x < 2 ^ 8 \<Longrightarrow> mach_read_from_1 (mach_write_to_1 m p x) p = x"
  using c1.rd_wr by simp

lemma set_field_2_bits:
  assumes "unat (push_bit s v) < 2 ^ 16"
  shows "bit (mach_read_from_2 (rec_set_bit_field_2 m rec v offs msk s) (rec - offs)) n
    \<longleftrightarrow> bit ((mach_read_from_2 m (rec - offs) AND msk) OR push_bit s v) n"
proof -
  have "n < 16" if "bit ((mach_read_from_2 m (rec - offs) AND msk) OR push_bit s v) n"
    using that bit_small [OF assms] bit_read_2 [of m "rec - offs" n] by (auto simp: bit_or_iff bit_and_iff split: if_splits)
  then show ?thesis unfolding rec_set_bit_field_2_def by (auto simp: bit_read_2 bit_write_2)
qed

lemma push_field: "unat v < 2 ^ k \<Longrightarrow> k + s \<le> 16 \<Longrightarrow> unat (push_bit s (v :: ulint)) < 2 ^ 16"
proof -
  assume a: "unat v < 2 ^ k" "k + s \<le> 16"
  have "unat v * 2 ^ s < 2 ^ k * 2 ^ s" using a(1) by simp
  also have "\<dots> \<le> 2 ^ 16" unfolding power_add [symmetric] using a(2) by (intro power_increasing) auto
  finally have "unat v * 2 ^ s < 2 ^ 16" .
  then show ?thesis by (simp add: unsigned_push_bit_eq nat_bits)
qed

text \<open>The two byte setters keep the old bits of the field and clear the bits beside it.\<close>

lemma rec_two_byte_or:
  assumes "unat v < 2 ^ k" "k + s \<le> 16" "msk = push_bit s (mask k)"
  shows "rec_get_bit_field_2 (rec_set_bit_field_2 m rec v offs msk s) rec offs msk s
    = rec_get_bit_field_2 m rec offs msk s OR v"
proof (rule bit_word_eqI)
  fix n
  have "bit v n \<Longrightarrow> n < k" by (rule bit_small [OF assms(1)])
  then show "bit (rec_get_bit_field_2 (rec_set_bit_field_2 m rec v offs msk s) rec offs msk s) n
    \<longleftrightarrow> bit (rec_get_bit_field_2 m rec offs msk s OR v) n"
    using assms(2) unfolding rec_get_bit_field_2_def assms(3) bit_drop_bit_eq comp_apply bit_and_iff bit_or_iff
      set_field_2_bits [OF push_field [OF assms(1,2)]]
    by (auto simp: bit_simps dest: bit_imp_le_length)
qed

lemma rec_n_fields_or: "unat v < 2 ^ 10 \<Longrightarrow> rec_get_n_fields (rec_set_n_fields m rec v) rec = rec_get_n_fields m rec OR v"
  unfolding rec_get_n_fields_def rec_set_n_fields_def REC_N_FIELDS_SHIFT_def
  by (rule rec_two_byte_or [of v 10]) (simp_all add: rec_masks)

lemma rec_next_or: "unat v < 2 ^ 16 \<Longrightarrow> rec_get_next_offs (rec_set_next_offs m rec v) rec = rec_get_next_offs m rec OR v"
  unfolding rec_get_next_offs_def rec_set_next_offs_def REC_NEXT_SHIFT_def
  by (rule rec_two_byte_or [of v 16]) (simp_all add: rec_masks)

lemma rec_heap_no_or: "unat v < 2 ^ 13 \<Longrightarrow> rec_get_heap_no (rec_set_heap_no m rec v) rec = rec_get_heap_no m rec OR v"
  unfolding rec_get_heap_no_def rec_set_heap_no_def REC_HEAP_NO_SHIFT_def
  by (rule rec_two_byte_or [of v 13]) (simp_all add: rec_masks)

lemma rec_n_fields_clears:
  assumes "6 \<le> rec" "unat v < 2 ^ 10"
  shows "\<not> rec_get_1byte_offs_flag (rec_set_n_fields m rec v) rec"
    "rec_get_heap_no (rec_set_n_fields m rec v) rec = rec_get_heap_no m rec AND NOT (mask 5)"
proof -
  obtain r where r: "rec = r + 6" using rec_ptr [OF assms(1)] ..
  show "\<not> rec_get_1byte_offs_flag (rec_set_n_fields m rec v) rec"
    unfolding rec_header_defs r not_not by (rule bit_word_eqI) (auto simp del: push_bit_Suc One_nat_def simp: rec_bits)
  show "rec_get_heap_no (rec_set_n_fields m rec v) rec = rec_get_heap_no m rec AND NOT (mask 5)"
    unfolding rec_header_defs r
    by (rule bit_word_eqI) (auto simp del: push_bit_Suc One_nat_def simp: rec_bits split: if_splits dest: bit_small [OF assms(2)])
qed

lemma rec_heap_no_clears:
  assumes "6 \<le> rec" "unat v < 2 ^ 13"
  shows "rec_get_n_fields (rec_set_heap_no m rec v) rec = rec_get_n_fields m rec AND mask 7"
proof -
  obtain r where r: "rec = r + 6" using rec_ptr [OF assms(1)] ..
  show ?thesis
    unfolding rec_header_defs r
    by (rule bit_word_eqI) (auto simp del: push_bit_Suc One_nat_def simp: rec_bits split: if_splits dest: bit_small [OF assms(2)])
qed

lemma rec_one_byte_fields:
  assumes "6 \<le> rec" "unat v < 2 ^ 4" "b AND NOT REC_INFO_BITS_MASK = 0"
  shows "rec_get_n_owned (rec_set_n_owned m rec v) rec = v"
    "rec_get_info_bits (rec_set_n_owned m rec v) rec = rec_get_info_bits m rec"
    "rec_get_info_bits (rec_set_info_bits m rec b) rec = b"
    "rec_get_n_owned (rec_set_info_bits m rec b) rec = rec_get_n_owned m rec"
proof -
  obtain r where r: "rec = r + 6" using rec_ptr [OF assms(1)] ..
  have b: "bit b n \<Longrightarrow> 4 \<le> n \<and> n < 8" for n
  proof -
    assume n: "bit b n"
    then have "n < 64" using bit_imp_le_length by force
    moreover have "\<not> bit (b AND NOT REC_INFO_BITS_MASK) n" by (simp add: assms(3))
    ultimately show ?thesis using n by (auto simp: bit_simps rec_mask_bits)
  qed
  note bs = rec_bits bit_small [OF assms(2)] b
  show "rec_get_n_owned (rec_set_n_owned m rec v) rec = v"
    unfolding rec_header_defs r by (rule bit_word_eqI) (auto simp del: push_bit_Suc One_nat_def simp: rec_bits dest: bit_small [OF assms(2)])
  show "rec_get_info_bits (rec_set_n_owned m rec v) rec = rec_get_info_bits m rec"
    unfolding rec_header_defs r by (rule bit_word_eqI) (auto simp del: push_bit_Suc One_nat_def simp: rec_bits dest: bit_small [OF assms(2)])
  show "rec_get_info_bits (rec_set_info_bits m rec b) rec = b"
    unfolding rec_header_defs r by (rule bit_word_eqI) (auto simp del: push_bit_Suc One_nat_def simp: rec_bits dest: b)
  show "rec_get_n_owned (rec_set_info_bits m rec b) rec = rec_get_n_owned m rec"
    unfolding rec_header_defs r by (rule bit_word_eqI) (auto simp del: push_bit_Suc One_nat_def simp: rec_bits dest: b)
qed

end
