(* ===== verification/Rem_Convert.thy ===== *)
theory Rem_Convert
  imports Rem_Rec
begin

text \<open>
  The conversion of a tuple to a physical record and the reading of the record: what the loop of
  \<open>rec_convert_dtuple_to_rec_low\<close> leaves in memory (\<open>converted\<close>, \<open>rec_holds\<close>), what
  \<open>rec_get_nth_field\<close> reads from it in the short and in the long form, and the properties of records.
\<close>

section \<open>The conversion loop\<close>

definition end_info :: "bool \<Rightarrow> mem \<Rightarrow> ptr \<Rightarrow> nat \<Rightarrow> ulint" where
  "end_info short m rec i = (if short then rec_1_get_field_end_info m rec i else rec_2_get_field_end_info m rec i)"

definition end_mark :: "bool \<Rightarrow> dfield \<Rightarrow> ulint" where
  "end_mark short f = (if dfield_len f = UNIV_SQL_NULL then if short then REC_1BYTE_SQL_NULL_MASK else REC_2BYTE_SQL_NULL_MASK else 0)"

definition info_width :: "bool \<Rightarrow> nat" where "info_width short = (if short then 1 else 2)"

definition end_limit :: "bool \<Rightarrow> nat" where "end_limit short = (if short then 2 ^ 7 else 2 ^ 14)"

text \<open>The bytes that a field leaves in the record: its value, or zeros.\<close>

definition stored_bytes :: "mem \<Rightarrow> dfield \<Rightarrow> byte list" where
  "stored_bytes m f = (case field_value m f of None \<Rightarrow> replicate (field_space f) 0 | Some bs \<Rightarrow> bs)"

lemma length_stored: "field_store_len f \<noteq> None \<Longrightarrow> length (stored_bytes m f) = field_space f"
  by (auto simp: stored_bytes_def field_value_def field_space_def field_store_len_def split: if_splits)

definition put_end :: "bool \<Rightarrow> mem \<Rightarrow> ptr \<Rightarrow> nat \<Rightarrow> ulint \<Rightarrow> mem" where
  "put_end short m rec i x = (if short then rec_1_set_field_end_info m rec i x else rec_2_set_field_end_info m rec i x)"

lemma conv_field_eq:
  assumes "field_store_len f = Some n"
  shows "conv_field short rec i f (m, e) =
    Some (put_end short (mem_put m (rec + unat e) (stored_bytes m f)) rec i ((e + n) OR end_mark short f), e + n)"
  using assms by (auto simp: conv_field_def Let_def put_end_def field_store_len_def stored_bytes_def field_value_def
      end_mark_def data_write_sql_null_def field_space_def)

text \<open>Where the ends stand: \<open>end_pos\<close> of field \<open>i\<close>, going down.\<close>

definition end_pos :: "bool \<Rightarrow> ptr \<Rightarrow> nat \<Rightarrow> ptr" where
  "end_pos short rec i = rec - (6 + info_width short * i)"

lemma put_end_frame:
  "q < end_pos short rec (Suc i) \<or> end_pos short rec i \<le> q \<Longrightarrow> 6 + info_width short * Suc i \<le> rec \<Longrightarrow>
    put_end short m rec i x q = m q"
  by (auto simp: put_end_def end_pos_def info_width_def rec_1_set_field_end_info_def rec_2_set_field_end_info_def
      REC_N_EXTRA_BYTES_def intro!: write_1_other write_2_other split: if_splits)

lemma end_mark_bits: "bit (end_mark short f) n \<longleftrightarrow> dfield_len f = UNIV_SQL_NULL \<and> n = (if short then 7 else 15)"
  by (simp add: end_mark_def rec_mask_bits)

lemma unat_le_bits: "(\<And>n. bit (x :: ulint) n \<Longrightarrow> n < k) \<Longrightarrow> unat x < 2 ^ k"
proof -
  assume "\<And>n. bit x n \<Longrightarrow> n < k"
  then have "take_bit k x = x" by (intro bit_word_eqI) (auto simp: bit_take_bit_iff)
  then have "unat x = take_bit k (unat x)" by (metis unsigned_take_bit_eq)
  then show ?thesis by (metis take_bit_nat_less_exp)
qed

lemma end_info_put:
  assumes "unat x < end_limit short"
  shows "end_info short (put_end short m rec i (x OR end_mark short f)) rec i = x OR end_mark short f"
proof -
  have "unat (x OR end_mark short f) < 2 ^ (if short then 8 else 16)"
  proof (rule unat_le_bits)
    fix n assume "bit (x OR end_mark short f) n"
    then show "n < (if short then 8 else 16)"
      using bit_small [of x "if short then 7 else 14" n] assms by (auto simp: bit_or_iff end_mark_bits end_limit_def split: if_splits)
  qed
  then show ?thesis
    by (cases short) (simp_all add: end_info_def put_end_def rec_1_get_field_end_info_def rec_2_get_field_end_info_def
        rec_1_set_field_end_info_def rec_2_set_field_end_info_def read_write_1 read_write_2)
qed

lemma end_info_cong:
  "(\<And>q. end_pos short rec (Suc i) \<le> q \<Longrightarrow> q < end_pos short rec i \<Longrightarrow> m q = m' q) \<Longrightarrow> 6 + info_width short * Suc i \<le> rec \<Longrightarrow>
    end_info short m rec i = end_info short m' rec i"
  by (auto simp: end_info_def end_pos_def info_width_def rec_1_get_field_end_info_def rec_2_get_field_end_info_def
      REC_N_EXTRA_BYTES_def mach_read_from_1_def mach_read_from_2_def)

text \<open>The source of a field lies outside of the area from \<open>lo\<close> to \<open>hi\<close>.\<close>

definition outside :: "nat \<Rightarrow> nat \<Rightarrow> dfield \<Rightarrow> bool" where
  "outside lo hi f \<longleftrightarrow> dfield_len f = UNIV_SQL_NULL \<or> dfield_data f + unat (dfield_len f) \<le> lo \<or> hi \<le> dfield_data f"

lemma field_value_outside:
  "outside lo hi f \<Longrightarrow> (\<And>q. q < lo \<or> hi \<le> q \<Longrightarrow> m' q = m q) \<Longrightarrow> field_value m' f = field_value m f"
  by (auto simp: field_value_def outside_def intro!: mem_bytes_cong)

definition spaces :: "dfield list \<Rightarrow> nat" where "spaces fs = (\<Sum>f \<leftarrow> fs. field_space f)"

lemma spaces_simps [simp]: "spaces [] = 0" "spaces (f # fs) = field_space f + spaces fs"
  by (simp_all add: spaces_def)

lemma spaces_take_le: "spaces (take j fs) \<le> spaces fs"
  by (induction fs arbitrary: j) (auto simp: take_Cons split: nat.splits)

text \<open>
  What the loop leaves: the end of every field with its null bit, its bytes, and everything else as
  it was.
\<close>

definition converted :: "bool \<Rightarrow> mem \<Rightarrow> mem \<Rightarrow> ptr \<Rightarrow> nat \<Rightarrow> nat \<Rightarrow> dfield list \<Rightarrow> bool" where
  "converted short m m' rec i e fs \<longleftrightarrow>
     (\<forall>q. q < end_pos short rec (i + length fs) \<or> (end_pos short rec i \<le> q \<and> q < rec + e) \<or> rec + e + spaces fs \<le> q \<longrightarrow> m' q = m q)
     \<and> (\<forall>j < length fs. end_info short m' rec (i + j) = of_nat (e + spaces (take (Suc j) fs)) OR end_mark short (fs ! j)
        \<and> mem_bytes m' (rec + e + spaces (take j fs)) (field_space (fs ! j)) = stored_bytes m (fs ! j))"

lemma end_pos_Suc: "6 + info_width short * Suc i \<le> rec \<Longrightarrow> end_pos short rec i = end_pos short rec (Suc i) + info_width short"
  by (simp add: end_pos_def)

lemma end_pos_le: "i \<le> j \<Longrightarrow> end_pos short rec j \<le> end_pos short rec i" "end_pos short rec i \<le> rec"
  by (simp_all add: end_pos_def diff_le_mono2)

lemma conv_fields_spec:
  assumes "\<forall>f \<in> set fs. field_store_len f \<noteq> None \<and> outside lo hi f" "unat e + spaces fs < end_limit short"
    and "6 + info_width short * (i + length fs) \<le> rec" "lo \<le> end_pos short rec (i + length fs)" "rec + unat e + spaces fs \<le> hi"
  shows "\<exists>m' e'. conv_fields short rec i fs (m, e) = Some (m', e') \<and> converted short m m' rec i (unat e) fs"
  using assms
proof (induction fs arbitrary: m e i)
  case Nil
  then show ?case by (simp add: converted_def)
next
  case (Cons f fs)
  obtain n where n: "field_store_len f = Some n" "field_space f = unat n" using Cons.prems(1) by (auto simp: field_space_def)
  define m1 where "m1 = put_end short (mem_put m (rec + unat e) (stored_bytes m f)) rec i ((e + n) OR end_mark short f)"
  have lim: "end_limit short < 2 ^ 64" by (simp add: end_limit_def)
  have en: "unat (e + n) = unat e + field_space f" using Cons.prems(2) n lim by (intro trans [OF unat_plus]) auto
  have len: "length (stored_bytes m f) = field_space f" using n by (intro length_stored) simp
  have ep: "6 + info_width short * Suc i \<le> rec" "end_pos short rec (Suc i) \<le> end_pos short rec i" "end_pos short rec i \<le> rec"
      "end_pos short rec (Suc i + length fs) \<le> end_pos short rec (Suc i)"
    using Cons.prems(3) end_pos_le by (auto simp: algebra_simps intro: le_trans)
  have fr: "m1 q = m q" if "q < end_pos short rec (Suc i) \<or> (end_pos short rec i \<le> q \<and> q < rec + unat e) \<or> rec + unat e + field_space f \<le> q" for q
    using that ep unfolding m1_def by (subst put_end_frame) (auto simp: mem_put_outside len)
  have src: "field_value m1 g = field_value m g" if "g \<in> set fs" for g
    using Cons.prems that ep by (intro field_value_outside [of lo hi]) (auto intro!: fr)
  have "\<exists>m' e'. conv_fields short rec (Suc i) fs (m1, e + n) = Some (m', e') \<and> converted short m1 m' rec (Suc i) (unat (e + n)) fs"
    by (rule Cons.IH) (use Cons.prems in \<open>auto simp: en\<close>)
  then obtain m' e' where m': "conv_fields short rec (Suc i) fs (m1, e + n) = Some (m', e')"
    and c: "converted short m1 m' rec (Suc i) (unat e + field_space f) fs" by (auto simp: en)
  have frame: "m' q = m q" if "q < end_pos short rec (i + length (f # fs)) \<or> (end_pos short rec i \<le> q \<and> q < rec + unat e)
      \<or> rec + unat e + spaces (f # fs) \<le> q" for q
    using c that ep fr [of q] unfolding converted_def by auto
  have here: "end_info short m' rec i = of_nat (unat e + field_space f) OR end_mark short f"
  proof -
    have "end_info short m' rec i = end_info short m1 rec i"
      using c ep by (intro end_info_cong) (auto simp: converted_def)
    also have "\<dots> = (e + n) OR end_mark short f"
      unfolding m1_def using Cons.prems(2) en by (intro end_info_put) simp
    finally show ?thesis unfolding en [symmetric] by simp
  qed
  have data: "mem_bytes m' (rec + unat e) (field_space f) = stored_bytes m f"
  proof -
    have "mem_bytes m' (rec + unat e) (field_space f) = mem_bytes m1 (rec + unat e) (field_space f)"
      using c ep by (intro mem_bytes_cong) (auto simp: converted_def)
    also have "\<dots> = mem_bytes (mem_put m (rec + unat e) (stored_bytes m f)) (rec + unat e) (field_space f)"
      unfolding m1_def using ep by (intro mem_bytes_cong put_end_frame) auto
    finally show ?thesis using mem_bytes_put [of m "rec + unat e" "stored_bytes m f"] by (simp add: len)
  qed
  have "end_info short m' rec (i + j) = of_nat (unat e + spaces (take (Suc j) (f # fs))) OR end_mark short ((f # fs) ! j)
      \<and> mem_bytes m' (rec + unat e + spaces (take j (f # fs))) (field_space ((f # fs) ! j)) = stored_bytes m ((f # fs) ! j)"
    if "j < length (f # fs)" for j
  proof (cases j)
    case 0
    then show ?thesis using here data by simp
  next
    case (Suc k)
    with that have k: "k < length fs" by simp
    then have "stored_bytes m1 (fs ! k) = stored_bytes m (fs ! k)" by (simp add: stored_bytes_def src)
    with c k Suc show ?thesis by (simp add: converted_def add.assoc)
  qed
  with frame have "converted short m m' rec i (unat e) (f # fs)" unfolding converted_def by blast
  moreover have "conv_fields short rec i (f # fs) (m, e) = Some (m', e')"
    using m' by (simp add: conv_field_eq [OF n(1)] m1_def)
  ultimately show ?case by blast
qed

section \<open>Reading a record\<close>

lemma header_cong:
  assumes "6 \<le> rec" "\<And>q. rec - 6 \<le> q \<Longrightarrow> q < rec \<Longrightarrow> m q = m' q"
  shows "rec_get_n_fields m rec = rec_get_n_fields m' rec" "rec_get_info_bits m rec = rec_get_info_bits m' rec"
    "rec_get_1byte_offs_flag m rec = rec_get_1byte_offs_flag m' rec"
  using assms by (simp_all add: rec_header_defs rec_offs mach_read_from_1_def mach_read_from_2_def)

lemma short_flag_set:
  assumes "6 \<le> rec"
  shows "rec_get_1byte_offs_flag (rec_set_1byte_offs_flag m rec b) rec = b"
    "rec_get_n_fields (rec_set_1byte_offs_flag m rec b) rec = rec_get_n_fields m rec"
    "rec_get_info_bits (rec_set_1byte_offs_flag m rec b) rec = rec_get_info_bits m rec"
    "rec_get_n_fields (rec_set_info_bits m rec v) rec = rec_get_n_fields m rec"
proof -
  obtain r where r: "rec = r + 6" using rec_ptr [OF assms] ..
  have "drop_bit 0 (mach_read_from_1 (rec_set_bit_field_1 m rec (of_bool b) 3 REC_SHORT_MASK 0) (rec - 3) AND REC_SHORT_MASK) = of_bool b"
    unfolding rec_set_bit_field_1_def r
    by (rule bit_word_eqI) (auto simp del: push_bit_Suc One_nat_def simp: rec_bits bit_of_bool_iff bit_1_iff split: if_splits)
  then show "rec_get_1byte_offs_flag (rec_set_1byte_offs_flag m rec b) rec = b"
    by (simp add: rec_get_1byte_offs_flag_def rec_set_1byte_offs_flag_def rec_get_bit_field_1_def rec_offs)
  show "rec_get_n_fields (rec_set_1byte_offs_flag m rec b) rec = rec_get_n_fields m rec"
    unfolding rec_header_defs r
    by (rule bit_word_eqI) (auto simp del: push_bit_Suc simp: numeral_3_eq_3 rec_bits bit_of_bool_iff bit_1_iff split: if_splits)
  show "rec_get_info_bits (rec_set_1byte_offs_flag m rec b) rec = rec_get_info_bits m rec"
    "rec_get_n_fields (rec_set_info_bits m rec v) rec = rec_get_n_fields m rec"
    unfolding rec_header_defs rec_offs r by (simp_all add: mach_read_from_1_def mach_read_from_2_def mach_write_to_1_def)
qed

lemma and_nonzero: "(a :: ulint) AND b \<noteq> 0 \<longleftrightarrow> (\<exists>n. bit a n \<and> bit b n)"
proof
  assume "a AND b \<noteq> 0"
  show "\<exists>n. bit a n \<and> bit b n"
  proof (rule ccontr)
    assume "\<not> ?thesis"
    then have "a AND b = 0" by (intro bit_word_eqI) (auto simp: bit_and_iff)
    with \<open>a AND b \<noteq> 0\<close> show False ..
  qed
next
  assume "\<exists>n. bit a n \<and> bit b n"
  then obtain n where "bit (a AND b) n" by (auto simp: bit_and_iff)
  then show "a AND b \<noteq> 0" by auto
qed

text \<open>Taking the null bit off the end of a field, and asking for it.\<close>

lemma end_mark_off:
  assumes "x < end_limit short"
  shows "short \<Longrightarrow> (of_nat x OR end_mark short f) AND NOT REC_1BYTE_SQL_NULL_MASK = of_nat x"
    "\<not> short \<Longrightarrow> (of_nat x OR end_mark short f) AND NOT (REC_2BYTE_SQL_NULL_MASK OR REC_2BYTE_EXTERN_MASK) = of_nat x"
    "short \<Longrightarrow> (of_nat x OR end_mark short f) AND REC_1BYTE_SQL_NULL_MASK \<noteq> 0 \<longleftrightarrow> dfield_len f = UNIV_SQL_NULL"
    "\<not> short \<Longrightarrow> (of_nat x OR end_mark short f) AND REC_2BYTE_SQL_NULL_MASK \<noteq> 0 \<longleftrightarrow> dfield_len f = UNIV_SQL_NULL"
    "\<not> short \<Longrightarrow> \<not> dfield_len f = UNIV_SQL_NULL \<Longrightarrow>
      (of_nat x OR end_mark short f) AND NOT (REC_1BYTE_SQL_NULL_MASK OR REC_2BYTE_EXTERN_MASK) = of_nat x AND NOT (0x80 :: ulint)"
proof -
  let ?k = "if short then 7 else 14 :: nat"
  have "unat (of_nat x :: ulint) < 2 ^ ?k" using assms by (auto simp: end_limit_def unat_of_nat split: if_splits)
  then have x: "bit (of_nat x :: ulint) n \<Longrightarrow> n < ?k" for n by (rule bit_small)
  show "short \<Longrightarrow> (of_nat x OR end_mark short f) AND NOT REC_1BYTE_SQL_NULL_MASK = of_nat x"
    "\<not> short \<Longrightarrow> (of_nat x OR end_mark short f) AND NOT (REC_2BYTE_SQL_NULL_MASK OR REC_2BYTE_EXTERN_MASK) = of_nat x"
    by (rule bit_word_eqI; use x in \<open>force simp: bit_and_iff bit_or_iff bit_not_iff end_mark_bits rec_mask_bits\<close>)+
  show "short \<Longrightarrow> (of_nat x OR end_mark short f) AND REC_1BYTE_SQL_NULL_MASK \<noteq> 0 \<longleftrightarrow> dfield_len f = UNIV_SQL_NULL"
    "\<not> short \<Longrightarrow> (of_nat x OR end_mark short f) AND REC_2BYTE_SQL_NULL_MASK \<noteq> 0 \<longleftrightarrow> dfield_len f = UNIV_SQL_NULL"
    unfolding and_nonzero using x [of 7] x [of 15] by (auto simp: bit_or_iff end_mark_bits rec_mask_bits)
  have m: "(0x80 :: ulint) = REC_1BYTE_SQL_NULL_MASK" by (simp add: REC_1BYTE_SQL_NULL_MASK_def)
  show "\<not> short \<Longrightarrow> \<not> dfield_len f = UNIV_SQL_NULL \<Longrightarrow>
      (of_nat x OR end_mark short f) AND NOT (REC_1BYTE_SQL_NULL_MASK OR REC_2BYTE_EXTERN_MASK) = of_nat x AND NOT (0x80 :: ulint)"
    unfolding m by (rule bit_word_eqI; use x [of 14] in \<open>force simp: bit_and_iff bit_or_iff bit_not_iff end_mark_bits rec_mask_bits\<close>)
qed

text \<open>A record that stands in memory with the fields \<open>fs\<close> of a tuple.\<close>

definition rec_holds :: "bool \<Rightarrow> mem \<Rightarrow> mem \<Rightarrow> ptr \<Rightarrow> dfield list \<Rightarrow> bool" where
  "rec_holds short m m' rec fs \<longleftrightarrow>
     rec_get_1byte_offs_flag m' rec = short \<and> rec_get_n_fields m' rec = of_nat (length fs) \<and> 0 < rec
     \<and> length fs < 1024 \<and> spaces fs < end_limit short
     \<and> (\<forall>j < length fs. field_store_len (fs ! j) \<noteq> None
        \<and> end_info short m' rec j = of_nat (spaces (take (Suc j) fs)) OR end_mark short (fs ! j)
        \<and> mem_bytes m' (rec + spaces (take j fs)) (field_space (fs ! j)) = stored_bytes m (fs ! j))"

lemma rec_holds_start:
  assumes "rec_holds short m m' rec fs" "n \<le> length fs"
  shows "rec_get_field_start_offs m' rec n = of_nat (spaces (take n fs))"
    "short \<Longrightarrow> rec_1_get_field_start_offs m' rec n = of_nat (spaces (take n fs))"
    "\<not> short \<Longrightarrow> rec_2_get_field_start_offs m' rec n = of_nat (spaces (take n fs))"
proof -
  have *: "(short \<longrightarrow> rec_1_get_field_start_offs m' rec n = of_nat (spaces (take n fs)))
      \<and> (\<not> short \<longrightarrow> rec_2_get_field_start_offs m' rec n = of_nat (spaces (take n fs)))"
  proof (cases n)
    case 0
    then show ?thesis by (simp add: rec_1_get_field_start_offs_def rec_2_get_field_start_offs_def)
  next
    case (Suc j)
    then have j: "j < length fs" using assms by simp
    then have e: "end_info short m' rec j = of_nat (spaces (take n fs)) OR end_mark short (fs ! j)"
      using assms(1) Suc unfolding rec_holds_def by auto
    have l: "spaces (take n fs) < end_limit short"
      using spaces_take_le [of n fs] assms(1) by (auto simp: rec_holds_def)
    show ?thesis using e end_mark_off(1,2) [OF l, of "fs ! j"]
      by (auto simp: Suc rec_1_get_field_start_offs_def rec_2_get_field_start_offs_def end_info_def
          rec_1_get_field_end_info_def rec_2_get_field_end_info_def rec_1_get_prev_field_end_info_def rec_2_get_prev_field_end_info_def
          algebra_simps)
  qed
  show "short \<Longrightarrow> rec_1_get_field_start_offs m' rec n = of_nat (spaces (take n fs))"
    "\<not> short \<Longrightarrow> rec_2_get_field_start_offs m' rec n = of_nat (spaces (take n fs))"
    using * by simp_all
  then show "rec_get_field_start_offs m' rec n = of_nat (spaces (take n fs))"
    using assms(1) by (auto simp: rec_get_field_start_offs_def rec_holds_def)
qed

text \<open>The end that \<open>rec_get_nth_field\<close> computes with: in the long form bit 7 is gone.\<close>

definition seen_end :: "bool \<Rightarrow> dfield list \<Rightarrow> nat \<Rightarrow> ulint" where
  "seen_end short fs n = (if short then of_nat (spaces (take (Suc n) fs)) else of_nat (spaces (take (Suc n) fs)) AND NOT (0x80 :: ulint))"

lemma rec_holds_nth:
  assumes "rec_holds short m m' rec fs" "n < length fs"
  shows "rec_get_nth_field m' rec n = Some (rec + spaces (take n fs),
    if dfield_len (fs ! n) = UNIV_SQL_NULL then UNIV_SQL_NULL else seen_end short fs n - of_nat (spaces (take n fs)))"
proof -
  have h: "rec_get_1byte_offs_flag m' rec = short" "0 < rec" "length fs < 1024" "spaces fs < end_limit short"
    "end_info short m' rec n = of_nat (spaces (take (Suc n) fs)) OR end_mark short (fs ! n)"
    using assms unfolding rec_holds_def by auto
  have l: "spaces (take (Suc n) fs) < end_limit short" using spaces_take_le [of "Suc n" fs] h(4) by simp
  have l': "spaces (take n fs) < 2 ^ 64" using spaces_take_le [of n fs] h(4) by (auto simp: end_limit_def split: if_splits)
  then have u: "unat (of_nat (spaces (take n fs)) :: ulint) = spaces (take n fs)" by (simp add: unat_of_nat)
  note st = rec_holds_start(2,3) [OF assms(1), of n]
  show ?thesis
  proof (cases short)
    case True
    then have e: "rec_1_get_field_end_info m' rec n = of_nat (spaces (take (Suc n) fs)) OR end_mark short (fs ! n)"
      using h(5) by (simp add: end_info_def)
    show ?thesis using end_mark_off(1,3) [OF l True, of "fs ! n"] assms(2) h(1-3) st(1) True u
      by (simp add: rec_get_nth_field_def e Let_def seen_end_def)
  next
    case False
    then have e: "rec_2_get_field_end_info m' rec n = of_nat (spaces (take (Suc n) fs)) OR end_mark short (fs ! n)"
      using h(5) by (simp add: end_info_def)
    show ?thesis using end_mark_off(4,5) [OF l False, of "fs ! n"] assms(2) h(1-3) st(2) False u
      by (simp add: rec_get_nth_field_def e Let_def seen_end_def)
  qed
qed

lemma field_value_space: "dfield_len f \<noteq> UNIV_SQL_NULL \<Longrightarrow> field_space f = unat (dfield_len f)"
  by (simp add: field_space_def field_store_len_def)

lemma spaces_Suc: "n < length fs \<Longrightarrow> spaces (take (Suc n) fs) = spaces (take n fs) + field_space (fs ! n)"
  by (simp add: take_Suc_conv_app_nth spaces_def)

lemma clear_bit_7: "\<not> bit (x :: ulint) 7 \<Longrightarrow> x AND NOT 0x80 = x"
proof -
  assume "\<not> bit x 7"
  moreover have "(0x80 :: ulint) = REC_1BYTE_SQL_NULL_MASK" by (simp add: REC_1BYTE_SQL_NULL_MASK_def)
  ultimately show ?thesis by (intro bit_word_eqI) (auto simp: bit_and_iff bit_not_iff rec_mask_bits)
qed

lemma rec_holds_clean:
  assumes "rec_holds short m m' rec fs" "n < length fs"
    and "short \<or> \<not> bit (of_nat (spaces (take (Suc n) fs)) :: ulint) 7"
  shows "rec_get_nth_field m' rec n = Some (rec + spaces (take n fs), dfield_len (fs ! n))"
    and "rec_value m' rec n = field_value m (fs ! n)"
proof -
  have s: "seen_end short fs n = of_nat (spaces (take n fs) + field_space (fs ! n))"
    using assms(3) unfolding seen_end_def spaces_Suc [OF assms(2), symmetric] by (cases short) (simp_all only: clear_bit_7 if_True if_False simp_thms)
  have v: "mem_bytes m' (rec + spaces (take n fs)) (field_space (fs ! n)) = stored_bytes m (fs ! n)"
    using assms(1,2) by (simp add: rec_holds_def)
  show nth: "rec_get_nth_field m' rec n = Some (rec + spaces (take n fs), dfield_len (fs ! n))"
    unfolding rec_holds_nth [OF assms(1,2)] s by (simp add: field_value_space)
  show "rec_value m' rec n = field_value m (fs ! n)"
    using v field_value_space [of "fs ! n"] by (auto simp: rec_value_def nth stored_bytes_def field_value_def)
qed

section \<open>Converted tuples\<close>

text \<open>
  A tuple that can be converted at \<open>dest\<close>: its fields are there, have a size, fit the record, and
  their data lies outside of it.
\<close>

definition tuple_short :: "dtuple \<Rightarrow> bool" where
  "tuple_short tuple \<longleftrightarrow> spaces (dtuple_fields tuple) < 128"

definition tuple_rec :: "ptr \<Rightarrow> dtuple \<Rightarrow> ptr" where
  "tuple_rec dest tuple = dest + 6 + info_width (tuple_short tuple) * unat (dt_n_fields tuple)"

definition tuple_fits :: "mem \<Rightarrow> ptr \<Rightarrow> dtuple \<Rightarrow> bool" where
  "tuple_fits m dest tuple \<longleftrightarrow>
     unat (dt_n_fields tuple) \<le> length (dt_fields tuple) \<and> 0 < dt_n_fields tuple \<and> dt_n_fields tuple \<le> REC_MAX_N_FIELDS
     \<and> dt_info_bits tuple AND NOT REC_INFO_BITS_MASK = 0
     \<and> list_all (\<lambda>f. field_store_len f \<noteq> None \<and> outside dest (tuple_rec dest tuple + spaces (dtuple_fields tuple)) f) (dtuple_fields tuple)
     \<and> spaces (dtuple_fields tuple) < 2 ^ 14"

lemma tuple_fits_len:
  assumes "tuple_fits m dest tuple"
  shows "length (dtuple_fields tuple) = unat (dt_n_fields tuple)" "length (dtuple_fields tuple) < 1024"
    "spaces (dtuple_fields tuple) < end_limit (tuple_short tuple)"
proof -
  show l: "length (dtuple_fields tuple) = unat (dt_n_fields tuple)"
    using assms by (simp add: tuple_fits_def length_dtuple_fields)
  show "length (dtuple_fields tuple) < 1024"
    using assms unfolding l by (simp add: tuple_fits_def REC_MAX_N_FIELDS_def word_le_nat_alt)
  show "spaces (dtuple_fields tuple) < end_limit (tuple_short tuple)"
    using assms by (simp add: tuple_fits_def end_limit_def tuple_short_def)
qed

lemma tuple_data_size:
  assumes "tuple_fits m dest tuple"
  obtains ds where "dtuple_get_data_size tuple = Some ds" "unat ds = spaces (dtuple_fields tuple)"
    "ds \<le> REC_1BYTE_OFFS_LIMIT \<longleftrightarrow> tuple_short tuple"
    "unat (rec_get_converted_extra_size ds (dt_n_fields tuple)) = 6 + info_width (tuple_short tuple) * unat (dt_n_fields tuple)"
proof -
  have "\<exists>ds. data_size_loop (dtuple_fields tuple) 0 = Some ds \<and> unat ds = unat (0 :: ulint) + (\<Sum>f \<leftarrow> dtuple_fields tuple. field_space f)"
    using assms by (intro data_size_sum) (auto simp: tuple_fits_def list_all_iff spaces_def)
  then obtain ds where ds: "dtuple_get_data_size tuple = Some ds" "unat ds = spaces (dtuple_fields tuple)"
    by (auto simp: dtuple_get_data_size_def spaces_def)
  have short: "ds \<le> REC_1BYTE_OFFS_LIMIT \<longleftrightarrow> tuple_short tuple"
    using ds(2) by (auto simp: REC_1BYTE_OFFS_LIMIT_def tuple_short_def word_le_nat_alt)
  have "unat (dt_n_fields tuple) < 1024" using tuple_fits_len(1,2) [OF assms] by simp
  then have "unat (rec_get_converted_extra_size ds (dt_n_fields tuple)) = 6 + info_width (tuple_short tuple) * unat (dt_n_fields tuple)"
    by (simp add: rec_get_converted_extra_size_def short info_width_def REC_N_EXTRA_BYTES_def unat_word_ariths)
  with ds short that show ?thesis by blast
qed

lemma header_set_frame:
  "q < rec - 6 \<or> rec \<le> q \<Longrightarrow> 6 \<le> rec \<Longrightarrow>
    rec_set_1byte_offs_flag (rec_set_info_bits (rec_set_n_fields m rec n) rec b) rec s q = m q"
  by (auto simp: rec_set_1byte_offs_flag_def rec_set_info_bits_def rec_set_n_fields_def rec_set_bit_field_1_def
      rec_set_bit_field_2_def rec_offs intro!: trans [OF write_1_other] trans [OF write_2_other])

lemma rec_convert_holds:
  assumes fits: "tuple_fits m dest tuple" and clean: "rec_get_n_fields m (tuple_rec dest tuple) = 0"
  obtains m' where "rec_convert_dtuple_to_rec m dest tuple 0 = Some (m', tuple_rec dest tuple)"
    "rec_holds (tuple_short tuple) m m' (tuple_rec dest tuple) (dtuple_fields tuple)"
    "rec_get_info_bits m' (tuple_rec dest tuple) = dt_info_bits tuple"
    "\<forall>q. q < dest \<or> tuple_rec dest tuple + spaces (dtuple_fields tuple) \<le> q \<longrightarrow> m' q = m q"
proof -
  define rec where "rec = tuple_rec dest tuple"
  define fs where "fs = dtuple_fields tuple"
  define short where "short = tuple_short tuple"
  define m1 where "m1 = rec_set_1byte_offs_flag (rec_set_info_bits (rec_set_n_fields m rec (dt_n_fields tuple)) rec (dt_info_bits tuple)) rec short"
  obtain ds where ds: "dtuple_get_data_size tuple = Some ds" "ds \<le> REC_1BYTE_OFFS_LIMIT \<longleftrightarrow> short"
    "dest + unat (rec_get_converted_extra_size ds (dt_n_fields tuple)) = rec"
    using tuple_data_size [OF fits] by (metis short_def rec_def tuple_rec_def add.assoc)
  note len = tuple_fits_len [OF fits, folded fs_def short_def]
  have rec: "rec = dest + 6 + info_width short * length fs" by (simp add: rec_def tuple_rec_def short_def len(1))
  then have ep: "end_pos short rec (length fs) = dest" "end_pos short rec 0 = rec - 6" "6 \<le> rec" by (simp_all add: end_pos_def)
  have fr1: "m1 q = m q" if "q < rec - 6 \<or> rec \<le> q" for q
    unfolding m1_def using that ep(3) by (rule header_set_frame)
  have src: "\<forall>f \<in> set fs. field_store_len f \<noteq> None \<and> outside dest (rec + spaces fs) f"
    using fits by (simp add: tuple_fits_def list_all_iff fs_def rec_def)
  have "\<exists>m' e'. conv_fields short rec 0 fs (m1, 0) = Some (m', e') \<and> converted short m1 m' rec 0 (unat (0 :: ulint)) fs"
    using src len(3) ep rec by (intro conv_fields_spec [where lo = dest and hi = "rec + spaces fs"]) simp_all
  then obtain m' e' where c: "conv_fields short rec 0 fs (m1, 0) = Some (m', e')" "converted short m1 m' rec 0 0 fs" by auto
  have conv: "rec_convert_dtuple_to_rec m dest tuple 0 = Some (m', rec)"
    using c(1) by (simp add: rec_convert_dtuple_to_rec_def ds rec_convert_dtuple_to_rec_low_def Let_def m1_def fs_def)
  have hdr: "m' q = m1 q" if "rec - 6 \<le> q" "q < rec" for q using c(2) that ep by (simp add: converted_def)
  have hc: "rec_get_n_fields m' rec = rec_get_n_fields m1 rec" "rec_get_info_bits m' rec = rec_get_info_bits m1 rec"
    "rec_get_1byte_offs_flag m' rec = rec_get_1byte_offs_flag m1 rec"
    by (rule header_cong [OF ep(3)]; rule hdr; assumption)+
  have n: "unat (dt_n_fields tuple) < 2 ^ 10" using len(1,2) by simp
  have "rec_get_n_fields m1 rec = dt_n_fields tuple"
    unfolding m1_def short_flag_set [OF ep(3)] rec_n_fields_or [OF n] by (simp add: clean rec_def)
  moreover have "rec_get_info_bits m1 rec = dt_info_bits tuple"
    unfolding m1_def short_flag_set [OF ep(3)]
    by (rule rec_one_byte_fields(3) [of rec 0]) (use fits ep in \<open>simp_all add: tuple_fits_def\<close>)
  moreover have "rec_get_1byte_offs_flag m1 rec = short" unfolding m1_def by (rule short_flag_set [OF ep(3)])
  ultimately have hd: "rec_get_n_fields m' rec = of_nat (length fs)" "rec_get_info_bits m' rec = dt_info_bits tuple"
    "rec_get_1byte_offs_flag m' rec = short" by (simp_all add: hc len(1))
  have fr: "m' q = m q" if "q < dest \<or> rec + spaces fs \<le> q" for q
    using c(2) that ep rec fr1 [of q] by (auto simp: converted_def)
  have val: "stored_bytes m1 f = stored_bytes m f" if "f \<in> set fs" for f
  proof -
    have "field_value m1 f = field_value m f"
      using src that rec ep by (intro field_value_outside [of dest "rec + spaces fs"]) (auto intro!: fr1)
    then show ?thesis by (simp add: stored_bytes_def)
  qed
  have "rec_holds short m m' rec fs"
    using c(2) hd len src ep by (auto simp: rec_holds_def converted_def val)
  with that conv hd(2) fr show ?thesis by (simp add: rec_def fs_def short_def)
qed

definition clean_ends :: "dtuple \<Rightarrow> bool" where
  "clean_ends tuple \<longleftrightarrow> tuple_short tuple \<or>
     list_all (\<lambda>n. \<not> bit (of_nat (spaces (take (Suc n) (dtuple_fields tuple))) :: ulint) 7) [0..<length (dtuple_fields tuple)]"

lemma rec_convert_values:
  assumes fits: "tuple_fits m dest tuple" and clean: "clean_ends tuple"
    and h: "rec_holds (tuple_short tuple) m m' rec (dtuple_fields tuple)"
  shows "rec_values m' rec = tuple_values m tuple"
    and "n < length (dtuple_fields tuple) \<Longrightarrow> rec_get_nth_field m' rec n =
      Some (rec + spaces (take n (dtuple_fields tuple)), dfield_len (dtuple_fields tuple ! n))"
proof -
  let ?fs = "dtuple_fields tuple"
  have c: "tuple_short tuple \<or> \<not> bit (of_nat (spaces (take (Suc n) ?fs)) :: ulint) 7" if "n < length ?fs" for n
    using clean that by (auto simp: clean_ends_def list_all_iff)
  have "rec_get_n_fields m' rec = of_nat (length ?fs)" using h by (simp add: rec_holds_def)
  then have "unat (rec_get_n_fields m' rec) = length ?fs" using tuple_fits_len(2) [OF fits] by (simp add: unat_of_nat)
  then show "rec_values m' rec = tuple_values m tuple"
    by (auto simp: rec_values_def tuple_values_def rec_holds_clean(2) [OF h _ c] intro!: nth_equalityI)
  show "n < length ?fs \<Longrightarrow> rec_get_nth_field m' rec n = Some (rec + spaces (take n ?fs), dfield_len (?fs ! n))"
    by (rule rec_holds_clean(1) [OF h _ c])
qed

lemma rec_holds_sizes:
  assumes fits: "tuple_fits m dest tuple"
    and h: "rec_holds (tuple_short tuple) m m' rec (dtuple_fields tuple)"
  shows "Some (rec_get_size m' rec) = rec_get_converted_size tuple" "Some (rec_get_data_size m' rec) = dtuple_get_data_size tuple"
    "rec_get_n_fields m' rec = dt_n_fields tuple"
proof -
  let ?fs = "dtuple_fields tuple"
  obtain ds where ds: "dtuple_get_data_size tuple = Some ds" "unat ds = spaces ?fs"
    "ds \<le> REC_1BYTE_OFFS_LIMIT \<longleftrightarrow> tuple_short tuple" using tuple_data_size [OF fits] by blast
  note l = tuple_fits_len [OF fits]
  have n: "rec_get_n_fields m' rec = of_nat (length ?fs)" using h by (simp add: rec_holds_def)
  show nf: "rec_get_n_fields m' rec = dt_n_fields tuple" unfolding n l by simp
  then have u: "unat (rec_get_n_fields m' rec) = length ?fs" using l(1) by simp
  have d: "ds = of_nat (spaces ?fs)" using ds(2) [symmetric] by simp
  note st = rec_holds_start [OF h order_refl]
  have f: "rec_get_1byte_offs_flag m' rec = tuple_short tuple" using h by (simp add: rec_holds_def)
  show "Some (rec_get_data_size m' rec) = dtuple_get_data_size tuple"
    by (simp add: rec_get_data_size_def u st d ds(1))
  show "Some (rec_get_size m' rec) = rec_get_converted_size tuple"
    using st(2,3) by (auto simp: rec_get_size_def Let_def f rec_get_converted_size_def ds(1,3) rec_get_converted_extra_size_def nf
        l(1) [symmetric] simp flip: d)
qed

text \<open>A non-null field of the record and of the tuple fold to the same number, as does a prefix of it.\<close>

lemma mem_bytes_prefix: "mem_bytes m p n = mem_bytes m' p' n \<Longrightarrow> k \<le> n \<Longrightarrow> mem_bytes m p k = mem_bytes m' p' k"
  by (simp add: list_eq_iff_nth_eq)

lemma field_fold:
  assumes fits: "tuple_fits m dest tuple" and h: "rec_holds (tuple_short tuple) m m' rec (dtuple_fields tuple)"
    and n: "n < length (dtuple_fields tuple)" and f: "f = dtuple_fields tuple ! n" "dfield_len f \<noteq> UNIV_SQL_NULL"
    and k: "k \<le> dfield_len f"
  shows "ut_fold_binary m' (rec + spaces (take n (dtuple_fields tuple))) k = ut_fold_binary m (dfield_data f) k"
proof -
  have s: "field_space f = unat (dfield_len f)" using f(2) by (rule field_value_space)
  have "field_space f \<le> spaces (take (Suc n) (dtuple_fields tuple))" using n f(1) by (simp add: spaces_Suc)
  also have "\<dots> < 2 ^ 14" using spaces_take_le [of "Suc n" "dtuple_fields tuple"] fits by (simp add: tuple_fits_def)
  finally have l: "unat (dfield_len f) < 2 ^ 14" by (simp add: s)
  then have k': "unat k < 2 ^ 32" "unat k \<le> unat (dfield_len f)" using k by (simp_all add: word_le_nat_alt)
  have "mem_bytes m' (rec + spaces (take n (dtuple_fields tuple))) (field_space f) = stored_bytes m f"
    using h n f(1) by (simp add: rec_holds_def)
  also have "\<dots> = mem_bytes m (dfield_data f) (unat (dfield_len f))" using f(2) by (simp add: stored_bytes_def field_value_def)
  finally have "mem_bytes m' (rec + spaces (take n (dtuple_fields tuple))) (unat k) = mem_bytes m (dfield_data f) (unat k)"
    unfolding s by (rule mem_bytes_prefix) (rule k')
  then show ?thesis by (simp add: ut_fold_binary_eq [OF k'(1)])
qed

lemma rec_fold_loop_tuple:
  assumes fits: "tuple_fits m dest tuple" and clean: "clean_ends tuple"
    and h: "rec_holds (tuple_short tuple) m m' rec (dtuple_fields tuple)"
  shows "i + k \<le> length (dtuple_fields tuple) \<Longrightarrow>
    rec_fold_loop m' rec i k x = Some (dtuple_fold_loop m (take k (drop i (dtuple_fields tuple))) x)"
proof (induction k arbitrary: i x)
  case (Suc k)
  then have i: "i < length (dtuple_fields tuple)" by simp
  then have d: "drop i (dtuple_fields tuple) = dtuple_fields tuple ! i # drop (Suc i) (dtuple_fields tuple)"
    by (rule Cons_nth_drop_Suc [symmetric])
  show ?case unfolding d using Suc field_fold [OF fits h i refl _ order_refl] rec_convert_values(2) [OF fits clean h i]
    by simp
qed simp

lemma rec_fold_tuple:
  assumes fits: "tuple_fits m dest tuple" and clean: "clean_ends tuple"
    and h: "rec_holds (tuple_short tuple) m m' rec (dtuple_fields tuple)"
    and n: "n < unat (dt_n_fields tuple) \<or> n = unat (dt_n_fields tuple) \<and> n_bytes = 0"
  shows "rec_fold m' rec n n_bytes tree = Some (dtuple_fold m tuple n n_bytes tree)"
proof -
  note l = tuple_fits_len(1) [OF fits] and nf = rec_holds_sizes(3) [OF fits h]
  have tk: "take n (dtuple_fields tuple) = take n (dt_fields tuple)"
    using n by (auto simp: dtuple_fields_def min_def)
  have lp: "rec_fold_loop m' rec 0 n tree = Some (dtuple_fold_loop m (take n (dt_fields tuple)) tree)"
    using rec_fold_loop_tuple [OF fits clean h, of 0 n tree] n l tk by auto
  show ?thesis
  proof (cases "n < unat (dt_n_fields tuple) \<and> 0 < n_bytes")
    case True
    with l have i: "n < length (dtuple_fields tuple)" by simp
    define f where "f = dtuple_fields tuple ! n"
    have f: "dtuple_get_nth_field tuple n = f" using True by (simp add: f_def dtuple_fields_def dtuple_get_nth_field_def)
    have nth: "rec_get_nth_field m' rec n = Some (rec + spaces (take n (dtuple_fields tuple)), dfield_len f)"
      unfolding f_def by (rule rec_convert_values(2) [OF fits clean h i])
    have "ut_fold_binary m' (rec + spaces (take n (dtuple_fields tuple))) (if dfield_len f > n_bytes then n_bytes else dfield_len f)
        = ut_fold_binary m (dfield_data f) (if dfield_len f > n_bytes then n_bytes else dfield_len f)"
      if "dfield_len f \<noteq> UNIV_SQL_NULL"
      using that by (intro field_fold [OF fits h i f_def]) (auto simp: not_less intro: less_imp_le)
    then show ?thesis using True by (auto simp: rec_fold_def dtuple_fold_def nf lp nth f Let_def)
  next
    case False
    then have "n_bytes = 0" using n by (auto simp: word_gt_0)
    then show ?thesis using n lp by (auto simp: rec_fold_def dtuple_fold_def nf Let_def)
  qed
qed

lemma clear_bit_7_sub: "bit (x :: ulint) 7 \<Longrightarrow> x AND NOT 0x80 = x - 0x80"
proof -
  assume b: "bit x 7"
  have m: "(0x80 :: ulint) = REC_1BYTE_SQL_NULL_MASK" by (simp add: REC_1BYTE_SQL_NULL_MASK_def)
  have "(x AND NOT 0x80) + 0x80 = (x AND NOT 0x80) OR 0x80"
    unfolding m by (rule disjunctive_add) (simp add: bit_and_iff bit_not_iff rec_mask_bits)
  also have "\<dots> = x" unfolding m using b by (intro bit_word_eqI) (auto simp: bit_and_iff bit_or_iff bit_not_iff rec_mask_bits)
  finally show ?thesis by (simp only: eq_diff_eq)
qed

section \<open>Properties\<close>


text \<open>A tuple of an integer, a NULL of a fixed size and a string, in a memory whose bytes are their addresses.\<close>

definition sample_type :: "ulint \<Rightarrow> ulint \<Rightarrow> dtype" where
  "sample_type t n = \<lparr>mtype = t, prtype = 0, type_len = n, prec = 0\<rparr>"

definition sample_tuple :: dtuple where
  "sample_tuple = \<lparr>dt_info_bits = 0x20, dt_n_fields = 3, dt_n_fields_cmp = 3, dt_fields =
     [\<lparr>dfield_data = 1000, dfield_len = 4, dfield_type = sample_type DATA_INT 4, col_no = 0\<rparr>,
      \<lparr>dfield_data = 0, dfield_len = UNIV_SQL_NULL, dfield_type = sample_type DATA_CHAR 2, col_no = 1\<rparr>,
      \<lparr>dfield_data = 1004, dfield_len = 3, dfield_type = sample_type DATA_VARCHAR 0, col_no = 2\<rparr>]\<rparr>"

definition sample_mem :: mem where
  "sample_mem p = (if p < 1000 then 0 else of_nat p)"

lemma sample_fields:
  "dtuple_fields sample_tuple = dt_fields sample_tuple" "map field_space (dt_fields sample_tuple) = [4, 2, 3]"
  "spaces (dt_fields sample_tuple) = 9" "dt_n_fields sample_tuple = 3"
  by (simp_all add: dtuple_fields_def sample_tuple_def field_space_def field_store_len_def dtype_get_sql_null_size_def
      dtype_get_fixed_size_def sample_type_def data_codes UNIV_SQL_NULL_def spaces_def)

lemma sample_fits: "tuple_fits sample_mem 100 sample_tuple" "tuple_rec 100 sample_tuple = 109" "tuple_short sample_tuple"
proof -
  show s: "tuple_short sample_tuple" by (simp add: tuple_short_def sample_fields)
  show r: "tuple_rec 100 sample_tuple = 109" by (simp add: tuple_rec_def s info_width_def sample_fields)
  have "list_all (\<lambda>f. field_store_len f \<noteq> None \<and> outside 100 118 f) (dt_fields sample_tuple)"
    by (simp add: sample_tuple_def outside_def field_store_len_def UNIV_SQL_NULL_def
        dtype_get_sql_null_size_def dtype_get_fixed_size_def sample_type_def data_codes)
  moreover have "dt_info_bits sample_tuple AND NOT REC_INFO_BITS_MASK = 0"
    by (simp add: sample_tuple_def REC_INFO_BITS_MASK_def)
  ultimately show "tuple_fits sample_mem 100 sample_tuple"
    by (simp add: tuple_fits_def r sample_fields REC_MAX_N_FIELDS_def) (simp add: sample_tuple_def)
qed

lemma sample_clear: "rec_get_n_fields sample_mem 109 = 0"
  by (simp add: rec_get_n_fields_def rec_get_bit_field_2_def rec_offs mach_read_from_2_def sample_mem_def)

lemma sample_values: "tuple_values sample_mem sample_tuple = [Some [232, 233, 234, 235], None, Some [236, 237, 238]]"
proof -
  have "[0..<4] = [0, 1, 2, 3 :: nat]" "[0..<3] = [0, 1, 2 :: nat]" by (simp_all add: upt_rec)
  then show ?thesis unfolding tuple_values_def sample_fields
    by (simp add: sample_tuple_def field_value_def UNIV_SQL_NULL_def mem_bytes_def sample_mem_def)
qed


text \<open>The long form reads wrong lengths. In a converted record of the long form, a field that is not
NULL and ends at an offset with bit 7 set is read with a length that is 128 too small, modulo the
word size; the end is masked with the null mask of the short form.\<close>

theorem rec_long_field_short:
  assumes "tuple_fits m dest tuple" "rec_get_n_fields m (tuple_rec dest tuple) = 0" "\<not> tuple_short tuple"
    "n < unat (dt_n_fields tuple)" "dfield_len (dtuple_fields tuple ! n) \<noteq> UNIV_SQL_NULL"
    "bit (of_nat (spaces (take (Suc n) (dtuple_fields tuple))) :: ulint) 7"
  shows "\<exists>m' rec p. rec_convert_dtuple_to_rec m dest tuple 0 = Some (m', rec)
    \<and> rec_get_nth_field m' rec n = Some (p, dfield_len (dtuple_fields tuple ! n) - 128)"
proof -
  let ?fs = "dtuple_fields tuple"
  obtain m' where c: "rec_convert_dtuple_to_rec m dest tuple 0 = Some (m', tuple_rec dest tuple)"
    and h: "rec_holds (tuple_short tuple) m m' (tuple_rec dest tuple) ?fs"
    using rec_convert_holds [OF assms(1,2)] by blast
  have n: "n < length ?fs" using assms(1,4) tuple_fits_len(1) by simp
  define e where "e = (of_nat (spaces (take (Suc n) ?fs)) :: ulint)"
  have e: "e = of_nat (spaces (take n ?fs)) + dfield_len (?fs ! n)"
    unfolding e_def spaces_Suc [OF n] by (simp add: field_value_space [OF assms(5)])
  have "e AND NOT (0x80 :: ulint) = e - 0x80" using assms(6) unfolding e_def by (rule clear_bit_7_sub)
  then have "seen_end (tuple_short tuple) ?fs n = e - 0x80" using assms(3) unfolding seen_end_def e_def by simp
  then have "rec_get_nth_field m' (tuple_rec dest tuple) n = Some (tuple_rec dest tuple + spaces (take n ?fs), dfield_len (?fs ! n) - 128)"
    unfolding rec_holds_nth [OF h n] using assms(5) by (simp add: e)
  with c show ?thesis by blast
qed

definition long_tuple :: dtuple where
  "long_tuple = \<lparr>dt_info_bits = 0, dt_n_fields = 1, dt_n_fields_cmp = 1, dt_fields =
     [\<lparr>dfield_data = 1000, dfield_len = 200, dfield_type = sample_type DATA_VARCHAR 0, col_no = 0\<rparr>]\<rparr>"

lemma long_fits:
  "tuple_fits sample_mem 100 long_tuple" "tuple_rec 100 long_tuple = 108" "\<not> tuple_short long_tuple"
  "dtuple_fields long_tuple = dt_fields long_tuple" "spaces (dt_fields long_tuple) = 200"
proof -
  show f: "dtuple_fields long_tuple = dt_fields long_tuple" by (simp add: dtuple_fields_def long_tuple_def)
  show s: "spaces (dt_fields long_tuple) = 200"
    by (simp add: long_tuple_def spaces_def field_space_def field_store_len_def UNIV_SQL_NULL_def)
  show l: "\<not> tuple_short long_tuple" by (simp add: tuple_short_def f s)
  show r: "tuple_rec 100 long_tuple = 108" using l by (simp add: tuple_rec_def info_width_def) (simp add: long_tuple_def)
  have "list_all (\<lambda>f. field_store_len f \<noteq> None \<and> outside 100 308 f) (dt_fields long_tuple)"
    by (simp add: long_tuple_def outside_def field_store_len_def UNIV_SQL_NULL_def)
  then show "tuple_fits sample_mem 100 long_tuple"
    by (simp add: tuple_fits_def r f s REC_MAX_N_FIELDS_def) (simp add: long_tuple_def)
qed

lemma rec_long_field_short_witness:
  "\<exists>m' rec p. rec_convert_dtuple_to_rec sample_mem 100 long_tuple 0 = Some (m', rec) \<and> rec_get_nth_field m' rec 0 = Some (p, 72)"
proof -
  have c: "rec_get_n_fields sample_mem 108 = 0"
    by (simp add: rec_get_n_fields_def rec_get_bit_field_2_def rec_offs mach_read_from_2_def sample_mem_def)
  have l: "dfield_len (dt_fields long_tuple ! 0) = 200" "unat (dt_n_fields long_tuple) = 1" "length (dt_fields long_tuple) = 1"
    by (simp_all add: long_tuple_def)
  have "take (Suc 0) (dt_fields long_tuple) = dt_fields long_tuple" using l(3) by simp
  moreover have "bit (200 :: ulint) 7" by (simp add: bit_iff_odd_drop_bit)
  ultimately show ?thesis
    using rec_long_field_short [OF long_fits(1), of 0] long_fits(2-5) c l by (simp add: UNIV_SQL_NULL_def)
qed



text \<open>C40. The setters of the two byte header fields do not replace: the field holds the bitwise or of the
old and the new value. Setting the number of fields clears the flag of the short form and the low
five bits of the heap number, setting the heap number clears the high three bits of the number of
fields.\<close>

theorem rec_setters_or:
  assumes "6 \<le> rec" "unat next < 2 ^ 16" "unat n < 2 ^ 10" "unat heap_no < 2 ^ 13"
  shows "rec_get_next_offs (rec_set_next_offs m rec next) rec = rec_get_next_offs m rec OR next
    \<and> rec_get_n_fields (rec_set_n_fields m rec n) rec = rec_get_n_fields m rec OR n
    \<and> rec_get_heap_no (rec_set_heap_no m rec heap_no) rec = rec_get_heap_no m rec OR heap_no
    \<and> \<not> rec_get_1byte_offs_flag (rec_set_n_fields m rec n) rec
    \<and> rec_get_heap_no (rec_set_n_fields m rec n) rec = rec_get_heap_no m rec AND NOT (mask 5)
    \<and> rec_get_n_fields (rec_set_heap_no m rec heap_no) rec = rec_get_n_fields m rec AND mask 7"
  using assms by (simp add: rec_next_or rec_n_fields_or rec_heap_no_or rec_n_fields_clears rec_heap_no_clears)

lemma rec_setters_or_witness:
  "rec_get_heap_no (rec_set_heap_no (rec_set_heap_no (\<lambda>_. 0) 10 1) 10 2) 10 = 3"
proof -
  have z: "rec_get_heap_no (\<lambda>_. 0) 10 = 0" by (simp add: rec_get_heap_no_def rec_get_bit_field_2_def mach_read_from_2_def)
  show ?thesis using rec_setters_or [of 10 0 0 1 "\<lambda>_. 0"] rec_setters_or [of 10 0 0 2 "rec_set_heap_no (\<lambda>_. 0) 10 1"]
    by (simp add: z)
qed

text \<open>The owner count and the info bits share a byte and do not disturb each other: each reads back
as it was set, and setting one leaves the other.\<close>

theorem rec_owned_and_info:
  assumes "6 \<le> rec" "unat n < 2 ^ 4" "bits AND NOT REC_INFO_BITS_MASK = 0"
  shows "rec_get_n_owned (rec_set_n_owned m rec n) rec = n
    \<and> rec_get_info_bits (rec_set_n_owned m rec n) rec = rec_get_info_bits m rec
    \<and> rec_get_info_bits (rec_set_info_bits m rec bits) rec = bits
    \<and> rec_get_n_owned (rec_set_info_bits m rec bits) rec = rec_get_n_owned m rec
    \<and> rec_get_deleted_flag (rec_set_deleted_flag m rec flag) rec = flag"
proof -
  have i: "bit (rec_get_info_bits m rec) k \<Longrightarrow> 4 \<le> k \<and> k < 8" for k
    by (auto simp: rec_get_info_bits_def rec_get_bit_field_1_def rec_offs bit_and_iff rec_mask_bits)
  then have "(if flag then REC_INFO_DELETED_FLAG OR rec_get_info_bits m rec else NOT REC_INFO_DELETED_FLAG AND rec_get_info_bits m rec)
      AND NOT REC_INFO_BITS_MASK = 0" (is "?b AND _ = 0")
    by (intro bit_word_eqI) (auto simp: bit_and_iff bit_or_iff bit_not_iff rec_mask_bits dest: i)
  from rec_one_byte_fields(3) [OF assms(1,2) this]
  have "rec_get_info_bits (rec_set_deleted_flag m rec flag) rec = ?b" by (simp add: rec_set_deleted_flag_def Let_def)
  then have "rec_get_deleted_flag (rec_set_deleted_flag m rec flag) rec = flag"
    unfolding rec_get_deleted_flag_def by (auto simp: and_nonzero bit_or_iff bit_and_iff bit_not_iff rec_mask_bits)
  with rec_one_byte_fields [OF assms] show ?thesis by simp
qed

lemma rec_owned_and_info_witness:
  "rec_get_n_owned (rec_set_n_owned (\<lambda>_. 0xFF) 10 5) 10 = 5 \<and> rec_get_info_bits (rec_set_n_owned (\<lambda>_. 0xFF) 10 5) 10 = 0xF0"
proof -
  have "rec_get_info_bits (\<lambda>_. 0xFF) 10 = 0xF0"
    by (simp add: rec_get_info_bits_def rec_get_bit_field_1_def mach_read_from_1_def REC_INFO_BITS_MASK_def REC_INFO_BITS_SHIFT_def)
  then show ?thesis using rec_owned_and_info [of 10 5 0 "\<lambda>_. 0xFF"] by simp
qed

end
