(* ===== verification/Recv_Scan.thy ===== *)
theory Recv_Scan
  imports Log_Write Mtr_Log
begin

text \<open>
  The scan of recovery, \<open>log0recv.cc\<close>: blocks of the log that were read into memory are checked,
  their data is gathered in the parsing buffer, parsed, and put under the address of its page. The
  parsers of the other modules are an argument, \<open>body\<close>, which takes the type and the part of the
  buffer and returns where the record ends. A failing assertion and a loop that does not return are
  \<open>None\<close>.
\<close>

section \<open>State\<close>

definition RECV_PARSING_BUF_SIZE :: ulint where "RECV_PARSING_BUF_SIZE = 2 * 1024 * 1204"

definition RECV_NOT_PROCESSED :: ulint where "RECV_NOT_PROCESSED = 71"
definition RECV_BEING_PROCESSED :: ulint where "RECV_BEING_PROCESSED = 73"
definition RECV_PROCESSED :: ulint where "RECV_PROCESSED = 74"

text \<open>A stored record; its data is a chain of pieces.\<close>

record recv_rec =
  rt_type :: byte
  rt_len :: nat
  rt_data :: "byte list list"
  rt_start_lsn :: dulint

record recv_addr =
  ra_state :: ulint
  ra_space :: ulint
  ra_page_no :: ulint
  rec_list :: "recv_rec list"

text \<open>The hash table is a function from cells to chains.\<close>

record recv_sys =
  rs_buf :: ptr
  rs_len :: nat
  parse_start_lsn :: dulint
  scanned_lsn :: dulint
  scanned_checkpoint_no :: ulint
  recovered_offset :: nat
  recovered_lsn :: dulint
  found_corrupt_log :: bool
  apply_log_recs :: bool
  n_addrs :: nat
  addr_hash :: "nat \<Rightarrow> recv_addr list"

definition dulint_zero :: dulint where "dulint_zero = \<lparr>high = 0, low = 0\<rparr>"

section \<open>Log sequence numbers of data\<close>

definition recv_calc_lsn_on_data_add :: "lsn_api \<Rightarrow> dulint \<Rightarrow> ulint \<Rightarrow> dulint" where
  "recv_calc_lsn_on_data_add A lsn ln =
     (let frag_len = ut_dulint_get_low A lsn mod 512 - of_nat LOG_BLOCK_HDR_SIZE;
          lsn_len = ln + ((ln + frag_len) div of_nat (OS_FILE_LOG_BLOCK_SIZE - LOG_BLOCK_HDR_SIZE - LOG_BLOCK_TRL_SIZE))
            * of_nat (LOG_BLOCK_HDR_SIZE + LOG_BLOCK_TRL_SIZE)
      in ut_dulint_add A lsn lsn_len)"

section \<open>The hash table of addresses\<close>

definition recv_fold :: "(ulint \<Rightarrow> ulint \<Rightarrow> ulint) \<Rightarrow> ulint \<Rightarrow> ulint \<Rightarrow> ulint" where
  "recv_fold fold_pair sp no = fold_pair sp no"

text \<open>
  \<open>recv_addr->space = space && recv_addr->page_no == page_no\<close> assigns the value of the conjunction to
  the space and tests it. The index of the address in the chain, and the chain after the search.
\<close>

fun get_addr_loop :: "ulint \<Rightarrow> ulint \<Rightarrow> recv_addr list \<Rightarrow> nat option \<times> recv_addr list" where
  "get_addr_loop sp no [] = (None, [])"
| "get_addr_loop sp no (a # as) =
     (let c = (sp \<noteq> 0 \<and> ra_page_no a = no); a = a\<lparr>ra_space := of_bool c\<rparr> in
      if c then (Some 0, a # as)
      else let (i, as) = get_addr_loop sp no as in (map_option Suc i, a # as))"

definition recv_get_fil_addr_struct ::
    "(ulint \<Rightarrow> ulint \<Rightarrow> nat) \<Rightarrow> ulint \<Rightarrow> ulint \<Rightarrow> recv_sys \<Rightarrow> nat option \<times> recv_sys" where
  "recv_get_fil_addr_struct hash sp no rs =
     (let (i, chain) = get_addr_loop sp no (addr_hash rs (hash sp no))
      in (i, rs\<lparr>addr_hash := (addr_hash rs)(hash sp no := chain)\<rparr>))"

text \<open>
  Pieces of at most \<open>blk\<close> bytes, \<open>RECV_DATA_BLOCK_SIZE\<close>. A new record is stored after
  \<open>len = rec_end = body\<close>, which, read as C reads it, moves the end of the record to its start.
\<close>

fun chunks :: "nat \<Rightarrow> byte list \<Rightarrow> byte list list" where
  "chunks blk bs = (if bs = [] \<or> blk = 0 then [] else take blk bs # chunks blk (drop blk bs))"

declare chunks.simps [simp del]

definition recv_add_to_hash_table ::
    "(ulint \<Rightarrow> ulint \<Rightarrow> nat) \<Rightarrow> nat \<Rightarrow> mem \<Rightarrow> byte \<Rightarrow> ulint \<Rightarrow> ulint \<Rightarrow> ptr \<Rightarrow> ptr \<Rightarrow> dulint \<Rightarrow> recv_sys \<Rightarrow> recv_sys option" where
  "recv_add_to_hash_table hash blk m ty sp no body rec_end end_lsn rs =
     (if sp \<noteq> 0 then None
      else
        let rec_end = body;
            recv = \<lparr>rt_type = ty, rt_len = rec_end - body, rt_data = chunks blk (mem_bytes m body (rec_end - body)), rt_start_lsn = end_lsn\<rparr>;
            (i, rs) = recv_get_fil_addr_struct hash sp no rs;
            cell = hash sp no;
            chain = addr_hash rs cell
        in Some (case i of
             None \<Rightarrow> rs\<lparr>addr_hash := (addr_hash rs)(cell := chain @ [\<lparr>ra_state = RECV_NOT_PROCESSED, ra_space = sp, ra_page_no = no, rec_list = [recv]\<rparr>])\<rparr>
           | Some j \<Rightarrow> rs\<lparr>addr_hash := (addr_hash rs)(cell := chain[j := (chain ! j)\<lparr>rec_list := rec_list (chain ! j) @ [recv]\<rparr>])\<rparr>))"

fun copy_pieces :: "nat \<Rightarrow> nat \<Rightarrow> byte list list \<Rightarrow> byte list" where
  "copy_pieces blk ln [] = []"
| "copy_pieces blk ln (d # ds) =
     (if ln = 0 then [] else let part_len = (if ln > blk then blk else ln) in take part_len d @ copy_pieces blk (ln - part_len) ds)"

definition recv_data_copy_to_buf :: "nat \<Rightarrow> mem \<Rightarrow> ptr \<Rightarrow> recv_rec \<Rightarrow> mem" where
  "recv_data_copy_to_buf blk m buf recv = mem_put m buf (copy_pieces blk (rt_len recv) (rt_data recv))"

section \<open>Applying the records of a page\<close>

definition FIL_PAGE_LSN :: nat where "FIL_PAGE_LSN = 16"
definition FIL_PAGE_END_LSN :: nat where "FIL_PAGE_END_LSN = 8"

text \<open>
  \<open>apply_body\<close> applies a record of a type to the page; \<open>init\<close> tells the types that create a page
  (\<open>MLOG_INIT_FILE_PAGE\<close>, \<open>MLOG_FULL_PAGE\<close>), \<open>newest\<close> is the page's newest modification.
\<close>

definition recv_apply_rec ::
    "lsn_api \<Rightarrow> (byte \<Rightarrow> byte list \<Rightarrow> ptr \<Rightarrow> mem \<Rightarrow> mem) \<Rightarrow> (byte \<Rightarrow> bool) \<Rightarrow> nat \<Rightarrow> nat \<Rightarrow> ptr \<Rightarrow> dulint \<Rightarrow> recv_rec
      \<Rightarrow> mem \<times> dulint \<Rightarrow> mem \<times> dulint" where
  "recv_apply_rec A apply_body init blk page_size page newest recv st =
     (let (m, page_lsn) = st;
          w8 = mach_write_to_8 (dulint_api.truncate A);
          (m, page_lsn) = (if init (rt_type recv)
             then (w8 (w8 m (page + page_size - FIL_PAGE_END_LSN) dulint_zero) (page + FIL_PAGE_LSN) dulint_zero, newest)
             else (m, page_lsn))
      in if 0 \<le> ut_dulint_cmp A (rt_start_lsn recv) page_lsn
         then let m = apply_body (rt_type recv) (copy_pieces blk (rt_len recv) (rt_data recv)) page m;
                  e = ut_dulint_add A (rt_start_lsn recv) (of_nat (rt_len recv))
              in (w8 (w8 m (page + page_size - FIL_PAGE_END_LSN) e) (page + FIL_PAGE_LSN) e, page_lsn)
         else (m, page_lsn))"

definition recv_recover_page ::
    "lsn_api \<Rightarrow> (byte \<Rightarrow> byte list \<Rightarrow> ptr \<Rightarrow> mem \<Rightarrow> mem) \<Rightarrow> (byte \<Rightarrow> bool) \<Rightarrow> nat \<Rightarrow> nat \<Rightarrow> (ulint \<Rightarrow> ulint \<Rightarrow> nat)
      \<Rightarrow> bool \<Rightarrow> ptr \<Rightarrow> ulint \<Rightarrow> ulint \<Rightarrow> dulint \<Rightarrow> mem \<Rightarrow> recv_sys \<Rightarrow> (mem \<times> recv_sys) option" where
  "recv_recover_page A apply_body init blk page_size hash backup page sp no newest m rs =
     (if \<not> apply_log_recs rs then Some (m, rs)
      else let (i, rs) = recv_get_fil_addr_struct hash sp no rs; cell = hash sp no; chain = addr_hash rs cell in
        case i of None \<Rightarrow> Some (m, rs)
        | Some j \<Rightarrow>
          if ra_state (chain ! j) = RECV_BEING_PROCESSED \<or> ra_state (chain ! j) = RECV_PROCESSED then Some (m, rs)
          else
            let newest = (if backup then dulint_zero else newest);
                page_lsn = mach_read_from_8 (dulint_api.truncate A) m (page + FIL_PAGE_LSN);
                page_lsn = (if \<not> backup \<and> newest \<noteq> dulint_zero then newest else page_lsn);
                (m, _) = fold (recv_apply_rec A apply_body init blk page_size page newest) (rec_list (chain ! j)) (m, page_lsn)
            in if n_addrs rs = 0 then None
               else Some (m, rs\<lparr>addr_hash := (addr_hash rs)(cell := chain[j := (chain ! j)\<lparr>ra_state := RECV_PROCESSED\<rparr>]),
                             n_addrs := n_addrs rs - 1\<rparr>))"

section \<open>Parsing\<close>

text \<open>No record, or its type, space, page number, body and length; the flag tells a corrupt log.\<close>

definition recv_parse_log_rec ::
    "(byte \<Rightarrow> mem \<Rightarrow> ptr \<Rightarrow> ptr \<Rightarrow> parse_result) \<Rightarrow> mem \<Rightarrow> ptr \<Rightarrow> ptr \<Rightarrow> (byte \<times> ulint \<times> ulint \<times> ptr \<times> nat) option \<times> bool" where
  "recv_parse_log_rec body m p end_ptr =
     (if p = end_ptr then (None, False)
      else if m p = MLOG_MULTI_REC_END then (Some (m p, 0, 0, p, 1), False)
      else if m p = MLOG_DUMMY_RECORD then (Some (m p, 1000, 0, p, 1), False)
      else case mlog_parse_initial_log_record m p end_ptr of None \<Rightarrow> (None, False)
        | Some (q, ty, sp, no) \<Rightarrow>
          if sp \<noteq> 0 \<or> no > 0x8FFFFFFF then (None, True)
          else case body ty m q end_ptr of
              Incomplete \<Rightarrow> (None, False)
            | Corrupt \<Rightarrow> (None, True)
            | Parsed m' e \<Rightarrow> (Some (ty, sp, no, q, e - p), False))"

text \<open>The first loop over the records of a mini-transaction: the length of its last record, or why it stops.\<close>

partial_function (option) multi_scan ::
    "(byte \<Rightarrow> mem \<Rightarrow> ptr \<Rightarrow> ptr \<Rightarrow> parse_result) \<Rightarrow> mem \<Rightarrow> ptr \<Rightarrow> ptr \<Rightarrow> (nat option \<times> bool) option" where
  "multi_scan body m p end_ptr =
     (case recv_parse_log_rec body m p end_ptr of
        (None, c) \<Rightarrow> Some (None, c)
      | (Some (ty, sp, no, bd, ln), c) \<Rightarrow>
          if ln = 0 then Some (None, c)
          else if ty = MLOG_MULTI_REC_END then Some (Some ln, False)
          else multi_scan body m (p + ln) end_ptr)"

partial_function (option) multi_store ::
    "lsn_api \<Rightarrow> (byte \<Rightarrow> mem \<Rightarrow> ptr \<Rightarrow> ptr \<Rightarrow> parse_result) \<Rightarrow> (ulint \<Rightarrow> ulint \<Rightarrow> nat) \<Rightarrow> nat \<Rightarrow> bool \<Rightarrow> mem \<Rightarrow> ptr \<Rightarrow> ptr \<Rightarrow> dulint
      \<Rightarrow> recv_sys \<Rightarrow> (dulint \<times> recv_sys) option" where
  "multi_store A body hash blk store m p end_ptr new_lsn rs =
     (case recv_parse_log_rec body m p end_ptr of
        (None, _) \<Rightarrow> None
      | (Some (ty, sp, no, bd, ln), _) \<Rightarrow>
          let old_lsn = recovered_lsn rs;
              rs = rs\<lparr>recovered_offset := recovered_offset rs + ln, recovered_lsn := recv_calc_lsn_on_data_add A old_lsn (of_nat ln)\<rparr>
          in if ty = MLOG_MULTI_REC_END then Some (old_lsn, rs)
             else case (if store then recv_add_to_hash_table hash blk m ty sp no bd (p + ln) new_lsn rs else Some rs) of
                 None \<Rightarrow> None
               | Some rs \<Rightarrow> multi_store A body hash blk store m (p + ln) end_ptr new_lsn rs)"

text \<open>
  One turn of the outer loop: \<open>Inl\<close> when the function returns. \<open>old_lsn\<close> is a local that the branch
  of several records reads before it sets it; and that branch advances it by the length of the last
  record only.
\<close>

definition parse_turn ::
    "lsn_api \<Rightarrow> (byte \<Rightarrow> mem \<Rightarrow> ptr \<Rightarrow> ptr \<Rightarrow> parse_result) \<Rightarrow> (ulint \<Rightarrow> ulint \<Rightarrow> nat) \<Rightarrow> nat \<Rightarrow> bool \<Rightarrow> mem \<Rightarrow> dulint \<times> recv_sys
      \<Rightarrow> (recv_sys + dulint \<times> recv_sys) option" where
  "parse_turn A body hash blk store m st =
     (let (old_lsn, rs) = st; p = rs_buf rs + recovered_offset rs; end_ptr = rs_buf rs + rs_len rs in
      if p = end_ptr then Some (Inl rs)
      else if m p AND MLOG_SINGLE_REC_FLAG \<noteq> 0 \<or> m p = MLOG_DUMMY_RECORD then
        let old_lsn = recovered_lsn rs in
        case recv_parse_log_rec body m p end_ptr of
          (None, c) \<Rightarrow> Some (Inl (rs\<lparr>found_corrupt_log := found_corrupt_log rs \<or> c\<rparr>))
        | (Some (ty, sp, no, bd, ln), _) \<Rightarrow>
          if ln = 0 \<or> found_corrupt_log rs then Some (Inl rs)
          else let new_lsn = recv_calc_lsn_on_data_add A old_lsn (of_nat ln) in
            if ut_dulint_cmp A new_lsn (scanned_lsn rs) > 0 then Some (Inl rs)
            else let rs = rs\<lparr>recovered_offset := recovered_offset rs + ln, recovered_lsn := new_lsn\<rparr> in
              if ty = MLOG_DUMMY_RECORD \<or> \<not> store then Some (Inr (old_lsn, rs))
              else map_option (\<lambda>rs. Inr (old_lsn, rs)) (recv_add_to_hash_table hash blk m ty sp no bd (p + ln) (recovered_lsn rs) rs)
      else if found_corrupt_log rs then Some (Inl rs)
      else case multi_scan body m p end_ptr of
          None \<Rightarrow> None
        | Some (None, c) \<Rightarrow> Some (Inl (rs\<lparr>found_corrupt_log := found_corrupt_log rs \<or> c\<rparr>))
        | Some (Some ln, _) \<Rightarrow>
          let new_lsn = recv_calc_lsn_on_data_add A old_lsn (of_nat ln) in
          if ut_dulint_cmp A new_lsn (scanned_lsn rs) > 0 then Some (Inl rs)
          else map_option Inr (multi_store A body hash blk store m p end_ptr new_lsn rs))"

partial_function (option) recv_parse_log_recs ::
    "lsn_api \<Rightarrow> (byte \<Rightarrow> mem \<Rightarrow> ptr \<Rightarrow> ptr \<Rightarrow> parse_result) \<Rightarrow> (ulint \<Rightarrow> ulint \<Rightarrow> nat) \<Rightarrow> nat \<Rightarrow> bool \<Rightarrow> mem \<Rightarrow> dulint \<Rightarrow> recv_sys
      \<Rightarrow> recv_sys option" where
  "recv_parse_log_recs A body hash blk store m old_lsn rs =
     (case parse_turn A body hash blk store m (old_lsn, rs) of
        None \<Rightarrow> None
      | Some (Inl rs) \<Rightarrow> Some rs
      | Some (Inr (old_lsn, rs)) \<Rightarrow> recv_parse_log_recs A body hash blk store m old_lsn rs)"

section \<open>The parsing buffer\<close>

text \<open>The copy of the last \<open>more_len\<close> bytes of a block, without its header and trailer.\<close>

definition parse_buf_copy :: "ptr \<Rightarrow> ulint \<Rightarrow> ulint \<Rightarrow> mem \<Rightarrow> recv_sys \<Rightarrow> (bool \<times> mem \<times> recv_sys) option" where
  "parse_buf_copy log_block data_len more_len m rs =
     (let start_offset = data_len - more_len;
          start_offset = (if start_offset < of_nat LOG_BLOCK_HDR_SIZE then of_nat LOG_BLOCK_HDR_SIZE else start_offset);
          end_offset = data_len;
          end_offset = (if end_offset > of_nat (OS_FILE_LOG_BLOCK_SIZE - LOG_BLOCK_TRL_SIZE)
                        then of_nat (OS_FILE_LOG_BLOCK_SIZE - LOG_BLOCK_TRL_SIZE) else end_offset)
      in if start_offset < end_offset then
           let n = unat (end_offset - start_offset);
               m = mem_put m (rs_buf rs + rs_len rs) (mem_bytes m (log_block + unat start_offset) n);
               rs = rs\<lparr>rs_len := rs_len rs + n\<rparr>
           in if rs_len rs \<le> unat RECV_PARSING_BUF_SIZE then Some (True, m, rs) else None
         else Some (True, m, rs))"

text \<open>
  \<open>data_len\<close> is a local that is never set, its value an argument;
  \<open>parse_start_len\<close>, which does not exist, is read as \<open>parse_start_lsn\<close>. The third test compares the
  same two numbers as the first one, and the difference is taken with the smaller number first.
\<close>

definition recv_sys_add_to_parsing_buf :: "lsn_api \<Rightarrow> ulint \<Rightarrow> ptr \<Rightarrow> dulint \<Rightarrow> mem \<times> recv_sys \<Rightarrow> (bool \<times> mem \<times> recv_sys) option" where
  "recv_sys_add_to_parsing_buf A data_len log_block sc st =
     (let (m, rs) = st in
      if parse_start_lsn rs = dulint_zero then Some (False, m, rs)
      else if 0 \<le> ut_dulint_cmp A (parse_start_lsn rs) sc then Some (False, m, rs)
      else if 0 \<le> ut_dulint_cmp A (scanned_lsn rs) sc then Some (False, m, rs)
      else
        let more_len = (if 0 < ut_dulint_cmp A (parse_start_lsn rs) sc then ut_dulint_minus A sc (parse_start_lsn rs)
                        else ut_dulint_minus A (scanned_lsn rs) sc) in
        if more_len = 0 then Some (False, m, rs) else parse_buf_copy log_block data_len more_len m rs)"

definition recv_sys_justify_left_parsing_buf :: "mem \<times> recv_sys \<Rightarrow> mem \<times> recv_sys" where
  "recv_sys_justify_left_parsing_buf st =
     (let (m, rs) = st in
      (mem_put m (rs_buf rs) (mem_bytes m (rs_buf rs + recovered_offset rs) (rs_len rs - recovered_offset rs)),
       rs\<lparr>rs_len := rs_len rs - recovered_offset rs, recovered_offset := 0\<rparr>))"

section \<open>The scan\<close>

record scan_state =
  sc_mem :: mem
  sc_rs :: recv_sys
  sc_lsn :: dulint
  contiguous_lsn :: dulint
  more_data :: bool

text \<open>The data of a block that goes beyond what was scanned; \<open>junk\<close> is the local of the last function.\<close>

definition scan_add :: "lsn_api \<Rightarrow> ulint \<Rightarrow> ptr \<Rightarrow> dulint \<Rightarrow> ulint \<Rightarrow> scan_state \<Rightarrow> scan_state option" where
  "scan_add A junk log_block l cp s =
     (let m = sc_mem s; rs = sc_rs s in
      map_option (\<lambda>(md, m, rs). s\<lparr>sc_mem := m, more_data := md, sc_rs := rs\<lparr>scanned_lsn := l, scanned_checkpoint_no := cp\<rparr>\<rparr>)
        (if rs_len rs + 4 * OS_FILE_LOG_BLOCK_SIZE \<ge> unat RECV_PARSING_BUF_SIZE
         then Some (more_data s, m, rs\<lparr>found_corrupt_log := True\<rparr>)
         else if \<not> found_corrupt_log rs then recv_sys_add_to_parsing_buf A junk log_block l (m, rs)
         else Some (more_data s, m, rs)))"

definition scan_start :: "lsn_api \<Rightarrow> ptr \<Rightarrow> scan_state \<Rightarrow> scan_state" where
  "scan_start A log_block s =
     (let rs = sc_rs s; first = log_block_get_first_rec_group (sc_mem s) log_block in
      if parse_start_lsn rs = dulint_zero \<and> first > 0
      then let l = ut_dulint_add A (sc_lsn s) first in s\<lparr>sc_rs := rs\<lparr>parse_start_lsn := l, scanned_lsn := l, recovered_lsn := l\<rparr>\<rparr>
      else s)"

text \<open>One block; the first component is \<open>finished\<close>.\<close>

definition scan_block :: "lsn_api \<Rightarrow> ulint \<Rightarrow> bool \<Rightarrow> ptr \<Rightarrow> scan_state \<Rightarrow> (bool \<times> scan_state) option" where
  "scan_block A junk store log_block s =
     (let m = sc_mem s; rs = sc_rs s; no = log_block_get_hdr_no m log_block in
      if no \<noteq> log_block_convert_lsn_to_no (sc_lsn s) \<or> \<not> log_block_checksum_is_ok_old_format m log_block then Some (True, s)
      else
        let s = (if log_block_get_flush_bit m log_block \<and> 0 < ut_dulint_cmp A (sc_lsn s) (contiguous_lsn s)
                 then s\<lparr>contiguous_lsn := sc_lsn s\<rparr> else s);
            data_len = log_block_get_data_len m log_block;
            cp = log_block_get_checkpoint_no m log_block in
        if (store \<or> data_len = 512) \<and> 0 < ut_dulint_cmp A (ut_dulint_add A (sc_lsn s) data_len) (scanned_lsn rs)
           \<and> scanned_checkpoint_no rs > 0 \<and> cp < scanned_checkpoint_no rs \<and> scanned_checkpoint_no rs - cp > 0x80000000 then None
        else
          let s = scan_start A log_block s;
              l = ut_dulint_add A (sc_lsn s) data_len;
              s = s\<lparr>sc_lsn := l\<rparr>
          in map_option (Pair (data_len < 512))
               (if 0 < ut_dulint_cmp A l (scanned_lsn (sc_rs s)) then scan_add A junk log_block l cp s else Some s))"

text \<open>The loop over the blocks that are left.\<close>

fun scan_loop :: "lsn_api \<Rightarrow> (ptr \<Rightarrow> ulint) \<Rightarrow> bool \<Rightarrow> nat \<Rightarrow> ptr \<Rightarrow> scan_state \<Rightarrow> (bool \<times> scan_state) option" where
  "scan_loop A junk store 0 log_block s = Some (False, s)"
| "scan_loop A junk store (Suc n) log_block s =
     (case scan_block A (junk log_block) store log_block s of
        None \<Rightarrow> None
      | Some (finished, s) \<Rightarrow> if finished then Some (True, s) else scan_loop A junk store n (log_block + OS_FILE_LOG_BLOCK_SIZE) s)"

text \<open>
  The whole function: \<open>finished\<close>, and the state; \<open>old_lsn\<close> and, at each block, \<open>junk\<close> are the values of
  uninitialised locals of the parser and of the copy, \<open>apply_batch\<close> stands for \<open>recv_apply_hashed_log_recs\<close> where the memory is short.
\<close>

definition recv_scan_log_recs ::
    "lsn_api \<Rightarrow> (ptr \<Rightarrow> ulint) \<Rightarrow> (byte \<Rightarrow> mem \<Rightarrow> ptr \<Rightarrow> ptr \<Rightarrow> parse_result) \<Rightarrow> (ulint \<Rightarrow> ulint \<Rightarrow> nat) \<Rightarrow> nat \<Rightarrow> (mem \<times> recv_sys \<Rightarrow> mem \<times> recv_sys) \<Rightarrow> dulint
      \<Rightarrow> bool \<Rightarrow> ptr \<Rightarrow> nat \<Rightarrow> dulint \<Rightarrow> mem \<Rightarrow> dulint \<Rightarrow> recv_sys \<Rightarrow> (bool \<times> scan_state) option" where
  "recv_scan_log_recs A junk body hash blk apply_batch old_lsn store buf ln start_lsn m contiguous rs =
     (case scan_loop A junk store (ln div OS_FILE_LOG_BLOCK_SIZE) buf
         \<lparr>sc_mem = m, sc_rs = rs, sc_lsn = start_lsn, contiguous_lsn = contiguous, more_data = False\<rparr> of
        None \<Rightarrow> None
      | Some (finished, s) \<Rightarrow>
        if more_data s \<and> \<not> found_corrupt_log (sc_rs s) then
          case recv_parse_log_recs A body hash blk store (sc_mem s) old_lsn (sc_rs s) of None \<Rightarrow> None
          | Some rs \<Rightarrow>
            let (m, rs) = apply_batch (sc_mem s, rs);
                (m, rs) = (if recovered_offset rs > unat RECV_PARSING_BUF_SIZE div 4
                           then recv_sys_justify_left_parsing_buf (m, rs) else (m, rs))
            in Some (finished, s\<lparr>sc_mem := m, sc_rs := rs\<rparr>)
        else Some (finished, s))"

text \<open>The scan for backups. \<open>n_byte_scanned\<close> is set to the length of each block.\<close>

fun backup_scan :: "lsn_api \<Rightarrow> mem \<Rightarrow> nat \<Rightarrow> ptr \<Rightarrow> dulint \<times> ulint \<times> ulint \<Rightarrow> dulint \<times> ulint \<times> ulint" where
  "backup_scan A m 0 log_block st = st"
| "backup_scan A m (Suc n) log_block (lsn, cp, nb) =
     (if log_block_get_hdr_no m log_block \<noteq> log_block_convert_lsn_to_no lsn \<or> \<not> log_block_checksum_is_ok_old_format m log_block
      then (lsn, cp, nb)
      else if cp > 0 \<and> log_block_get_checkpoint_no m log_block < cp \<and> cp - log_block_get_checkpoint_no m log_block > 0x80000000
      then (lsn, cp, nb)
      else
        let data_len = log_block_get_data_len m log_block;
            st = (ut_dulint_add A lsn data_len, log_block_get_checkpoint_no m log_block, data_len)
        in if data_len < 512 then st else backup_scan A m n (log_block + OS_FILE_LOG_BLOCK_SIZE) st)"

definition recv_scan_log_seg_for_backup :: "lsn_api \<Rightarrow> mem \<Rightarrow> ptr \<Rightarrow> nat \<Rightarrow> dulint \<Rightarrow> ulint \<Rightarrow> dulint \<times> ulint \<times> ulint" where
  "recv_scan_log_seg_for_backup A m buf buf_len lsn cp = backup_scan A m ((buf_len + 511) div OS_FILE_LOG_BLOCK_SIZE) buf (lsn, cp, 0)"

end
