(* ===== verification/Recv_Properties.thy ===== *)
theory Recv_Properties
  imports Recv_Scan
begin

text \<open>
  What the scan of recovery does: how the lsn counts data, that the parser of \<open>log0recv.cc\<close> ends and stays in
  its buffer, what the table of addresses keeps, and which blocks the scan for backups accepts.
\<close>

section \<open>Counting log data\<close>

text \<open>The lsn of the next byte of data: behind byte 507 of a block come its trailer and the next header.\<close>

definition next_data_lsn :: "nat \<Rightarrow> nat" where
  "next_data_lsn v = (if v mod 512 = 507 then v + 17 else v + 1)"

definition data_lsn :: "nat \<Rightarrow> nat" where
  "data_lsn t = 512 * (t div 496) + 12 + t mod 496"

lemma next_data_lsn: "next_data_lsn (512 * b + data_lsn t) = 512 * b + data_lsn (Suc t)"
proof -
  have m: "(512 * b + data_lsn t) mod 512 = 12 + t mod 496"
  proof -
    have "512 * b + data_lsn t = 12 + t mod 496 + 512 * (b + t div 496)" by (simp add: data_lsn_def algebra_simps)
    moreover have "t mod 496 < 496" by simp
    ultimately show ?thesis by (simp only: mod_mult_self2) simp
  qed
  show ?thesis
  proof (cases "Suc (t mod 496) = 496")
    case True
    then have "t mod 496 = 495" by simp
    then show ?thesis using m by (simp add: next_data_lsn_def data_lsn_def div_Suc mod_Suc)
  next
    case False
    then show ?thesis using m by (simp add: next_data_lsn_def data_lsn_def div_Suc mod_Suc)
  qed
qed

lemma next_data_lsn_pow: "(next_data_lsn ^^ k) (512 * b + data_lsn t) = 512 * b + data_lsn (t + k)"
  by (induction k) (simp_all add: next_data_lsn)

lemma recv_calc_lsn_val:
  assumes A: "lsn_api_ok A" and wf: "dulint_wf lsn" and d: "12 \<le> dulint_val lsn mod 512" "dulint_val lsn mod 512 < 508"
    and b: "unat ln < 2 ^ 31" "dulint_val lsn < 2 ^ 62"
  shows "dulint_wf (recv_calc_lsn_on_data_add A lsn ln)"
    "dulint_val (recv_calc_lsn_on_data_add A lsn ln) = (next_data_lsn ^^ unat ln) (dulint_val lsn)"
proof -
  define f where "f = dulint_val lsn mod 512 - 12"
  define c where "c = dulint_val lsn div 512"
  have v: "dulint_val lsn = 512 * c + data_lsn f" and f: "f < 496"
    using d by (simp_all add: f_def c_def data_lsn_def)
  have lowmod: "unat (low lsn mod 512) = dulint_val lsn mod 512"
  proof -
    have "dulint_val lsn = unat (low lsn) + 512 * (unat (high lsn) * 2 ^ 23)" by (simp add: dulint_val_def)
    then have "dulint_val lsn mod 512 = unat (low lsn) mod 512" by (simp only: mod_mult_self2)
    then show ?thesis by (simp add: unat_mod)
  qed
  have "dulint_api_ok (dulint_api.truncate A)" using A by (simp add: lsn_api_ok_def)
  then have low: "ut_dulint_get_low A lsn = low lsn" by (simp add: dulint_api_ok_def dulint_api.defs)
  have fr: "unat (low lsn mod 512 - 12) = f"
    using d by (subst unat_sub) (simp_all add: word_le_nat_alt lowmod f_def)
  have s: "unat (ln + (low lsn mod 512 - 12)) = unat ln + f" using b f fr by (subst unat_plus) simp_all
  have q: "(unat ln + f) div 496 * 16 \<le> unat ln + f"
    using times_div_less_eq_dividend [of 496 "unat ln + f"] by simp
  have t: "unat (ln + (ln + (low lsn mod 512 - 12)) div 496 * 16) = unat ln + (unat ln + f) div 496 * 16"
    using b f s q by (subst unat_plus) (simp_all add: unat_word_ariths unat_div)
  have r: "recv_calc_lsn_on_data_add A lsn ln = ut_dulint_add A lsn (ln + (ln + (low lsn mod 512 - 12)) div 496 * 16)"
    by (simp add: recv_calc_lsn_on_data_add_def low log_block_layout Let_def)
  have sm: "unat (ln + (ln + (low lsn mod 512 - 12)) div 496 * 16) < 2 ^ 32" "dulint_val lsn + unat (ln + (ln + (low lsn mod 512 - 12)) div 496 * 16) < 2 ^ 63"
    unfolding t using q b f by simp_all
  note add = lsn_api_laws(1) [OF A wf sm]
  then show "dulint_wf (recv_calc_lsn_on_data_add A lsn ln)" by (simp add: r)
  have "data_lsn (f + unat ln) = data_lsn f + unat ln + (unat ln + f) div 496 * 16"
    using f mult_div_mod_eq [of 496 "f + unat ln"] by (simp add: data_lsn_def add.commute)
  then show "dulint_val (recv_calc_lsn_on_data_add A lsn ln) = (next_data_lsn ^^ unat ln) (dulint_val lsn)"
    using add unfolding r v next_data_lsn_pow t by (simp add: v)
qed

section \<open>The scan of blocks\<close>

lemma lsn_add_nat:
  assumes "lsn_api_ok A" "dulint_wf a" "unat n < 2 ^ 32" "dulint_val a + unat n < 2 ^ 62"
  shows "ut_dulint_add A a n = dulint_of_nat (dulint_val a + unat n)"
proof -
  have l: "dulint_val a + unat n < 2 ^ 63" "dulint_val a + unat n < 2 ^ 64" using assms(4) by simp_all
  note add = lsn_api_laws(1) [OF assms(1-3) l(1)]
  show ?thesis using add dulint_of_nat_val [OF l(2)] by (intro dulint_val_inj) auto
qed

lemma dulint_of_val: "dulint_wf a \<Longrightarrow> dulint_of_nat (dulint_val a) = a"
proof -
  assume wf: "dulint_wf a"
  have "dulint_val a < 2 ^ 32 * 2 ^ 32"
    unfolding dulint_val_def using wf by (simp add: dulint_wf_def)
  then have "dulint_val a < 2 ^ 64" by simp
  from dulint_of_nat_val [OF this] wf show ?thesis by (intro dulint_val_inj) auto
qed

text \<open>A full block of the log at \<open>v\<close> with the checkpoint number \<open>c\<close>.\<close>

definition full_block :: "mem \<Rightarrow> ptr \<Rightarrow> nat \<Rightarrow> ulint \<Rightarrow> bool" where
  "full_block m b v c \<longleftrightarrow> log_block_get_hdr_no m b = log_block_convert_lsn_to_no (dulint_of_nat v)
     \<and> log_block_checksum_is_ok_old_format m b \<and> log_block_get_data_len m b = 512 \<and> log_block_get_checkpoint_no m b = c"

definition bad_block :: "mem \<Rightarrow> ptr \<Rightarrow> nat \<Rightarrow> bool" where
  "bad_block m b v \<longleftrightarrow> log_block_get_hdr_no m b \<noteq> log_block_convert_lsn_to_no (dulint_of_nat v)
     \<or> \<not> log_block_checksum_is_ok_old_format m b"

lemma backup_scan_full:
  assumes A: "lsn_api_ok A"
  shows "k \<le> n \<Longrightarrow> (\<And>j. j < k \<Longrightarrow> full_block m (b + 512 * j) (v + 512 * j) c) \<Longrightarrow> k = n \<or> bad_block m (b + 512 * k) (v + 512 * k) \<Longrightarrow>
    v + 512 * k < 2 ^ 62 \<Longrightarrow> cp = 0 \<or> cp = c \<Longrightarrow>
    backup_scan A m n b (dulint_of_nat v, cp, nb) = (dulint_of_nat (v + 512 * k), if k = 0 then cp else c, if k = 0 then nb else 512)"
proof (induction k arbitrary: n b v cp nb)
  case 0
  then show ?case by (cases n) (auto simp: bad_block_def)
next
  case (Suc k)
  then obtain n' where n: "n = Suc n'" by (cases n) auto
  have f: "full_block m b v c" using Suc.prems(2) [of 0] by simp
  have v: "dulint_wf (dulint_of_nat v)" "dulint_val (dulint_of_nat v) = v" using dulint_of_nat_val [of v] Suc.prems(4) by simp_all
  have add: "ut_dulint_add A (dulint_of_nat v) 512 = dulint_of_nat (v + 512)"
    using lsn_add_nat [OF A v(1), of 512] Suc.prems(4) by (simp add: v)
  have "backup_scan A m n b (dulint_of_nat v, cp, nb) = backup_scan A m n' (b + 512) (dulint_of_nat (v + 512), c, 512)"
    using f Suc.prems(5) by (auto simp: n full_block_def add OS_FILE_LOG_BLOCK_SIZE_def Let_def)
  also have "\<dots> = (dulint_of_nat (v + 512 + 512 * k), if k = 0 then c else c, if k = 0 then 512 else 512)"
    using Suc.prems Suc.prems(2) [of "Suc _"] n by (intro Suc.IH) (auto simp: add.assoc)
  finally show ?case by (simp add: add.assoc)
qed

lemma read_4_cong2:
  assumes "\<And>j. j < 4 \<Longrightarrow> m (p + j) = m' (p' + j)"
  shows "mach_read_from_4 m p = mach_read_from_4 m' p'"
  using assms [of 0] assms [of 1] assms [of 2] assms [of 3] by (simp only: mach_read_from_4_def) simp

lemma read_2_cong2:
  assumes "\<And>j. j < 2 \<Longrightarrow> m (p + j) = m' (p' + j)"
  shows "mach_read_from_2 m p = mach_read_from_2 m' p'"
  using assms [of 0] assms [of 1] by (simp only: mach_read_from_2_def) simp

lemma block_header_cong:
  assumes "\<And>i. i < 12 \<Longrightarrow> m (b + i) = m' (b' + i)"
  shows "log_block_get_hdr_no m b = log_block_get_hdr_no m' b'" "log_block_get_data_len m b = log_block_get_data_len m' b'"
    "log_block_get_checkpoint_no m b = log_block_get_checkpoint_no m' b'"
proof -
  have e: "m (b + off + j) = m' (b' + off + j)" if "off + j < 12" for off j
    using assms [OF that] by (simp add: add.assoc)
  have "mach_read_from_4 m (b + 0) = mach_read_from_4 m' (b' + 0)" "mach_read_from_4 m (b + 8) = mach_read_from_4 m' (b' + 8)"
    "mach_read_from_2 m (b + 4) = mach_read_from_2 m' (b' + 4)"
    by (intro read_4_cong2 read_2_cong2 e; simp)+
  then show "log_block_get_hdr_no m b = log_block_get_hdr_no m' b'" "log_block_get_data_len m b = log_block_get_data_len m' b'"
    "log_block_get_checkpoint_no m b = log_block_get_checkpoint_no m' b'"
    by (simp_all add: log_block_get_hdr_no_def log_block_get_data_len_def log_block_get_checkpoint_no_def log_block_layout)
qed

lemma checksum_ok_cong:
  assumes "\<And>i. i < 512 \<Longrightarrow> m (b + i) = m' (b' + i)"
  shows "log_block_checksum_is_ok_old_format m b = log_block_checksum_is_ok_old_format m' b'"
proof -
  have "log_block_calc_checksum m b = log_block_calc_checksum m' b'" by (rule calc_checksum_cong) (rule assms, simp)
  moreover have "m (b + 508 + j) = m' (b' + 508 + j)" if "j < 4" for j
    using assms [of "508 + j"] that by (simp add: add.assoc)
  then have "log_block_get_checksum m b = log_block_get_checksum m' b'"
    unfolding log_block_get_checksum_def log_block_layout by (intro read_4_cong2) simp
  moreover have "log_block_get_hdr_no m b = log_block_get_hdr_no m' b'" by (rule block_header_cong) (rule assms, simp)
  ultimately show ?thesis by (simp add: log_block_checksum_is_ok_old_format_def)
qed

section \<open>The parser stays in the buffer\<close>

text \<open>What the parsers of the other modules promise: a record ends in the buffer, behind its start.\<close>

definition parser_stays :: "(byte \<Rightarrow> mem \<Rightarrow> ptr \<Rightarrow> ptr \<Rightarrow> parse_result) \<Rightarrow> bool" where
  "parser_stays body \<longleftrightarrow> (\<forall>ty m q e m' r. q \<le> e \<longrightarrow> body ty m q e = Parsed m' r \<longrightarrow> q \<le> r \<and> r \<le> e)"

lemma parse_compressed_stays: "mach_parse_compressed m p e = Some (q, v) \<Longrightarrow> p < q \<and> q \<le> e"
  by (auto simp: mach_parse_compressed_def Let_def split: if_splits)

lemma parse_initial_stays: "mlog_parse_initial_log_record m p e = Some (q, ty, sp, no) \<Longrightarrow> p < q \<and> q \<le> e"
  by (auto simp: mlog_parse_initial_log_record_def Let_def split: if_splits option.splits dest!: parse_compressed_stays)

lemma parse_log_rec_stays:
  assumes "parser_stays body" "p \<le> e" "recv_parse_log_rec body m p e = (Some (ty, sp, no, bd, ln), c)"
  shows "0 < ln \<and> p + ln \<le> e \<and> \<not> c \<and> (sp = 0 \<or> m p = MLOG_DUMMY_RECORD)"
proof (cases "p = e \<or> m p = MLOG_MULTI_REC_END \<or> m p = MLOG_DUMMY_RECORD")
  case True
  then show ?thesis using assms(2,3) by (auto simp: recv_parse_log_rec_def split: if_splits)
next
  case False
  then obtain q m' r where i: "mlog_parse_initial_log_record m p e = Some (q, ty, sp, no)" and b: "body ty m q e = Parsed m' r"
      "ln = r - p" "sp = 0" "\<not> c"
    using assms(3) by (auto simp: recv_parse_log_rec_def split: if_splits option.splits parse_result.splits)
  have "p < q" "q \<le> e" using parse_initial_stays [OF i] by auto
  moreover then have "q \<le> r" "r \<le> e" using assms(1) b(1) unfolding parser_stays_def by blast+
  ultimately show ?thesis using b by auto
qed

lemma multi_scan_returns:
  assumes "parser_stays body" "p \<le> e"
  shows "\<exists>res. multi_scan body m p e = Some res"
  using assms(2)
proof (induction "e - p" arbitrary: p rule: less_induct)
  case less
  show ?case
  proof (cases "recv_parse_log_rec body m p e")
    case (Pair res c)
    show ?thesis
    proof (cases res)
      case None
      then show ?thesis using Pair by (subst multi_scan.simps) simp
    next
      case (Some x)
      obtain ty sp no bd ln where x: "x = (ty, sp, no, bd, ln)" by (cases x) blast
      have l: "0 < ln" "p + ln \<le> e" using parse_log_rec_stays [OF assms(1) less.prems Pair [unfolded Some x]] by auto
      then have "e - (p + ln) < e - p" by linarith
      from less.hyps [OF this l(2)] obtain r where "multi_scan body m (p + ln) e = Some r" by blast
      then show ?thesis using Pair Some x by (cases "ty = MLOG_MULTI_REC_END"; subst multi_scan.simps) auto
    qed
  qed
qed

text \<open>What storing a record changes: the table of addresses only, and it fails on other spaces than 0 only.\<close>

definition same_buffer :: "recv_sys \<Rightarrow> recv_sys \<Rightarrow> bool" where
  "same_buffer rs rs' \<longleftrightarrow> rs_buf rs' = rs_buf rs \<and> rs_len rs' = rs_len rs"

lemma add_to_hash_returns:
  "\<exists>rs'. recv_add_to_hash_table hash blk m ty 0 no bd re l rs = Some rs' \<and> same_buffer rs rs' \<and> recovered_offset rs' = recovered_offset rs"
  by (auto simp: recv_add_to_hash_table_def recv_get_fil_addr_struct_def Let_def same_buffer_def split: prod.splits option.splits)

lemma multi_store_returns:
  assumes "parser_stays body" "\<not> store \<or> (\<forall>q. m q \<noteq> MLOG_DUMMY_RECORD)"
  shows "multi_scan body m p e = Some (Some n, c) \<Longrightarrow> p \<le> e \<Longrightarrow> rs_buf rs + recovered_offset rs = p \<Longrightarrow> e = rs_buf rs + rs_len rs \<Longrightarrow>
    \<exists>l rs'. multi_store A body hash blk store m p e new_lsn rs = Some (l, rs') \<and> same_buffer rs rs'
      \<and> recovered_offset rs < recovered_offset rs' \<and> recovered_offset rs' \<le> rs_len rs'"
proof (induction "e - p" arbitrary: p rs rule: less_induct)
  case less
  obtain ty sp no bd ln c' where r: "recv_parse_log_rec body m p e = (Some (ty, sp, no, bd, ln), c')"
    using less.prems(1) by (subst (asm) multi_scan.simps) (auto split: prod.splits option.splits)
  note l = parse_log_rec_stays [OF assms(1) less.prems(2) r]
  define rs1 where "rs1 = rs\<lparr>recovered_offset := recovered_offset rs + ln, recovered_lsn := recv_calc_lsn_on_data_add A (recovered_lsn rs) (of_nat ln)\<rparr>"
  have rs1: "same_buffer rs rs1" "recovered_offset rs1 = recovered_offset rs + ln" by (simp_all add: rs1_def same_buffer_def)
  show ?case
  proof (cases "ty = MLOG_MULTI_REC_END")
    case True
    then show ?thesis using r rs1 l less.prems(3,4)
      by (subst multi_store.simps) (auto simp: Let_def rs1_def same_buffer_def)
  next
    case False
    obtain rs2 where rs2: "(if store then recv_add_to_hash_table hash blk m ty sp no bd (p + ln) new_lsn rs1 else Some rs1) = Some rs2"
        "same_buffer rs1 rs2" "recovered_offset rs2 = recovered_offset rs1"
      using add_to_hash_returns [of hash blk m ty no bd "p + ln" new_lsn rs1] assms(2) l by (cases store) (auto simp: same_buffer_def)
    have "multi_scan body m (p + ln) e = Some (Some n, c)"
      using less.prems(1) False r l by (subst (asm) multi_scan.simps) simp
    moreover have "e - (p + ln) < e - p" using l by linarith
    ultimately obtain l' rs' where st: "multi_store A body hash blk store m (p + ln) e new_lsn rs2 = Some (l', rs')" "same_buffer rs2 rs'"
        "recovered_offset rs2 < recovered_offset rs'" "recovered_offset rs' \<le> rs_len rs'"
      using less.hyps [of "p + ln" rs2] l less.prems(3,4) rs1 rs2(2,3) by (auto simp: same_buffer_def)
    have "multi_store A body hash blk store m p e new_lsn rs = multi_store A body hash blk store m (p + ln) e new_lsn rs2"
      using r False rs2(1) by (cases store; subst multi_store.simps) (simp_all add: Let_def rs1_def [symmetric])
    with st rs1 rs2(2,3) l show ?thesis by (auto simp: same_buffer_def)
  qed
qed

lemma parse_turn_returns:
  assumes "parser_stays body" "\<not> store \<or> (\<forall>q. m q \<noteq> MLOG_DUMMY_RECORD)" "recovered_offset rs \<le> rs_len rs"
  shows "(\<exists>rs'. parse_turn A body hash blk store m (l, rs) = Some (Inl rs') \<and> same_buffer rs rs' \<and> recovered_offset rs' = recovered_offset rs)
    \<or> (\<exists>l' rs'. parse_turn A body hash blk store m (l, rs) = Some (Inr (l', rs')) \<and> same_buffer rs rs'
        \<and> recovered_offset rs < recovered_offset rs' \<and> recovered_offset rs' \<le> rs_len rs')"
proof -
  define p where "p = rs_buf rs + recovered_offset rs"
  define e where "e = rs_buf rs + rs_len rs"
  have pe: "p \<le> e" using assms(3) by (simp add: p_def e_def)
  note t = parse_turn_def [of A body hash blk store m "(l, rs)", unfolded prod.case Let_def, folded p_def e_def]
  consider "p = e" | "p \<noteq> e" "m p AND MLOG_SINGLE_REC_FLAG \<noteq> 0 \<or> m p = MLOG_DUMMY_RECORD"
    | "p \<noteq> e" "\<not> (m p AND MLOG_SINGLE_REC_FLAG \<noteq> 0 \<or> m p = MLOG_DUMMY_RECORD)" by blast
  then show ?thesis
  proof cases
    case 1
    then show ?thesis unfolding t by (simp add: same_buffer_def)
  next
    case 2
    show ?thesis
    proof (cases "recv_parse_log_rec body m p e")
      case (Pair res c)
      show ?thesis
      proof (cases res)
        case None
        then show ?thesis using 2 Pair unfolding t by (simp add: same_buffer_def)
      next
        case (Some x)
        obtain ty sp no bd ln where x: "x = (ty, sp, no, bd, ln)" by (cases x) blast
        note r = Pair [unfolded Some x]
        note ln = parse_log_rec_stays [OF assms(1) pe r]
        define rs1 where "rs1 = rs\<lparr>recovered_offset := recovered_offset rs + ln,
          recovered_lsn := recv_calc_lsn_on_data_add A (recovered_lsn rs) (of_nat ln)\<rparr>"
        have rs1: "same_buffer rs rs1" "recovered_offset rs < recovered_offset rs1" "recovered_offset rs1 \<le> rs_len rs1"
          using ln by (simp_all add: rs1_def same_buffer_def p_def e_def)
        obtain rs2 where rs2: "store \<Longrightarrow> recv_add_to_hash_table hash blk m ty sp no bd (p + ln) (recovered_lsn rs1) rs1 = Some rs2"
            "same_buffer rs1 rs2" "recovered_offset rs2 = recovered_offset rs1"
          using add_to_hash_returns [of hash blk m ty no bd "p + ln" "recovered_lsn rs1" rs1] assms(2) ln by (cases store) (auto simp: same_buffer_def)
        show ?thesis using 2 r rs1 rs2 unfolding t
          by (cases "found_corrupt_log rs"; cases store) (auto simp: same_buffer_def rs1_def [symmetric])
      qed
    qed
  next
    case 3
    obtain res c where ms: "multi_scan body m p e = Some (res, c)" using multi_scan_returns [OF assms(1) pe] by (metis surj_pair)
    show ?thesis
    proof (cases res)
      case None
      then show ?thesis using 3 ms unfolding t by (cases "found_corrupt_log rs") (simp_all add: same_buffer_def)
    next
      case (Some n)
      from multi_store_returns [OF assms(1,2) ms [unfolded Some] pe p_def [symmetric] e_def]
      obtain l' rs' where "multi_store A body hash blk store m p e (recv_calc_lsn_on_data_add A l (of_nat n)) rs = Some (l', rs')"
        "same_buffer rs rs'" "recovered_offset rs < recovered_offset rs'" "recovered_offset rs' \<le> rs_len rs'" by blast
      then show ?thesis using 3 ms Some unfolding t by (cases "found_corrupt_log rs") (auto simp: same_buffer_def)
    qed
  qed
qed

lemma parse_log_recs_returns:
  assumes "parser_stays body" "\<not> store \<or> (\<forall>q. m q \<noteq> MLOG_DUMMY_RECORD)"
  shows "recovered_offset rs \<le> rs_len rs \<Longrightarrow>
    \<exists>rs'. recv_parse_log_recs A body hash blk store m l rs = Some rs' \<and> same_buffer rs rs'
      \<and> recovered_offset rs \<le> recovered_offset rs' \<and> recovered_offset rs' \<le> rs_len rs'"
proof (induction "rs_len rs - recovered_offset rs" arbitrary: l rs rule: less_induct)
  case less
  from parse_turn_returns [where A = A and hash = hash and blk = blk and l = l, OF assms less.prems] show ?case
  proof (elim disjE exE conjE)
    fix rs' assume "parse_turn A body hash blk store m (l, rs) = Some (Inl rs')" "same_buffer rs rs'" "recovered_offset rs' = recovered_offset rs"
    then show ?thesis using less.prems by (subst recv_parse_log_recs.simps) (auto simp: same_buffer_def)
  next
    fix l' rs' assume t: "parse_turn A body hash blk store m (l, rs) = Some (Inr (l', rs'))" "same_buffer rs rs'"
      "recovered_offset rs < recovered_offset rs'" "recovered_offset rs' \<le> rs_len rs'"
    then obtain rs2 where "recv_parse_log_recs A body hash blk store m l' rs' = Some rs2" "same_buffer rs' rs2"
        "recovered_offset rs' \<le> recovered_offset rs2" "recovered_offset rs2 \<le> rs_len rs2"
    proof -
      have "rs_len rs' - recovered_offset rs' < rs_len rs - recovered_offset rs" using t(2-4) by (simp add: same_buffer_def)
      from less.hyps [OF this t(4)] that show thesis by blast
    qed
    then show ?thesis using t by (subst recv_parse_log_recs.simps) (auto simp: same_buffer_def)
  qed
qed

section \<open>Properties\<close>

text \<open>C17. The lsn behind \<open>len\<close> bytes of data is found by stepping over them one by one, where the step
behind the last data byte of a block leads over its trailer and the header of the next one.\<close>

theorem recv_lsn_steps:
  assumes "lsn_api_ok A" "dulint_wf lsn" "12 \<le> dulint_val lsn mod 512" "dulint_val lsn mod 512 < 508"
    and "unat len < 2 ^ 31" "dulint_val lsn < 2 ^ 62"
  shows "dulint_val (recv_calc_lsn_on_data_add A lsn len) = (next_data_lsn ^^ unat len) (dulint_val lsn)"
  by (rule recv_calc_lsn_val(2) [OF assms])

lemma recv_lsn_steps_witness:
  "dulint_val (recv_calc_lsn_on_data_add lsn_ref (dulint_of_nat 1000) 1000) = 2032"
proof -
  have "dulint_val (recv_calc_lsn_on_data_add lsn_ref (dulint_of_nat 1000) 1000) = (next_data_lsn ^^ 1000) 1000"
    using recv_lsn_steps [OF lsn_ref_ok, of "dulint_of_nat 1000" 1000] by (simp add: dulint_of_nat_val)
  also have "\<dots> = 2032" using next_data_lsn_pow [of 1000 1 476] by (simp add: data_lsn_def)
  finally show ?thesis .
qed


definition recv_sys0 :: recv_sys where
  "recv_sys0 = \<lparr>rs_buf = 1000, rs_len = 12, parse_start_lsn = dulint_of_nat 8204, scanned_lsn = dulint_of_nat 8304,
     scanned_checkpoint_no = 0, recovered_offset = 0, recovered_lsn = dulint_of_nat 8204, found_corrupt_log = False,
     apply_log_recs = True, n_addrs = 0, addr_hash = (\<lambda>_. [])\<rparr>"


text \<open>C34. The records of a page are never found again. Once a record is stored in the table of addresses,
the search for its page fails, and marks nothing: every record gets an address of its own, and
\<open>recv_recover_page\<close> leaves every page as it is. The search assigns where it means to compare. What is stored
has no data: the end of the record is moved to its start first.\<close>

theorem recv_addr_never_found:
  assumes "recv_add_to_hash_table hash blk m ty sp no body rec_end end_lsn rs = Some rs'"
  shows "fst (recv_get_fil_addr_struct hash sp no rs') = None
    \<and> length (addr_hash rs' (hash sp no)) = Suc (length (addr_hash rs (hash sp no)))
    \<and> map (\<lambda>r. (rt_len r, rt_data r)) (rec_list (last (addr_hash rs' (hash sp no)))) = [(0, [])]
    \<and> map_option fst (recv_recover_page A apply_body init blk page_size hash backup page sp no newest m' rs') = Some m'"
proof -
  have sp: "sp = 0" using assms by (simp add: recv_add_to_hash_table_def split: if_splits)
  have none: "fst (get_addr_loop 0 no as) = None \<and> length (snd (get_addr_loop 0 no as)) = length as" for as
    by (induction as) (auto simp: Let_def split: prod.splits)
  then have nf: "fst (recv_get_fil_addr_struct hash 0 no r) = None" for r
    by (simp add: recv_get_fil_addr_struct_def split: prod.splits) (metis fst_conv)
  have len: "length (addr_hash (snd (recv_get_fil_addr_struct hash 0 no r)) (hash 0 no)) = length (addr_hash r (hash 0 no))" for r
    using none [of "addr_hash r (hash 0 no)"] by (auto simp: recv_get_fil_addr_struct_def split: prod.splits)
  have ch: "chunks blk [] = []" by (simp add: chunks.simps)
  have "map_option fst (recv_recover_page A apply_body init blk page_size hash backup page 0 no newest m' rs') = Some m'"
    using nf [of rs'] by (auto simp: recv_recover_page_def Let_def split: prod.splits)
  moreover have "length (addr_hash rs' (hash 0 no)) = Suc (length (addr_hash rs (hash 0 no)))
      \<and> map (\<lambda>r. (rt_len r, rt_data r)) (rec_list (last (addr_hash rs' (hash 0 no)))) = [(0, [])]"
    using assms nf [of rs] len [of rs] unfolding sp by (auto simp: mem_bytes_def ch recv_add_to_hash_table_def Let_def split: prod.splits)
  ultimately show ?thesis using nf by (simp add: sp)
qed

lemma recv_addr_never_found_witness:
  "\<exists>rs'. recv_add_to_hash_table (\<lambda>_ _. 0) 10 (\<lambda>_. 7) 1 0 5 100 125 (dulint_of_nat 8300) recv_sys0 = Some rs'
    \<and> fst (recv_get_fil_addr_struct (\<lambda>_ _. 0) 0 5 rs') = None"
proof -
  obtain rs' where "recv_add_to_hash_table (\<lambda>_ _. 0) 10 (\<lambda>_. 7) 1 0 5 100 125 (dulint_of_nat 8300) recv_sys0 = Some rs'"
    by (auto simp: recv_add_to_hash_table_def recv_get_fil_addr_struct_def recv_sys0_def Let_def)
  with recv_addr_never_found [OF this] show ?thesis by blast
qed

text \<open>C16. The log that was written is the log that a backup scans. Full blocks with their block numbers and
one checkpoint number, written from the buffer to a group by \<open>log_group_write_buf\<close> and read back by
\<open>log_group_read_log_seg\<close>, all pass \<open>recv_scan_log_seg_for_backup\<close>: the scanned lsn is the end of the
written part. The number of scanned bytes that it reports is the length of one block only.\<close>

theorem recv_backup_scans_written:
  assumes "lsn_api_ok A" and "log_geometry first g"
    and "dulint_wf lsn" "dulint_val lsn + unat l < 2 ^ 62" "512 dvd dulint_val lsn"
    and "\<bar>int (dulint_val lsn) - int (dulint_val (group_lsn g))\<bar> + int (unat l) < 2 ^ 32"
    and "512 dvd unat l" "unat l \<le> group_space g" "0 < unat l"
    and "\<And>q. buf \<le> q \<Longrightarrow> q < buf + unat l \<Longrightarrow> \<not> in_header_buf g q"
    and "\<And>j. 512 * j < unat l \<Longrightarrow>
      log_block_get_hdr_no (io_mem io) (buf + 512 * j) = log_block_convert_lsn_to_no (dulint_of_nat (dulint_val lsn + 512 * j))
      \<and> log_block_get_data_len (io_mem io) (buf + 512 * j) = 512 \<and> log_block_get_checkpoint_no (io_mem io) (buf + 512 * j) = c"
  shows "\<exists>io' io''. log_group_write_buf A True g buf l lsn new_data_offset io = Some io'
    \<and> log_group_read_log_seg A g dest lsn (dulint_of_nat (dulint_val lsn + unat l)) io' = Some io''
    \<and> recv_scan_log_seg_for_backup A (io_mem io'') dest (unat l) lsn 0 = (dulint_of_nat (dulint_val lsn + unat l), c, 512)"
proof -
  obtain io' where w: "log_group_write_buf A True g buf l lsn new_data_offset io = Some io'"
    and f: "flushed first g (dulint_val lsn) (unat l) buf io io'"
    using write_buf_flushed [where buf = buf, OF assms(1-8)] assms(10) by blast
  have tr: "group_tracks first g" using assms(2) by (simp add: log_geometry_def)
  have e: "dulint_wf (dulint_of_nat (dulint_val lsn + unat l))" "dulint_val (dulint_of_nat (dulint_val lsn + unat l)) = dulint_val lsn + unat l"
    using dulint_of_nat_val [of "dulint_val lsn + unat l"] assms(4) by simp_all
  obtain io'' where r: "log_group_read_log_seg A g dest lsn (dulint_of_nat (dulint_val lsn + unat l)) io' = Some io''"
    and got: "\<And>i. i < unat l \<Longrightarrow> io_mem io'' (dest + i) = io_file io' (lsn_place first g (dulint_val lsn + i))"
    using read_seg_spec [OF assms(1) tr assms(3) e(1), of "unat l" dest io'] assms(4,6,9) by (auto simp: e(2))
  have same: "io_mem io'' (dest + i) = io_mem io' (buf + i)" if "i < unat l" for i
    using got [OF that] f that by (simp add: flushed_def)
  obtain k where k: "unat l = 512 * k" using assms(7) by (elim dvdE)
  have "full_block (io_mem io'') (dest + 512 * j) (dulint_val lsn + 512 * j) c" if "j < k" for j
  proof -
    have l: "512 * j + i < unat l" if "i < 512" for i using \<open>j < k\<close> that k by simp
    have s: "io_mem io'' (dest + 512 * j + i) = io_mem io' (buf + 512 * j + i)" if "i < 512" for i
      using same [OF l [OF that]] by (simp add: add.assoc)
    have h: "io_mem io' (buf + 512 * j + i) = io_mem io (buf + 512 * j + i)" if "i < 12" for i
    proof -
      have "\<not> in_trailer buf (unat l) (buf + 512 * j + i)" using that by (simp add: in_trailer_def)
      moreover have "\<not> in_header_buf g (buf + 512 * j + i)" using assms(10) l [of i] that by simp
      ultimately show ?thesis using f by (simp add: flushed_def)
    qed
    have hd: "io_mem io'' (dest + 512 * j + i) = io_mem io (buf + 512 * j + i)" if "i < 12" for i
      using s [of i] h [OF that] that by simp
    have "log_block_checksum_is_ok_old_format (io_mem io'') (dest + 512 * j)"
    proof -
      have "log_block_checksum_is_ok_old_format (io_mem io'') (dest + 512 * j)
        = log_block_checksum_is_ok_old_format (io_mem io') (buf + 512 * j)" by (rule checksum_ok_cong) (rule s)
      then show ?thesis using f \<open>j < k\<close> k by (simp add: flushed_def log_block_checksum_is_ok_old_format_def)
    qed
    then show ?thesis using assms(11) [of j] \<open>j < k\<close> k block_header_cong [where b = "dest + 512 * j" and b' = "buf + 512 * j" and m = "io_mem io''" and m' = "io_mem io", OF hd] by (simp add: full_block_def)
  qed
  then have "backup_scan A (io_mem io'') k dest (dulint_of_nat (dulint_val lsn), 0, 0)
      = (dulint_of_nat (dulint_val lsn + 512 * k), if k = 0 then 0 else c, if k = 0 then 0 else 512)"
    using assms(4) k by (intro backup_scan_full [OF assms(1)]) auto
  moreover have "(unat l + 511) div OS_FILE_LOG_BLOCK_SIZE = k" "k \<noteq> 0" using k assms(9) by (simp_all add: OS_FILE_LOG_BLOCK_SIZE_def)
  ultimately have "recv_scan_log_seg_for_backup A (io_mem io'') dest (unat l) lsn 0 = (dulint_of_nat (dulint_val lsn + unat l), c, 512)"
    by (simp add: recv_scan_log_seg_for_backup_def dulint_of_val [OF assms(3)] k)
  with w r show ?thesis by blast
qed

text \<open>One full block at the start of the log.\<close>

definition full_mem :: mem where
  "full_mem = log_block_set_data_len (log_block_set_hdr_no (\<lambda>_. 0) 8192 17) 8192 512"

lemma recv_backup_scans_written_witness:
  "\<exists>io' io''. log_group_write_buf lsn_ref True group0 8192 512 (dulint_of_nat 8192) 1 \<lparr>io_mem = full_mem, io_file = (\<lambda>_. 0), n_log_ios = 0\<rparr> = Some io'
    \<and> log_group_read_log_seg lsn_ref group0 20000 (dulint_of_nat 8192) (dulint_of_nat 8704) io' = Some io''
    \<and> recv_scan_log_seg_for_backup lsn_ref (io_mem io'') 20000 512 (dulint_of_nat 8192) 0 = (dulint_of_nat 8704, 0, 512)"
proof -
  have no: "log_block_convert_lsn_to_no (dulint_of_nat 8192) = 17"
    by (simp add: log_block_convert_lsn_to_no_def dulint_of_nat_def)
  have f: "full_mem 8192 = 0" "full_mem (Suc 8192) = 0" "full_mem 8194 = 0" "full_mem 8195 = 17" "full_mem 8196 = 2" "full_mem 8197 = 0"
    "full_mem 8200 = 0" "full_mem 8201 = 0" "full_mem 8202 = 0" "full_mem 8203 = 0"
    by (simp_all add: full_mem_def log_block_set_data_len_def log_block_set_hdr_no_def mach_write_to_4_def mach_write_to_2_def log_block_layout)
  have n: "mach_read_from_4 full_mem 8192 = 17" "mach_read_from_2 full_mem 8196 = 512" "mach_read_from_4 full_mem 8200 = 0"
    using f by (simp_all add: mach_read_from_4_def mach_read_from_2_def)
  have b: "log_block_get_hdr_no full_mem 8192 = 17" "log_block_get_data_len full_mem 8192 = 512" "log_block_get_checkpoint_no full_mem 8192 = 0"
    by (simp_all add: log_block_layout log_block_get_hdr_no_def log_block_get_data_len_def log_block_get_checkpoint_no_def n LOG_BLOCK_FLUSH_BIT_MASK_def)
  have "\<exists>io' io''. log_group_write_buf lsn_ref True group0 8192 512 (dulint_of_nat 8192) 1 \<lparr>io_mem = full_mem, io_file = (\<lambda>_. 0), n_log_ios = 0\<rparr> = Some io'
    \<and> log_group_read_log_seg lsn_ref group0 20000 (dulint_of_nat 8192) (dulint_of_nat (dulint_val (dulint_of_nat 8192) + unat (512 :: ulint))) io' = Some io''
    \<and> recv_scan_log_seg_for_backup lsn_ref (io_mem io'') 20000 (unat (512 :: ulint)) (dulint_of_nat 8192) 0
      = (dulint_of_nat (dulint_val (dulint_of_nat 8192) + unat (512 :: ulint)), 0, 512)"
    by (rule recv_backup_scans_written [OF lsn_ref_ok geometry0])
      (use header_bufs0 b no in \<open>simp_all add: dulint_of_nat_val group0_def group_space_def\<close>)
  then show ?thesis by (simp add: dulint_of_nat_val)
qed

end
