(* ===== verification/Fut_Lst.thy ===== *)
theory Fut_Lst
  imports Mtr_Log "HOL-Library.Monad_Syntax"
begin

text \<open>
  Lists in the file, \<open>fut0lst\<close>: a base node with the length and the addresses of the first and the
  last node, and nodes that hold the addresses of their neighbours. Nodes and base lie anywhere in the pages of
  a tablespace; every change is logged in a mini-transaction. The state is the memory of the buffer
  pool with the mini-transaction. The pages of the list are in the pool: \<open>buf_page_get\<close> comes down to
  the search in the page hash, here among the blocks; reading a page in and the latches are not modelled.
\<close>

section \<open>Addresses in the file\<close>

definition FIL_NULL :: ulint where "FIL_NULL = 0xFFFFFFFF"
definition FIL_ADDR_PAGE :: nat where "FIL_ADDR_PAGE = 0"
definition FIL_ADDR_BYTE :: nat where "FIL_ADDR_BYTE = 4"
definition FIL_ADDR_SIZE :: nat where "FIL_ADDR_SIZE = 6"

record fil_addr =
  fa_page :: ulint
  fa_boffset :: ulint

definition fil_addr_null :: fil_addr where "fil_addr_null = \<lparr>fa_page = FIL_NULL, fa_boffset = 0\<rparr>"

definition fil_addr_is_null :: "fil_addr \<Rightarrow> bool" where
  "fil_addr_is_null a \<longleftrightarrow> fa_page a = FIL_NULL"

definition buf_ptr_get_fsp_addr :: "buf_pool \<Rightarrow> ptr \<Rightarrow> (ulint \<times> fil_addr) option" where
  "buf_ptr_get_fsp_addr pool p =
     do { block \<leftarrow> buf_block_align pool p;
          fr \<leftarrow> buf_frame_align pool p;
          Some (space block, \<lparr>fa_page = page_no block, fa_boffset = of_nat (p - fr)\<rparr>) }"

definition buf_page_hash_get :: "buf_pool \<Rightarrow> ulint \<Rightarrow> ulint \<Rightarrow> buf_block option" where
  "buf_page_hash_get pool sp no = find (\<lambda>b. space b = sp \<and> page_no b = no) (blocks pool)"

definition fut_get_ptr :: "buf_pool \<Rightarrow> ulint \<Rightarrow> fil_addr \<Rightarrow> ptr option" where
  "fut_get_ptr pool sp a = map_option (\<lambda>b. frame b + unat (fa_boffset a)) (buf_page_hash_get pool sp (fa_page a))"

definition mtr_read_ulint :: "mem \<Rightarrow> ptr \<Rightarrow> byte \<Rightarrow> ulint" where
  "mtr_read_ulint m p ty =
     (if ty = MLOG_1BYTE then mach_read_from_1 m p
      else if ty = MLOG_2BYTES then mach_read_from_2 m p
      else mach_read_from_4 m p)"

section \<open>The fields of a list\<close>

definition FLST_PREV :: nat where "FLST_PREV = 0"
definition FLST_NEXT :: nat where "FLST_NEXT = FIL_ADDR_SIZE"
definition FLST_LEN :: nat where "FLST_LEN = 0"
definition FLST_FIRST :: nat where "FLST_FIRST = 4"
definition FLST_LAST :: nat where "FLST_LAST = 4 + FIL_ADDR_SIZE"
definition FLST_BASE_NODE_SIZE :: nat where "FLST_BASE_NODE_SIZE = 4 + 2 * FIL_ADDR_SIZE"
definition FLST_NODE_SIZE :: nat where "FLST_NODE_SIZE = 2 * FIL_ADDR_SIZE"

lemmas flst_layout = FIL_ADDR_PAGE_def FIL_ADDR_BYTE_def FIL_ADDR_SIZE_def FLST_PREV_def FLST_NEXT_def
  FLST_LEN_def FLST_FIRST_def FLST_LAST_def FLST_BASE_NODE_SIZE_def FLST_NODE_SIZE_def

definition flst_write_addr :: "buf_pool \<Rightarrow> ptr \<Rightarrow> fil_addr \<Rightarrow> mem \<times> mtr \<Rightarrow> (mem \<times> mtr) option" where
  "flst_write_addr pool faddr addr st =
     do { (m, mtr) \<leftarrow> mlog_write_ulint pool (fst st) (faddr + FIL_ADDR_PAGE) (fa_page addr) MLOG_4BYTES (snd st);
          mlog_write_ulint pool m (faddr + FIL_ADDR_BYTE) (fa_boffset addr) MLOG_2BYTES mtr }"

definition flst_read_addr :: "mem \<Rightarrow> ptr \<Rightarrow> fil_addr" where
  "flst_read_addr m faddr = \<lparr>fa_page = mtr_read_ulint m (faddr + FIL_ADDR_PAGE) MLOG_4BYTES,
     fa_boffset = mtr_read_ulint m (faddr + FIL_ADDR_BYTE) MLOG_2BYTES\<rparr>"

definition flst_get_len :: "mem \<Rightarrow> ptr \<Rightarrow> ulint" where
  "flst_get_len m base = mtr_read_ulint m (base + FLST_LEN) MLOG_4BYTES"

definition flst_get_first :: "mem \<Rightarrow> ptr \<Rightarrow> fil_addr" where
  "flst_get_first m base = flst_read_addr m (base + FLST_FIRST)"

definition flst_get_last :: "mem \<Rightarrow> ptr \<Rightarrow> fil_addr" where
  "flst_get_last m base = flst_read_addr m (base + FLST_LAST)"

definition flst_get_next_addr :: "mem \<Rightarrow> ptr \<Rightarrow> fil_addr" where
  "flst_get_next_addr m node = flst_read_addr m (node + FLST_NEXT)"

definition flst_get_prev_addr :: "mem \<Rightarrow> ptr \<Rightarrow> fil_addr" where
  "flst_get_prev_addr m node = flst_read_addr m (node + FLST_PREV)"

text \<open>The write of the length at the end of every operation.\<close>

definition flst_write_len :: "buf_pool \<Rightarrow> ptr \<Rightarrow> ulint \<Rightarrow> mem \<times> mtr \<Rightarrow> (mem \<times> mtr) option" where
  "flst_write_len pool base n st = mlog_write_ulint pool (fst st) (base + FLST_LEN) n MLOG_4BYTES (snd st)"

definition flst_init :: "buf_pool \<Rightarrow> ptr \<Rightarrow> mem \<times> mtr \<Rightarrow> (mem \<times> mtr) option" where
  "flst_init pool base st =
     do { st \<leftarrow> flst_write_len pool base 0 st;
          st \<leftarrow> flst_write_addr pool (base + FLST_FIRST) fil_addr_null st;
          flst_write_addr pool (base + FLST_LAST) fil_addr_null st }"

section \<open>Operations\<close>

text \<open>The node at an address: on the page of \<open>node\<close>, or got from the pool.\<close>

definition near_node :: "buf_pool \<Rightarrow> ulint \<Rightarrow> bool \<Rightarrow> ptr \<Rightarrow> fil_addr \<Rightarrow> ptr option" where
  "near_node pool sp same node a =
     (if same then map_option (\<lambda>f. f + unat (fa_boffset a)) (buf_frame_align pool node) else fut_get_ptr pool sp a)"

definition flst_add_to_empty :: "buf_pool \<Rightarrow> ptr \<Rightarrow> ptr \<Rightarrow> mem \<times> mtr \<Rightarrow> (mem \<times> mtr) option" where
  "flst_add_to_empty pool base node st =
     (let len = flst_get_len (fst st) base in
      if len \<noteq> 0 then None
      else do {
        (sp, node_addr) \<leftarrow> buf_ptr_get_fsp_addr pool node;
        st \<leftarrow> flst_write_addr pool (base + FLST_FIRST) node_addr st;
        st \<leftarrow> flst_write_addr pool (base + FLST_LAST) node_addr st;
        st \<leftarrow> flst_write_addr pool (node + FLST_PREV) fil_addr_null st;
        st \<leftarrow> flst_write_addr pool (node + FLST_NEXT) fil_addr_null st;
        flst_write_len pool base (len + 1) st })"

definition flst_insert_after :: "buf_pool \<Rightarrow> ptr \<Rightarrow> ptr \<Rightarrow> ptr \<Rightarrow> mem \<times> mtr \<Rightarrow> (mem \<times> mtr) option" where
  "flst_insert_after pool base node1 node2 st =
     do { (_, node1_addr) \<leftarrow> buf_ptr_get_fsp_addr pool node1;
          (sp, node2_addr) \<leftarrow> buf_ptr_get_fsp_addr pool node2;
          let node3_addr = flst_get_next_addr (fst st) node1;
          st \<leftarrow> flst_write_addr pool (node2 + FLST_PREV) node1_addr st;
          st \<leftarrow> flst_write_addr pool (node2 + FLST_NEXT) node3_addr st;
          st \<leftarrow> (if \<not> fil_addr_is_null node3_addr
                then do { node3 \<leftarrow> fut_get_ptr pool sp node3_addr; flst_write_addr pool (node3 + FLST_PREV) node2_addr st }
                else flst_write_addr pool (base + FLST_LAST) node2_addr st);
          st \<leftarrow> flst_write_addr pool (node1 + FLST_NEXT) node2_addr st;
          flst_write_len pool base (flst_get_len (fst st) base + 1) st }"

definition flst_insert_before :: "buf_pool \<Rightarrow> ptr \<Rightarrow> ptr \<Rightarrow> ptr \<Rightarrow> mem \<times> mtr \<Rightarrow> (mem \<times> mtr) option" where
  "flst_insert_before pool base node2 node3 st =
     do { (_, node2_addr) \<leftarrow> buf_ptr_get_fsp_addr pool node2;
          (sp, node3_addr) \<leftarrow> buf_ptr_get_fsp_addr pool node3;
          let node1_addr = flst_get_prev_addr (fst st) node3;
          st \<leftarrow> flst_write_addr pool (node2 + FLST_PREV) node1_addr st;
          st \<leftarrow> flst_write_addr pool (node2 + FLST_NEXT) node3_addr st;
          st \<leftarrow> (if \<not> fil_addr_is_null node1_addr
                then do { node1 \<leftarrow> fut_get_ptr pool sp node1_addr; flst_write_addr pool (node1 + FLST_NEXT) node2_addr st }
                else flst_write_addr pool (base + FLST_FIRST) node2_addr st);
          st \<leftarrow> flst_write_addr pool (node3 + FLST_PREV) node2_addr st;
          flst_write_len pool base (flst_get_len (fst st) base + 1) st }"

definition flst_add_last :: "buf_pool \<Rightarrow> ptr \<Rightarrow> ptr \<Rightarrow> mem \<times> mtr \<Rightarrow> (mem \<times> mtr) option" where
  "flst_add_last pool base node st =
     (let len = flst_get_len (fst st) base; last_addr = flst_get_last (fst st) base in
      do { (sp, node_addr) \<leftarrow> buf_ptr_get_fsp_addr pool node;
           if len \<noteq> 0
           then do { last_node \<leftarrow> near_node pool sp (fa_page last_addr = fa_page node_addr) node last_addr;
                     flst_insert_after pool base last_node node st }
           else flst_add_to_empty pool base node st })"

definition flst_add_first :: "buf_pool \<Rightarrow> ptr \<Rightarrow> ptr \<Rightarrow> mem \<times> mtr \<Rightarrow> (mem \<times> mtr) option" where
  "flst_add_first pool base node st =
     (let len = flst_get_len (fst st) base; first_addr = flst_get_first (fst st) base in
      do { (sp, node_addr) \<leftarrow> buf_ptr_get_fsp_addr pool node;
           if len \<noteq> 0
           then do { first_node \<leftarrow> near_node pool sp (fa_page first_addr = fa_page node_addr) node first_addr;
                     flst_insert_before pool base node first_node st }
           else flst_add_to_empty pool base node st })"

text \<open>When the first node is removed, the next address is written at \<open>base + FLST_NEXT\<close>.\<close>

definition flst_remove :: "buf_pool \<Rightarrow> ptr \<Rightarrow> ptr \<Rightarrow> mem \<times> mtr \<Rightarrow> (mem \<times> mtr) option" where
  "flst_remove pool base node2 st =
     do { (sp, node2_addr) \<leftarrow> buf_ptr_get_fsp_addr pool node2;
          let node1_addr = flst_get_prev_addr (fst st) node2;
          let node3_addr = flst_get_next_addr (fst st) node2;
          st \<leftarrow> (if \<not> fil_addr_is_null node1_addr
                then do { node1 \<leftarrow> near_node pool sp (fa_page node1_addr = fa_page node2_addr) node2 node1_addr;
                          flst_write_addr pool (node1 + FLST_NEXT) node3_addr st }
                else flst_write_addr pool (base + FLST_NEXT) node3_addr st);
          st \<leftarrow> (if \<not> fil_addr_is_null node3_addr
                then do { node3 \<leftarrow> near_node pool sp (fa_page node3_addr = fa_page node2_addr) node2 node3_addr;
                          flst_write_addr pool (node3 + FLST_PREV) node1_addr st }
                else flst_write_addr pool (base + FLST_LAST) node1_addr st);
          flst_write_len pool base (flst_get_len (fst st) base - 1) st }"

text \<open>The page of the node before is compared with the offset of \<open>node2\<close>.\<close>

definition flst_cut_end :: "buf_pool \<Rightarrow> ptr \<Rightarrow> ptr \<Rightarrow> ulint \<Rightarrow> mem \<times> mtr \<Rightarrow> (mem \<times> mtr) option" where
  "flst_cut_end pool base node2 n_nodes st =
     do { (sp, node2_addr) \<leftarrow> buf_ptr_get_fsp_addr pool node2;
          let node1_addr = flst_get_prev_addr (fst st) node2;
          st \<leftarrow> (if \<not> fil_addr_is_null node1_addr
                then do { node1 \<leftarrow> near_node pool sp (fa_page node1_addr = fa_boffset node2_addr) node2 node1_addr;
                          flst_write_addr pool (node1 + FLST_NEXT) fil_addr_null st }
                else flst_write_addr pool (base + FLST_FIRST) fil_addr_null st);
          st \<leftarrow> flst_write_addr pool (base + FLST_LAST) node1_addr st;
          flst_write_len pool base (flst_get_len (fst st) base - n_nodes) st }"

definition flst_truncate_end :: "buf_pool \<Rightarrow> ptr \<Rightarrow> ptr \<Rightarrow> ulint \<Rightarrow> mem \<times> mtr \<Rightarrow> (mem \<times> mtr) option" where
  "flst_truncate_end pool base node2 n_nodes st =
     (if n_nodes = 0 then Some st
      else do {
        (sp, node2_addr) \<leftarrow> buf_ptr_get_fsp_addr pool node2;
        st \<leftarrow> flst_write_addr pool (node2 + FLST_NEXT) fil_addr_null st;
        st \<leftarrow> flst_write_addr pool (base + FLST_LAST) node2_addr st;
        flst_write_len pool base (flst_get_len (fst st) base - n_nodes) st })"

text \<open>The two walks of the check; \<open>None\<close> is a failing assertion or an address of no page.\<close>

fun flst_walk :: "buf_pool \<Rightarrow> ulint \<Rightarrow> nat \<Rightarrow> mem \<Rightarrow> nat \<Rightarrow> fil_addr \<Rightarrow> fil_addr option" where
  "flst_walk pool sp dir m 0 a = Some a"
| "flst_walk pool sp dir m (Suc n) a =
     do { node \<leftarrow> fut_get_ptr pool sp a; flst_walk pool sp dir m n (flst_read_addr m (node + dir)) }"

definition flst_validate :: "buf_pool \<Rightarrow> ptr \<Rightarrow> mem \<Rightarrow> bool option" where
  "flst_validate pool base m =
     do { (sp, base_addr) \<leftarrow> buf_ptr_get_fsp_addr pool base;
          let len = flst_get_len m base;
          a \<leftarrow> flst_walk pool sp FLST_NEXT m (unat len) (flst_get_first m base);
          if \<not> fil_addr_is_null a then None
          else do {
            a \<leftarrow> flst_walk pool sp FLST_PREV m (unat len) (flst_get_last m base);
            if \<not> fil_addr_is_null a then None else Some True } }"

end
