(* ===== verification/Fut_Rep.thy ===== *)
theory Fut_Rep
  imports Fut_Lst
begin

text \<open>
  The representation of a list of nodes in the pages, \<open>flst_rep\<close>, and what each operation of \<open>fut0lst.cc\<close> does to
  it. \<open>runs\<close> says that a sequence of logged writes succeeds, what it leaves in memory, which bytes it
  may touch, and that its redo records describe it.
\<close>

section \<open>Addresses in memory\<close>

definition addr_fits :: "fil_addr \<Rightarrow> bool" where
  "addr_fits a \<longleftrightarrow> unat (fa_page a) < 2 ^ 32 \<and> unat (fa_boffset a) < 2 ^ 16"

definition put_addr :: "mem \<Rightarrow> ptr \<Rightarrow> fil_addr \<Rightarrow> mem" where
  "put_addr m p a = mach_write_to_2 (mach_write_to_4 m p (fa_page a)) (p + 4) (fa_boffset a)"

lemma read_addr_parts: "flst_read_addr m p = \<lparr>fa_page = mach_read_from_4 m p, fa_boffset = mach_read_from_2 m (p + 4)\<rparr>"
  by (simp add: flst_read_addr_def mtr_read_ulint_def mlog_types flst_layout)

interpretation fa: codec put_addr "\<lambda>_. 6" flst_read_addr addr_fits
proof
  show "i < b \<or> b + 6 \<le> i \<Longrightarrow> put_addr m b a i = m i" for a i b m
    by (auto simp: put_addr_def mach_write_to_2_def mach_write_to_4_def)
  show "flst_read_addr m' b = a" if f: "addr_fits a" and ag: "\<And>i. b \<le> i \<Longrightarrow> i < b + 6 \<Longrightarrow> m' i = put_addr m b a i" for a b m m'
  proof -
    have "mach_read_from_4 m' b = fa_page a"
    proof (rule c4.rd_back)
      show "m' i = mach_write_to_4 m b (fa_page a) i" if "b \<le> i" "i < b + 4" for i
        using ag [of i] that by (simp add: put_addr_def mach_write_to_2_def)
    qed (use f in \<open>simp add: addr_fits_def\<close>)
    moreover have "mach_read_from_2 m' (b + 4) = fa_boffset a"
    proof (rule c2.rd_back)
      show "m' i = mach_write_to_2 (mach_write_to_4 m b (fa_page a)) (b + 4) (fa_boffset a) i" if "b + 4 \<le> i" "i < b + 4 + 2" for i
        using ag [of i] that by (simp add: put_addr_def)
    qed (use f in \<open>simp add: addr_fits_def\<close>)
    ultimately show ?thesis by (simp add: read_addr_parts)
  qed
  show "put_addr m b a (b + j) = put_addr m' b' a (b' + j)" if "j < 6" for a j m b m' b'
  proof -
    have "j \<in> {0, 1, 2, 3, 4, 5}" using that by auto
    then show ?thesis by (auto simp: put_addr_def mach_write_to_2_def mach_write_to_4_def)
  qed
qed

lemma put_addr_same [simp]: "addr_fits a \<Longrightarrow> flst_read_addr (put_addr m p a) p = a"
  by (rule fa.rd_back) simp_all

lemma put_addr_frame: "i < p \<or> p + 6 \<le> i \<Longrightarrow> put_addr m p a i = m i"
  by (auto simp: put_addr_def mach_write_to_2_def mach_write_to_4_def)

lemma read_addr_cong: "(\<And>i. p \<le> i \<Longrightarrow> i < p + 6 \<Longrightarrow> m i = m' i) \<Longrightarrow> flst_read_addr m p = flst_read_addr m' p"
  by (simp add: read_addr_parts mach_read_from_4_def mach_read_from_2_def)

lemma read_len_cong: "(\<And>i. b \<le> i \<Longrightarrow> i < b + 4 \<Longrightarrow> m i = m' i) \<Longrightarrow> flst_get_len m b = flst_get_len m' b"
  by (simp add: flst_get_len_def mtr_read_ulint_def flst_layout mlog_types mach_read_from_4_def)

lemma put_addr_other: "q + 6 \<le> p \<or> p + 6 \<le> q \<Longrightarrow> flst_read_addr (put_addr m p a) q = flst_read_addr m q"
  by (rule read_addr_cong) (auto simp: put_addr_frame)

lemma put_len_frame: "i < b \<or> b + 4 \<le> i \<Longrightarrow> mach_write_to_4 m b n i = m i"
  by (auto simp: mach_write_to_4_def)

lemma put_len_other: "q + 6 \<le> b \<or> b + 4 \<le> q \<Longrightarrow> flst_read_addr (mach_write_to_4 m b n) q = flst_read_addr m q"
  by (rule read_addr_cong) (auto simp: put_len_frame)

lemma put_addr_len: "b + 4 \<le> p \<or> p + 6 \<le> b \<Longrightarrow> flst_get_len (put_addr m p a) b = flst_get_len m b"
  by (rule read_len_cong) (auto simp: put_addr_frame)

lemma put_len_same: "unat n < 2 ^ 32 \<Longrightarrow> flst_get_len (mach_write_to_4 m b n) b = n"
  unfolding flst_get_len_def mtr_read_ulint_def mlog_types flst_layout by (simp, rule c4.rd_back) simp_all

section \<open>Places in the pool\<close>

text \<open>The \<open>sz\<close> bytes at \<open>p\<close> lie on one page of the tablespace.\<close>

definition in_page :: "buf_pool \<Rightarrow> nat \<Rightarrow> ptr \<Rightarrow> bool" where
  "in_page pool sz p \<longleftrightarrow> (\<exists>b \<in> set (blocks pool). loggable b \<and> frame b \<le> p \<and> p + sz \<le> frame b + UNIV_PAGE_SIZE)"

text \<open>A laid out pool where a page has one block.\<close>

definition pool_ok :: "buf_pool \<Rightarrow> bool" where
  "pool_ok pool \<longleftrightarrow> pool_wf pool
     \<and> (\<forall>b \<in> set (blocks pool). \<forall>c \<in> set (blocks pool). space b = space c \<and> page_no b = page_no c \<longrightarrow> b = c)"

definition node_addr :: "buf_pool \<Rightarrow> ptr \<Rightarrow> fil_addr" where
  "node_addr pool p = snd (the (buf_ptr_get_fsp_addr pool p))"

lemma in_page_mono: "in_page pool sz p \<Longrightarrow> k + sz' \<le> sz \<Longrightarrow> in_page pool sz' (p + k)"
  unfolding in_page_def by (elim bexE conjE, intro bexI conjI) simp_all

lemma in_page_block:
  assumes pool: "pool_wf pool" and p: "in_page pool sz p" and k: "k < sz"
  obtains b where "b \<in> set (blocks pool)" "buf_block_align pool (p + k) = Some b" "buf_frame_align pool (p + k) = Some (frame b)"
    "in_pool pool (p + k)" "loggable b" "frame b \<le> p" "p + sz \<le> frame b + UNIV_PAGE_SIZE"
proof -
  obtain b where b: "b \<in> set (blocks pool)" "loggable b" "frame b \<le> p" "p + sz \<le> frame b + UNIV_PAGE_SIZE"
    using p by (auto simp: in_page_def)
  obtain i where i: "b = blocks pool ! i" "i < length (blocks pool)" using b(1) by (metis in_set_conv_nth)
  have fi: "frame b = frame_zero pool + UNIV_PAGE_SIZE * i" using pool i by (simp add: pool_wf_def)
  have "UNIV_PAGE_SIZE * Suc i \<le> UNIV_PAGE_SIZE * length (blocks pool)" using i(2) by (intro mult_le_mono2) simp
  then have inp: "in_pool pool (p + k)"
    using pool b(3,4) k fi by (simp add: in_pool_def pool_wf_def)
  obtain c off where c: "buf_block_align pool (p + k) = Some c" "buf_frame_align pool (p + k) = Some (frame c)"
      "p + k = frame c + off" "off < UNIV_PAGE_SIZE" "c \<in> set (blocks pool)"
    by (rule pool_address [OF pool inp])
  obtain j where j: "c = blocks pool ! j" "j < length (blocks pool)" using c(5) by (metis in_set_conv_nth)
  have fj: "frame c = frame_zero pool + UNIV_PAGE_SIZE * j" using pool j by (simp add: pool_wf_def)
  define off' where "off' = p + k - frame b"
  have o': "p + k = frame b + off'" "off' < UNIV_PAGE_SIZE" using b(3,4) k by (simp_all add: off'_def)
  have "UNIV_PAGE_SIZE * i + off' = UNIV_PAGE_SIZE * j + off" using o'(1) c(3) fi fj by simp
  then have "(UNIV_PAGE_SIZE * i + off') div UNIV_PAGE_SIZE = (UNIV_PAGE_SIZE * j + off) div UNIV_PAGE_SIZE" by simp
  then have "i = j" using o'(2) c(4) by simp
  then show ?thesis using that [of b] b c inp i j by simp
qed

lemma node_addr_get:
  assumes "pool_ok pool" "in_page pool sz p" "0 < sz"
  shows "buf_ptr_get_fsp_addr pool p = Some (0, node_addr pool p)"
    "addr_fits (node_addr pool p)" "\<not> fil_addr_is_null (node_addr pool p)"
    "fut_get_ptr pool 0 (node_addr pool p) = Some p"
    "in_page pool sz q \<Longrightarrow> near_node pool 0 (fa_page (node_addr pool p) = fa_page (node_addr pool q)) q (node_addr pool p) = Some p"
proof -
  obtain b where b: "b \<in> set (blocks pool)" "buf_block_align pool p = Some b" "buf_frame_align pool p = Some (frame b)"
    "in_pool pool p" "loggable b" "frame b \<le> p" "p + sz \<le> frame b + UNIV_PAGE_SIZE"
    by (rule in_page_block [OF _ assms(2,3)]) (use assms(1) in \<open>auto simp: pool_ok_def\<close>)
  have g: "buf_ptr_get_fsp_addr pool p = Some (0, \<lparr>fa_page = page_no b, fa_boffset = of_nat (p - frame b)\<rparr>)"
    using b by (simp add: buf_ptr_get_fsp_addr_def loggable_def)
  then have a: "node_addr pool p = \<lparr>fa_page = page_no b, fa_boffset = of_nat (p - frame b)\<rparr>" by (simp add: node_addr_def)
  with g show "buf_ptr_get_fsp_addr pool p = Some (0, node_addr pool p)" by simp
  have off: "p - frame b < 2 ^ 14" using b(7) assms(3) by (simp add: UNIV_PAGE_SIZE_def)
  then have u: "unat (of_nat (p - frame b) :: ulint) = p - frame b" by (simp add: unat_of_nat)
  show "addr_fits (node_addr pool p)" using b(5) off by (simp add: a addr_fits_def u loggable_def del: of_nat_diff)
  have "page_no b \<noteq> FIL_NULL" using b(5) by (auto simp: loggable_def FIL_NULL_def)
  then show "\<not> fil_addr_is_null (node_addr pool p)" by (simp add: a fil_addr_is_null_def)
  have fnd: "find (\<lambda>c. space c = 0 \<and> page_no c = page_no b) (blocks pool) = Some b"
  proof -
    have ex: "\<exists>c \<in> set (blocks pool). space c = 0 \<and> page_no c = page_no b" using b by (auto simp: loggable_def)
    then obtain c where c: "find (\<lambda>c. space c = 0 \<and> page_no c = page_no b) (blocks pool) = Some c"
      by (cases "find (\<lambda>c. space c = 0 \<and> page_no c = page_no b) (blocks pool)") (auto simp: find_None_iff)
    then have "c \<in> set (blocks pool)" "space c = 0" "page_no c = page_no b" by (auto simp: find_Some_iff)
    then have "c = b" using assms(1) b(1,5) by (simp add: pool_ok_def loggable_def)
    with c show ?thesis by simp
  qed
  then show f: "fut_get_ptr pool 0 (node_addr pool p) = Some p"
    using b(6) by (simp add: fut_get_ptr_def buf_page_hash_get_def a u del: of_nat_diff)
  show "near_node pool 0 (fa_page (node_addr pool p) = fa_page (node_addr pool q)) q (node_addr pool p) = Some p" if q: "in_page pool sz q"
  proof -
    obtain c where c: "c \<in> set (blocks pool)" "buf_block_align pool q = Some c" "buf_frame_align pool q = Some (frame c)" "loggable c"
      by (rule in_page_block [OF _ q assms(3)]) (use assms(1,3) in \<open>auto simp: pool_ok_def\<close>)
    have "fa_page (node_addr pool q) = page_no c" using c by (simp add: node_addr_def buf_ptr_get_fsp_addr_def)
    then have "c = b" if "fa_page (node_addr pool p) = fa_page (node_addr pool q)"
      using that assms(1) b(1,5) c(1,4) by (simp add: a pool_ok_def loggable_def)
    then show ?thesis using f c(3) b(6) by (auto simp: near_node_def a u simp del: of_nat_diff)
  qed
qed

section \<open>Runs of logged writes\<close>

text \<open>The writes of a run, done again on a memory, and the bytes they log.\<close>

definition redo :: "(ptr \<times> byte \<times> ulint) list \<Rightarrow> mem \<Rightarrow> mem" where
  "redo = fold (\<lambda>(p, ty, v) m. apply_ulint ty m p v)"

definition redo_rec :: "buf_pool \<Rightarrow> ptr \<times> byte \<times> ulint \<Rightarrow> byte list" where
  "redo_rec pool w = (case w of (p, ty, v) \<Rightarrow> (case buf_block_align pool p of None \<Rightarrow> []
     | Some b \<Rightarrow> ulint_record ty (page_no b) (p - frame b) v))"

definition did :: "buf_pool \<Rightarrow> mem \<times> mtr \<Rightarrow> mem \<times> mtr \<Rightarrow> bool" where
  "did pool st st' \<longleftrightarrow> mtr_logs (snd st') \<and> (\<exists>ws. fst st' = redo ws (fst st)
     \<and> dyn_bytes (log (snd st')) = dyn_bytes (log (snd st)) @ concat (map (redo_rec pool) ws))"

text \<open>A computation that succeeds with the memory \<open>m'\<close> and changes bytes of \<open>F\<close> only.\<close>

definition runs :: "buf_pool \<Rightarrow> ptr set \<Rightarrow> mem \<times> mtr \<Rightarrow> (mem \<times> mtr) option \<Rightarrow> mem \<Rightarrow> bool" where
  "runs pool F st res m' \<longleftrightarrow> (\<exists>mtr'. res = Some (m', mtr') \<and> did pool st (m', mtr')) \<and> (\<forall>i. i \<notin> F \<longrightarrow> m' i = fst st i)"

lemma did_trans: "did pool s t \<Longrightarrow> did pool t u \<Longrightarrow> did pool s u"
  unfolding did_def by (elim conjE exE, intro conjI exI [of _ "_ @ _"]) (auto simp: redo_def)

lemma runs_ret: "mtr_logs mtr \<Longrightarrow> runs pool F (m, mtr) (Some (m, mtr)) m"
  by (auto simp: runs_def did_def redo_def intro!: exI [of _ "[]"])

lemma write_runs:
  assumes "pool_wf pool" "in_page pool sz p" "k < sz" "mtr_logs mtr" "unat v < 2 ^ 32"
  shows "\<exists>mtr'. mlog_write_ulint pool m (p + k) v ty mtr = Some (apply_ulint ty m (p + k) v, mtr')
    \<and> did pool (m, mtr) (apply_ulint ty m (p + k) v, mtr')"
proof -
  obtain b where b: "buf_block_align pool (p + k) = Some b" "in_pool pool (p + k)" "loggable b"
    by (rule in_page_block [OF assms(1-3)]) auto
  from write_ulint_logged [OF assms(1) b(2,1,3) assms(4,5), of m ty]
  obtain mtr' where w: "mlog_write_ulint pool m (p + k) v ty mtr = Some (apply_ulint ty m (p + k) v, mtr')"
    "logged mtr mtr' (ulint_record ty (page_no b) (p + k - frame b) v)" by blast
  then have "did pool (m, mtr) (apply_ulint ty m (p + k) v, mtr')"
    by (auto simp: did_def logged_def redo_def redo_rec_def b intro!: exI [of _ "[(p + k, ty, v)]"])
  with w show ?thesis by blast
qed

lemma write_addr_runs:
  assumes "pool_wf pool" "in_page pool 6 p" "addr_fits a" "mtr_logs mtr"
  shows "\<exists>mtr'. flst_write_addr pool p a (m, mtr) = Some (put_addr m p a, mtr') \<and> mtr_logs mtr'
    \<and> did pool (m, mtr) (put_addr m p a, mtr')"
proof -
  have f: "unat (fa_page a) < 2 ^ 32" "unat (fa_boffset a) < 2 ^ 32" using assms(3) by (simp_all add: addr_fits_def)
  obtain mtr1 where 1: "mlog_write_ulint pool m (p + 0) (fa_page a) MLOG_4BYTES mtr = Some (apply_ulint MLOG_4BYTES m (p + 0) (fa_page a), mtr1)"
    "did pool (m, mtr) (apply_ulint MLOG_4BYTES m (p + 0) (fa_page a), mtr1)"
    using write_runs [OF assms(1,2) _ assms(4) f(1), of 0] by auto
  then have l: "mtr_logs mtr1" by (simp add: did_def)
  let ?m1 = "apply_ulint MLOG_4BYTES m (p + 0) (fa_page a)"
  obtain mtr2 where 2: "mlog_write_ulint pool ?m1 (p + 4) (fa_boffset a) MLOG_2BYTES mtr1 = Some (apply_ulint MLOG_2BYTES ?m1 (p + 4) (fa_boffset a), mtr2)"
    "did pool (?m1, mtr1) (apply_ulint MLOG_2BYTES ?m1 (p + 4) (fa_boffset a), mtr2)"
    using write_runs [OF assms(1,2) _ l f(2), of 4] by auto
  have e: "apply_ulint MLOG_2BYTES ?m1 (p + 4) (fa_boffset a) = put_addr m p a"
    by (simp add: apply_ulint_def put_addr_def mlog_types)
  have "did pool (m, mtr) (put_addr m p a, mtr2)" using did_trans [OF 1(2) 2(2)] unfolding e .
  moreover have "mtr_logs mtr2" using 2(2) by (simp add: did_def)
  ultimately show ?thesis using 1(1) 2(1) by (simp add: flst_write_addr_def flst_layout e [unfolded add_0_right])
qed

lemma runs_bind:
  assumes "runs pool F st res m1" and k: "\<And>mtr1. mtr_logs mtr1 \<Longrightarrow> runs pool F (m1, mtr1) (k (m1, mtr1)) m2"
  shows "runs pool F st (res \<bind> k) m2"
proof -
  obtain mtr1 where r: "res = Some (m1, mtr1)" "did pool st (m1, mtr1)" "\<forall>i. i \<notin> F \<longrightarrow> m1 i = fst st i"
    using assms(1) by (auto simp: runs_def)
  then have "runs pool F (m1, mtr1) (k (m1, mtr1)) m2" by (intro k) (simp add: did_def)
  then show ?thesis using r did_trans [OF r(2)] by (auto simp: runs_def)
qed

text \<open>The bytes of the base and of the nodes in \<open>U\<close>.\<close>

definition foot :: "ptr \<Rightarrow> ptr set \<Rightarrow> ptr set" where
  "foot base U = {base..<base + FLST_BASE_NODE_SIZE} \<union> (\<Union>x \<in> U. {x..<x + FLST_NODE_SIZE})"

text \<open>The address at \<open>p\<close> lies in \<open>F\<close>.\<close>

definition covers :: "ptr set \<Rightarrow> ptr \<Rightarrow> bool" where
  "covers F p \<longleftrightarrow> {p..<p + FIL_ADDR_SIZE} \<subseteq> F"

definition spot :: "buf_pool \<Rightarrow> ptr set \<Rightarrow> ptr \<Rightarrow> bool" where
  "spot pool F p \<longleftrightarrow> in_page pool 6 p \<and> covers F p"

lemma runs_put_addr:
  assumes "pool_wf pool" "spot pool F p" "addr_fits a" "mtr_logs mtr"
  shows "runs pool F (m, mtr) (flst_write_addr pool p a (m, mtr)) (put_addr m p a)"
proof -
  have "put_addr m p a i = m i" if "i \<notin> F" for i
  proof (rule put_addr_frame)
    show "i < p \<or> p + 6 \<le> i" using that assms(2) unfolding spot_def covers_def flst_layout by (meson atLeastLessThan_iff not_le subsetD)
  qed
  moreover have "in_page pool 6 p" using assms(2) by (simp add: spot_def)
  note write_addr_runs [OF assms(1) this assms(3,4), of m]
  ultimately show ?thesis by (auto simp: runs_def)
qed

lemma runs_write_addr:
  assumes "pool_wf pool" "spot pool F p" "addr_fits a" "mtr_logs mtr"
    and k: "\<And>mtr1. mtr_logs mtr1 \<Longrightarrow> runs pool F (put_addr m p a, mtr1) (k (put_addr m p a, mtr1)) m'"
  shows "runs pool F (m, mtr) (flst_write_addr pool p a (m, mtr) \<bind> k) m'"
  by (rule runs_bind [OF runs_put_addr [OF assms(1-4)] k])

lemma runs_write_len:
  assumes "pool_wf pool" "in_page pool 16 base" "mtr_logs mtr" "unat n < 2 ^ 32"
  shows "runs pool (foot base U) (m, mtr) (flst_write_len pool base n (m, mtr)) (mach_write_to_4 m base n)"
proof -
  have "mach_write_to_4 m base n i = m i" if "i \<notin> foot base U" for i
    using that assms(4) by (intro put_len_frame) (auto simp: foot_def flst_layout)
  then show ?thesis
    using write_runs [OF assms(1,2) _ assms(3,4), of 0 m MLOG_4BYTES]
    by (auto simp: runs_def flst_write_len_def flst_layout apply_ulint_def mlog_types)
qed

section \<open>Fields after writes\<close>

text \<open>The base and the nodes in \<open>U\<close> do not overlap.\<close>

definition spread :: "ptr \<Rightarrow> ptr set \<Rightarrow> bool" where
  "spread base U \<longleftrightarrow> (\<forall>x \<in> U. base + 16 \<le> x \<or> x + 12 \<le> base)
     \<and> (\<forall>x \<in> U. \<forall>y \<in> U. x \<noteq> y \<longrightarrow> x + 12 \<le> y \<or> y + 12 \<le> x)"

lemma spread_mono: "spread base U \<Longrightarrow> V \<subseteq> U \<Longrightarrow> spread base V"
  by (auto simp: spread_def)

lemmas flst_get_defs = flst_get_first_def flst_get_last_def flst_get_next_addr_def flst_get_prev_addr_def

lemma apart:
  assumes "spread base U"
  shows "x \<in> U \<Longrightarrow> base + 16 \<le> x \<or> x + 12 \<le> base" "x \<in> U \<Longrightarrow> y \<in> U \<Longrightarrow> x \<noteq> y \<Longrightarrow> x + 12 \<le> y \<or> y + 12 \<le> x"
  using assms unfolding spread_def by blast+

lemma get_put_node:
  assumes sp: "spread base U" and "n \<in> U" "addr_fits a"
  shows "x \<in> U \<Longrightarrow> flst_get_prev_addr (put_addr m n a) x = (if x = n then a else flst_get_prev_addr m x)"
    "x \<in> U \<Longrightarrow> flst_get_next_addr (put_addr m n a) x = flst_get_next_addr m x"
    "x \<in> U \<Longrightarrow> flst_get_prev_addr (put_addr m (n + 6) a) x = flst_get_prev_addr m x"
    "x \<in> U \<Longrightarrow> flst_get_next_addr (put_addr m (n + 6) a) x = (if x = n then a else flst_get_next_addr m x)"
    "flst_get_first (put_addr m n a) base = flst_get_first m base"
    "flst_get_first (put_addr m (n + 6) a) base = flst_get_first m base"
    "flst_get_last (put_addr m n a) base = flst_get_last m base"
    "flst_get_last (put_addr m (n + 6) a) base = flst_get_last m base"
    "flst_get_len (put_addr m n a) base = flst_get_len m base"
    "flst_get_len (put_addr m (n + 6) a) base = flst_get_len m base"
  using apart(1) [OF sp assms(2)] apart(2) [OF sp _ assms(2), of x] assms(3)
  by (cases "x = n"; force simp: flst_get_defs flst_layout intro!: put_addr_other put_addr_len)+

lemma get_put_base:
  assumes sp: "spread base U" and "addr_fits a"
  shows "x \<in> U \<Longrightarrow> flst_get_prev_addr (put_addr m (base + 4) a) x = flst_get_prev_addr m x"
    "x \<in> U \<Longrightarrow> flst_get_next_addr (put_addr m (base + 4) a) x = flst_get_next_addr m x"
    "x \<in> U \<Longrightarrow> flst_get_prev_addr (put_addr m (base + 10) a) x = flst_get_prev_addr m x"
    "x \<in> U \<Longrightarrow> flst_get_next_addr (put_addr m (base + 10) a) x = flst_get_next_addr m x"
    "flst_get_first (put_addr m (base + 4) a) base = a"
    "flst_get_first (put_addr m (base + 10) a) base = flst_get_first m base"
    "flst_get_last (put_addr m (base + 4) a) base = flst_get_last m base"
    "flst_get_last (put_addr m (base + 10) a) base = a"
    "flst_get_len (put_addr m (base + 4) a) base = flst_get_len m base"
    "flst_get_len (put_addr m (base + 10) a) base = flst_get_len m base"
  using apart(1) [OF sp, of x] assms(2)
  by (auto simp: flst_get_defs flst_layout intro!: put_addr_other put_addr_len)

lemma get_put_len:
  assumes sp: "spread base U"
  shows "x \<in> U \<Longrightarrow> flst_get_prev_addr (mach_write_to_4 m base l) x = flst_get_prev_addr m x"
    "x \<in> U \<Longrightarrow> flst_get_next_addr (mach_write_to_4 m base l) x = flst_get_next_addr m x"
    "flst_get_first (mach_write_to_4 m base l) base = flst_get_first m base"
    "flst_get_last (mach_write_to_4 m base l) base = flst_get_last m base"
  using apart(1) [OF sp, of x] by (auto simp: flst_get_defs flst_layout intro!: put_len_other)

section \<open>The list in the pages\<close>

definition hd_addr :: "buf_pool \<Rightarrow> ptr list \<Rightarrow> fil_addr \<Rightarrow> fil_addr" where
  "hd_addr pool xs z = (case xs of [] \<Rightarrow> z | x # _ \<Rightarrow> node_addr pool x)"

definition last_addr :: "buf_pool \<Rightarrow> fil_addr \<Rightarrow> ptr list \<Rightarrow> fil_addr" where
  "last_addr pool a xs = (if xs = [] then a else node_addr pool (last xs))"

text \<open>The nodes \<open>xs\<close> are linked in both directions, behind \<open>a\<close> and before \<open>z\<close>.\<close>

fun links :: "buf_pool \<Rightarrow> mem \<Rightarrow> fil_addr \<Rightarrow> ptr list \<Rightarrow> fil_addr \<Rightarrow> bool" where
  "links pool m a [] z \<longleftrightarrow> True"
| "links pool m a (x # xs) z \<longleftrightarrow> flst_get_prev_addr m x = a \<and> flst_get_next_addr m x = hd_addr pool xs z
     \<and> links pool m (node_addr pool x) xs z"

definition places :: "buf_pool \<Rightarrow> ptr \<Rightarrow> ptr set \<Rightarrow> bool" where
  "places pool base U \<longleftrightarrow> in_page pool FLST_BASE_NODE_SIZE base \<and> (\<forall>x \<in> U. in_page pool FLST_NODE_SIZE x) \<and> spread base U"

definition flst_rep :: "buf_pool \<Rightarrow> mem \<Rightarrow> ptr \<Rightarrow> ptr list \<Rightarrow> bool" where
  "flst_rep pool m base ns \<longleftrightarrow> places pool base (set ns) \<and> distinct ns \<and> unat (flst_get_len m base) = length ns
     \<and> flst_get_first m base = hd_addr pool ns fil_addr_null \<and> flst_get_last m base = last_addr pool fil_addr_null ns
     \<and> links pool m fil_addr_null ns fil_addr_null"

lemma addr_simps [simp]:
  "hd_addr pool [] z = z" "hd_addr pool (x # xs) z = node_addr pool x" "hd_addr pool (xs @ ys) z = hd_addr pool xs (hd_addr pool ys z)"
  "last_addr pool a [] = a" "last_addr pool a (x # xs) = last_addr pool (node_addr pool x) xs"
  "last_addr pool a (xs @ ys) = last_addr pool (last_addr pool a xs) ys"
  "fil_addr_is_null fil_addr_null" "addr_fits fil_addr_null"
  by (simp_all add: hd_addr_def last_addr_def fil_addr_is_null_def fil_addr_null_def addr_fits_def FIL_NULL_def split: list.splits)

lemma links_append [simp]:
  "links pool m a (xs @ ys) z \<longleftrightarrow> links pool m a xs (hd_addr pool ys z) \<and> links pool m (last_addr pool a xs) ys z"
  by (induction xs arbitrary: a) auto

lemma links_cong:
  "(\<And>x. x \<in> set xs \<Longrightarrow> flst_get_prev_addr m' x = flst_get_prev_addr m x \<and> flst_get_next_addr m' x = flst_get_next_addr m x)
    \<Longrightarrow> links pool m' a xs z = links pool m a xs z"
  by (induction xs arbitrary: a) auto

lemma place_facts:
  assumes "places pool base U"
  shows "spread base U" "in_page pool 16 base" "x \<in> U \<Longrightarrow> in_page pool 12 x"
    "spot pool (foot base U) (base + 4)" "spot pool (foot base U) (base + 10)"
    "x \<in> U \<Longrightarrow> spot pool (foot base U) x" "x \<in> U \<Longrightarrow> spot pool (foot base U) (x + 6)"
  using assms in_page_mono [of pool 16 base 4 6] in_page_mono [of pool 16 base 10 6] in_page_mono [of pool 12 x 0 6]
    in_page_mono [of pool 12 x 6 6]
  by (force simp: places_def flst_layout foot_def covers_def spot_def)+

lemma node_facts:
  assumes "pool_ok pool" "in_page pool 12 p"
  shows "buf_ptr_get_fsp_addr pool p = Some (0, node_addr pool p)"
    "addr_fits (node_addr pool p)" "\<not> fil_addr_is_null (node_addr pool p)"
    "fut_get_ptr pool 0 (node_addr pool p) = Some p"
    "in_page pool 12 q \<Longrightarrow> near_node pool 0 (fa_page (node_addr pool p) = fa_page (node_addr pool q)) q (node_addr pool p) = Some p"
  by (rule node_addr_get [OF assms]; simp)+

lemma place_nodes:
  assumes "pool_ok pool" "places pool base U" "x \<in> U"
  shows "buf_ptr_get_fsp_addr pool x = Some (0, node_addr pool x)" "addr_fits (node_addr pool x)"
      "\<not> fil_addr_is_null (node_addr pool x)" "fut_get_ptr pool 0 (node_addr pool x) = Some x"
      "y \<in> U \<Longrightarrow> near_node pool 0 (fa_page (node_addr pool x) = fa_page (node_addr pool y)) y (node_addr pool x) = Some x"
  using node_facts [OF assms(1) place_facts(3) [OF assms(2,3)]] place_facts(3) [OF assms(2)] by blast+

lemma insert_after_runs:
  assumes P: "pool_ok pool" and rep: "flst_rep pool m base (xs @ a # ys)" and pl: "places pool base (insert n (set (xs @ a # ys)))"
    and n: "n \<notin> set (xs @ a # ys)" and l: "mtr_logs mtr" and len: "length (xs @ a # ys) < 2 ^ 32 - 1"
  shows "\<exists>m'. runs pool (foot base (insert n (set (xs @ a # ys)))) (m, mtr) (flst_insert_after pool base a n (m, mtr)) m' \<and> flst_rep pool m' base (xs @ a # n # ys)"
proof -
  have W: "pool_wf pool" using P by (simp add: pool_ok_def)
  define F where "F = foot base (insert n (set (xs @ a # ys)))"
  note pf = place_facts [OF pl, folded F_def]
  note sp = pf(1)
  note na = place_nodes(1-4) [OF P pl]
  have nx: "flst_get_next_addr m a = hd_addr pool ys fil_addr_null" using rep by (simp add: flst_rep_def)
  have fit: "addr_fits (hd_addr pool ys fil_addr_null)" using na(2) by (cases ys) simp_all
  note puts = get_put_node [OF sp] get_put_base [OF sp] get_put_len [OF sp]
  define L where "L = flst_get_len m base"
  have L: "unat L = length (xs @ a # ys)" using rep by (simp add: flst_rep_def L_def)
  have L1: "unat (L + 1) = Suc (length (xs @ a # ys))" using L len by (simp add: unat_word_ariths)
  let ?m1 = "put_addr (put_addr m n (node_addr pool a)) (n + 6) (hd_addr pool ys fil_addr_null)"
  let ?m2 = "case ys of [] \<Rightarrow> put_addr ?m1 (base + 10) (node_addr pool n) | y # _ \<Rightarrow> put_addr ?m1 y (node_addr pool n)"
  let ?m3 = "put_addr ?m2 (a + 6) (node_addr pool n)"
  let ?m' = "mach_write_to_4 ?m3 base (L + 1)"
  have len3: "flst_get_len ?m3 base = L"
    using na(2) fit by (cases ys) (simp_all add: puts L_def)
  have "runs pool F (m, mtr) (flst_insert_after pool base a n (m, mtr)) ?m'"
  proof -
    have wl: "runs pool F (?m3, mtr') (flst_write_len pool base (L + 1) (?m3, mtr')) ?m'" if "mtr_logs mtr'" for mtr'
      unfolding F_def using L1 len by (intro runs_write_len W pf(2) that) simp
    note A = na [of a, simplified] na [of n, simplified] pf(4,5) pf(6,7) [of a, simplified] pf(6,7) [of n, simplified]
    show ?thesis
    proof (cases ys)
      case Nil
      show ?thesis unfolding flst_insert_after_def
        using len3 wl Nil by (simp add: flst_layout A nx) (intro runs_write_addr; simp add: A W l)
    next
      case (Cons y ys')
      note Y = na [of y, unfolded Cons, simplified] pf(6,7) [of y, unfolded Cons, simplified]
      show ?thesis unfolding flst_insert_after_def
        using len3 wl Cons by (simp add: flst_layout A Y nx) (intro runs_write_addr; simp add: A Y W l)
    qed
  qed
  moreover have "flst_rep pool ?m' base (xs @ a # n # ys)"
  proof -
    have ds: "distinct (xs @ a # ys)" using rep by (simp add: flst_rep_def)
    have lk: "links pool m fil_addr_null xs (node_addr pool a)" "flst_get_prev_addr m a = last_addr pool fil_addr_null xs"
      "links pool m (node_addr pool a) ys fil_addr_null"
      using rep by (simp_all add: flst_rep_def)
    have "links pool ?m' fil_addr_null xs (node_addr pool a) = links pool m fil_addr_null xs (node_addr pool a)"
      by (rule links_cong) (use na(2) fit n ds in \<open>cases ys; auto simp: puts\<close>)
    moreover have "links pool ?m' (node_addr pool n) ys fil_addr_null"
    proof (cases ys)
      case (Cons y ys')
      have "links pool ?m' (node_addr pool y) ys' fil_addr_null = links pool m (node_addr pool y) ys' fil_addr_null"
        by (rule links_cong) (use na(2) fit n ds Cons in \<open>auto simp: puts\<close>)
      then show ?thesis using lk(3) na(2) fit n ds Cons by (auto simp: puts)
    qed simp
    moreover have "flst_get_prev_addr ?m' a = last_addr pool fil_addr_null xs" "flst_get_next_addr ?m' a = node_addr pool n"
      "flst_get_prev_addr ?m' n = node_addr pool a" "flst_get_next_addr ?m' n = hd_addr pool ys fil_addr_null"
      using lk(2) na(2) fit n ds by (cases ys; auto simp: puts)+
    moreover have "flst_get_first ?m' base = hd_addr pool (xs @ a # n # ys) fil_addr_null"
      "flst_get_last ?m' base = last_addr pool fil_addr_null (xs @ a # n # ys)"
      using rep na(2) fit by (cases ys; auto simp: puts flst_rep_def)+
    moreover have "places pool base (set (xs @ a # n # ys))" using pl by (simp add: insert_commute)
    moreover have "distinct (xs @ a # n # ys)" using ds n by auto
    moreover have "unat (flst_get_len ?m' base) = length (xs @ a # n # ys)"
      using L1 len by (simp add: put_len_same)
    ultimately show ?thesis using lk(1) by (simp add: flst_rep_def)
  qed
  ultimately show ?thesis unfolding F_def by blast
qed

lemma rep_places: "flst_rep pool m base ns \<Longrightarrow> places pool base (set ns)"
  by (simp add: flst_rep_def)

lemma rep_len: "flst_rep pool m base ns \<Longrightarrow> length ns < 2 ^ 32 - 1 \<Longrightarrow> unat (flst_get_len m base + 1) = Suc (length ns)"
  by (simp add: flst_rep_def unat_word_ariths)

lemma rep_len_less:
  assumes "flst_rep pool m base ns" "k \<le> length ns" "length ns < 2 ^ 32"
  shows "unat (flst_get_len m base - of_nat k) = length ns - k"
proof -
  have k: "unat (of_nat k :: ulint) = k" using assms(2,3) by (simp add: unat_of_nat)
  then have "of_nat k \<le> flst_get_len m base" using assms by (simp add: word_le_nat_alt flst_rep_def)
  then show ?thesis using assms(1) by (simp add: unat_sub k flst_rep_def)
qed

lemma insert_before_runs:
  assumes P: "pool_ok pool" and rep: "flst_rep pool m base (xs @ b # ys)" and pl: "places pool base (insert n (set (xs @ b # ys)))"
    and n: "n \<notin> set (xs @ b # ys)" and l: "mtr_logs mtr" and len: "length (xs @ b # ys) < 2 ^ 32 - 1"
  shows "\<exists>m'. runs pool (foot base (insert n (set (xs @ b # ys)))) (m, mtr) (flst_insert_before pool base n b (m, mtr)) m' \<and> flst_rep pool m' base (xs @ n # b # ys)"
proof -
  have W: "pool_wf pool" using P by (simp add: pool_ok_def)
  define F where "F = foot base (insert n (set (xs @ b # ys)))"
  note pf = place_facts [OF pl, folded F_def]
  note na = place_nodes(1-4) [OF P pl]
  note puts = get_put_node [OF pf(1)] get_put_base [OF pf(1)] get_put_len [OF pf(1)]
  let ?p = "last_addr pool fil_addr_null xs"
  have px: "flst_get_prev_addr m b = ?p" using rep by (simp add: flst_rep_def)
  have fit: "addr_fits ?p" using na(2) by (cases xs rule: rev_cases) simp_all
  define L where "L = flst_get_len m base"
  have L1: "unat (L + 1) = Suc (length (xs @ b # ys))" unfolding L_def by (rule rep_len [OF rep len])
  let ?m1 = "put_addr (put_addr m n ?p) (n + 6) (node_addr pool b)"
  let ?m2 = "if xs = [] then put_addr ?m1 (base + 4) (node_addr pool n) else put_addr ?m1 (last xs + 6) (node_addr pool n)"
  let ?m3 = "put_addr ?m2 b (node_addr pool n)"
  let ?m' = "mach_write_to_4 ?m3 base (L + 1)"
  have len3: "flst_get_len ?m3 base = L"
    using na(2) fit by (cases xs rule: rev_cases) (simp_all add: puts L_def)
  have "runs pool F (m, mtr) (flst_insert_before pool base n b (m, mtr)) ?m'"
  proof -
    have wl: "runs pool F (?m3, mtr') (flst_write_len pool base (L + 1) (?m3, mtr')) ?m'" if "mtr_logs mtr'" for mtr'
      unfolding F_def using L1 len by (intro runs_write_len W pf(2) that) simp
    note A = na [of b, simplified] na [of n, simplified] pf(4,5) pf(6,7) [of b, simplified] pf(6,7) [of n, simplified]
    show ?thesis
    proof (cases xs rule: rev_cases)
      case Nil
      show ?thesis unfolding flst_insert_before_def
        using len3 wl Nil by (simp add: flst_layout A px) (intro runs_write_addr; simp add: A W l)
    next
      case (snoc xs' x)
      note X = na [of x, unfolded snoc, simplified] pf(6,7) [of x, unfolded snoc, simplified]
      show ?thesis unfolding flst_insert_before_def
        using len3 wl snoc by (simp add: flst_layout A X px) (intro runs_write_addr; simp add: A X W l)
    qed
  qed
  moreover have "flst_rep pool ?m' base (xs @ n # b # ys)"
  proof -
    have ds: "distinct (xs @ b # ys)" using rep by (simp add: flst_rep_def)
    have lk: "links pool m fil_addr_null xs (node_addr pool b)" "flst_get_next_addr m b = hd_addr pool ys fil_addr_null"
      "links pool m (node_addr pool b) ys fil_addr_null"
      using rep by (simp_all add: flst_rep_def)
    have "links pool ?m' (node_addr pool b) ys fil_addr_null = links pool m (node_addr pool b) ys fil_addr_null"
      by (rule links_cong) (use na(2) fit n ds in \<open>cases xs rule: rev_cases; auto simp: puts\<close>)
    moreover have "links pool ?m' fil_addr_null xs (node_addr pool n)"
    proof (cases xs rule: rev_cases)
      case (snoc xs' x)
      have "links pool ?m' fil_addr_null xs' (node_addr pool x) = links pool m fil_addr_null xs' (node_addr pool x)"
        by (rule links_cong) (use na(2) fit n ds snoc in \<open>auto simp: puts\<close>)
      then show ?thesis using lk(1) na(2) fit n ds snoc by (auto simp: puts)
    qed simp
    moreover have "flst_get_prev_addr ?m' b = node_addr pool n" "flst_get_next_addr ?m' b = hd_addr pool ys fil_addr_null"
      "flst_get_prev_addr ?m' n = ?p" "flst_get_next_addr ?m' n = node_addr pool b"
      using lk(2) na(2) fit n ds by (cases xs rule: rev_cases; auto simp: puts)+
    moreover have "flst_get_first ?m' base = hd_addr pool (xs @ n # b # ys) fil_addr_null"
      "flst_get_last ?m' base = last_addr pool fil_addr_null (xs @ n # b # ys)"
    proof -
      have "hd_addr pool xs z = hd_addr pool xs z'" if "xs \<noteq> []" for z z' using that by (cases xs) simp_all
      then show "flst_get_first ?m' base = hd_addr pool (xs @ n # b # ys) fil_addr_null"
        using rep na(2) fit by (cases "xs = []") (auto simp: puts flst_rep_def)
      show "flst_get_last ?m' base = last_addr pool fil_addr_null (xs @ n # b # ys)"
        using rep na(2) fit by (cases "xs = []") (auto simp: puts flst_rep_def)
    qed
    moreover have "places pool base (set (xs @ n # b # ys))" using pl by (simp add: insert_commute)
    moreover have "distinct (xs @ n # b # ys)" using ds n by auto
    moreover have "unat (flst_get_len ?m' base) = length (xs @ n # b # ys)"
      using L1 len by (simp add: put_len_same)
    ultimately show ?thesis using lk(3) by (simp add: flst_rep_def)
  qed
  ultimately show ?thesis unfolding F_def by blast
qed

lemma add_to_empty_runs:
  assumes P: "pool_ok pool" and rep: "flst_rep pool m base []" and pl: "places pool base {n}" and l: "mtr_logs mtr"
  shows "\<exists>m'. runs pool (foot base {n}) (m, mtr) (flst_add_to_empty pool base n (m, mtr)) m' \<and> flst_rep pool m' base [n]"
proof -
  have W: "pool_wf pool" using P by (simp add: pool_ok_def)
  note pf = place_facts [OF pl]
  note na = place_nodes(1-4) [OF P pl]
  note puts = get_put_node [OF pf(1)] get_put_base [OF pf(1)] get_put_len [OF pf(1)]
  have L: "flst_get_len m base = 0" using rep by (simp add: flst_rep_def unat_eq_0)
  let ?m3 = "put_addr (put_addr (put_addr (put_addr m (base + 4) (node_addr pool n)) (base + 10) (node_addr pool n)) n fil_addr_null) (n + 6) fil_addr_null"
  let ?m' = "mach_write_to_4 ?m3 base 1"
  have "runs pool (foot base {n}) (m, mtr) (flst_add_to_empty pool base n (m, mtr)) ?m'"
    unfolding flst_add_to_empty_def
    using L by (simp add: flst_layout na [of n])
      (intro runs_write_addr runs_write_len; simp add: na [of n] pf pf(6,7) [of n, simplified] W l)
  moreover have "flst_rep pool ?m' base [n]"
    using pl na(2) by (simp add: flst_rep_def puts put_len_same)
  ultimately show ?thesis by blast
qed

lemma add_last_runs:
  assumes P: "pool_ok pool" and rep: "flst_rep pool m base ns" and pl: "places pool base (insert n (set ns))"
    and n: "n \<notin> set ns" and l: "mtr_logs mtr" and len: "length ns < 2 ^ 32 - 1"
  shows "\<exists>m'. runs pool (foot base (insert n (set ns))) (m, mtr) (flst_add_last pool base n (m, mtr)) m' \<and> flst_rep pool m' base (ns @ [n])"
proof (cases ns rule: rev_cases)
  case Nil
  have "flst_get_len m base = 0" using rep Nil by (simp add: flst_rep_def unat_eq_0)
  then have e: "flst_add_last pool base n (m, mtr) = flst_add_to_empty pool base n (m, mtr)"
    using place_nodes(1) [OF P pl, of n] by (simp add: flst_add_last_def)
  show ?thesis using add_to_empty_runs [OF P rep [unfolded Nil] _ l, of n] pl Nil by (simp add: e)
next
  case (snoc xs a)
  have "flst_get_len m base \<noteq> 0" using rep snoc by (auto simp: flst_rep_def)
  moreover have "flst_get_last m base = node_addr pool a" using rep snoc by (simp add: flst_rep_def)
  ultimately have e: "flst_add_last pool base n (m, mtr) = flst_insert_after pool base a n (m, mtr)"
    using place_nodes(1,5) [OF P pl] snoc by (simp add: flst_add_last_def)
  show ?thesis using insert_after_runs [of pool m base xs a "[]" n mtr] assms snoc by (simp add: e)
qed

lemma add_first_runs:
  assumes P: "pool_ok pool" and rep: "flst_rep pool m base ns" and pl: "places pool base (insert n (set ns))"
    and n: "n \<notin> set ns" and l: "mtr_logs mtr" and len: "length ns < 2 ^ 32 - 1"
  shows "\<exists>m'. runs pool (foot base (insert n (set ns))) (m, mtr) (flst_add_first pool base n (m, mtr)) m' \<and> flst_rep pool m' base (n # ns)"
proof (cases ns)
  case Nil
  have "flst_get_len m base = 0" using rep Nil by (simp add: flst_rep_def unat_eq_0)
  then have e: "flst_add_first pool base n (m, mtr) = flst_add_to_empty pool base n (m, mtr)"
    using place_nodes(1) [OF P pl, of n] by (simp add: flst_add_first_def)
  show ?thesis using add_to_empty_runs [OF P rep [unfolded Nil] _ l, of n] pl Nil by (simp add: e)
next
  case (Cons b ys)
  have "flst_get_len m base \<noteq> 0" using rep Cons by (auto simp: flst_rep_def)
  moreover have "flst_get_first m base = node_addr pool b" using rep Cons by (simp add: flst_rep_def)
  ultimately have e: "flst_add_first pool base n (m, mtr) = flst_insert_before pool base n b (m, mtr)"
    using place_nodes(1,5) [OF P pl] Cons by (simp add: flst_add_first_def)
  show ?thesis using insert_before_runs [of pool m base "[]" b ys n mtr] assms Cons by (simp add: e)
qed

lemma remove_runs:
  assumes P: "pool_ok pool" and rep: "flst_rep pool m base (xs @ a # n # ys)" and l: "mtr_logs mtr" and len: "length (xs @ a # n # ys) < 2 ^ 32"
  shows "\<exists>m'. runs pool (foot base (set (xs @ a # n # ys))) (m, mtr) (flst_remove pool base n (m, mtr)) m' \<and> flst_rep pool m' base (xs @ a # ys)"
proof -
  have W: "pool_wf pool" using P by (simp add: pool_ok_def)
  note pl = rep_places [OF rep]
  define F where "F = foot base (set (xs @ a # n # ys))"
  note pf = place_facts [OF pl, folded F_def]
  note na = place_nodes [OF P pl]
  note puts = get_put_node [OF pf(1)] get_put_base [OF pf(1)] get_put_len [OF pf(1)]
  have pn: "flst_get_prev_addr m n = node_addr pool a" "flst_get_next_addr m n = hd_addr pool ys fil_addr_null"
    using rep by (simp_all add: flst_rep_def)
  have fit: "addr_fits (hd_addr pool ys fil_addr_null)" using na(2) by (cases ys) simp_all
  define L where "L = flst_get_len m base"
  have L1: "unat (L - 1) = length (xs @ a # ys)" using rep_len_less [OF rep, of 1] len by (simp add: L_def)
  let ?m1 = "put_addr m (a + 6) (hd_addr pool ys fil_addr_null)"
  let ?m2 = "case ys of [] \<Rightarrow> put_addr ?m1 (base + 10) (node_addr pool a) | y # _ \<Rightarrow> put_addr ?m1 y (node_addr pool a)"
  let ?m' = "mach_write_to_4 ?m2 base (L - 1)"
  have len2: "flst_get_len ?m2 base = L" using na(2) fit by (cases ys) (simp_all add: puts L_def)
  have "runs pool F (m, mtr) (flst_remove pool base n (m, mtr)) ?m'"
  proof -
    have wl: "runs pool F (?m2, mtr') (flst_write_len pool base (L - 1) (?m2, mtr')) ?m'" if "mtr_logs mtr'" for mtr'
      unfolding F_def using L1 len by (intro runs_write_len W pf(2) that) simp
    note A = na(1-4) [of a, simplified] na(1-4) [of n, simplified] na(5) [of a n, simplified] pf(4,5) pf(6,7) [of a, simplified]
    show ?thesis
    proof (cases ys)
      case Nil
      show ?thesis unfolding flst_remove_def
        using len2 wl Nil by (simp add: flst_layout A pn) (intro runs_write_addr; simp add: A W l)
    next
      case (Cons y ys')
      note Y = na(1-4) [of y, unfolded Cons, simplified] na(5) [of y n, unfolded Cons, simplified] pf(6,7) [of y, unfolded Cons, simplified]
      show ?thesis unfolding flst_remove_def
        using len2 wl Cons by (simp add: flst_layout A Y pn) (intro runs_write_addr; simp add: A Y W l)
    qed
  qed
  moreover have "flst_rep pool ?m' base (xs @ a # ys)"
  proof -
    have ds: "distinct (xs @ a # n # ys)" using rep by (simp add: flst_rep_def)
    have lk: "links pool m fil_addr_null xs (node_addr pool a)" "flst_get_prev_addr m a = last_addr pool fil_addr_null xs"
      "links pool m (node_addr pool n) ys fil_addr_null"
      using rep by (simp_all add: flst_rep_def)
    have "links pool ?m' fil_addr_null xs (node_addr pool a) = links pool m fil_addr_null xs (node_addr pool a)"
      by (rule links_cong) (use na(2) fit ds in \<open>cases ys; auto simp: puts\<close>)
    moreover have "links pool ?m' (node_addr pool a) ys fil_addr_null"
    proof (cases ys)
      case (Cons y ys')
      have "links pool ?m' (node_addr pool y) ys' fil_addr_null = links pool m (node_addr pool y) ys' fil_addr_null"
        by (rule links_cong) (use na(2) fit ds Cons in \<open>auto simp: puts\<close>)
      then show ?thesis using lk(3) na(2) fit ds Cons by (auto simp: puts)
    qed simp
    moreover have "flst_get_prev_addr ?m' a = last_addr pool fil_addr_null xs" "flst_get_next_addr ?m' a = hd_addr pool ys fil_addr_null"
      using lk(2) na(2) fit ds by (cases ys; auto simp: puts)+
    moreover have "flst_get_first ?m' base = hd_addr pool (xs @ a # ys) fil_addr_null"
      "flst_get_last ?m' base = last_addr pool fil_addr_null (xs @ a # ys)"
      using rep na(2) fit by (cases ys; auto simp: puts flst_rep_def)+
    moreover have "places pool base (set (xs @ a # ys))" using pl by (auto simp: places_def elim!: spread_mono)
    moreover have "unat (flst_get_len ?m' base) = length (xs @ a # ys)"
      using L1 len by (simp add: put_len_same)
    ultimately show ?thesis using lk(1) ds by (simp add: flst_rep_def)
  qed
  ultimately show ?thesis unfolding F_def by blast
qed

text \<open>The end of a list is cut off behind \<open>a\<close>: the links that are left, after the two writes.\<close>

lemma cut_rep:
  assumes P: "pool_ok pool" and rep: "flst_rep pool m base (xs @ a # ys)" and len: "length (xs @ a # ys) < 2 ^ 32"
  shows "flst_rep pool (mach_write_to_4 (put_addr (put_addr m (a + 6) fil_addr_null) (base + 10) (node_addr pool a)) base
    (flst_get_len m base - of_nat (length ys))) base (xs @ [a])"
proof -
  note pl = rep_places [OF rep]
  note pf = place_facts [OF pl]
  note na = place_nodes [OF P pl]
  note puts = get_put_node [OF pf(1)] get_put_base [OF pf(1)] get_put_len [OF pf(1)]
  let ?m' = "mach_write_to_4 (put_addr (put_addr m (a + 6) fil_addr_null) (base + 10) (node_addr pool a)) base
    (flst_get_len m base - of_nat (length ys))"
  have L: "unat (flst_get_len m base - of_nat (length ys)) = Suc (length xs)"
    using rep_len_less [OF rep, of "length ys"] len by simp
  have ds: "distinct (xs @ a # ys)" using rep by (simp add: flst_rep_def)
  have "links pool ?m' fil_addr_null xs (node_addr pool a) = links pool m fil_addr_null xs (node_addr pool a)"
    by (rule links_cong) (use na(2) ds in \<open>auto simp: puts\<close>)
  moreover have "flst_get_prev_addr ?m' a = last_addr pool fil_addr_null xs" "flst_get_next_addr ?m' a = fil_addr_null"
    using rep na(2) by (simp_all add: puts flst_rep_def)
  moreover have "flst_get_first ?m' base = hd_addr pool (xs @ [a]) fil_addr_null" "flst_get_last ?m' base = node_addr pool a"
    using rep na(2) by (simp_all add: puts flst_rep_def)
  moreover have "places pool base (set (xs @ [a]))" using pl by (auto simp: places_def elim!: spread_mono)
  moreover have "unat (flst_get_len ?m' base) = Suc (length xs)" using L len by (simp add: put_len_same)
  ultimately show ?thesis using rep ds by (simp add: flst_rep_def)
qed

lemma truncate_end_runs:
  assumes P: "pool_ok pool" and rep: "flst_rep pool m base (xs @ a # ys)" and l: "mtr_logs mtr" and len: "length (xs @ a # ys) < 2 ^ 32"
  shows "\<exists>m'. runs pool (foot base (set (xs @ a # ys))) (m, mtr) (flst_truncate_end pool base a (of_nat (length ys)) (m, mtr)) m' \<and> flst_rep pool m' base (xs @ [a])"
proof (cases "ys = []")
  case True
  then show ?thesis using rep l by (auto simp: flst_truncate_end_def intro!: exI [of _ m] runs_ret)
next
  case False
  have W: "pool_wf pool" using P by (simp add: pool_ok_def)
  note pl = rep_places [OF rep]
  note pf = place_facts [OF pl]
  note na = place_nodes [OF P pl]
  note puts = get_put_node [OF pf(1)] get_put_base [OF pf(1)] get_put_len [OF pf(1)]
  have k: "of_nat (length ys) \<noteq> (0 :: ulint)"
  proof
    assume "of_nat (length ys) = (0 :: ulint)"
    then have "unat (of_nat (length ys) :: ulint) = 0" by simp
    then show False using False len by (simp add: unat_of_nat)
  qed
  have L: "unat (flst_get_len m base - of_nat (length ys)) < 2 ^ 32"
    using rep_len_less [OF rep, of "length ys"] len by simp
  have g: "flst_get_len (put_addr (put_addr m (a + 6) fil_addr_null) (base + 10) (node_addr pool a)) base = flst_get_len m base"
    using na(2) by (simp add: puts)
  let ?m2 = "put_addr (put_addr m (a + 6) fil_addr_null) (base + 10) (node_addr pool a)"
  let ?l = "flst_get_len m base - of_nat (length ys)"
  define F where "F = foot base (set (xs @ a # ys))"
  note A = na(1-4) [of a, simplified] pf(4,5) [folded F_def] pf(6,7) [of a, folded F_def, simplified]
  have wl: "runs pool F (?m2, mtr') (flst_write_len pool base ?l (?m2, mtr')) (mach_write_to_4 ?m2 base ?l)" if "mtr_logs mtr'" for mtr'
    unfolding F_def by (intro runs_write_len W pf(2) that L)
  have "runs pool F (m, mtr) (flst_truncate_end pool base a (of_nat (length ys)) (m, mtr)) (mach_write_to_4 ?m2 base ?l)"
    unfolding flst_truncate_end_def
    using k g wl by (simp add: flst_layout A) (intro runs_write_addr; simp add: A W l)
  note this [unfolded F_def]
  with cut_rep [OF P rep len] show ?thesis by blast
qed

text \<open>The page of the node before must not be the number that is the offset of the node.\<close>

lemma cut_end_runs:
  assumes P: "pool_ok pool" and rep: "flst_rep pool m base (xs @ a # n # ys)" and l: "mtr_logs mtr" and len: "length (xs @ a # n # ys) < 2 ^ 32"
    and co: "fa_page (node_addr pool a) = fa_boffset (node_addr pool n) \<Longrightarrow> fa_page (node_addr pool a) = fa_page (node_addr pool n)"
  shows "\<exists>m'. runs pool (foot base (set (xs @ a # n # ys))) (m, mtr) (flst_cut_end pool base n (of_nat (length (n # ys))) (m, mtr)) m' \<and> flst_rep pool m' base (xs @ [a])"
proof -
  have W: "pool_wf pool" using P by (simp add: pool_ok_def)
  note pl = rep_places [OF rep]
  note pf = place_facts [OF pl]
  note na = place_nodes [OF P pl]
  note puts = get_put_node [OF pf(1)] get_put_base [OF pf(1)] get_put_len [OF pf(1)]
  have nr: "near_node pool 0 (fa_page (node_addr pool a) = fa_boffset (node_addr pool n)) n (node_addr pool a) = Some a"
    using na(4) [of a] na(5) [of a n] co by (cases "fa_page (node_addr pool a) = fa_boffset (node_addr pool n)") (auto simp: near_node_def)
  have L: "unat (flst_get_len m base - of_nat (length (n # ys))) < 2 ^ 32"
    using rep_len_less [OF rep, of "length (n # ys)"] len by simp
  have pn: "flst_get_prev_addr m n = node_addr pool a" using rep by (simp add: flst_rep_def)
  have g: "flst_get_len (put_addr (put_addr m (a + 6) fil_addr_null) (base + 10) (node_addr pool a)) base = flst_get_len m base"
    using na(2) by (simp add: puts)
  let ?m2 = "put_addr (put_addr m (a + 6) fil_addr_null) (base + 10) (node_addr pool a)"
  let ?l = "flst_get_len m base - of_nat (length (n # ys))"
  define F where "F = foot base (set (xs @ a # n # ys))"
  note A = na(1-4) [of a, simplified] na(1-4) [of n, simplified] pf(4,5) [folded F_def] pf(6,7) [of a, folded F_def, simplified]
  have wl: "runs pool F (?m2, mtr') (flst_write_len pool base ?l (?m2, mtr')) (mach_write_to_4 ?m2 base ?l)" if "mtr_logs mtr'" for mtr'
    unfolding F_def by (intro runs_write_len W pf(2) that L)
  have "runs pool F (m, mtr) (flst_cut_end pool base n (of_nat (length (n # ys))) (m, mtr)) (mach_write_to_4 ?m2 base ?l)"
    unfolding flst_cut_end_def
    using g wl by (simp add: flst_layout A pn nr del: of_nat_Suc) (intro runs_write_addr; simp add: A W l)
  note this [unfolded F_def]
  with cut_rep [OF P rep len] show ?thesis by blast
qed

lemma walk_next:
  assumes P: "pool_ok pool" and U: "\<And>x. x \<in> set xs \<Longrightarrow> in_page pool 12 x"
  shows "links pool m a xs fil_addr_null \<Longrightarrow> flst_walk pool 0 FLST_NEXT m (length xs) (hd_addr pool xs fil_addr_null) = Some fil_addr_null"
  using U
proof (induction xs arbitrary: a)
  case (Cons x xs)
  then show ?case using node_facts(4) [OF P, of x] by (auto simp: flst_get_next_addr_def)
qed simp

lemma walk_prev:
  assumes P: "pool_ok pool" and U: "\<And>x. x \<in> set xs \<Longrightarrow> in_page pool 12 x"
  shows "links pool m fil_addr_null xs z \<Longrightarrow> flst_walk pool 0 FLST_PREV m (length xs) (last_addr pool fil_addr_null xs) = Some fil_addr_null"
  using U
proof (induction xs arbitrary: z rule: rev_induct)
  case (snoc x xs)
  then show ?case using node_facts(4) [OF P, of x] by (auto simp: flst_get_prev_addr_def)
qed simp

lemma validate_rep:
  assumes P: "pool_ok pool" and rep: "flst_rep pool m base ns"
  shows "flst_validate pool base m = Some True"
proof -
  have U: "in_page pool 12 x" if "x \<in> set ns" for x using place_facts(3) [OF rep_places [OF rep] that] .
  have "in_page pool 16 base" using place_facts(2) [OF rep_places [OF rep]] .
  then have "buf_ptr_get_fsp_addr pool base = Some (0, node_addr pool base)" by (rule node_addr_get [OF P]) simp
  moreover have "links pool m fil_addr_null ns fil_addr_null" "unat (flst_get_len m base) = length ns"
    "flst_get_first m base = hd_addr pool ns fil_addr_null" "flst_get_last m base = last_addr pool fil_addr_null ns"
    using rep by (simp_all add: flst_rep_def)
  ultimately show ?thesis
    using walk_next [OF P U] walk_prev [OF P U] by (simp add: flst_validate_def)
qed

lemma init_runs:
  assumes P: "pool_ok pool" and pl: "places pool base {}" and l: "mtr_logs mtr"
  shows "\<exists>m'. runs pool (foot base {}) (m, mtr) (flst_init pool base (m, mtr)) m' \<and> flst_rep pool m' base []"
proof -
  have W: "pool_wf pool" using P by (simp add: pool_ok_def)
  note pf = place_facts [OF pl]
  let ?m1 = "mach_write_to_4 m base 0"
  let ?m' = "put_addr (put_addr ?m1 (base + 4) fil_addr_null) (base + 10) fil_addr_null"
  have "runs pool (foot base {}) (m, mtr) (flst_init pool base (m, mtr)) ?m'"
    unfolding flst_init_def
    by (rule runs_bind [OF runs_write_len [OF W pf(2) l]])
      (use W pf in \<open>auto simp: flst_layout intro!: runs_write_addr runs_put_addr\<close>)
  moreover have "flst_rep pool ?m' base []"
    using pl by (simp add: flst_rep_def get_put_base [OF pf(1)] put_len_same)
  ultimately show ?thesis by blast
qed

end
