(* ===== verification/Fut_Properties.thy ===== *)
theory Fut_Properties
  imports Fut_Rep
begin

text \<open>The operations on file lists refine those on lists of nodes, apart from the removal of the first node.\<close>

section \<open>Operations on lists\<close>

datatype flst_op = Add_first ptr | Add_last ptr | Insert_after ptr ptr | Insert_before ptr ptr | Remove ptr
  | Cut_end ptr nat | Truncate_end ptr nat

fun flst_exec :: "buf_pool \<Rightarrow> ptr \<Rightarrow> flst_op \<Rightarrow> mem \<times> mtr \<Rightarrow> (mem \<times> mtr) option" where
  "flst_exec pool base (Add_first n) st = flst_add_first pool base n st"
| "flst_exec pool base (Add_last n) st = flst_add_last pool base n st"
| "flst_exec pool base (Insert_after a n) st = flst_insert_after pool base a n st"
| "flst_exec pool base (Insert_before n b) st = flst_insert_before pool base n b st"
| "flst_exec pool base (Remove n) st = flst_remove pool base n st"
| "flst_exec pool base (Cut_end n k) st = flst_cut_end pool base n (of_nat k) st"
| "flst_exec pool base (Truncate_end n k) st = flst_truncate_end pool base n (of_nat k) st"

text \<open>What the operations mean for the list of the nodes.\<close>

fun flst_abs :: "flst_op \<Rightarrow> ptr list \<Rightarrow> ptr list" where
  "flst_abs (Add_first n) ns = n # ns"
| "flst_abs (Add_last n) ns = ns @ [n]"
| "flst_abs (Insert_after a n) ns = takeWhile (\<lambda>x. x \<noteq> a) ns @ a # n # tl (dropWhile (\<lambda>x. x \<noteq> a) ns)"
| "flst_abs (Insert_before n b) ns = takeWhile (\<lambda>x. x \<noteq> b) ns @ n # dropWhile (\<lambda>x. x \<noteq> b) ns"
| "flst_abs (Remove n) ns = remove1 n ns"
| "flst_abs (Cut_end n k) ns = take (length ns - k) ns"
| "flst_abs (Truncate_end n k) ns = take (length ns - k) ns"

fun flst_new :: "flst_op \<Rightarrow> ptr set" where
  "flst_new (Add_first n) = {n}"
| "flst_new (Add_last n) = {n}"
| "flst_new (Insert_after a n) = {n}"
| "flst_new (Insert_before n b) = {n}"
| "flst_new _ = {}"

text \<open>
  The calls that the list is made for: a new node is no member, another one is; the number of nodes
  that are cut is right. The first node is not removed or cut, and the node before a cut is not taken for
  one of the same page because its page number is the offset of the other.
\<close>

fun flst_call_ok :: "buf_pool \<Rightarrow> flst_op \<Rightarrow> ptr list \<Rightarrow> bool" where
  "flst_call_ok pool (Add_first n) ns \<longleftrightarrow> True"
| "flst_call_ok pool (Add_last n) ns \<longleftrightarrow> True"
| "flst_call_ok pool (Insert_after a n) ns \<longleftrightarrow> a \<in> set ns"
| "flst_call_ok pool (Insert_before n b) ns \<longleftrightarrow> b \<in> set ns"
| "flst_call_ok pool (Remove n) ns \<longleftrightarrow> n \<in> set (tl ns)"
| "flst_call_ok pool (Cut_end n k) ns \<longleftrightarrow> 0 < k \<and> k < length ns \<and> n = ns ! (length ns - k)
     \<and> (let a = ns ! (length ns - k - 1) in fa_page (node_addr pool a) = fa_boffset (node_addr pool n)
         \<longrightarrow> fa_page (node_addr pool a) = fa_page (node_addr pool n))"
| "flst_call_ok pool (Truncate_end n k) ns \<longleftrightarrow> k < length ns \<and> n = ns ! (length ns - k - 1)"

lemma split_at:
  assumes "x \<in> set ns"
  shows "ns = takeWhile (\<lambda>y. y \<noteq> x) ns @ x # tl (dropWhile (\<lambda>y. y \<noteq> x) ns)"
    "dropWhile (\<lambda>y. y \<noteq> x) ns = x # tl (dropWhile (\<lambda>y. y \<noteq> x) ns)"
proof -
  show d: "dropWhile (\<lambda>y. y \<noteq> x) ns = x # tl (dropWhile (\<lambda>y. y \<noteq> x) ns)" using assms by (induction ns) auto
  show "ns = takeWhile (\<lambda>y. y \<noteq> x) ns @ x # tl (dropWhile (\<lambda>y. y \<noteq> x) ns)"
    using takeWhile_dropWhile_id [of "\<lambda>y. y \<noteq> x" ns] d by simp
qed

lemma flst_exec_runs:
  assumes P: "pool_ok pool" and l: "mtr_logs mtr" and rep: "flst_rep pool m base ns" and len: "length ns < 2 ^ 32 - 1"
    and pl: "places pool base (flst_new opn \<union> set ns)" and fr: "flst_new opn \<inter> set ns = {}" and ok: "flst_call_ok pool opn ns"
  shows "\<exists>m'. runs pool (foot base (flst_new opn \<union> set ns)) (m, mtr) (flst_exec pool base opn (m, mtr)) m'
    \<and> flst_rep pool m' base (flst_abs opn ns)"
proof (cases opn)
  case (Add_first n)
  then show ?thesis using add_first_runs [OF P rep, of n mtr] pl fr l len by simp
next
  case (Add_last n)
  then show ?thesis using add_last_runs [OF P rep, of n mtr] pl fr l len by simp
next
  case (Insert_after a n)
  then have "a \<in> set ns" using ok by simp
  note s = split_at [OF this]
  show ?thesis
    using insert_after_runs [of pool m base "takeWhile (\<lambda>x. x \<noteq> a) ns" a "tl (dropWhile (\<lambda>x. x \<noteq> a) ns)" n mtr, folded s(1)]
      P rep pl fr l len Insert_after by simp
next
  case (Insert_before n b)
  then have "b \<in> set ns" using ok by simp
  note s = split_at [OF this]
  show ?thesis
    using insert_before_runs [of pool m base "takeWhile (\<lambda>x. x \<noteq> b) ns" b "tl (dropWhile (\<lambda>x. x \<noteq> b) ns)" n mtr, folded s(1), folded s(2)]
      P rep pl fr l len Insert_before by simp
next
  case (Remove n)
  then have "n \<in> set (tl ns)" using ok by simp
  then obtain xs ys where t: "tl ns = xs @ n # ys" by (meson split_list)
  then obtain h where ns: "ns = h # xs @ n # ys" by (cases ns) auto
  obtain xs' a where a: "h # xs = xs' @ [a]" by (cases "h # xs" rule: rev_cases) auto
  then have ns': "ns = xs' @ a # n # ys" using ns by (metis append_Cons append_Nil append_assoc)
  have "distinct ns" using rep by (simp add: flst_rep_def)
  then have r: "remove1 n (xs' @ a # n # ys) = xs' @ a # ys" unfolding ns' by (auto simp: remove1_append)
  show ?thesis using remove_runs [OF P rep [unfolded ns'] l] len by (simp add: Remove r ns')
next
  case (Cut_end n k)
  define i where "i = length ns - k - 1"
  have i: "Suc i < length ns" "n = ns ! Suc i" "k = length (n # drop (Suc (Suc i)) ns)" "length ns - k = Suc i"
    using ok Cut_end by (auto simp: i_def Suc_diff_Suc)
  have co: "fa_page (node_addr pool (ns ! i)) = fa_boffset (node_addr pool n) \<longrightarrow> fa_page (node_addr pool (ns ! i)) = fa_page (node_addr pool n)"
    using ok unfolding Cut_end by (auto simp: i_def Let_def)
  have ns: "ns = take i ns @ ns ! i # n # drop (Suc (Suc i)) ns"
    using id_take_nth_drop [of i ns] i(1,2) Cons_nth_drop_Suc [of "Suc i" ns] by simp
  have t: "take (Suc i) ns = take i ns @ [ns ! i]" using i(1) by (simp add: take_Suc_conv_app_nth)
  show ?thesis
    using cut_end_runs [of pool m base "take i ns" "ns ! i" n "drop (Suc (Suc i)) ns" mtr, folded ns i(3)] P rep l len co
    by (simp add: Cut_end i(4) t del: length_Cons)
next
  case (Truncate_end n k)
  define i where "i = length ns - k - 1"
  have i: "i < length ns" "n = ns ! i" "k = length (drop (Suc i) ns)" "length ns - k = Suc i"
    using ok Truncate_end by (auto simp: i_def)
  have ns: "ns = take i ns @ n # drop (Suc i) ns" using id_take_nth_drop [of i ns] i(1,2) by simp
  have t: "take (Suc i) ns = take i ns @ [n]" using i(1,2) by (simp add: take_Suc_conv_app_nth)
  show ?thesis
    using truncate_end_runs [of pool m base "take i ns" n "drop (Suc i) ns" mtr, folded ns i(3)] P rep l len
    by (simp add: Truncate_end i(4) t)
qed

section \<open>Properties\<close>


text \<open>A pool of two pages, with the base and two nodes on them.\<close>

definition pool2 :: buf_pool where
  "pool2 = \<lparr>frame_zero = 16384, high_end = 49152,
     blocks = [\<lparr>space = 0, page_no = 7, frame = 16384\<rparr>, \<lparr>space = 0, page_no = 9, frame = 32768\<rparr>]\<rparr>"

lemma pool2_ok: "pool_ok pool2"
  by (auto simp: pool_ok_def pool_wf_def pool2_def UNIV_PAGE_SIZE_def less_Suc_eq)

lemma pool2_places: "U \<subseteq> {16600, 33000} \<Longrightarrow> places pool2 16400 U"
proof -
  assume U: "U \<subseteq> {16600, 33000}"
  have "in_page pool2 16 16400" "in_page pool2 12 16600" "in_page pool2 12 33000"
    by (auto simp: in_page_def pool2_def loggable_def UNIV_PAGE_SIZE_def)
  moreover have "spread 16400 {16600, 33000}" by (auto simp: spread_def)
  ultimately show ?thesis using U by (auto simp: places_def flst_layout elim: spread_mono)
qed


text \<open>C35. Removing the first node spoils the list. The address of the next node is written two bytes behind the place of
the first address. Where page numbers fit in two bytes, the base then points to page 0, at an offset that
is the number of the next node's page.\<close>

theorem flst_remove_first_breaks:
  assumes "pool_ok pool" "mtr_logs mtr" "flst_rep pool m base (n # a # ns)" "length ns < 2 ^ 32 - 2"
    and "unat (fa_page (node_addr pool n)) < 2 ^ 16" "unat (fa_page (node_addr pool a)) < 2 ^ 16" "fa_page (node_addr pool a) \<noteq> 0"
  shows "\<exists>m' mtr'. flst_remove pool base n (m, mtr) = Some (m', mtr')
    \<and> flst_get_first m' base = \<lparr>fa_page = 0, fa_boffset = fa_page (node_addr pool a)\<rparr> \<and> \<not> flst_rep pool m' base (a # ns)"
proof -
  have W: "pool_wf pool" using assms(1) by (simp add: pool_ok_def)
  note pl = rep_places [OF assms(3)]
  note pf = place_facts [OF pl]
  note na = place_nodes [OF assms(1) pl]
  let ?A = "node_addr pool a"
  have pn: "flst_get_prev_addr m n = fil_addr_null" "flst_get_next_addr m n = ?A" "flst_get_first m base = node_addr pool n"
    using assms(3) by (simp_all add: flst_rep_def)
  have pb: "in_page pool 6 (base + 6)" using in_page_mono [OF pf(2), of 6 6] by simp
  have ap: "base + 16 \<le> a \<or> a + 12 \<le> base" by (rule apart(1) [OF pf(1)]) simp
  let ?m2 = "put_addr (put_addr m (base + 6) ?A) a fil_addr_null"
  define l where "l = flst_get_len ?m2 base - 1"
  let ?m' = "mach_write_to_4 ?m2 base l"
  have gl: "flst_get_len ?m2 base = flst_get_len m base"
  proof -
    have "flst_get_len (put_addr m1 a fil_addr_null) base = flst_get_len m1 base" for m1
      by (rule put_addr_len) (use ap in linarith)
    then show ?thesis by (simp add: put_addr_len)
  qed
  have ll: "unat l < 2 ^ 32" using rep_len_less [OF assms(3), of 1] assms(4) by (simp add: l_def gl)
  obtain mtr1 where 1: "flst_write_addr pool (base + 6) ?A (m, mtr) = Some (put_addr m (base + 6) ?A, mtr1)" "mtr_logs mtr1"
    using write_addr_runs [OF W pb na(2) assms(2), of a m] by auto
  have "in_page pool 6 a" using pf(6) [of a] by (simp add: spot_def)
  from write_addr_runs [OF W this _ 1(2), of fil_addr_null "put_addr m (base + 6) ?A"]
  obtain mtr2 where 2: "flst_write_addr pool a fil_addr_null (put_addr m (base + 6) ?A, mtr1) = Some (?m2, mtr2)" "mtr_logs mtr2" by auto
  from runs_write_len [OF W pf(2) 2(2) ll, of "{}" ?m2]
  obtain mtr3 where 3: "flst_write_len pool base l (?m2, mtr2) = Some (?m', mtr3)" by (auto simp: runs_def)
  have "flst_remove pool base n (m, mtr) = Some (?m', mtr3)"
    unfolding flst_remove_def
    using 1(1) 2(1) 3 na(1) [of n] na(3) [of a] na(5) [of a n] pn by (simp add: flst_layout l_def [symmetric])
  moreover have first: "flst_get_first ?m' base = \<lparr>fa_page = 0, fa_boffset = fa_page ?A\<rparr>"
  proof -
    have "unat (mach_read_from_4 m (base + 4)) < 2 ^ 16"
      using pn(3) assms(5) by (simp add: flst_get_first_def flst_layout read_addr_parts flip: pn(3))
    then have z: "unat (m (base + 4)) = 0" "unat (m (Suc (base + 4))) = 0" by (simp_all add: unat_read_4)
    have fr: "put_addr m1 a fil_addr_null i = m1 i" if "base \<le> i" "i < base + 16" for m1 i
      by (rule put_addr_frame) (use ap that in linarith)
    have old: "?m' (base + 4) = m (base + 4)" "?m' (base + 5) = m (base + 5)"
      by (simp_all add: put_len_frame fr put_addr_frame [of _ "base + 6"])
    have new: "?m' i = mach_write_to_4 m (base + 6) (fa_page ?A) i" if "base + 6 \<le> i" "i < base + 10" for i
    proof -
      have "?m' i = put_addr m (base + 6) ?A i" using that by (simp add: put_len_frame fr)
      then show ?thesis using that by (simp add: put_addr_def mach_write_to_2_def)
    qed
    have b: "unat (?m' (base + 6)) = 0" "unat (?m' (base + 7)) = 0"
       "unat (?m' (base + 8)) = unat (fa_page ?A) div 256 mod 256" "unat (?m' (base + 9)) = unat (fa_page ?A) mod 256"
      using assms(6) by (simp_all add: new, simp_all add: mach_write_to_4_def unat_simps)
    have "unat (mach_read_from_4 ?m' (base + 4)) = 0"
      using old b z by (simp add: unat_read_4 add.commute [of base])
    moreover have "unat (mach_read_from_2 ?m' (base + 8)) = unat (fa_page ?A)"
      using b assms(6) by (simp add: unat_read_2 add.commute [of base])
    ultimately have "mach_read_from_4 ?m' (base + 4) = 0" "mach_read_from_2 ?m' (base + 8) = fa_page ?A"
      by (simp_all only: unat_eq_0 word_unat_eq_iff [of "mach_read_from_2 _ _"])
    then show ?thesis by (simp add: flst_get_first_def flst_layout read_addr_parts add.commute [of base])
  qed
  moreover have "\<not> flst_rep pool ?m' base (a # ns)"
  proof
    assume "flst_rep pool ?m' base (a # ns)"
    then have "flst_get_first ?m' base = ?A" by (simp add: flst_rep_def)
    with first assms(7) show False by (metis fil_addr.select_convs(1))
  qed
  ultimately show ?thesis by blast
qed

lemma flst_remove_first_breaks_witness:
  "\<exists>m mtr m' mtr'. flst_rep pool2 m 16400 [33000, 16600] \<and> flst_remove pool2 16400 33000 (m, mtr) = Some (m', mtr')
    \<and> flst_get_first m' 16400 = \<lparr>fa_page = 0, fa_boffset = 7\<rparr>"
proof -
  have l: "mtr_logs mtr_start" by (rule pool1(5))
  obtain m0 mtr0 where 0: "mtr_logs mtr0" "flst_rep pool2 m0 16400 []"
    using init_runs [OF pool2_ok pool2_places l, of "\<lambda>_. 0"] by (auto simp: runs_def did_def)
  obtain m1 where 1: "runs pool2 (foot 16400 {16600}) (m0, mtr0) (flst_add_last pool2 16400 16600 (m0, mtr0)) m1"
    "flst_rep pool2 m1 16400 [16600]"
    using add_last_runs [OF pool2_ok 0(2), of 16600 mtr0] pool2_places [of "{16600}"] 0(1) by auto
  then obtain mtr1 where l1: "mtr_logs mtr1" by (auto simp: runs_def did_def)
  have "places pool2 16400 (insert 33000 (set [16600]))" using pool2_places [of "{16600, 33000}"] by (simp add: insert_commute)
  from add_first_runs [OF pool2_ok 1(2) this _ l1]
  obtain m2 where 2: "runs pool2 (foot 16400 {33000, 16600}) (m1, mtr1) (flst_add_first pool2 16400 33000 (m1, mtr1)) m2"
    "flst_rep pool2 m2 16400 [33000, 16600]" by auto
  then obtain mtr2 where l2: "mtr_logs mtr2" by (auto simp: runs_def did_def)
  have n: "node_addr pool2 33000 = \<lparr>fa_page = 9, fa_boffset = 232\<rparr>" "node_addr pool2 16600 = \<lparr>fa_page = 7, fa_boffset = 216\<rparr>"
    by (simp_all add: node_addr_def buf_ptr_get_fsp_addr_def buf_block_align_def buf_frame_align_def pool2_def UNIV_PAGE_SIZE_def
        UNIV_PAGE_SIZE_SHIFT_def ut_align_down_def)
  from flst_remove_first_breaks [OF pool2_ok l2 2(2)] 2(2) show ?thesis by (auto simp: n)
qed

end
