(* ===== verification/Rudp_Ccc.thy ===== *)
theory Rudp_Ccc
  imports Inno_Prelude
begin

text \<open>
  \<open>common/rudp/rudp_ccc.h\<close> and \<open>.cpp\<close>: the congestion control of a connection. The window grows
  with the acknowledged packets in slow start, by half afterwards, and shrinks on losses. The
  code scales it with \<open>double\<close> factors and \<open>ceil\<close>: for a 32 bit value \<open>ceil (x * 1.5)\<close> is
  \<open>(3 x + 1) div 2\<close>, and \<open>ceil (x / 1.125)\<close> and \<open>ceil (x / 1.25)\<close> are \<open>(8 x + 8) div 9\<close> and
  \<open>(4 x + 4) div 5\<close>, since a quotient that is not an integer is at least 1/9 away from one, more
  than the rounding error.
\<close>

section \<open>State\<close>

definition DEFAULT_CWND_SIZE :: u32 where "DEFAULT_CWND_SIZE = 16"
definition MIN_CWND_SIZE :: u32 where "MIN_CWND_SIZE = 16"
definition DEFAULT_RTT :: u32 where "DEFAULT_RTT = 50"

record ccc =
  snd_cwnd :: u32
  rtt :: u32
  rtt_var :: u32
  last_ack_id :: u64
  prev_on_ts :: u64
  slow_start :: bool
  loss_flag :: bool
  rtt_first :: bool
  resend_count :: u32
  max_cwnd :: u16
  print_count :: u32

definition ccc_reset :: ccc where
  "ccc_reset = \<lparr>snd_cwnd = DEFAULT_CWND_SIZE, rtt = DEFAULT_RTT, rtt_var = DEFAULT_RTT div 2,
     last_ack_id = 0, prev_on_ts = 0, slow_start = True, loss_flag = False, rtt_first = True,
     resend_count = 0, max_cwnd = ucast DEFAULT_CWND_SIZE, print_count = 0\<rparr>"

definition ccc_init :: "u64 \<Rightarrow> u64 \<Rightarrow> ccc" where
  "ccc_init last_ack now = ccc_reset\<lparr>last_ack_id := last_ack, prev_on_ts := now\<rparr>"

definition add_resend :: "ccc \<Rightarrow> ccc" where
  "add_resend c = c\<lparr>resend_count := resend_count c + 1\<rparr>"

section \<open>Operations\<close>

definition ccc_on_ack :: "u64 \<Rightarrow> ccc \<Rightarrow> ccc" where
  "ccc_on_ack ack_seq c =
     (if ack_seq \<le> last_ack_id c then c
      else
        let c = (if slow_start c then
                   let c = c\<lparr>snd_cwnd := snd_cwnd c + ucast (ack_seq - last_ack_id c)\<rparr> in
                   if snd_cwnd c \<ge> ucast (max_cwnd c)
                   then c\<lparr>slow_start := False, snd_cwnd := ucast (max_cwnd c)\<rparr> else c
                 else if loss_flag c then c\<lparr>loss_flag := False\<rparr>
                 else
                   let w = of_nat ((3 * unat (snd_cwnd c) + 1) div 2) :: u32
                   in c\<lparr>snd_cwnd := (if ucast (max_cwnd c) < w then ucast (max_cwnd c) else w)\<rparr>)
        in c\<lparr>last_ack_id := ack_seq\<rparr>)"

definition shrink_8_9 :: "u32 \<Rightarrow> u32" where
  "shrink_8_9 w = of_nat ((8 * unat w + 8) div 9)"

definition shrink_4_5 :: "u32 \<Rightarrow> u32" where
  "shrink_4_5 w = of_nat ((4 * unat w + 4) div 5)"

definition ccc_on_loss :: "u64 \<Rightarrow> u16 list \<Rightarrow> ccc \<Rightarrow> ccc" where
  "ccc_on_loss base_seq loss_ids c =
     (let c = c\<lparr>slow_start := False, loss_flag := True\<rparr> in
      if loss_ids \<noteq> [] \<and> last_ack_id c < base_seq + ucast (last loss_ids)
      then let w = shrink_8_9 (snd_cwnd c)
           in c\<lparr>snd_cwnd := (if MIN_CWND_SIZE > w then MIN_CWND_SIZE else w)\<rparr>
      else c)"

definition set_max_cwnd :: "u32 \<Rightarrow> ccc \<Rightarrow> ccc" where
  "set_max_cwnd r c =
     c\<lparr>max_cwnd := (if r < 10 then 2048 else if r < 50 then 6144 else if r < 100 then 8192 else 12288)\<rparr>"

definition ccc_on_timer :: "u64 \<Rightarrow> ccc \<Rightarrow> ccc" where
  "ccc_on_timer now c =
     (let delay = (if rtt c > 10 then 10 * rtt c else 100) in
      if now \<ge> prev_on_ts c + ucast delay then
        let c = c\<lparr>print_count := print_count c + 1\<rparr>;
            c = (if print_count c mod 10 = 0 then set_max_cwnd (rtt c) c else c);
            c = (if slow_start c then (if print_count c > 1 then c\<lparr>slow_start := False\<rparr> else c)
                 else
                   let limit = (if snd_cwnd c div 8 > 8 then snd_cwnd c div 8 else 8);
                       c = (if resend_count c > limit
                            then let w = shrink_4_5 (snd_cwnd c)
                                 in c\<lparr>snd_cwnd := (if MIN_CWND_SIZE > w then MIN_CWND_SIZE else w)\<rparr>
                            else c)
                   in c\<lparr>resend_count := 0\<rparr>)
        in c\<lparr>prev_on_ts := now\<rparr>
      else c)"

definition ccc_set_rtt :: "u32 \<Rightarrow> ccc \<Rightarrow> ccc" where
  "ccc_set_rtt r c =
     (let c = (if ucast (max_cwnd c) = DEFAULT_CWND_SIZE then set_max_cwnd r c else c);
          c = (if rtt_first c then c\<lparr>rtt_first := False, rtt := r, rtt_var := r div 2\<rparr>
               else
                 let diff = (if rtt c > r then rtt c - r else r - rtt c)
                 in c\<lparr>rtt_var := (rtt_var c * 3 + diff) div 4, rtt := (7 * rtt c + r) div 8\<rparr>);
          c = c\<lparr>rtt := (if 5 > rtt c then 5 else rtt c)\<rparr>
      in c\<lparr>rtt_var := (if 3 > rtt_var c then 3 else rtt_var c)\<rparr>)"

section \<open>Bounds\<close>

definition ccc_inv :: "ccc \<Rightarrow> bool" where
  "ccc_inv c \<longleftrightarrow> 16 \<le> unat (snd_cwnd c) \<and> unat (snd_cwnd c) \<le> 12288
     \<and> 16 \<le> unat (max_cwnd c) \<and> unat (max_cwnd c) \<le> 12288
     \<and> 5 \<le> unat (rtt c) \<and> 3 \<le> unat (rtt_var c)"

datatype ccc_op = Ack u64 | Loss u64 "u16 list" | Timer u64 | Rtt u32 | Resend

fun ccc_step :: "ccc_op \<Rightarrow> ccc \<Rightarrow> ccc" where
  "ccc_step (Ack a) c = ccc_on_ack a c"
| "ccc_step (Loss b ids) c = ccc_on_loss b ids c"
| "ccc_step (Timer t) c = ccc_on_timer t c"
| "ccc_step (Rtt r) c = ccc_set_rtt r c"
| "ccc_step Resend c = add_resend c"

text \<open>An acknowledgement advances by less than \<open>2^31\<close> packets.\<close>

fun ack_near :: "ccc_op \<Rightarrow> ccc \<Rightarrow> bool" where
  "ack_near (Ack a) c = (unat (a - last_ack_id c) < 2 ^ 31)"
| "ack_near _ c = True"

fun acks_near :: "ccc_op list \<Rightarrow> ccc \<Rightarrow> bool" where
  "acks_near [] c = True"
| "acks_near (op # ops) c = (ack_near op c \<and> acks_near ops (ccc_step op c))"

lemma ucast_max: "unat (ucast (m :: u16) :: u32) = unat m"
proof -
  show ?thesis using unat_u16_less [of m] by (simp add: unsigned_ucast_eq nat_bits)
qed

lemma on_ack_inv:
  assumes "ccc_inv c" "ack_near (Ack a) c"
  shows "ccc_inv (ccc_on_ack a c)"
proof -
  let ?d = "ucast (a - last_ack_id c) :: u32"
  have "unat ?d = unat (a - last_ack_id c)"
    using assms(2) by (simp add: unsigned_ucast_eq nat_bits)
  then have s: "unat (snd_cwnd c + ?d) = unat (snd_cwnd c) + unat ?d"
    using assms by (intro unat_plus) (simp add: ccc_inv_def)
  have "unat (snd_cwnd c) \<le> 12288" using assms(1) by (simp add: ccc_inv_def)
  then have "(3 * unat (snd_cwnd c) + 1) div 2 < 2 ^ 32" by (simp add: div_less_iff_less_mult)
  then have w: "unat (of_nat ((3 * unat (snd_cwnd c) + 1) div 2) :: u32) = (3 * unat (snd_cwnd c) + 1) div 2"
    by (simp add: unat_of_nat)
  show ?thesis
    using assms(1) s w
    by (auto simp: ccc_on_ack_def ccc_inv_def Let_def word_le_nat_alt word_less_nat_alt ucast_max)
qed

lemma shrink_le:
  assumes "16 \<le> unat w"
  shows "unat (shrink_8_9 w) \<le> unat w" "unat (shrink_4_5 w) \<le> unat w"
proof -
  have "unat w < 4294967296" by (rule unat_u32_less)
  with assms show "unat (shrink_8_9 w) \<le> unat w" "unat (shrink_4_5 w) \<le> unat w"
    by (simp_all add: shrink_8_9_def shrink_4_5_def unat_of_nat)
qed

lemma set_max_inv: "ccc_inv c \<Longrightarrow> ccc_inv (set_max_cwnd r c)"
  by (simp add: ccc_inv_def set_max_cwnd_def)

lemma on_loss_inv: "ccc_inv c \<Longrightarrow> ccc_inv (ccc_on_loss b ids c)"
  using shrink_le(1) [of "snd_cwnd c"]
  by (auto simp: ccc_on_loss_def ccc_inv_def Let_def MIN_CWND_SIZE_def word_less_nat_alt)

lemma on_timer_inv: "ccc_inv c \<Longrightarrow> ccc_inv (ccc_on_timer t c)"
  using shrink_le(2) [of "snd_cwnd c"]
  by (auto simp: ccc_on_timer_def ccc_inv_def set_max_cwnd_def Let_def MIN_CWND_SIZE_def
      word_less_nat_alt)

lemma set_rtt_inv: "ccc_inv c \<Longrightarrow> ccc_inv (ccc_set_rtt r c)"
  by (simp add: ccc_set_rtt_def ccc_inv_def set_max_cwnd_def Let_def word_less_nat_alt)

lemma ccc_step_inv: "ccc_inv c \<Longrightarrow> ack_near op c \<Longrightarrow> ccc_inv (ccc_step op c)"
proof (cases op)
  case Resend
  then show "ccc_inv c \<Longrightarrow> ?thesis" by (simp add: add_resend_def ccc_inv_def)
qed (simp_all add: on_ack_inv on_loss_inv on_timer_inv set_rtt_inv)

lemma init_inv: "ccc_inv (ccc_init a t)"
  by (simp add: ccc_init_def ccc_reset_def ccc_inv_def DEFAULT_CWND_SIZE_def DEFAULT_RTT_def)



text \<open>
  Without that bound the window can collapse: in slow start an acknowledgement that is
  \<open>2^32\<close> less the window ahead makes the window zero, since the 64 bit difference is cut to
  32 bits and the number is not compared with what was sent; later acknowledgements cannot
  raise it again.
\<close>

theorem rudp_cwnd_collapse:
  assumes "slow_start c" and "0 < snd_cwnd c" "0 < max_cwnd c"
    and "unat (last_ack_id c) + 2 ^ 32 < 2 ^ 64"
  shows "snd_cwnd (ccc_on_ack (last_ack_id c + (2 ^ 32 - ucast (snd_cwnd c))) c) = 0
    \<and> (\<forall>a c'. snd_cwnd c' = 0 \<and> \<not> slow_start c' \<longrightarrow> snd_cwnd (ccc_on_ack a c') = 0)"
proof -
  let ?w = "ucast (snd_cwnd c) :: u64"
  have w: "unat ?w = unat (snd_cwnd c)" "unat (snd_cwnd c) < 2 ^ 32" "0 < unat (snd_cwnd c)"
    using unat_u32_less [of "snd_cwnd c"] assms(2)
    by (simp_all add: unsigned_ucast_eq nat_bits word_less_nat_alt)
  have d: "unat (2 ^ 32 - ?w :: u64) = 2 ^ 32 - unat (snd_cwnd c)"
    using w by (subst unat_sub) (simp_all add: word_le_nat_alt)
  let ?a = "last_ack_id c + (2 ^ 32 - ?w)"
  have a: "unat ?a = unat (last_ack_id c) + (2 ^ 32 - unat (snd_cwnd c))"
    using assms(4) w d by (subst unat_plus) simp_all
  have "\<not> ?a \<le> last_ack_id c" using a w by (simp add: word_le_nat_alt)
  moreover have "snd_cwnd c + ucast (?a - last_ack_id c) = 0"
  proof -
    have "unat (ucast (2 ^ 32 - ?w) :: u32) = 2 ^ 32 - unat (snd_cwnd c)"
      using d w by (simp add: unsigned_ucast_eq nat_bits)
    then have "unat (snd_cwnd c + ucast (2 ^ 32 - ?w)) = 0"
      using w by (simp add: unat_word_ariths)
    then show ?thesis by (simp add: unat_eq_0)
  qed
  moreover have "\<not> ucast (max_cwnd c) \<le> (0 :: u32)"
    using assms(3) ucast_max [of "max_cwnd c"] by (simp add: word_le_nat_alt word_less_nat_alt)
  ultimately have "snd_cwnd (ccc_on_ack ?a c) = 0" using assms(1) by (simp add: ccc_on_ack_def Let_def)
  moreover have "snd_cwnd (ccc_on_ack a' c') = 0" if "snd_cwnd c' = 0" "\<not> slow_start c'" for a' c'
    using that by (auto simp: ccc_on_ack_def Let_def word_less_nat_alt)
  ultimately show ?thesis by blast
qed

theorem rudp_cwnd_collapse_witness:
  "snd_cwnd (ccc_on_ack (5 + (2 ^ 32 - ucast (16 :: u32))) (ccc_init 5 0)) = 0"
  using rudp_cwnd_collapse [of "ccc_init 5 0"]
  by (simp add: ccc_init_def ccc_reset_def DEFAULT_CWND_SIZE_def)

end
