(* ===== verification/Std_Map.thy ===== *)
theory Std_Map
  imports Main
begin

text \<open>
  \<open>std::map\<close> and \<open>std::set\<close> as the sources use them: an iteration visits the keys in increasing
  order, so a map is the list of its pairs in that order and a set the list of its elements.
  The locale states what the clients rely on.
\<close>

section \<open>The interface\<close>

locale ordered_map =
  fixes find :: "'m \<Rightarrow> 'k :: linorder \<Rightarrow> 'v option"
    and upd :: "'m \<Rightarrow> 'k \<Rightarrow> 'v \<Rightarrow> 'm"
    and del :: "'m \<Rightarrow> 'k \<Rightarrow> 'm"
    and pairs :: "'m \<Rightarrow> ('k \<times> 'v) list"
    and inv :: "'m \<Rightarrow> bool"
  assumes find_pairs: "inv m \<Longrightarrow> find m k = map_of (pairs m) k"
    and sorted_pairs: "inv m \<Longrightarrow> sorted_wrt (<) (map fst (pairs m))"
    and inv_upd: "inv m \<Longrightarrow> inv (upd m k v)"
    and inv_del: "inv m \<Longrightarrow> inv (del m k)"
    and find_upd: "inv m \<Longrightarrow> find (upd m k v) k' = (if k' = k then Some v else find m k')"
    and find_del: "inv m \<Longrightarrow> find (del m k) k' = (if k' = k then None else find m k')"
begin

lemma distinct_keys: "inv m \<Longrightarrow> distinct (map fst (pairs m))"
  using sorted_pairs [of m] by (simp add: strict_sorted_iff)

lemma find_iff: "inv m \<Longrightarrow> find m k = Some v \<longleftrightarrow> (k, v) \<in> set (pairs m)"
  by (simp add: find_pairs distinct_keys)

lemma set_pairs_upd:
  assumes "inv m"
  shows "set (pairs (upd m k v)) = insert (k, v) {p \<in> set (pairs m). fst p \<noteq> k}"
proof -
  have "(a, b) \<in> set (pairs (upd m k v)) \<longleftrightarrow> find (upd m k v) a = Some b" for a b
    using find_iff [OF inv_upd [OF assms]] by simp
  then show ?thesis by (auto simp: find_upd assms find_iff split: if_splits)
qed

lemma set_pairs_del:
  assumes "inv m"
  shows "set (pairs (del m k)) = {p \<in> set (pairs m). fst p \<noteq> k}"
proof -
  have "(a, b) \<in> set (pairs (del m k)) \<longleftrightarrow> find (del m k) a = Some b" for a b
    using find_iff [OF inv_del [OF assms]] by simp
  then show ?thesis by (auto simp: find_del assms find_iff split: if_splits)
qed

lemma first_key_least:
  "inv m \<Longrightarrow> pairs m = (k, v) # ps \<Longrightarrow> (k', v') \<in> set ps \<Longrightarrow> k < k'"
  using sorted_pairs [of m] by (auto simp: image_iff)

end

section \<open>Sorted association lists\<close>

definition smap_find :: "('k :: linorder \<times> 'v) list \<Rightarrow> 'k \<Rightarrow> 'v option" where
  "smap_find m k = map_of m k"

text \<open>\<open>operator[]\<close> on the left of an assignment.\<close>

fun smap_set :: "('k :: linorder \<times> 'v) list \<Rightarrow> 'k \<Rightarrow> 'v \<Rightarrow> ('k \<times> 'v) list" where
  "smap_set [] k v = [(k, v)]"
| "smap_set ((k', v') # m) k v =
     (if k < k' then (k, v) # (k', v') # m
      else if k = k' then (k, v) # m
      else (k', v') # smap_set m k v)"

text \<open>\<open>insert\<close>, which keeps an element that is there.\<close>

definition smap_insert :: "('k :: linorder \<times> 'v) list \<Rightarrow> 'k \<Rightarrow> 'v \<Rightarrow> ('k \<times> 'v) list" where
  "smap_insert m k v = (if smap_find m k = None then smap_set m k v else m)"

definition smap_erase :: "('k :: linorder \<times> 'v) list \<Rightarrow> 'k \<Rightarrow> ('k \<times> 'v) list" where
  "smap_erase m k = filter (\<lambda>p. fst p \<noteq> k) m"

definition smap_inv :: "('k :: linorder \<times> 'v) list \<Rightarrow> bool" where
  "smap_inv m \<longleftrightarrow> sorted_wrt (<) (map fst m)"

lemma smap_inv_Nil [simp]: "smap_inv []"
  by (simp add: smap_inv_def)

lemma smap_inv_Cons [simp]:
  "smap_inv ((k, v) # m) \<longleftrightarrow> (\<forall>p \<in> set m. k < fst p) \<and> smap_inv m"
  by (auto simp: smap_inv_def)

lemma set_smap_set_keys: "fst ` set (smap_set m k v) = insert k (fst ` set m)"
  by (induction m k v rule: smap_set.induct) auto

lemma smap_inv_set: "smap_inv m \<Longrightarrow> smap_inv (smap_set m k v)"
proof (induction m k v rule: smap_set.induct)
  case (2 k' v' m k v)
  have "k' < fst p" if "\<not> k < k'" "k \<noteq> k'" "p \<in> set (smap_set m k v)" for p
  proof -
    from that(3) have "fst p \<in> insert k (fst ` set m)" using set_smap_set_keys [of m k v] by blast
    with 2(2) that(1,2) show ?thesis by auto
  qed
  with 2 show ?case by auto
qed simp

lemma smap_set_length: "length (smap_set m k v) \<le> Suc (length m)"
  by (induction m k v rule: smap_set.induct) auto

lemma map_of_smap_set: "smap_inv m \<Longrightarrow> map_of (smap_set m k v) k' = (if k' = k then Some v else map_of m k')"
  by (induction m k v rule: smap_set.induct) auto

lemma map_of_smap_erase: "map_of (smap_erase m k) k' = (if k' = k then None else map_of m k')"
  by (induction m) (auto simp: smap_erase_def)

lemma smap_inv_filter: "smap_inv m \<Longrightarrow> smap_inv (filter P m)"
  by (induction m) auto

interpretation smap: ordered_map smap_find smap_set smap_erase "\<lambda>m. m" smap_inv
proof unfold_locales
  fix m :: "('k :: linorder \<times> 'v) list" and k k' v
  assume m: "smap_inv m"
  show "sorted_wrt (<) (map fst m)" using m by (simp add: smap_inv_def)
  show "smap_find (smap_set m k v) k' = (if k' = k then Some v else smap_find m k')"
    using m by (simp add: smap_find_def map_of_smap_set)
  show "smap_inv (smap_erase m k)" using m by (simp add: smap_erase_def smap_inv_filter)
qed (simp_all add: smap_find_def smap_inv_set map_of_smap_erase)

lemma smap_inv_drop: "smap_inv (p # m) \<Longrightarrow> smap_inv m"
  by (cases p) simp

section \<open>Sorted lists as sets\<close>

definition sset_insert :: "'k :: linorder \<Rightarrow> 'k list \<Rightarrow> 'k list" where
  "sset_insert k xs = (if k \<in> set xs then xs else insort k xs)"

definition sset_erase :: "'k :: linorder \<Rightarrow> 'k list \<Rightarrow> 'k list" where
  "sset_erase k xs = filter (\<lambda>x. x \<noteq> k) xs"

lemma set_sset [simp]:
  "set (sset_insert k xs) = insert k (set xs)" "set (sset_erase k xs) = set xs - {k}"
  by (auto simp: sset_insert_def sset_erase_def set_insort_key)

end
