(* ===== verification/Rudp_Send.thy ===== *)
theory Rudp_Send
  imports Rudp_Ccc Std_Map
begin

text \<open>
  \<open>common/rudp/rudp_send_buffer.h\<close> and \<open>.cpp\<close>: the send side of a connection. Data is cut into
  segments that wait in a list, move to the window when they are first sent, and leave it when
  they are acknowledged; lost ones are sent again from the window. The packets handed to the
  owning socket are events, in order. The clock is an argument. A segment is in one container
  at a time, so that the pointers of the code are values here.
\<close>

section \<open>State\<close>

definition DEFAULT_RUDP_SEND_BUFFSIZE :: "32 word" where "DEFAULT_RUDP_SEND_BUFFSIZE = 4096"
definition NAGLE_DELAY :: u64 where "NAGLE_DELAY = 100"
definition SEND_SEGMENT_SIZE :: nat where "SEND_SEGMENT_SIZE = 1408"

record send_segment =
  sseq :: u64
  push_ts :: u64
  last_send_ts :: u64
  send_count :: u16
  sdata :: "byte list"

record send_buffer =
  send_window :: "(u64 \<times> send_segment) list"
  loss_set :: "u64 list"
  send_data :: "send_segment list"
  buffer_size :: "32 word"
  buffer_data_size :: "32 word"
  buffer_seq :: u64
  cwnd_max_seq :: u64
  dest_max_seq :: u64
  nagle :: bool
  send_bandwidth :: u32
  send_bandwidth_ts :: u64

datatype send_event = Send_data u64 "byte list" | On_write

text \<open>The start number is \<open>rand () + 1\<close>.\<close>

definition send_reset :: "u64 \<Rightarrow> u64 \<Rightarrow> send_buffer" where
  "send_reset random now =
     \<lparr>send_window = [], loss_set = [], send_data = [], buffer_size = DEFAULT_RUDP_SEND_BUFFSIZE,
      buffer_data_size = 0, buffer_seq = random + 1, cwnd_max_seq = random + 1,
      dest_max_seq = random, nagle = False, send_bandwidth = 0, send_bandwidth_ts = now\<rparr>"

section \<open>Sending\<close>

text \<open>The resending of lost segments; the result has the losses that stay.\<close>

record resend_state =
  rwindow :: "(u64 \<times> send_segment) list"
  rsent :: u32
  rmax :: u64
  rlast_ts :: u64
  rlast_seq :: u64
  rccc :: ccc
  revents :: "send_event list"

definition resend_segment :: "u64 \<Rightarrow> u64 \<Rightarrow> send_segment \<Rightarrow> resend_state \<Rightarrow> resend_state" where
  "resend_segment k now seg r =
     r\<lparr>rwindow := smap_set (rwindow r) k (seg\<lparr>last_send_ts := now, send_count := send_count seg + 1\<rparr>),
       rsent := rsent r + 1,
       rmax := (if rmax r < sseq seg then sseq seg else rmax r),
       rccc := add_resend (rccc r),
       revents := revents r @ [Send_data (sseq seg) (sdata seg)]\<rparr>"

fun resend_losses :: "u32 \<Rightarrow> u32 \<Rightarrow> u64 \<Rightarrow> u64 list \<Rightarrow> resend_state \<Rightarrow> u64 list \<times> resend_state" where
  "resend_losses cwnd rt now [] r = ([], r)"
| "resend_losses cwnd rt now (k # ks) r =
     (if rsent r \<ge> cwnd then (k # ks, r)
      else case smap_find (rwindow r) k of
        None \<Rightarrow> (case resend_losses cwnd rt now ks r of (left, r) \<Rightarrow> (k # left, r))
      | Some seg \<Rightarrow>
          if last_send_ts seg + ucast rt < now then
            let r1 = resend_segment k now seg r;
                r2 = (if rlast_ts r < last_send_ts seg
                      then r1\<lparr>rlast_ts := last_send_ts seg,
                              rlast_seq := (if rlast_seq r < k then k else rlast_seq r)\<rparr>
                      else r1)
            in resend_losses cwnd rt now ks r2
          else (case resend_losses cwnd rt now ks r of (left, r) \<Rightarrow> (k # left, r)))"

text \<open>The times of the segments in the resent range that were not resent.\<close>

fun touch_window ::
    "u64 \<Rightarrow> u64 \<Rightarrow> u64 \<Rightarrow> (u64 \<times> send_segment) list \<Rightarrow> (u64 \<times> send_segment) list" where
  "touch_window lts lseq now [] = []"
| "touch_window lts lseq now ((k, seg) # w) =
     (if push_ts seg < lts \<and> lseq \<ge> k
      then (k, seg\<lparr>last_send_ts := now\<rparr>) # touch_window lts lseq now w
      else if lseq < k then (k, seg) # w
      else (k, seg) # touch_window lts lseq now w)"

definition rtt_threshold :: "u32 \<Rightarrow> u32" where
  "rtt_threshold rt =
     (let t = of_nat ((5 * unat rt + 3) div 4) :: u32 in if t > 30 then t else 30)"

text \<open>The resending of segments that timed out; the window is passed through with its updates.\<close>

fun resend_timeouts ::
    "u32 \<Rightarrow> u32 \<Rightarrow> u64 \<Rightarrow> u64 \<Rightarrow> (u64 \<times> send_segment) list \<Rightarrow> resend_state \<Rightarrow> resend_state" where
  "resend_timeouts cwnd th dest now [] r = r"
| "resend_timeouts cwnd th dest now ((k, seg) # w) r =
     (if rsent r \<ge> cwnd \<or> push_ts seg + ucast th > now then r
      else if last_send_ts seg + ucast th < now
              \<or> push_ts seg + ucast (th * 5) < now \<and> sseq seg < dest + 3
                \<and> last_send_ts seg + ucast (th div 2) < now
      then resend_timeouts cwnd th dest now w (resend_segment k now seg r)
      else resend_timeouts cwnd th dest now w r)"

text \<open>The sending of new segments: \<open>n\<close> is the size of the window.\<close>

fun send_new ::
    "u32 \<Rightarrow> bool \<Rightarrow> u64 \<Rightarrow> send_segment list \<Rightarrow> u32 \<Rightarrow> resend_state \<Rightarrow> send_segment list \<times> resend_state"
    where
  "send_new cwnd ng now [] n r = ([], r)"
| "send_new cwnd ng now (seg # q) n r =
     (if n > 0 \<and> ng \<and> push_ts seg + NAGLE_DELAY > now \<and> length (sdata seg) < SEND_SEGMENT_SIZE - 256
      then (seg # q, r)
      else if n < cwnd then
        let seg = seg\<lparr>push_ts := now, last_send_ts := now, send_count := 1\<rparr>;
            r = r\<lparr>rwindow := smap_insert (rwindow r) (sseq seg) seg,
                  rmax := (if rmax r < sseq seg then sseq seg else rmax r),
                  revents := revents r @ [Send_data (sseq seg) (sdata seg)]\<rparr>
        in send_new cwnd ng now q (n + 1) r
      else (seg # q, r))"

definition attempt_send :: "u64 \<Rightarrow> send_buffer \<Rightarrow> ccc \<Rightarrow> send_buffer \<times> ccc \<times> send_event list" where
  "attempt_send now b c =
     (let n = of_nat (length (send_window b)) :: u32;
          rt = rtt c;
          cwnd = snd_cwnd c;
          r = \<lparr>rwindow = send_window b, rsent = 0, rmax = cwnd_max_seq b, rlast_ts = 0,
               rlast_seq = 0, rccc = c, revents = []\<rparr>;
          (losses, r) =
            (if loss_set b \<noteq> [] then
               let (left, r) = resend_losses cwnd rt now (loss_set b) r
               in (left, r\<lparr>rwindow := touch_window (rlast_ts r) (rlast_seq r) now (rwindow r)\<rparr>)
             else if send_window b \<noteq> []
             then (loss_set b, resend_timeouts cwnd (rtt_threshold rt) (dest_max_seq b) now (send_window b) r)
             else (loss_set b, r));
          (q, r) = (if cwnd > rsent r then send_new cwnd (nagle b) now (send_data b) n r
                    else (send_data b, r))
      in (b\<lparr>send_window := rwindow r, loss_set := losses, send_data := q, cwnd_max_seq := rmax r\<rparr>,
          rccc r, revents r))"

section \<open>Operations\<close>

text \<open>The segments cut from the rest of the data.\<close>

function fragments :: "u64 \<Rightarrow> u64 \<Rightarrow> byte list \<Rightarrow> send_segment list" where
  "fragments seq now d =
     (if d = [] then []
      else \<lparr>sseq = seq, push_ts = now, last_send_ts = 0, send_count = 0,
            sdata = take SEND_SEGMENT_SIZE d\<rparr> # fragments (seq + 1) now (drop SEND_SEGMENT_SIZE d))"
  by auto
termination
  by (relation "measure (\<lambda>(_, _, d). length d)") (auto simp: SEND_SEGMENT_SIZE_def)

declare fragments.simps [simp del]

text \<open>What fits into the last waiting segment is glued to it.\<close>

definition glue :: "send_segment list \<Rightarrow> byte list \<Rightarrow> send_segment list \<times> byte list" where
  "glue q d =
     (if q \<noteq> [] \<and> length (sdata (last q)) < SEND_SEGMENT_SIZE then
        let k = min (SEND_SEGMENT_SIZE - length (sdata (last q))) (length d)
        in (butlast q @ [(last q)\<lparr>sdata := sdata (last q) @ take k d\<rparr>], drop k d)
      else (q, d))"

definition buffer_send ::
    "u64 \<Rightarrow> byte list \<Rightarrow> send_buffer \<Rightarrow> ccc \<Rightarrow> send_buffer \<times> ccc \<times> send_event list" where
  "buffer_send now d b c =
     (let (q, rest) = glue (send_data b) d;
          frags = fragments (buffer_seq b) now rest;
          b = b\<lparr>send_data := q @ frags, buffer_seq := buffer_seq b + of_nat (length frags),
                buffer_data_size := buffer_data_size b + of_nat (length d)\<rparr>
      in attempt_send now b c)"

definition send_check_buffer :: "send_buffer \<Rightarrow> send_event list" where
  "send_check_buffer b = (if sint (buffer_data_size b) < sint (buffer_size b) then [On_write] else [])"

fun ack_window :: "u64 \<Rightarrow> send_buffer \<Rightarrow> (u64 \<times> send_segment) list \<Rightarrow> send_buffer" where
  "ack_window seq b [] = b\<lparr>send_window := []\<rparr>"
| "ack_window seq b ((k, seg) # w) =
     (if k \<le> seq then
        let n = int (length (sdata seg));
            b = b\<lparr>loss_set := sset_erase k (loss_set b),
                  buffer_data_size := (if sint (buffer_data_size b) > n
                    then buffer_data_size b - of_int n else 0),
                  send_bandwidth := send_bandwidth b + of_int n\<rparr>
        in ack_window seq b w
      else b\<lparr>send_window := (k, seg) # w\<rparr>)"

definition send_on_ack :: "u64 \<Rightarrow> u64 \<Rightarrow> send_buffer \<Rightarrow> ccc \<Rightarrow> send_buffer \<times> ccc \<times> send_event list" where
  "send_on_ack now seq b c =
     (if cwnd_max_seq b < seq then (b, c, [])
      else
        let b = (if send_window b \<noteq> [] then
                   let b = ack_window seq b (send_window b)
                   in if dest_max_seq b < seq then b\<lparr>dest_max_seq := seq\<rparr> else b
                 else b);
            (b, c, ev) = attempt_send now b c
        in (b, c, ev @ send_check_buffer b))"

definition add_losses :: "u64 \<Rightarrow> u16 list \<Rightarrow> send_buffer \<Rightarrow> send_buffer" where
  "add_losses base ids b =
     b\<lparr>loss_set := fold (\<lambda>i ls. if ucast i + base < cwnd_max_seq b
                               then sset_insert (ucast i + base) ls else ls) ids (loss_set b)\<rparr>"

definition send_on_nack ::
    "u64 \<Rightarrow> u64 \<Rightarrow> u16 list \<Rightarrow> send_buffer \<Rightarrow> ccc \<Rightarrow> send_buffer \<times> ccc \<times> send_event list" where
  "send_on_nack now base ids b c = send_on_ack now base (add_losses base ids b) c"

definition send_on_timer :: "u64 \<Rightarrow> send_buffer \<Rightarrow> ccc \<Rightarrow> send_buffer \<times> ccc \<times> send_event list" where
  "send_on_timer now b c =
     (let (b, c, ev) = attempt_send now b c in (b, c, ev @ send_check_buffer b))"

definition clear_loss :: "send_buffer \<Rightarrow> send_buffer" where
  "clear_loss b = b\<lparr>loss_set := []\<rparr>"

definition send_get_bandwidth :: "u64 \<Rightarrow> send_buffer \<Rightarrow> u32 \<times> send_buffer" where
  "send_get_bandwidth cur b =
     ((if cur > send_bandwidth_ts b
       then ucast (ucast (send_bandwidth b * 1000) div (cur - send_bandwidth_ts b))
       else send_bandwidth b * 1000),
      b\<lparr>send_bandwidth_ts := cur, send_bandwidth := 0\<rparr>)"

section \<open>Segments and chunks\<close>

text \<open>
  \<open>cs\<close> is the list of the payloads sent for the first time so far, the first one with number
  \<open>s0\<close>; \<open>a\<close> of them are acknowledged. The window holds the rest, in order.
\<close>

definition pay :: "u64 \<times> send_segment \<Rightarrow> u64 \<times> u64 \<times> byte list" where
  "pay p = (fst p, sseq (snd p), sdata (snd p))"

definition chunk_at :: "nat \<Rightarrow> byte list list \<Rightarrow> nat \<Rightarrow> u64 \<times> u64 \<times> byte list" where
  "chunk_at s0 cs i = (of_nat (s0 + i), of_nat (s0 + i), cs ! i)"

definition window_is :: "nat \<Rightarrow> nat \<Rightarrow> byte list list \<Rightarrow> (u64 \<times> send_segment) list \<Rightarrow> bool" where
  "window_is s0 a cs w \<longleftrightarrow> a \<le> length cs \<and> map pay w = map (chunk_at s0 cs) [a..<length cs]"

definition events_good :: "nat \<Rightarrow> byte list list \<Rightarrow> send_event list \<Rightarrow> bool" where
  "events_good s0 cs ev \<longleftrightarrow>
     (\<forall>s d. Send_data s d \<in> set ev \<longrightarrow> (\<exists>i < length cs. s = of_nat (s0 + i) \<and> d = cs ! i))"

lemma events_good_mono: "events_good s0 cs ev \<Longrightarrow> events_good s0 (cs @ xs) ev"
  by (fastforce simp: events_good_def nth_append)

lemma events_good_append [simp]:
  "events_good s0 cs (ev @ ev') \<longleftrightarrow> events_good s0 cs ev \<and> events_good s0 cs ev'"
  by (auto simp: events_good_def)

lemma events_good_Nil [simp]: "events_good s0 cs []"
  by (simp add: events_good_def)

lemma pay_sel [simp]: "fst (pay p) = fst p" "fst (snd (pay p)) = sseq (snd p)" "snd (snd (pay p)) = sdata (snd p)"
  by (simp_all add: pay_def)

lemma map_fst_pay [simp]: "map fst (map pay w) = map fst w"
  by simp

lemma smap_inv_pay: "smap_inv w \<longleftrightarrow> sorted_wrt (<) (map fst (map pay w))"
  by (simp only: smap_inv_def map_fst_pay)

lemma chunk_at_sel [simp]:
  "fst (chunk_at s0 cs i) = of_nat (s0 + i)" "fst (snd (chunk_at s0 cs i)) = of_nat (s0 + i)"
  "snd (snd (chunk_at s0 cs i)) = cs ! i"
  by (simp_all add: chunk_at_def)

lemma chunk_at_mono: "i < length cs \<Longrightarrow> chunk_at s0 (cs @ xs) i = chunk_at s0 cs i"
  by (simp add: chunk_at_def nth_append)

lemma of_nat_u64_less:
  "i < j \<Longrightarrow> j < 2 ^ 64 \<Longrightarrow> (of_nat i :: u64) < of_nat j"
  by (simp add: word_less_nat_alt unat_of_nat)

lemma of_nat_u64_le:
  "i \<le> j \<Longrightarrow> j < 2 ^ 64 \<Longrightarrow> (of_nat i :: u64) \<le> of_nat j"
  by (simp add: word_le_nat_alt unat_of_nat)

lemma chunks_sorted:
  "s0 + n \<le> 2 ^ 64 \<Longrightarrow> sorted_wrt (<) (map fst (map (chunk_at s0 cs) [a..<n]))"
  by (auto simp: sorted_wrt_map sorted_wrt_iff_nth_less simp del: of_nat_add intro!: of_nat_u64_less)

lemma window_inv:
  assumes "window_is s0 a cs w" and "s0 + length cs \<le> 2 ^ 64" shows "smap_inv w"
  unfolding smap_inv_pay using assms chunks_sorted by (simp only: window_is_def)

lemma smap_set_same:
  assumes "smap_inv w" and "smap_find w k = Some seg0" and "sseq seg = sseq seg0" "sdata seg = sdata seg0"
  shows "map pay (smap_set w k seg) = map pay w"
  using assms(1,2)
proof (induction w)
  case (Cons p w)
  obtain k' v where p: "p = (k', v)" by force
  show ?case
  proof (cases "k = k'")
    case True
    with Cons(3) p assms(3,4) show ?thesis by (simp add: smap_find_def pay_def)
  next
    case False
    with Cons(3) p have f: "smap_find w k = Some seg0" by (simp add: smap_find_def)
    then have "k \<in> fst ` set w" by (auto simp: smap_find_def dest!: map_of_SomeD intro: rev_image_eqI)
    with Cons(2) p have "k' < k" by auto
    with False p f Cons show ?thesis by simp
  qed
qed (simp add: smap_find_def)

lemma smap_insert_last:
  assumes "\<And>p. p \<in> set w \<Longrightarrow> fst p < k"
  shows "smap_insert w k v = w @ [(k, v)]"
proof -
  have "smap_find w k = None"
    unfolding smap_find_def map_of_eq_None_iff using assms by force
  moreover have "smap_set w k v = w @ [(k, v)]"
    using assms
  proof (induction w)
    case (Cons p w)
    then have "fst p < k" by simp
    with Cons show ?case by (cases p) auto
  qed simp
  ultimately show ?thesis by (simp add: smap_insert_def)
qed

section \<open>Resending\<close>

text \<open>Resending keeps the numbers and payloads \<open>W\<close> of the window and sends only those.\<close>

definition resend_ok :: "(u64 \<times> u64 \<times> byte list) list \<Rightarrow> u64 \<Rightarrow> resend_state \<Rightarrow> bool" where
  "resend_ok W m r \<longleftrightarrow> map pay (rwindow r) = W \<and> rmax r = m
     \<and> (\<forall>s d. Send_data s d \<in> set (revents r) \<longrightarrow> (s, s, d) \<in> set W)"

definition keyed :: "(u64 \<times> u64 \<times> byte list) list \<Rightarrow> u64 \<Rightarrow> bool" where
  "keyed W m \<longleftrightarrow> sorted_wrt (<) (map fst W) \<and> (\<forall>t \<in> set W. fst (snd t) = fst t \<and> fst t \<le> m)"

lemma resend_segment_ok:
  assumes k: "keyed W m" and r: "resend_ok W m r" and f: "smap_find (rwindow r) k = Some seg0"
    and eq: "sseq seg = sseq seg0" "sdata seg = sdata seg0"
  shows "resend_ok W m (resend_segment k now seg r)" "sseq seg = k"
proof -
  have i: "smap_inv (rwindow r)" using k r by (simp add: keyed_def resend_ok_def smap_inv_pay)
  from smap.find_iff [OF i] f have "(k, seg0) \<in> set (rwindow r)" by simp
  then have "pay (k, seg0) \<in> set W" using r by (auto simp: resend_ok_def)
  with k eq have s: "sseq seg = k" "k \<le> m" "(k, k, sdata seg) \<in> set W" by (auto simp: keyed_def pay_def)
  with r show "resend_ok W m (resend_segment k now seg r)"
    using smap_set_same [OF i f, of "seg\<lparr>last_send_ts := now, send_count := send_count seg + 1\<rparr>"] eq
    by (auto simp: resend_ok_def resend_segment_def)
  show "sseq seg = k" by (rule s)
qed

lemma resend_ok_times [simp]: "resend_ok W m (r\<lparr>rlast_ts := t, rlast_seq := q\<rparr>) = resend_ok W m r"
  by (simp add: resend_ok_def)

lemma resend_losses_ok:
  assumes "keyed W m" and "resend_ok W m r"
  shows "resend_ok W m (snd (resend_losses cwnd rt now ks r))"
  using assms(2)
proof (induction cwnd rt now ks r rule: resend_losses.induct)
  case (2 cwnd rt now k ks r)
  show ?case
  proof (cases "rsent r \<ge> cwnd")
    case False
    show ?thesis
    proof (cases "smap_find (rwindow r) k")
      case None
      with False 2 show ?thesis by (simp add: case_prod_beta)
    next
      case (Some seg)
      from resend_segment_ok(1) [OF assms(1) 2(4) Some refl refl, of now]
      have "resend_ok W m (resend_segment k now seg r)" by simp
      with False Some 2 show ?thesis by (simp add: case_prod_beta Let_def)
    qed
  qed (use 2 in simp)
qed simp

lemma touch_window_pays: "map pay (touch_window a b now w) = map pay w"
  by (induction a b now w rule: touch_window.induct) (auto simp: pay_def)

text \<open>
  The walk over the window may look at a copy of it: a step changes only times of the visited
  segment, and every segment is visited once.
\<close>

lemma resend_timeouts_ok:
  assumes "keyed W m" and "resend_ok W m r" and "set (map pay w) \<subseteq> set W"
  shows "resend_ok W m (resend_timeouts cwnd th dest now w r)"
  using assms(2,3)
proof (induction cwnd th dest now w r rule: resend_timeouts.induct)
  case (2 cwnd th dest now k seg w r)
  have i: "smap_inv (rwindow r)" using assms(1) 2(3) by (simp add: keyed_def resend_ok_def smap_inv_pay)
  have "pay (k, seg) \<in> set (map pay (rwindow r))" using 2(3,4) by (simp add: resend_ok_def)
  then obtain p where p: "p \<in> set (rwindow r)" "pay p = pay (k, seg)" by auto
  then have e: "fst p = k" "sseq (snd p) = sseq seg" "sdata (snd p) = sdata seg" by (simp_all add: pay_def)
  with p have f: "smap_find (rwindow r) k = Some (snd p)" using smap.find_iff [OF i] by (cases p) auto
  have "resend_ok W m (resend_segment k now seg r)"
    by (rule resend_segment_ok(1) [OF assms(1) 2(3) f]) (simp_all add: e)
  with 2 show ?case by simp
qed simp

section \<open>First sending\<close>

text \<open>The waiting segments are numbered one after the other.\<close>

fun numbered :: "nat \<Rightarrow> send_segment list \<Rightarrow> bool" where
  "numbered n [] = True"
| "numbered n (seg # q) = (unat (sseq seg) = n \<and> numbered (Suc n) q)"

definition payloads :: "send_segment list \<Rightarrow> byte list list" where
  "payloads q = map sdata q"

lemma payloads_simps [simp]:
  "payloads [] = []" "payloads (s # q) = sdata s # payloads q" "payloads (q @ q') = payloads q @ payloads q'"
  "length (payloads q) = length q"
  by (simp_all add: payloads_def)

lemma numbered_append: "numbered n (q @ q') \<longleftrightarrow> numbered n q \<and> numbered (n + length q) q'"
  by (induction q arbitrary: n) auto

text \<open>The state between two first sendings: \<open>c0\<close> chunks were sent before.\<close>

definition fresh_ok :: "nat \<Rightarrow> nat \<Rightarrow> nat \<Rightarrow> byte list list \<Rightarrow> resend_state \<Rightarrow> bool" where
  "fresh_ok s0 a c0 cs r \<longleftrightarrow> window_is s0 a cs (rwindow r) \<and> unat (rmax r) = s0 + (length cs - 1)
     \<and> events_good s0 cs (revents r) \<and> c0 \<le> length cs
     \<and> (\<forall>i. c0 \<le> i \<longrightarrow> i < length cs \<longrightarrow> Send_data (of_nat (s0 + i)) (cs ! i) \<in> set (revents r))"

lemma window_is_extend:
  assumes "window_is s0 a cs w" and "s0 + length cs < 2 ^ 64" and "unat (sseq seg) = s0 + length cs"
  shows "window_is s0 a (cs @ [sdata seg]) (smap_insert w (sseq seg) seg)"
    and "length (smap_insert w (sseq seg) seg) = Suc (length w)"
proof -
  have s: "sseq seg = of_nat (s0 + length cs)" using assms(3) by (rule word_eq_of_nat)
  have "fst p < sseq seg" if "p \<in> set w" for p
  proof -
    have "map pay w = map (chunk_at s0 cs) [a..<length cs]" using assms(1) by (simp add: window_is_def)
    moreover from that have "pay p \<in> set (map pay w)" by simp
    ultimately have "pay p \<in> set (map (chunk_at s0 cs) [a..<length cs])" by (simp only:)
    then obtain i where "i < length cs" "pay p = chunk_at s0 cs i" by auto
    then have i: "i < length cs" "fst p = of_nat (s0 + i)"
      using pay_sel(1) [of p] chunk_at_sel(1) [of s0 cs i] by simp_all
    then show ?thesis unfolding s i(2) using assms(2) by (intro of_nat_u64_less) simp_all
  qed
  then have e: "smap_insert w (sseq seg) seg = w @ [(sseq seg, seg)]" by (rule smap_insert_last)
  show "window_is s0 a (cs @ [sdata seg]) (smap_insert w (sseq seg) seg)"
    using assms(1) unfolding e window_is_def
    by (auto simp: chunk_at_mono pay_def s chunk_at_def nth_append)
  show "length (smap_insert w (sseq seg) seg) = Suc (length w)" by (simp add: e)
qed

lemma fresh_ok_extend:
  assumes r: "fresh_ok s0 a c0 cs r" and s0: "s0 + length cs < 2 ^ 64" and n: "unat (sseq seg) = s0 + length cs"
    and w: "rwindow r' = smap_insert (rwindow r) (sseq seg) seg"
    and m: "rmax r' = (if rmax r < sseq seg then sseq seg else rmax r)"
    and e: "revents r' = revents r @ [Send_data (sseq seg) (sdata seg)]"
  shows "fresh_ok s0 a c0 (cs @ [sdata seg]) r'"
proof -
  have s: "sseq seg = of_nat (s0 + length cs)" using n by (rule word_eq_of_nat)
  have "window_is s0 a (cs @ [sdata seg]) (rwindow r')"
    unfolding w using r n s0 by (intro window_is_extend) (simp_all add: fresh_ok_def)
  moreover have "unat (rmax r') = s0 + (length (cs @ [sdata seg]) - 1)"
    using r n unfolding m by (cases cs) (auto simp: fresh_ok_def word_less_nat_alt)
  moreover have "events_good s0 (cs @ [sdata seg]) (revents r')"
    using r events_good_mono [of s0 cs "revents r" "[sdata seg]"] unfolding e s
    by (auto simp: fresh_ok_def events_good_def nth_append)
  moreover have "Send_data (of_nat (s0 + i)) ((cs @ [sdata seg]) ! i) \<in> set (revents r')"
    if "c0 \<le> i" "i < length (cs @ [sdata seg])" for i
    using r that unfolding e s by (cases "i < length cs") (auto simp: fresh_ok_def nth_append less_Suc_eq)
  ultimately show ?thesis using r by (simp add: fresh_ok_def)
qed

text \<open>Sending new segments extends the chunks by their payloads.\<close>

lemma send_new_ok:
  assumes "fresh_ok s0 a c0 cs r" and "numbered (s0 + length cs) q" and "s0 + length cs + length q < 2 ^ 64"
  shows "\<exists>q1 q2. q = q1 @ q2 \<and> fst (send_new cwnd ng now q n r) = q2
    \<and> fresh_ok s0 a c0 (cs @ payloads q1) (snd (send_new cwnd ng now q n r))"
  using assms
proof (induction cwnd ng now q n r arbitrary: cs rule: send_new.induct)
  case (2 cwnd ng now seg q n r)
  let ?nag = "n > 0 \<and> ng \<and> push_ts seg + NAGLE_DELAY > now \<and> length (sdata seg) < SEND_SEGMENT_SIZE - 256"
  show ?case
  proof (cases "?nag \<or> \<not> n < cwnd")
    case True
    with 2(2) show ?thesis by (intro exI [of _ "[]"] exI [of _ "seg # q"]) auto
  next
    case False
    let ?seg = "seg\<lparr>push_ts := now, last_send_ts := now, send_count := 1\<rparr>"
    let ?r = "r\<lparr>rwindow := smap_insert (rwindow r) (sseq ?seg) ?seg,
      rmax := (if rmax r < sseq ?seg then sseq ?seg else rmax r),
      revents := revents r @ [Send_data (sseq ?seg) (sdata ?seg)]\<rparr>"
    let ?cs = "cs @ [sdata ?seg]"
    have "fresh_ok s0 a c0 ?cs ?r"
      using 2(3,4) by (intro fresh_ok_extend [OF 2(2)]) simp_all
    moreover have "numbered (s0 + length ?cs) q" "s0 + length ?cs + length q < 2 ^ 64"
      using 2(3,4) by simp_all
    moreover have "\<not> ?nag" "n < cwnd" using False by blast+
    ultimately have "\<exists>q1 q2. q = q1 @ q2 \<and> fst (send_new cwnd ng now q (n + 1) ?r) = q2
      \<and> fresh_ok s0 a c0 (?cs @ payloads q1) (snd (send_new cwnd ng now q (n + 1) ?r))"
      by (intro 2(1) [OF _ _ refl refl])
    then obtain q1 q2 where h: "q = q1 @ q2" "fst (send_new cwnd ng now q (n + 1) ?r) = q2"
      "fresh_ok s0 a c0 (?cs @ payloads q1) (snd (send_new cwnd ng now q (n + 1) ?r))"
      by blast
    have u: "send_new cwnd ng now (seg # q) n r = send_new cwnd ng now q (n + 1) ?r"
      using False by (simp only: send_new.simps if_False if_True Let_def de_Morgan_disj not_not)
    show ?thesis unfolding u
      by (intro exI [of _ "seg # q1"] exI [of _ q2]) (use h in simp)
  qed
qed (auto intro: exI [of _ "[]"])

lemma less_u32_Suc: "n < m \<Longrightarrow> unat (n + 1 :: u32) = Suc (unat n)" for m :: u32
proof -
  assume "n < m"
  then have "Suc (unat n) < 2 ^ 32" using unat_u32_less [of m] by (simp add: word_less_nat_alt)
  then show "unat (n + 1) = Suc (unat n)" by (simp add: unat_word_ariths(1) unat_of_nat)
qed

lemma send_new_window:
  "length (rwindow (snd (send_new cwnd ng now q n r))) \<le> length (rwindow r) + (unat cwnd - unat n)"
proof (induction cwnd ng now q n r rule: send_new.induct)
  case (2 cwnd ng now seg q n r)
  let ?nag = "n > 0 \<and> ng \<and> push_ts seg + NAGLE_DELAY > now \<and> length (sdata seg) < SEND_SEGMENT_SIZE - 256"
  show ?case
  proof (cases "?nag \<or> \<not> n < cwnd")
    case False
    then have c: "\<not> ?nag" "n < cwnd" by blast+
    let ?seg = "seg\<lparr>push_ts := now, last_send_ts := now, send_count := 1\<rparr>"
    have "length (smap_insert (rwindow r) (sseq ?seg) ?seg) \<le> Suc (length (rwindow r))"
      by (simp add: smap_insert_def smap_set_length)
    moreover have "unat (n + 1) = Suc (unat n)" "unat n < unat cwnd"
      using c(2) less_u32_Suc by (simp_all add: word_less_nat_alt)
    ultimately show ?thesis using 2 [OF c refl refl] c
      by (simp only: send_new.simps if_False if_True Let_def) simp
  qed auto
qed simp

section \<open>The invariant\<close>

text \<open>
  \<open>sent\<close> is all the data given to \<open>send\<close>: the chunks and the waiting payloads together are
  that data, in order.
\<close>

definition send_inv :: "nat \<Rightarrow> nat \<Rightarrow> byte list list \<Rightarrow> byte list \<Rightarrow> send_buffer \<Rightarrow> bool" where
  "send_inv s0 a cs sent b \<longleftrightarrow>
     window_is s0 a cs (send_window b) \<and> numbered (s0 + length cs) (send_data b)
     \<and> concat (cs @ payloads (send_data b)) = sent
     \<and> (\<forall>d \<in> set (cs @ payloads (send_data b)). d \<noteq> [] \<and> length d \<le> SEND_SEGMENT_SIZE)
     \<and> unat (buffer_seq b) = s0 + length cs + length (send_data b)
     \<and> unat (cwnd_max_seq b) = s0 + (length cs - 1)
     \<and> (length sent < 2 ^ 31 \<longrightarrow>
          unat (buffer_data_size b) = length (concat (drop a cs @ payloads (send_data b))))"

lemma length_concat_ge: "\<forall>d \<in> set ds. d \<noteq> [] \<Longrightarrow> length ds \<le> length (concat ds)"
proof (induction ds)
  case (Cons d ds)
  then have "Suc 0 \<le> length d" "length ds \<le> length (concat ds)" by (simp_all add: Suc_leI)
  then have "Suc (length ds) \<le> length d + length (concat ds)" by simp
  then show ?case by simp
qed simp

lemma send_inv_count:
  assumes "send_inv s0 a cs sent b" shows "length cs + length (send_data b) \<le> length sent"
proof -
  have "length (cs @ payloads (send_data b)) \<le> length (concat (cs @ payloads (send_data b)))"
    using assms by (intro length_concat_ge) (auto simp: send_inv_def)
  also have "\<dots> = length sent" using assms by (simp add: send_inv_def)
  finally show ?thesis by simp
qed

text \<open>Resending in \<open>attempt_send\<close>, the first half.\<close>

definition attempt_resend :: "u64 \<Rightarrow> send_buffer \<Rightarrow> ccc \<Rightarrow> u64 list \<times> resend_state" where
  "attempt_resend now b c =
     (let r = \<lparr>rwindow = send_window b, rsent = 0, rmax = cwnd_max_seq b, rlast_ts = 0,
               rlast_seq = 0, rccc = c, revents = []\<rparr>
      in if loss_set b \<noteq> [] then
           let (left, r) = resend_losses (snd_cwnd c) (rtt c) now (loss_set b) r
           in (left, r\<lparr>rwindow := touch_window (rlast_ts r) (rlast_seq r) now (rwindow r)\<rparr>)
         else if send_window b \<noteq> []
         then (loss_set b,
               resend_timeouts (snd_cwnd c) (rtt_threshold (rtt c)) (dest_max_seq b) now (send_window b) r)
         else (loss_set b, r))"

definition attempt_new ::
    "u64 \<Rightarrow> send_buffer \<Rightarrow> ccc \<Rightarrow> resend_state \<Rightarrow> send_segment list \<times> resend_state" where
  "attempt_new now b c r =
     (if snd_cwnd c > rsent r
      then send_new (snd_cwnd c) (nagle b) now (send_data b) (of_nat (length (send_window b))) r
      else (send_data b, r))"

lemma attempt_send_split:
  "attempt_send now b c =
     (case attempt_resend now b c of (losses, r) \<Rightarrow> case attempt_new now b c r of (q, r) \<Rightarrow>
        (b\<lparr>send_window := rwindow r, loss_set := losses, send_data := q, cwnd_max_seq := rmax r\<rparr>,
         rccc r, revents r))"
  by (simp add: attempt_send_def attempt_resend_def attempt_new_def Let_def case_prod_beta
      cong: if_cong)

lemma resend_ok_touch:
  "resend_ok W m r \<Longrightarrow> resend_ok W m (r\<lparr>rwindow := touch_window x y now (rwindow r)\<rparr>)"
  by (simp add: resend_ok_def touch_window_pays)

lemma window_keyed:
  assumes "window_is s0 a cs w" and "s0 + length cs < 2 ^ 64" and "unat m = s0 + (length cs - 1)"
  shows "keyed (map pay w) m"
proof -
  have "(of_nat (s0 + i) :: u64) \<le> m" if "i < length cs" for i
    unfolding word_eq_of_nat [OF assms(3)] using that assms(2) by (intro of_nat_u64_le) simp_all
  moreover have "sorted_wrt (<) (map fst (map pay w))"
    using chunks_sorted [of s0 "length cs" cs a] assms by (simp only: window_is_def)
  ultimately show ?thesis using assms(1)
    unfolding window_is_def keyed_def by (simp del: map_map of_nat_add)
qed

lemma attempt_resend_ok:
  assumes "keyed (map pay (send_window b)) (cwnd_max_seq b)"
  shows "resend_ok (map pay (send_window b)) (cwnd_max_seq b) (snd (attempt_resend now b c))"
proof -
  let ?r = "\<lparr>rwindow = send_window b, rsent = 0, rmax = cwnd_max_seq b, rlast_ts = 0,
    rlast_seq = 0, rccc = c, revents = []\<rparr>"
  have "resend_ok (map pay (send_window b)) (cwnd_max_seq b) ?r" by (simp add: resend_ok_def)
  with assms show ?thesis
    unfolding attempt_resend_def Let_def case_prod_beta
    by (cases "send_window b = []")
      (simp_all del: list.map add: resend_ok_touch resend_losses_ok resend_timeouts_ok)
qed

lemma resend_fresh:
  assumes "resend_ok W m r" and "W = map (chunk_at s0 cs) [a..<length cs]" and "a \<le> length cs"
    and "unat m = s0 + (length cs - 1)"
  shows "fresh_ok s0 a (length cs) cs r"
proof -
  have "\<exists>i < length cs. s = of_nat (s0 + i) \<and> d = cs ! i" if "Send_data s d \<in> set (revents r)" for s d
  proof -
    from that assms(1,2) have "(s, s, d) \<in> set (map (chunk_at s0 cs) [a..<length cs])"
      by (simp add: resend_ok_def)
    then show ?thesis by (auto simp: chunk_at_def)
  qed
  with assms show ?thesis by (simp add: fresh_ok_def window_is_def resend_ok_def events_good_def)
qed

lemma numbered_drop: "numbered n (q1 @ q2) \<Longrightarrow> numbered (n + length q1) q2"
  by (simp add: numbered_append)

lemma attempt_send_ok:
  assumes inv: "send_inv s0 a cs sent b" and s0: "s0 + length sent < 2 ^ 64"
    and eq: "attempt_send now b c = (b', c', ev)"
  shows "\<exists>xs. send_inv s0 a (cs @ xs) sent b' \<and> events_good s0 (cs @ xs) ev
    \<and> (\<forall>i. length cs \<le> i \<longrightarrow> i < length (cs @ xs) \<longrightarrow> Send_data (of_nat (s0 + i)) ((cs @ xs) ! i) \<in> set ev)"
proof -
  note i = inv [unfolded send_inv_def]
  have len: "s0 + length cs + length (send_data b) < 2 ^ 64" using send_inv_count [OF inv] s0 by simp
  obtain losses r where r: "attempt_resend now b c = (losses, r)" by force
  obtain q r' where q: "attempt_new now b c r = (q, r')" by force
  have "keyed (map pay (send_window b)) (cwnd_max_seq b)"
    using i len by (intro window_keyed) auto
  from attempt_resend_ok [OF this, of now c] r
  have "resend_ok (map pay (send_window b)) (cwnd_max_seq b) r" by simp
  then have f: "fresh_ok s0 a (length cs) cs r"
    by (rule resend_fresh) (use i in \<open>auto simp: window_is_def\<close>)
  have "\<exists>q1 q2. send_data b = q1 @ q2 \<and> fst (attempt_new now b c r) = q2
      \<and> fresh_ok s0 a (length cs) (cs @ payloads q1) (snd (attempt_new now b c r))"
  proof (cases "snd_cwnd c > rsent r")
    case True
    then show ?thesis using send_new_ok [OF f _ len, of "snd_cwnd c" "nagle b" now] i
      by (simp add: attempt_new_def)
  next
    case False
    then show ?thesis using f
      by (intro exI [of _ "[]"] exI [of _ "send_data b"]) (simp add: attempt_new_def)
  qed
  then obtain q1 where q1: "send_data b = q1 @ q" "fresh_ok s0 a (length cs) (cs @ payloads q1) r'"
    using q by auto
  have b': "b' = b\<lparr>send_window := rwindow r', loss_set := losses, send_data := q, cwnd_max_seq := rmax r'\<rparr>"
    "ev = revents r'"
    using eq r q by (auto simp: attempt_send_split)
  have "a \<le> length cs" using i by (simp add: window_is_def)
  then have "send_inv s0 a (cs @ payloads q1) sent b'"
    using i q1 numbered_drop [of "s0 + length cs" q1 q] unfolding b'(1) send_inv_def
    by (auto simp: fresh_ok_def ac_simps)
  with q1(2) show ?thesis unfolding b'(2) by (auto simp: fresh_ok_def)
qed

section \<open>The operations keep the invariant\<close>

lemma fragments_ok:
  "concat (payloads (fragments seq now d)) = d \<and>
   (\<forall>x \<in> set (payloads (fragments seq now d)). x \<noteq> [] \<and> length x \<le> SEND_SEGMENT_SIZE) \<and>
   length (fragments seq now d) \<le> length d \<and>
   (unat seq + length (fragments seq now d) < 2 ^ 64 \<longrightarrow> numbered (unat seq) (fragments seq now d))"
proof (induction seq now d rule: fragments.induct)
  case (1 seq now d)
  show ?case
  proof (cases "d = []")
    case True
    then show ?thesis by (simp add: fragments.simps)
  next
    case False
    let ?f = "fragments (seq + 1) now (drop SEND_SEGMENT_SIZE d)"
    have IH: "concat (payloads ?f) = drop SEND_SEGMENT_SIZE d"
      "\<forall>x \<in> set (payloads ?f). x \<noteq> [] \<and> length x \<le> SEND_SEGMENT_SIZE"
      "length ?f \<le> length (drop SEND_SEGMENT_SIZE d)"
      "unat (seq + 1) + length ?f < 2 ^ 64 \<Longrightarrow> numbered (unat (seq + 1)) ?f"
      using 1 [OF False] by blast+
    have e: "fragments seq now d = \<lparr>sseq = seq, push_ts = now, last_send_ts = 0, send_count = 0,
      sdata = take SEND_SEGMENT_SIZE d\<rparr> # ?f"
      using False by (simp add: fragments.simps [of seq now d])
    have "numbered (Suc (unat seq)) ?f" if "unat seq + length (fragments seq now d) < 2 ^ 64"
    proof -
      have "unat (seq + 1) = Suc (unat seq)" using that unfolding e by (simp add: unat_word_ariths(1))
      then show ?thesis using IH(4) that unfolding e by simp
    qed
    moreover have "length (drop SEND_SEGMENT_SIZE d) < length d" "take SEND_SEGMENT_SIZE d \<noteq> []"
      using False by (simp_all add: SEND_SEGMENT_SIZE_def)
    moreover have "length (fragments seq now d) \<le> length d"
      using IH(3) \<open>length (drop SEND_SEGMENT_SIZE d) < length d\<close> unfolding e by (simp del: length_drop)
    ultimately show ?thesis using IH(1,2) unfolding e by auto
  qed
qed

lemma glue_ok:
  assumes "glue q d = (q', rest)" and "numbered n q" and "\<forall>x \<in> set (payloads q). x \<noteq> [] \<and> length x \<le> SEND_SEGMENT_SIZE"
  shows "concat (payloads q') @ rest = concat (payloads q) @ d" "numbered n q'" "length q' = length q"
    "\<forall>x \<in> set (payloads q'). x \<noteq> [] \<and> length x \<le> SEND_SEGMENT_SIZE"
proof -
  have "concat (payloads q') @ rest = concat (payloads q) @ d \<and> numbered n q' \<and> length q' = length q
    \<and> (\<forall>x \<in> set (payloads q'). x \<noteq> [] \<and> length x \<le> SEND_SEGMENT_SIZE)"
  proof (cases "q \<noteq> [] \<and> length (sdata (last q)) < SEND_SEGMENT_SIZE")
    case True
    then obtain q0 s where q: "q = q0 @ [s]" by (metis append_butlast_last_id)
    with True assms show ?thesis by (auto simp: glue_def Let_def numbered_append)
  next
    case False
    with assms show ?thesis by (auto simp: glue_def)
  qed
  then show "concat (payloads q') @ rest = concat (payloads q) @ d" "numbered n q'" "length q' = length q"
    "\<forall>x \<in> set (payloads q'). x \<noteq> [] \<and> length x \<le> SEND_SEGMENT_SIZE" by blast+
qed

lemma buffer_send_ok:
  assumes inv: "send_inv s0 a cs sent b" and s0: "s0 + length (sent @ d) < 2 ^ 64"
    and eq: "buffer_send now d b c = (b', c', ev)"
  shows "\<exists>xs. send_inv s0 a (cs @ xs) (sent @ d) b' \<and> events_good s0 (cs @ xs) ev
    \<and> (\<forall>i. length cs \<le> i \<longrightarrow> i < length (cs @ xs) \<longrightarrow> Send_data (of_nat (s0 + i)) ((cs @ xs) ! i) \<in> set ev)"
proof -
  note i = inv [unfolded send_inv_def]
  obtain q rest where q: "glue (send_data b) d = (q, rest)" by force
  let ?f = "fragments (buffer_seq b) now rest"
  let ?b = "b\<lparr>send_data := q @ ?f, buffer_seq := buffer_seq b + of_nat (length ?f),
                buffer_data_size := buffer_data_size b + of_nat (length d)\<rparr>"
  note f = fragments_ok [of "buffer_seq b" now rest]
  have num: "numbered (s0 + length cs) (send_data b)"
    and siz: "\<forall>x \<in> set (payloads (send_data b)). x \<noteq> [] \<and> length x \<le> SEND_SEGMENT_SIZE"
    and cc: "concat (cs @ payloads (send_data b)) = sent"
    and bs: "unat (buffer_seq b) = s0 + length cs + length (send_data b)"
    and csz: "\<forall>x \<in> set cs. x \<noteq> [] \<and> length x \<le> SEND_SEGMENT_SIZE"
    using i by simp_all
  note g' = glue_ok [OF q num siz]
  have all: "concat (cs @ payloads (q @ ?f)) = sent @ d"
  proof -
    have "concat (cs @ payloads (q @ ?f)) = concat cs @ concat (payloads q) @ rest" using f by simp
    also have "\<dots> = concat (cs @ payloads (send_data b)) @ d" unfolding g'(1) by simp
    finally show ?thesis unfolding cc .
  qed
  have sizes: "\<forall>x \<in> set (cs @ payloads (q @ ?f)). x \<noteq> [] \<and> length x \<le> SEND_SEGMENT_SIZE"
    using csz f g'(4) by auto
  have "length (cs @ payloads (q @ ?f)) \<le> length (sent @ d)"
    using length_concat_ge [of "cs @ payloads (q @ ?f)"] sizes unfolding all by blast
  then have n: "unat (buffer_seq b) + length ?f < 2 ^ 64" using s0 bs g'(3) by simp
  have "send_inv s0 a cs (sent @ d) ?b"
    unfolding send_inv_def
  proof (intro conjI)
    show "numbered (s0 + length cs) (send_data ?b)"
      using g'(2,3) f n bs by (simp add: numbered_append)
    show "unat (buffer_seq ?b) = s0 + length cs + length (send_data ?b)"
      using unat_add_of_nat [of "buffer_seq b" "length ?f"] n bs g'(3) by simp
    show "length (sent @ d) < 2 ^ 31 \<longrightarrow>
        unat (buffer_data_size ?b) = length (concat (drop a cs @ payloads (send_data ?b)))"
    proof
      assume l: "length (sent @ d) < 2 ^ 31"
      have e: "length (concat (payloads (q @ ?f))) = length (concat (payloads (send_data b))) + length d"
        using f arg_cong [OF g'(1), of length] by simp
      have u: "unat (buffer_data_size b) = length (concat (drop a cs @ payloads (send_data b)))"
        using i l by simp
      have "length (concat (drop a cs)) + length (concat (take a cs)) + length (concat (payloads (send_data b))) = length sent"
        using arg_cong [OF cc, of length] arg_cong [OF concat_append [of "take a cs" "drop a cs"], of length]
        by simp
      then have "unat (buffer_data_size b) + length d < 2 ^ 32" using u l by simp
      then have "unat (buffer_data_size b + of_nat (length d)) = unat (buffer_data_size b) + length d"
        using unat_add_of_nat [of "buffer_data_size b" "length d"] by simp
      with u e show "unat (buffer_data_size ?b) = length (concat (drop a cs @ payloads (send_data ?b)))" by simp
    qed
  qed (use i all sizes in simp_all)
  moreover have "attempt_send now ?b c = (b', c', ev)"
    using eq q by (simp add: buffer_send_def Let_def)
  ultimately show ?thesis using s0 by (intro attempt_send_ok)
qed

lemma ack_window_fields:
  "send_data (ack_window seq b w) = send_data b" "buffer_seq (ack_window seq b w) = buffer_seq b"
  "cwnd_max_seq (ack_window seq b w) = cwnd_max_seq b" "dest_max_seq (ack_window seq b w) = dest_max_seq b"
  "nagle (ack_window seq b w) = nagle b" "buffer_size (ack_window seq b w) = buffer_size b"
  by (induction seq b w rule: ack_window.induct) (auto simp: Let_def)

lemma ack_size:
  assumes "unat b = n + m" and "n + m < 2 ^ 31"
  shows "unat (if sint (b :: 32 word) > int n then b - of_int (int n) else 0) = m"
proof -
  have s: "sint b = int (n + m)" using sint_small [of b] assms by simp
  show ?thesis
  proof (cases "m = 0")
    case False
    have "of_int (int n) \<le> b" using assms by (simp add: word_le_nat_alt unat_of_nat)
    then show ?thesis using False s assms by (simp add: unat_sub unat_of_nat)
  qed (use s in simp)
qed

text \<open>An acknowledgement removes the acknowledged chunks from the window, and only those.\<close>

lemma ack_window_drop: "send_window (ack_window seq b w) = dropWhile (\<lambda>p. fst p \<le> seq) w"
  by (induction seq b w rule: ack_window.induct) (simp_all add: Let_def)

definition window_data :: "(u64 \<times> send_segment) list \<Rightarrow> byte list list" where
  "window_data w = map (\<lambda>p. sdata (snd p)) w"

lemma ack_window_size:
  assumes "unat (buffer_data_size b) = length (concat (window_data w)) + rest"
    and "length (concat (window_data w)) + rest < 2 ^ 31"
  shows "unat (buffer_data_size (ack_window seq b w))
    = length (concat (window_data (dropWhile (\<lambda>p. fst p \<le> seq) w))) + rest"
  using assms
proof (induction seq b w rule: ack_window.induct)
  case (2 seq b k seg w)
  show ?case
  proof (cases "k \<le> seq")
    case True
    let ?n = "length (sdata seg)" and ?m = "length (concat (window_data w)) + rest"
    have "unat (if sint (buffer_data_size b) > int ?n then buffer_data_size b - of_int (int ?n) else 0) = ?m"
      using 2(2,3) by (intro ack_size) (simp_all add: window_data_def)
    moreover have "?m < 2 ^ 31" using 2(3) by (simp add: window_data_def)
    ultimately show ?thesis using 2(1) [OF True refl refl] True by (simp add: Let_def)
  qed (use 2 in \<open>simp add: window_data_def\<close>)
qed (simp add: window_data_def)

lemma window_data_is: "window_is s0 a cs w \<Longrightarrow> window_data w = drop a cs"
proof -
  assume "window_is s0 a cs w"
  then have "map (\<lambda>t. snd (snd t)) (map pay w) = map (\<lambda>t. snd (snd t)) (map (chunk_at s0 cs) [a..<length cs])"
    by (simp only: window_is_def)
  then have "window_data w = map ((!) cs) [a..<length cs]" by (simp add: window_data_def comp_def)
  also have "\<dots> = drop a cs" using drop_map [of a "(!) cs" "[0..<length cs]"] by (simp add: map_nth)
  finally show ?thesis .
qed

lemma ack_window_is:
  assumes w: "window_is s0 a cs w"
  obtains a' where "a \<le> a'" "window_is s0 a' cs (dropWhile (\<lambda>p. fst p \<le> seq) w)"
    "\<And>i. a \<le> i \<Longrightarrow> i < a' \<Longrightarrow> of_nat (s0 + i) \<le> seq"
proof
  let ?P = "\<lambda>p :: u64 \<times> send_segment. fst p \<le> seq"
  let ?n = "length (takeWhile ?P w)"
  have m: "map pay w = map (chunk_at s0 cs) [a..<length cs]" "a \<le> length cs"
    using w by (simp_all add: window_is_def)
  have len: "length w = length cs - a" using arg_cong [OF m(1), of length] by simp
  have n: "?n \<le> length w" by (rule length_takeWhile_le)
  show "a \<le> a + ?n" by simp
  have "map pay (dropWhile ?P w) = drop ?n (map pay w)" by (simp add: dropWhile_eq_drop drop_map)
  also have "\<dots> = map (chunk_at s0 cs) [a + ?n..<length cs]" unfolding m by (simp add: drop_map)
  finally show "window_is s0 (a + ?n) cs (dropWhile ?P w)"
    using n len m(2) by (simp add: window_is_def)
  show "of_nat (s0 + i) \<le> seq" if i: "a \<le> i" "i < a + ?n" for i
  proof -
    have k: "i - a < ?n" using i by simp
    then have P: "?P (w ! (i - a))"
      using set_takeWhileD [OF nth_mem [OF k]] by (simp add: takeWhile_nth)
    have "pay (w ! (i - a)) = map pay w ! (i - a)" using k n by simp
    also have "\<dots> = chunk_at s0 cs i" unfolding m using k n i len by simp
    finally have "fst (w ! (i - a)) = of_nat (s0 + i)"
      using pay_sel(1) [of "w ! (i - a)"] chunk_at_sel(1) [of s0 cs i] by simp
    with P show ?thesis by simp
  qed
qed

lemma send_inv_cong:
  assumes "send_inv s0 a cs sent b" and "send_window b' = send_window b" "send_data b' = send_data b"
    "buffer_seq b' = buffer_seq b" "cwnd_max_seq b' = cwnd_max_seq b" "buffer_data_size b' = buffer_data_size b"
  shows "send_inv s0 a cs sent b'"
  using assms by (simp add: send_inv_def)

lemma ack_window_inv:
  assumes inv: "send_inv s0 a cs sent b" and s0: "s0 + length sent < 2 ^ 64"
  obtains a' where "a \<le> a'" "send_inv s0 a' cs sent (ack_window seq b (send_window b))"
    "\<And>i. a \<le> i \<Longrightarrow> i < a' \<Longrightarrow> of_nat (s0 + i) \<le> seq"
proof -
  let ?b = "ack_window seq b (send_window b)"
  note i = inv [unfolded send_inv_def]
  have w: "window_is s0 a cs (send_window b)" using i by simp
  obtain a' where a': "a \<le> a'" "window_is s0 a' cs (send_window ?b)"
    "\<And>i. a \<le> i \<Longrightarrow> i < a' \<Longrightarrow> of_nat (s0 + i) \<le> seq"
    using ack_window_is [OF w] unfolding ack_window_drop by blast
  let ?r = "length (concat (payloads (send_data b)))"
  have "unat (buffer_data_size ?b) = length (concat (drop a' cs)) + ?r" if l: "length sent < 2 ^ 31"
  proof -
    have "length (concat cs) + ?r = length sent" using i by (metis concat_append length_append)
    moreover have "length (concat (drop a cs)) \<le> length (concat cs)"
      using arg_cong [OF concat_append [of "take a cs" "drop a cs"], of length] by simp
    ultimately have "length (concat (drop a cs)) + ?r < 2 ^ 31" using l by simp
    moreover have "unat (buffer_data_size b) = length (concat (drop a cs)) + ?r" using i l by simp
    ultimately show ?thesis
      using ack_window_size [of b "send_window b" ?r seq] window_data_is [OF w] window_data_is [OF a'(2)]
      by (simp add: ack_window_drop)
  qed
  then have "send_inv s0 a' cs sent ?b"
    using i a'(2) by (simp add: send_inv_def ack_window_fields)
  from that [OF a'(1) this a'(3)] show ?thesis .
qed

lemma events_good_check [simp]: "events_good s0 cs (send_check_buffer b)"
  by (simp add: send_check_buffer_def events_good_def)

text \<open>The two ways an operation ends.\<close>

definition sends_on :: "nat \<Rightarrow> nat \<Rightarrow> byte list list \<Rightarrow> byte list \<Rightarrow> send_buffer \<Rightarrow> send_event list \<Rightarrow> byte list list \<Rightarrow> bool"
  where
  "sends_on s0 a cs sent b ev xs \<longleftrightarrow> send_inv s0 a (cs @ xs) sent b \<and> events_good s0 (cs @ xs) ev
     \<and> (\<forall>i. length cs \<le> i \<longrightarrow> i < length (cs @ xs) \<longrightarrow> Send_data (of_nat (s0 + i)) ((cs @ xs) ! i) \<in> set ev)"

lemma send_on_ack_ok:
  assumes inv: "send_inv s0 a cs sent b" and s0: "s0 + length sent < 2 ^ 64"
    and eq: "send_on_ack now seq b c = (b', c', ev)"
  shows "\<exists>a' xs. a \<le> a' \<and> sends_on s0 a' cs sent b' ev xs
    \<and> (\<forall>i. a \<le> i \<longrightarrow> i < a' \<longrightarrow> of_nat (s0 + i) \<le> seq)"
proof (cases "cwnd_max_seq b < seq")
  case True
  then show ?thesis using eq inv
    by (intro exI [of _ a] exI [of _ "[]"]) (simp add: send_on_ack_def sends_on_def)
next
  case False
  let ?b1 = "let b = ack_window seq b (send_window b)
                   in if dest_max_seq b < seq then b\<lparr>dest_max_seq := seq\<rparr> else b"
  let ?b = "if send_window b \<noteq> [] then ?b1 else b"
  obtain a' where a': "a \<le> a'" "send_inv s0 a' cs sent (ack_window seq b (send_window b))"
    "\<And>i. a \<le> i \<Longrightarrow> i < a' \<Longrightarrow> of_nat (s0 + i) \<le> seq"
    using ack_window_inv [OF inv s0] by blast
  have b1: "send_inv s0 a' cs sent ?b1"
    by (rule send_inv_cong [OF a'(2)]) (simp_all add: Let_def)
  obtain a'' where a'': "a \<le> a''" "send_inv s0 a'' cs sent ?b" "\<forall>i. a \<le> i \<longrightarrow> i < a'' \<longrightarrow> of_nat (s0 + i) \<le> seq"
  proof (cases "send_window b = []")
    case True
    with inv that [of a] show ?thesis by simp
  next
    case False
    with b1 a' that [of a'] show ?thesis by simp
  qed
  obtain b2 c2 ev2 where e: "attempt_send now ?b c = (b2, c2, ev2)" by (metis prod_cases3)
  from attempt_send_ok [OF a''(2) s0 e] obtain xs where "sends_on s0 a'' cs sent b2 ev2 xs"
    by (auto simp: sends_on_def)
  moreover have "b' = b2" "ev = ev2 @ send_check_buffer b2"
    using eq e False by (auto simp add: send_on_ack_def Let_def)
  ultimately have "sends_on s0 a'' cs sent b' ev xs" by (simp add: sends_on_def)
  with a'' show ?thesis by blast
qed

section \<open>Runs\<close>

text \<open>
  The calls of the owning socket, each with the congestion controller at that time, so that what
  is proved does not depend on it.
\<close>

datatype send_op = Op_send u64 "byte list" | Op_ack u64 u64 | Op_nack u64 u64 "u16 list" | Op_timer u64
  | Op_clear_loss

fun send_op_step :: "send_op \<Rightarrow> ccc \<Rightarrow> send_buffer \<Rightarrow> send_buffer \<times> ccc \<times> send_event list" where
  "send_op_step (Op_send now d) c b = buffer_send now d b c"
| "send_op_step (Op_ack now seq) c b = send_on_ack now seq b c"
| "send_op_step (Op_nack now base ids) c b = send_on_nack now base ids b c"
| "send_op_step (Op_timer now) c b = send_on_timer now b c"
| "send_op_step Op_clear_loss c b = (clear_loss b, c, [])"

fun op_data :: "send_op \<Rightarrow> byte list" where
  "op_data (Op_send now d) = d"
| "op_data _ = []"

fun op_acks :: "send_op \<Rightarrow> u64 set" where
  "op_acks (Op_ack now seq) = {seq}"
| "op_acks (Op_nack now base ids) = {base}"
| "op_acks _ = {}"

fun send_run :: "(send_op \<times> ccc) list \<Rightarrow> send_buffer \<Rightarrow> send_buffer \<times> send_event list" where
  "send_run [] b = (b, [])"
| "send_run ((x, c) # ops) b =
     (case send_op_step x c b of (b, _, ev) \<Rightarrow> case send_run ops b of (b, ev') \<Rightarrow> (b, ev @ ev'))"

definition sent_data :: "(send_op \<times> ccc) list \<Rightarrow> byte list" where
  "sent_data ops = concat (map (op_data \<circ> fst) ops)"

definition acked_by :: "(send_op \<times> ccc) list \<Rightarrow> u64 set" where
  "acked_by ops = (\<Union>p \<in> set ops. op_acks (fst p))"

lemma send_op_step_ok:
  assumes inv: "send_inv s0 a cs sent b" and s0: "s0 + length (sent @ op_data x) < 2 ^ 64"
    and eq: "send_op_step x c b = (b', c', ev)"
  shows "\<exists>a' xs. a \<le> a' \<and> sends_on s0 a' cs (sent @ op_data x) b' ev xs
    \<and> (\<forall>i. a \<le> i \<longrightarrow> i < a' \<longrightarrow> (\<exists>seq \<in> op_acks x. of_nat (s0 + i) \<le> seq))"
proof (cases x)
  case (Op_send now d)
  then show ?thesis using buffer_send_ok [OF inv, of d now c b' c' ev] s0 eq
    by (intro exI [of _ a]) (simp add: sends_on_def)
next
  case (Op_ack now seq)
  then show ?thesis using send_on_ack_ok [OF inv, of now seq c b' c' ev] s0 eq by simp
next
  case (Op_nack now base ids)
  have "send_inv s0 a cs sent (add_losses base ids b)"
    by (rule send_inv_cong [OF inv]) (simp_all add: add_losses_def)
  from send_on_ack_ok [OF this, of now base c b' c' ev] Op_nack s0 eq show ?thesis
    by (simp add: send_on_nack_def)
next
  case (Op_timer now)
  obtain b2 c2 ev2 where e: "attempt_send now b c = (b2, c2, ev2)" by (metis prod_cases3)
  from attempt_send_ok [OF inv _ e] s0 obtain xs where "sends_on s0 a cs sent b2 ev2 xs"
    by (auto simp: sends_on_def)
  moreover have "b' = b2" "ev = ev2 @ send_check_buffer b2"
    using eq e Op_timer by (auto simp add: send_on_timer_def)
  ultimately have "sends_on s0 a cs sent b' ev xs" by (simp add: sends_on_def)
  then show ?thesis using Op_timer by (intro exI [of _ a] exI [of _ xs]) simp
next
  case Op_clear_loss
  have "send_inv s0 a cs sent (clear_loss b)"
    by (rule send_inv_cong [OF inv]) (simp_all add: clear_loss_def)
  then show ?thesis using Op_clear_loss eq
    by (intro exI [of _ a] exI [of _ "[]"]) (simp add: sends_on_def)
qed

lemma sends_on_trans:
  assumes "sends_on s0 a cs sent b ev xs" and "sends_on s0 a' (cs @ xs) sent' b' ev' ys"
  shows "sends_on s0 a' cs sent' b' (ev @ ev') (xs @ ys)"
proof -
  have e: "events_good s0 (cs @ xs @ ys) ev" "events_good s0 (cs @ xs @ ys) ev'"
    using assms events_good_mono [of s0 "cs @ xs" ev ys] by (simp_all add: sends_on_def)
  have "Send_data (of_nat (s0 + i)) ((cs @ xs @ ys) ! i) \<in> set (ev @ ev')"
    if "length cs \<le> i" "i < length (cs @ xs @ ys)" for i
  proof (cases "i < length (cs @ xs)")
    case True
    then have "(cs @ xs @ ys) ! i = (cs @ xs) ! i" by (metis append_assoc nth_append)
    with True assms(1) that(1) show ?thesis by (simp add: sends_on_def)
  next
    case False
    with assms(2) that show ?thesis by (simp add: sends_on_def)
  qed
  with e assms(2) show ?thesis by (simp add: sends_on_def)
qed

lemma send_run_ok:
  assumes "send_inv s0 a cs sent b" and "s0 + length (sent @ sent_data ops) < 2 ^ 64"
    and "send_run ops b = (b', ev)"
  shows "\<exists>a' xs. a \<le> a' \<and> sends_on s0 a' cs (sent @ sent_data ops) b' ev xs
    \<and> (\<forall>i. a \<le> i \<longrightarrow> i < a' \<longrightarrow> (\<exists>seq \<in> acked_by ops. of_nat (s0 + i) \<le> seq))"
  using assms
proof (induction ops arbitrary: a cs sent b ev)
  case Nil
  then show ?case by (intro exI [of _ a] exI [of _ "[]"]) (simp add: sends_on_def sent_data_def)
next
  case (Cons p ops)
  obtain x c where p: "p = (x, c)" by force
  obtain b1 c1 ev1 where 1: "send_op_step x c b = (b1, c1, ev1)" by (metis prod_cases3)
  obtain b2 ev2 where 2: "send_run ops b1 = (b2, ev2)" by force
  have r: "b2 = b'" "ev = ev1 @ ev2" using Cons(4) p 1 2 by auto
  have d: "sent_data (p # ops) = op_data x @ sent_data ops" "acked_by (p # ops) = op_acks x \<union> acked_by ops"
    by (simp_all add: sent_data_def acked_by_def p)
  have l: "s0 + length (sent @ op_data x) < 2 ^ 64"
    "s0 + length ((sent @ op_data x) @ sent_data ops) < 2 ^ 64" using Cons(3) d by simp_all
  obtain a1 xs where s: "a \<le> a1" "sends_on s0 a1 cs (sent @ op_data x) b1 ev1 xs"
    "\<forall>i. a \<le> i \<longrightarrow> i < a1 \<longrightarrow> (\<exists>seq \<in> op_acks x. of_nat (s0 + i) \<le> seq)"
    using send_op_step_ok [OF Cons(2) l(1) 1] by blast
  from s(2) have "send_inv s0 a1 (cs @ xs) (sent @ op_data x) b1" by (simp add: sends_on_def)
  from Cons(1) [OF this l(2), of ev2] 2 r obtain a2 ys where t: "a1 \<le> a2"
    "sends_on s0 a2 (cs @ xs) ((sent @ op_data x) @ sent_data ops) b' ev2 ys"
    "\<forall>i. a1 \<le> i \<longrightarrow> i < a2 \<longrightarrow> (\<exists>seq \<in> acked_by ops. of_nat (s0 + i) \<le> seq)" by blast
  have "sends_on s0 a2 cs (sent @ sent_data (p # ops)) b' ev (xs @ ys)"
    using sends_on_trans [OF s(2) t(2)] r d by simp
  moreover have "\<exists>seq \<in> acked_by (p # ops). of_nat (s0 + i) \<le> seq" if "a \<le> i" "i < a2" for i
    using s(3) t(3) that unfolding d(2) by (cases "i < a1") (blast, simp add: not_less, blast)
  ultimately show ?case using s(1) t(1) by (intro exI [of _ a2] exI [of _ "xs @ ys"]) auto
qed

lemma send_inv_reset:
  assumes "unat random + 1 < 2 ^ 64"
  shows "send_inv (unat random + 1) 0 [] [] (send_reset random now)"
  using assms by (simp add: send_inv_def send_reset_def window_is_def unat_word_ariths(1))

text \<open>
  C20. Whatever is acknowledged, reported lost or timed out, and whatever the congestion
  controller does, the send buffer treats the data given to it as one stream, cut into chunks of
  at most one segment: chunk i gets the number \<open>random + 1 + i\<close>, every packet that carries a
  number carries the chunk of that number, no chunk is left out, the waiting segments hold what
  was not sent yet, and the window holds, in order, every chunk that was sent and not
  acknowledged; a chunk leaves it only for an acknowledgement of its number or a later one.
  While less than 2^31 bytes are given to it, the byte count it reports is exact.
\<close>

theorem rudp_send_consistent:
  assumes "unat random + 1 + length (sent_data ops) < 2 ^ 64"
    and "send_run ops (send_reset random now) = (b, ev)"
  shows "\<exists>cs a. concat (cs @ map sdata (send_data b)) = sent_data ops
    \<and> (\<forall>d \<in> set (cs @ map sdata (send_data b)). d \<noteq> [] \<and> length d \<le> 1408)
    \<and> (\<forall>s d. Send_data s d \<in> set ev \<longrightarrow> (\<exists>i < length cs. s = random + 1 + of_nat i \<and> d = cs ! i))
    \<and> (\<forall>i < length cs. Send_data (random + 1 + of_nat i) (cs ! i) \<in> set ev)
    \<and> map (\<lambda>p. (fst p, sdata (snd p))) (send_window b)
        = map (\<lambda>i. (random + 1 + of_nat i, cs ! i)) [a..<length cs]
    \<and> (\<forall>i < a. \<exists>seq \<in> acked_by ops. random + 1 + of_nat i \<le> seq)
    \<and> (length (sent_data ops) < 2 ^ 31 \<longrightarrow>
        unat (buffer_data_size b) = length (concat (drop a cs @ map sdata (send_data b))))"
proof -
  let ?s = "unat random + 1"
  have num: "of_nat (?s + i) = random + 1 + of_nat i" for i by simp
  have "?s < 2 ^ 64" using assms(1) by simp
  from send_run_ok [OF send_inv_reset [OF this] _ assms(2)] assms(1)
  obtain a cs where r: "sends_on ?s a [] (sent_data ops) b ev cs"
    "\<forall>i. 0 \<le> i \<longrightarrow> i < a \<longrightarrow> (\<exists>seq \<in> acked_by ops. of_nat (?s + i) \<le> seq)"
    by auto
  have i: "send_inv ?s a cs (sent_data ops) b" using r by (simp add: sends_on_def)
  have "map (\<lambda>t. (fst t, snd (snd t))) (map pay (send_window b))
      = map (\<lambda>t. (fst t, snd (snd t))) (map (chunk_at ?s cs) [a..<length cs])"
    using i by (simp only: send_inv_def window_is_def)
  then have w: "map (\<lambda>p. (fst p, sdata (snd p))) (send_window b)
        = map (\<lambda>i. (random + 1 + of_nat i, cs ! i)) [a..<length cs]"
    by (simp add: comp_def)
  have 1: "concat (cs @ map sdata (send_data b)) = sent_data ops"
    "\<forall>d \<in> set (cs @ map sdata (send_data b)). d \<noteq> [] \<and> length d \<le> 1408"
    "length (sent_data ops) < 2 ^ 31 \<longrightarrow>
        unat (buffer_data_size b) = length (concat (drop a cs @ map sdata (send_data b)))"
    using i unfolding send_inv_def payloads_def SEND_SEGMENT_SIZE_def by blast+
  have 2: "\<forall>s d. Send_data s d \<in> set ev \<longrightarrow> (\<exists>i < length cs. s = random + 1 + of_nat i \<and> d = cs ! i)"
    using r unfolding sends_on_def events_good_def num by simp
  have 3: "\<forall>i < length cs. Send_data (random + 1 + of_nat i) (cs ! i) \<in> set ev"
    using r unfolding sends_on_def num by simp
  show ?thesis using r(2) w 1 2 3 unfolding num by blast
qed

theorem rudp_send_consistent_witness:
  "\<exists>cs a. concat (cs @ map sdata (send_data (fst (send_run
      [(Op_send 5 [1, 2, 3], ccc_init 0 0), (Op_nack 200 8 [0], ccc_init 0 0), (Op_send 201 [4], ccc_init 0 0)]
      (send_reset 7 0))))) = [1, 2, 3, 4 :: byte]
    \<and> (\<forall>i < a. \<exists>seq \<in> {8}. (8 :: u64) + of_nat i \<le> seq)"
  using rudp_send_consistent [of 7
      "[(Op_send 5 [1, 2, 3], ccc_init 0 0), (Op_nack 200 8 [0], ccc_init 0 0), (Op_send 201 [4], ccc_init 0 0)]"
      0, OF _ prod.collapse [symmetric]]
  by (simp add: sent_data_def acked_by_def del: send_run.simps) blast

section \<open>Flow control and loss recovery\<close>

lemma smap_set_keys:
  assumes "smap_inv w" and "k \<in> fst ` set w" shows "map fst (smap_set w k v) = map fst w"
  using assms by (induction w k v rule: smap_set.induct) fastforce+

lemma resend_segment_keys:
  assumes "smap_inv (rwindow r)" and "k \<in> fst ` set (rwindow r)"
  shows "map fst (rwindow (resend_segment k now seg r)) = map fst (rwindow r)"
  using assms by (simp add: resend_segment_def smap_set_keys)

lemma smap_inv_cong: "map fst w = map fst w' \<Longrightarrow> smap_inv w \<Longrightarrow> smap_inv w'"
  by (simp add: smap_inv_def)

lemma smap_find_key: "smap_find w k = Some v \<Longrightarrow> k \<in> fst ` set w"
  by (auto simp: smap_find_def dest!: map_of_SomeD intro: rev_image_eqI)

lemma resend_losses_keys:
  assumes "smap_inv (rwindow r)"
  shows "map fst (rwindow (snd (resend_losses cwnd rt now ks r))) = map fst (rwindow r)"
  using assms
proof (induction cwnd rt now ks r rule: resend_losses.induct)
  case (2 cwnd rt now k ks r)
  show ?case
  proof (cases "smap_find (rwindow r) k")
    case (Some seg)
    have e: "map fst (rwindow (resend_segment k now seg r)) = map fst (rwindow r)"
      by (rule resend_segment_keys [OF 2(4) smap_find_key [OF Some]])
    from smap_inv_cong [OF e [symmetric] 2(4)] have "smap_inv (rwindow (resend_segment k now seg r))" .
    with e Some 2 show ?thesis by (simp add: case_prod_beta Let_def)
  qed (use 2 in \<open>simp add: case_prod_beta\<close>)
qed simp

lemma resend_timeouts_keys:
  assumes "smap_inv (rwindow r)" and "fst ` set w \<subseteq> fst ` set (rwindow r)"
  shows "map fst (rwindow (resend_timeouts cwnd th dest now w r)) = map fst (rwindow r)"
  using assms
proof (induction cwnd th dest now w r rule: resend_timeouts.induct)
  case (2 cwnd th dest now k seg w r)
  have e: "map fst (rwindow (resend_segment k now seg r)) = map fst (rwindow r)"
    using 2(4) by (intro resend_segment_keys [OF 2(3)]) simp
  have "smap_inv (rwindow (resend_segment k now seg r))" by (rule smap_inv_cong [OF e [symmetric] 2(3)])
  moreover have "fst ` set w \<subseteq> fst ` set (rwindow (resend_segment k now seg r))"
    using 2(4) arg_cong [OF e, of set] by simp
  ultimately show ?case using e 2 by simp
qed simp

lemma touch_window_keys: "map fst (touch_window a b now w) = map fst w"
  using arg_cong [OF touch_window_pays [of a b now w], of "map fst"] by (simp only: map_fst_pay)

lemma attempt_resend_keys:
  assumes "smap_inv (send_window b)"
  shows "map fst (rwindow (snd (attempt_resend now b c))) = map fst (send_window b)"
  unfolding attempt_resend_def Let_def case_prod_beta using assms
  by (simp add: touch_window_keys resend_losses_keys resend_timeouts_keys)

text \<open>
  Flow control: an attempt to send leaves at most as many packets in flight as before or as
  the congestion window allows, whichever is more.
\<close>

theorem rudp_send_window_bound:
  assumes "length (send_window b) < 2 ^ 32" and "smap_inv (send_window b)"
    and "attempt_send now b c = (b', c', ev)"
  shows "length (send_window b') \<le> max (length (send_window b)) (unat (snd_cwnd c))"
proof -
  obtain losses r where r: "attempt_resend now b c = (losses, r)" by force
  obtain q r' where q: "attempt_new now b c r = (q, r')" by force
  have l: "length (rwindow r) = length (send_window b)"
    using arg_cong [OF attempt_resend_keys [OF assms(2), of now c], of length] r by simp
  have "length (rwindow r') \<le> max (length (send_window b)) (unat (snd_cwnd c))"
    using q l send_new_window [of "snd_cwnd c" "nagle b" now "send_data b" "of_nat (length (send_window b))" r]
      assms(1)
    by (auto simp: attempt_new_def unat_of_nat split: if_splits)
  then show ?thesis using assms(3) r q by (auto simp: attempt_send_split)
qed

theorem rudp_send_window_bound_witness:
  "length (send_window (fst (attempt_send 5 (send_reset 7 0) (ccc_init 0 0)))) \<le> 16"
proof -
  have "length (send_window (fst (attempt_send 5 (send_reset 7 0) (ccc_init 0 0))))
    \<le> max (length (send_window (send_reset 7 0))) (unat (snd_cwnd (ccc_init 0 0)))"
    by (rule rudp_send_window_bound [where c' = "fst (snd (attempt_send 5 (send_reset 7 0) (ccc_init 0 0)))"
          and ev = "snd (snd (attempt_send 5 (send_reset 7 0) (ccc_init 0 0)))"])
      (simp_all add: send_reset_def)
  then show ?thesis by (simp add: send_reset_def ccc_init_def ccc_reset_def DEFAULT_CWND_SIZE_def)
qed

text \<open>One step over the lost segments, with the state after a resend named.\<close>

definition resent_state :: "u64 \<Rightarrow> u64 \<Rightarrow> send_segment \<Rightarrow> resend_state \<Rightarrow> resend_state" where
  "resent_state k now seg r =
     (let r1 = resend_segment k now seg r in
      if rlast_ts r < last_send_ts seg
      then r1\<lparr>rlast_ts := last_send_ts seg, rlast_seq := (if rlast_seq r < k then k else rlast_seq r)\<rparr>
      else r1)"

lemma resent_state_sel:
  "rwindow (resent_state k now seg r)
    = smap_set (rwindow r) k (seg\<lparr>last_send_ts := now, send_count := send_count seg + 1\<rparr>)"
  "rsent (resent_state k now seg r) = rsent r + 1"
  "revents (resent_state k now seg r) = revents r @ [Send_data (sseq seg) (sdata seg)]"
  by (simp_all add: resent_state_def resend_segment_def Let_def)

lemma resend_losses_Cons:
  "resend_losses cwnd rt now (k # ks) r =
     (if rsent r \<ge> cwnd then (k # ks, r)
      else case smap_find (rwindow r) k of
        None \<Rightarrow> (k # fst (resend_losses cwnd rt now ks r), snd (resend_losses cwnd rt now ks r))
      | Some seg \<Rightarrow>
          if last_send_ts seg + ucast rt < now then resend_losses cwnd rt now ks (resent_state k now seg r)
          else (k # fst (resend_losses cwnd rt now ks r), snd (resend_losses cwnd rt now ks r)))"
  by (simp add: resent_state_def Let_def case_prod_beta split: option.split)

text \<open>What becomes of a lost number, for the window \<open>w\<close> before.\<close>

definition loss_done ::
    "u32 \<Rightarrow> u32 \<Rightarrow> u64 \<Rightarrow> (u64 \<times> send_segment) list \<Rightarrow> u64 \<Rightarrow> u64 list \<Rightarrow> send_event list \<Rightarrow> bool" where
  "loss_done cwnd rt now w k left ev =
     (case smap_find w k of
        None \<Rightarrow> k \<in> set left
      | Some seg \<Rightarrow>
          if last_send_ts seg + ucast rt < now
          then k \<notin> set left \<and> Send_data k (sdata seg) \<in> set ev \<or> k \<in> set left \<and> unat cwnd \<le> length ev
          else k \<in> set left)"

definition seqs_ok :: "(u64 \<times> send_segment) list \<Rightarrow> bool" where
  "seqs_ok w \<longleftrightarrow> smap_inv w \<and> (\<forall>p \<in> set w. sseq (snd p) = fst p)"

lemma seqs_ok_find: "seqs_ok w \<Longrightarrow> smap_find w k = Some seg \<Longrightarrow> sseq seg = k"
  using smap.find_iff [of w k seg] by (auto simp: seqs_ok_def)

lemma seqs_ok_set: "seqs_ok w \<Longrightarrow> sseq seg = k \<Longrightarrow> seqs_ok (smap_set w k seg)"
  using smap.set_pairs_upd [of w k seg] by (auto simp: seqs_ok_def smap.inv_upd)

lemma resend_losses_left: "set (fst (resend_losses cwnd rt now ks r)) \<subseteq> set ks"
proof (induction ks arbitrary: r)
  case (Cons k ks)
  show ?case
  proof (cases "smap_find (rwindow r) k")
    case (Some seg)
    with Cons [of r] Cons [of "resent_state k now seg r"] show ?thesis
      by (auto simp: resend_losses_Cons simp del: resend_losses.simps(2))
  qed (use Cons [of r] in \<open>auto simp: resend_losses_Cons simp del: resend_losses.simps(2)\<close>)
qed simp

lemma resend_losses_events: "set (revents r) \<subseteq> set (revents (snd (resend_losses cwnd rt now ks r)))"
proof (induction ks arbitrary: r)
  case (Cons k ks)
  show ?case
  proof (cases "smap_find (rwindow r) k")
    case (Some seg)
    with Cons [of r] Cons [of "resent_state k now seg r"] show ?thesis
      by (auto simp: resend_losses_Cons resent_state_sel simp del: resend_losses.simps(2))
  qed (use Cons in \<open>simp add: resend_losses_Cons del: resend_losses.simps(2)\<close>)
qed simp

lemma resend_losses_done:
  assumes "seqs_ok (rwindow r)" and "distinct ks" and "unat (rsent r) = length (revents r)" and "j \<in> set ks"
  shows "loss_done cwnd rt now (rwindow r) j (fst (resend_losses cwnd rt now ks r))
    (revents (snd (resend_losses cwnd rt now ks r)))"
  using assms
proof (induction ks arbitrary: r)
  case (Cons k ks)
  show ?case
  proof (cases "rsent r \<ge> cwnd")
    case True
    then show ?thesis using Cons(4,5)
      by (auto simp: loss_done_def word_le_nat_alt split: option.split)
  next
    case False
    show ?thesis
    proof (cases "\<exists>seg. smap_find (rwindow r) k = Some seg \<and> last_send_ts seg + ucast rt < now")
      case True
      then obtain seg where seg: "smap_find (rwindow r) k = Some seg" "last_send_ts seg + ucast rt < now" by auto
      let ?r = "resent_state k now seg r"
      have e: "resend_losses cwnd rt now (k # ks) r = resend_losses cwnd rt now ks ?r"
        using seg False by (simp add: resend_losses_Cons del: resend_losses.simps(2))
      have s: "sseq seg = k" by (rule seqs_ok_find [OF Cons(2) seg(1)])
      have ok: "seqs_ok (rwindow ?r)" unfolding resent_state_sel
        by (rule seqs_ok_set [OF Cons(2)]) (simp add: s)
      have "rsent r < cwnd" using False by simp
      from less_u32_Suc [OF this] have n: "unat (rsent ?r) = length (revents ?r)"
        using Cons(4) by (simp add: resent_state_sel)
      show ?thesis
      proof (cases "j = k")
        case True
        have "k \<notin> set (fst (resend_losses cwnd rt now ks ?r))"
          using resend_losses_left [of cwnd rt now ks ?r] Cons(3) by auto
        moreover have "Send_data k (sdata seg) \<in> set (revents (snd (resend_losses cwnd rt now ks ?r)))"
          using resend_losses_events [of ?r cwnd rt now ks] s by (auto simp: resent_state_sel)
        ultimately show ?thesis unfolding e using True seg by (simp add: loss_done_def)
      next
        case False
        have i: "smap_inv (rwindow r)" using Cons(2) by (simp add: seqs_ok_def)
        have "smap_find (rwindow ?r) j = smap_find (rwindow r) j"
          using smap.find_upd [OF i] False by (simp add: resent_state_sel)
        moreover have "loss_done cwnd rt now (rwindow ?r) j (fst (resend_losses cwnd rt now ks ?r))
            (revents (snd (resend_losses cwnd rt now ks ?r)))"
          using Cons(3,5) False by (intro Cons(1) ok n) auto
        ultimately show ?thesis unfolding e by (simp add: loss_done_def)
      qed
    next
      case stay: False
      have e: "resend_losses cwnd rt now (k # ks) r
          = (k # fst (resend_losses cwnd rt now ks r), snd (resend_losses cwnd rt now ks r))"
        using stay False by (auto simp: resend_losses_Cons simp del: resend_losses.simps(2) split: option.split)
      show ?thesis
      proof (cases "j = k")
        case True
        then show ?thesis unfolding e using stay by (auto simp: loss_done_def split: option.split)
      next
        case False
        with Cons have "loss_done cwnd rt now (rwindow r) j (fst (resend_losses cwnd rt now ks r))
            (revents (snd (resend_losses cwnd rt now ks r)))" by simp
        with False show ?thesis unfolding e by (auto simp: loss_done_def split: option.splits if_splits)
      qed
    qed
  qed
qed simp

lemma send_new_events: "\<exists>ev. revents (snd (send_new cwnd ng now q n r)) = revents r @ ev"
proof (induction q arbitrary: n r)
  case (Cons seg q)
  let ?seg = "seg\<lparr>push_ts := now, last_send_ts := now, send_count := 1\<rparr>"
  let ?r = "r\<lparr>rwindow := smap_insert (rwindow r) (sseq ?seg) ?seg,
      rmax := (if rmax r < sseq ?seg then sseq ?seg else rmax r),
      revents := revents r @ [Send_data (sseq ?seg) (sdata ?seg)]\<rparr>"
  obtain ev where "revents (snd (send_new cwnd ng now q (n + 1) ?r)) = revents ?r @ ev"
    using Cons by blast
  then have "\<exists>ev. revents (snd (send_new cwnd ng now q (n + 1) ?r)) = revents r @ ev" by auto
  then show ?case unfolding send_new.simps Let_def by (simp only: split: if_splits) auto
qed simp

lemma loss_done_more: "loss_done cwnd rt now w k left ev \<Longrightarrow> loss_done cwnd rt now w k left (ev @ ev')"
  by (auto simp: loss_done_def split: option.splits if_splits)

text \<open>
  C32. Loss recovery: when the buffer tries to send, a number reported lost is either sent again
  and no longer listed, or stays listed; it stays only when it is no longer in the window, when
  one round trip time has not passed since it was last sent, or when as many packets as the
  congestion window allows were sent already. No report is forgotten.
\<close>

theorem rudp_send_losses_resent:
  assumes "smap_inv (send_window b)" and "\<And>p. p \<in> set (send_window b) \<Longrightarrow> sseq (snd p) = fst p"
    and "distinct (loss_set b)" and "k \<in> set (loss_set b)"
    and "attempt_send now b c = (b', c', ev)"
  shows "case smap_find (send_window b) k of
      None \<Rightarrow> k \<in> set (loss_set b')
    | Some seg \<Rightarrow>
        if last_send_ts seg + ucast (rtt c) < now
        then k \<notin> set (loss_set b') \<and> Send_data k (sdata seg) \<in> set ev
          \<or> k \<in> set (loss_set b') \<and> unat (snd_cwnd c) \<le> length ev
        else k \<in> set (loss_set b')"
proof -
  let ?r = "\<lparr>rwindow = send_window b, rsent = 0, rmax = cwnd_max_seq b, rlast_ts = 0,
    rlast_seq = 0, rccc = c, revents = []\<rparr>"
  let ?l = "resend_losses (snd_cwnd c) (rtt c) now (loss_set b) ?r"
  obtain r' where r': "attempt_resend now b c = (fst ?l, r')" "revents r' = revents (snd ?l)"
    using assms(4) by (cases "loss_set b") (simp_all add: attempt_resend_def Let_def case_prod_beta)
  obtain q r2 where q: "attempt_new now b c r' = (q, r2)" by force
  obtain ev2 where ev: "ev = revents (snd ?l) @ ev2" and b': "loss_set b' = fst ?l"
    using send_new_events [of "snd_cwnd c" "nagle b" now "send_data b" "of_nat (length (send_window b))" r']
      q r' assms(5) by (auto simp: attempt_send_split attempt_new_def split: if_splits)
  have "loss_done (snd_cwnd c) (rtt c) now (rwindow ?r) k (fst ?l) (revents (snd ?l))"
    using assms(1-4) by (intro resend_losses_done) (auto simp: seqs_ok_def)
  from loss_done_more [OF this] show ?thesis unfolding ev b' by (simp add: loss_done_def)
qed

definition lossy_buffer :: send_buffer where
  "lossy_buffer = (send_reset 7 0)\<lparr>
     send_window := [(8, \<lparr>sseq = 8, push_ts = 1, last_send_ts = 1, send_count = 1, sdata = [65, 66]\<rparr>),
       (9, \<lparr>sseq = 9, push_ts = 1, last_send_ts = 1, send_count = 1, sdata = [67]\<rparr>)],
     loss_set := [8], cwnd_max_seq := 9\<rparr>"

theorem rudp_send_losses_resent_witness:
  "8 \<notin> set (loss_set (fst (attempt_send 500 lossy_buffer (ccc_init 7 0))))
    \<and> Send_data 8 [65, 66] \<in> set (snd (snd (attempt_send 500 lossy_buffer (ccc_init 7 0))))
   \<or> 8 \<in> set (loss_set (fst (attempt_send 500 lossy_buffer (ccc_init 7 0))))
    \<and> unat (snd_cwnd (ccc_init 7 0)) \<le> length (snd (snd (attempt_send 500 lossy_buffer (ccc_init 7 0))))"
proof -
  let ?a = "attempt_send 500 lossy_buffer (ccc_init 7 0)"
  have "case smap_find (send_window lossy_buffer) 8 of
      None \<Rightarrow> 8 \<in> set (loss_set (fst ?a))
    | Some seg \<Rightarrow>
        if last_send_ts seg + ucast (rtt (ccc_init 7 0)) < 500
        then 8 \<notin> set (loss_set (fst ?a)) \<and> Send_data 8 (sdata seg) \<in> set (snd (snd ?a))
          \<or> 8 \<in> set (loss_set (fst ?a)) \<and> unat (snd_cwnd (ccc_init 7 0)) \<le> length (snd (snd ?a))
        else 8 \<in> set (loss_set (fst ?a))"
    by (rule rudp_send_losses_resent [where c' = "fst (snd ?a)"]) (auto simp: lossy_buffer_def)
  then show ?thesis
    by (simp add: lossy_buffer_def smap_find_def ccc_init_def ccc_reset_def DEFAULT_RTT_def)
qed

end
