(* ===== verification/Rudp_Recv.thy ===== *)
theory Rudp_Recv
  imports Inno_Prelude Std_Map
begin

text \<open>
  \<open>common/rudp/rudp_recv_buffer.h\<close> and \<open>.cpp\<close>: the receive window of a connection. Packets that
  arrive in order go to the read queue, packets ahead of a gap wait in a map, and the gaps are
  remembered with the time they were seen. Calls of the owning socket (\<open>net_channel_\<close>) are
  events in the result, in the order the code makes them. The clock is an argument.
\<close>

section \<open>State\<close>

definition MAX_SEQ_INTNAL :: u64 where "MAX_SEQ_INTNAL = 20480"
definition MAX_SEGMENT_SIZE :: nat where "MAX_SEGMENT_SIZE = 1408"

text \<open>\<open>data_size_\<close> is the length of \<open>rdata\<close>.\<close>

record recv_segment =
  rseq :: u64
  rdata :: "byte list"

record recv_buffer =
  recv_window :: "(u64 \<times> recv_segment) list"
  recv_data :: "recv_segment list"
  loss_map :: "(u64 \<times> u64) list"
  first_seq :: u64
  max_seq :: u64
  last_ack_ts :: u64
  recv_new_packet :: bool
  bandwidth :: u32
  bandwidth_ts :: u64

datatype recv_event = On_read | On_exception | Send_ack u64 | Send_nack u64 "u16 list"

definition recv_reset :: "u64 \<Rightarrow> recv_buffer" where
  "recv_reset now = \<lparr>recv_window = [], recv_data = [], loss_map = [], first_seq = 0, max_seq = 0,
     last_ack_ts = 0, recv_new_packet = False, bandwidth = 0, bandwidth_ts = now\<rparr>"

definition set_first_seq :: "u64 \<Rightarrow> recv_buffer \<Rightarrow> recv_buffer" where
  "set_first_seq s b = b\<lparr>first_seq := s - 1, max_seq := s - 1\<rparr>"

definition set_send_last_ack_ts :: "u64 \<Rightarrow> recv_buffer \<Rightarrow> recv_buffer" where
  "set_send_last_ack_ts ts b = b\<lparr>last_ack_ts := ts, recv_new_packet := False\<rparr>"

section \<open>Arrival of a packet\<close>

text \<open>
  The iteration over the window from its begin: the segments that continue the sequence move to
  the read queue. The code adds their sizes to \<open>bandwidth_ts_\<close>, not to \<open>bandwidth_\<close>.
\<close>

fun check_window_loop ::
    "(u64 \<times> recv_segment) list \<Rightarrow> u64 \<Rightarrow> u64 \<Rightarrow> recv_segment list
     \<Rightarrow> (u64 \<times> recv_segment) list \<times> u64 \<times> u64 \<times> recv_segment list" where
  "check_window_loop [] first ts q = ([], first, ts, q)"
| "check_window_loop ((k, seg) # w) first ts q =
     (if k = first + 1
      then check_window_loop w k (ts + of_nat (length (rdata seg))) (q @ [seg])
      else ((k, seg) # w, first, ts, q))"

definition check_recv_window :: "recv_buffer \<Rightarrow> recv_buffer" where
  "check_recv_window b =
     (let (w, first, ts, q) =
        check_window_loop (recv_window b) (first_seq b) (bandwidth_ts b) (recv_data b)
      in b\<lparr>recv_window := w, first_seq := first, bandwidth_ts := ts, recv_data := q\<rparr>)"

text \<open>
  \<open>memcpy\<close> of a signed size from the bytes readable at the pointer. A negative size is converted
  to a huge one, and a size above what is readable leaves the buffer: \<open>None\<close> in both cases.
\<close>

definition copy_segment :: "u64 \<Rightarrow> byte list \<Rightarrow> 32 word \<Rightarrow> recv_segment option" where
  "copy_segment seq bytes sz =
     (if sint sz < 0 \<or> length bytes < nat (sint sz) then None
      else Some \<lparr>rseq = seq, rdata = take (nat (sint sz)) bytes\<rparr>)"

definition mark_losses :: "u64 \<Rightarrow> u64 \<Rightarrow> u64 \<Rightarrow> (u64 \<times> u64) list \<Rightarrow> (u64 \<times> u64) list" where
  "mark_losses from seq ts lm =
     fold (\<lambda>k lm. smap_set lm (from + of_nat k) ts) [0..<unat (seq - from)] lm"

definition recv_on_data ::
    "u64 \<Rightarrow> byte list \<Rightarrow> 32 word \<Rightarrow> u64 \<Rightarrow> recv_buffer \<Rightarrow> (recv_buffer \<times> recv_event list \<times> int) option"
    where
  "recv_on_data seq bytes sz now b =
     (if seq > first_seq b + MAX_SEQ_INTNAL \<or> sint sz > int MAX_SEGMENT_SIZE
      then Some (b, [On_exception], - 1)
      else
        let finish = (\<lambda>b. if max_seq b < seq then b\<lparr>max_seq := seq\<rparr> else b) in
        if first_seq b + 1 = seq then
          (case copy_segment seq bytes sz of
             None \<Rightarrow> None
           | Some seg \<Rightarrow>
               let b = b\<lparr>recv_new_packet := True, recv_data := recv_data b @ [seg], first_seq := seq\<rparr>;
                   b = check_recv_window b;
                   b = b\<lparr>loss_map := smap_erase (loss_map b) seq\<rparr>
               in Some (finish b, [On_read], 0))
        else if seq > first_seq b + 1 then
          (case (if smap_find (recv_window b) seq = None
                 then map_option (\<lambda>seg. b\<lparr>recv_window := smap_set (recv_window b) seq seg\<rparr>)
                        (copy_segment seq bytes sz)
                 else Some b) of
             None \<Rightarrow> None
           | Some b \<Rightarrow>
               let b = (if seq > max_seq b + 1
                        then b\<lparr>loss_map := mark_losses (max_seq b + 1) seq now (loss_map b)\<rparr>
                        else b\<lparr>loss_map := smap_erase (loss_map b) seq\<rparr>)
               in Some (finish b, [], 0))
        else Some (finish (b\<lparr>recv_new_packet := True\<rparr>), [], 0))"

section \<open>Timer\<close>

text \<open>One pass over the losses: what stays, and the distances that are reported.\<close>

fun check_loss_loop ::
    "u64 \<Rightarrow> u32 \<Rightarrow> u64 \<Rightarrow> (u64 \<times> u64) list \<Rightarrow> (u64 \<times> u64) list \<times> u16 list" where
  "check_loss_loop first rtc now [] = ([], [])"
| "check_loss_loop first rtc now ((k, ts) # lm) =
     (let (rest, ids) = check_loss_loop first rtc now lm in
      if k \<le> first then (rest, ids)
      else if ts + ucast (rtc div 2) < now then (rest, ucast (k - first) # ids)
      else ((k, ts) # rest, ids))"

definition check_loss :: "u64 \<Rightarrow> u32 \<Rightarrow> recv_buffer \<Rightarrow> recv_buffer \<times> recv_event list \<times> bool" where
  "check_loss now rtc b =
     (let (lm, ids) = check_loss_loop (first_seq b) rtc now (loss_map b);
          b = b\<lparr>loss_map := lm\<rparr>
      in (b, if ids \<noteq> [] then [Send_nack (first_seq b) ids] else [], ids \<noteq> []))"

definition recv_on_timer :: "u64 \<Rightarrow> u32 \<Rightarrow> recv_buffer \<Rightarrow> recv_buffer \<times> recv_event list" where
  "recv_on_timer now rtc b =
     (let (b, ev1, lost) = check_loss now rtc b;
          b = (if lost then b\<lparr>recv_new_packet := False\<rparr> else b);
          threshold = (if 20 < rtc div 2 then 20 else rtc div 2);
          (b, ev2) = (if last_ack_ts b + ucast threshold \<le> now \<and> recv_new_packet b
                      then (set_send_last_ack_ts now b, [Send_ack (first_seq b)]) else (b, []));
          ev3 = (if recv_data b \<noteq> [] then [On_read] else [])
      in (b, ev1 @ ev2 @ ev3))"

section \<open>Reading\<close>

text \<open>The loop of \<open>read\<close>: \<open>n\<close> is \<open>data_size - ret\<close>, the room left in the caller's array.\<close>

fun read_loop :: "recv_segment list \<Rightarrow> nat \<Rightarrow> recv_segment list \<times> byte list" where
  "read_loop [] n = ([], [])"
| "read_loop (seg # q) n =
     (if n = 0 then (seg # q, [])
      else if n < length (rdata seg)
      then (seg\<lparr>rdata := drop n (rdata seg)\<rparr> # q, take n (rdata seg))
      else let (q', out) = read_loop q (n - length (rdata seg)) in (q', rdata seg @ out))"

definition recv_read :: "32 word \<Rightarrow> recv_buffer \<Rightarrow> recv_buffer \<times> byte list" where
  "recv_read data_size b =
     (let (q, out) = read_loop (recv_data b) (nat (sint data_size)) in (b\<lparr>recv_data := q\<rparr>, out))"

section \<open>Statistics\<close>

definition recv_get_bandwidth :: "u64 \<Rightarrow> recv_buffer \<Rightarrow> u32 \<times> recv_buffer" where
  "recv_get_bandwidth cur b =
     ((if cur > bandwidth_ts b then ucast (ucast (bandwidth b * 1000) div (cur - bandwidth_ts b))
       else bandwidth b * 1000),
      b\<lparr>bandwidth_ts := cur, bandwidth := 0\<rparr>)"

definition recv_get_buffer_data_size :: "recv_buffer \<Rightarrow> 32 word" where
  "recv_get_buffer_data_size b =
     of_nat (sum_list (map (length \<circ> rdata) (recv_data b)))
     + of_nat (sum_list (map (length \<circ> rdata \<circ> snd) (recv_window b)))"

section \<open>The window invariant\<close>

text \<open>
  The sender numbers its segments; \<open>f s\<close> is the payload of number \<open>s\<close>. The window holds only
  segments ahead of the gap at \<open>first_seq + 1\<close>, each with the payload of its number. The bound
  keeps the 64 bit comparisons of the code away from the wrap-around.
\<close>

definition recv_inv :: "(nat \<Rightarrow> byte list) \<Rightarrow> recv_buffer \<Rightarrow> bool" where
  "recv_inv f b \<longleftrightarrow> smap_inv (recv_window b) \<and> unat (first_seq b) + 20482 < 2 ^ 64
     \<and> (\<forall>p \<in> set (recv_window b). unat (first_seq b) + 1 < unat (fst p)
          \<and> unat (fst p) + 20482 < 2 ^ 64 \<and> rdata (snd p) = f (unat (fst p)))"

definition window_keys :: "(u64 \<times> recv_segment) list \<Rightarrow> nat set" where
  "window_keys w = (\<lambda>p. unat (fst p)) ` set w"

definition received :: "nat \<Rightarrow> recv_buffer \<Rightarrow> nat set" where
  "received s0 b = {s0..unat (first_seq b)} \<union> window_keys (recv_window b)"

definition queued :: "recv_buffer \<Rightarrow> byte list" where
  "queued b = concat (map rdata (recv_data b))"

lemma unat_suc: "unat (x :: u64) + 1 < 2 ^ 64 \<Longrightarrow> unat (x + 1) = unat x + 1"
  by (simp add: unat_plus)

text \<open>Draining the window: a run of consecutive keys moves to the queue.\<close>

lemma check_window_loop_run:
  assumes "smap_inv w" and "\<And>p. p \<in> set w \<Longrightarrow> unat first < unat (fst p) \<and> rdata (snd p) = f (unat (fst p))"
    and "check_window_loop w first ts q = (w', first', ts', q')"
  shows "unat first \<le> unat first' \<and> map rdata q' = map rdata q @ map f [Suc (unat first)..<Suc (unat first')]
    \<and> window_keys w = {Suc (unat first)..unat first'} \<union> window_keys w'
    \<and> smap_inv w' \<and> set w' \<subseteq> set w \<and> (\<forall>p \<in> set w'. unat first' + 1 < unat (fst p))"
  using assms
proof (induction w first ts q rule: check_window_loop.induct)
  case (1 first ts q)
  then show ?case by (simp add: window_keys_def)
next
  case (2 k seg w first ts q)
  have k: "unat first < unat k" "rdata seg = f (unat k)" using 2(3) [of "(k, seg)"] by simp_all
  have w: "smap_inv w" "\<And>p. p \<in> set w \<Longrightarrow> unat k < unat (fst p)"
    using 2(2) by (auto simp: word_less_nat_alt)
  have lt: "unat k < 2 ^ 64" by (rule unat_ulint_less)
  show ?case
  proof (cases "k = first + 1")
    case True
    then have uk: "unat k = Suc (unat first)" using k(1) lt unat_suc [of first] by simp
    have "unat k \<le> unat first' \<and> map rdata q' = map rdata (q @ [seg]) @ map f [Suc (unat k)..<Suc (unat first')]
      \<and> window_keys w = {Suc (unat k)..unat first'} \<union> window_keys w'
      \<and> smap_inv w' \<and> set w' \<subseteq> set w \<and> (\<forall>p \<in> set w'. unat first' + 1 < unat (fst p))"
      by (rule 2(1) [OF True w(1)]) (use 2(3,4) w(2) True in simp_all)
    then show ?thesis
      using k(2) uk by (auto simp: window_keys_def upt_conv_Cons simp del: upt_Suc)
  next
    case False
    have "unat k \<noteq> unat first + 1"
    proof
      assume "unat k = unat first + 1"
      with lt have "unat k = unat (first + 1)" by (simp add: unat_suc)
      with False show False by (simp only: word_unat_eq_iff)
    qed
    with k(1) have "unat first + 1 < unat k" by simp
    with False 2(2,4) w(2) show ?thesis by (fastforce simp: window_keys_def)
  qed
qed

text \<open>An arriving packet that carries the payload of its number.\<close>

definition payload_ok :: "(nat \<Rightarrow> byte list) \<Rightarrow> bool" where
  "payload_ok f \<longleftrightarrow> (\<forall>s. length (f s) \<le> MAX_SEGMENT_SIZE)"

lemma copy_payload:
  assumes "payload_ok f"
  shows "copy_segment seq (f s) (of_nat (length (f s))) = Some \<lparr>rseq = seq, rdata = f s\<rparr>"
    and "\<not> sint (of_nat (length (f s)) :: 32 word) > int MAX_SEGMENT_SIZE"
proof -
  have "length (f s) \<le> 1408" using assms by (simp add: payload_ok_def MAX_SEGMENT_SIZE_def)
  then have "sint (of_nat (length (f s)) :: 32 word) = int (length (f s))"
    by (simp add: signed_of_nat signed_take_bit_int_eq_self)
  with assms show "copy_segment seq (f s) (of_nat (length (f s))) = Some \<lparr>rseq = seq, rdata = f s\<rparr>"
    and "\<not> sint (of_nat (length (f s)) :: 32 word) > int MAX_SEGMENT_SIZE"
    by (simp_all add: copy_segment_def payload_ok_def not_less)
qed

text \<open>What one arrival does to the received set, the queue and the invariant.\<close>

lemma window_keys_set:
  "smap_inv w \<Longrightarrow> window_keys (smap_set w k v) = insert (unat k) (window_keys w)"
  using set_smap_set_keys [of w k v] by (simp add: window_keys_def image_image [symmetric])

lemma recv_on_data_step:
  assumes f: "payload_ok f" and inv: "recv_inv f b" and s0: "s0 \<le> Suc (unat (first_seq b))"
    and seq: "unat seq + 20482 < 2 ^ 64"
  shows "\<exists>b' ev ret. recv_on_data seq (f (unat seq)) (of_nat (length (f (unat seq)))) now b = Some (b', ev, ret)
    \<and> recv_inv f b' \<and> unat (first_seq b) \<le> unat (first_seq b')
    \<and> queued b' = queued b @ concat (map f [Suc (unat (first_seq b))..<Suc (unat (first_seq b'))])
    \<and> (ret = 0 \<longleftrightarrow> unat seq \<le> unat (first_seq b) + 20480)
    \<and> received s0 b' = (if ret = 0 \<and> s0 \<le> unat seq then insert (unat seq) (received s0 b) else received s0 b)"
proof -
  let ?n = "unat (first_seq b)"
  note cp = copy_payload(1) [OF f, of seq "unat seq"] copy_payload(2) [OF f, of "unat seq"]
  have first: "?n + 20482 < 2 ^ 64" using inv by (simp add: recv_inv_def)
  have u: "unat (first_seq b + MAX_SEQ_INTNAL) = ?n + 20480" "unat (first_seq b + 1) = ?n + 1"
    using first by (simp_all add: MAX_SEQ_INTNAL_def unat_plus)
  consider (far) "unat seq > ?n + 20480" | (succ) "unat seq = ?n + 1"
    | (ahead) "?n + 1 < unat seq" "unat seq \<le> ?n + 20480" | (old) "unat seq \<le> ?n" by linarith
  then show ?thesis
  proof cases
    case far
    then show ?thesis
      using inv by (simp add: recv_on_data_def word_less_nat_alt u)
  next
    case succ
    then have eq: "first_seq b + 1 = seq" by (simp only: word_unat_eq_iff u)
    have nf: "\<not> seq > first_seq b + MAX_SEQ_INTNAL" using succ by (simp add: word_less_nat_alt u)
    let ?seg = "\<lparr>rseq = seq, rdata = f (unat seq)\<rparr>"
    obtain w first' ts q where l:
      "check_window_loop (recv_window b) seq (bandwidth_ts b) (recv_data b @ [?seg]) = (w, first', ts, q)"
      by (metis prod_cases4)
    have keys: "unat seq < unat (fst p) \<and> rdata (snd p) = f (unat (fst p))" if "p \<in> set (recv_window b)" for p
      using inv that succ by (auto simp: recv_inv_def)
    have "smap_inv (recv_window b)" using inv by (simp add: recv_inv_def)
    note run = check_window_loop_run [OF this keys l]
    have ub: "unat first' + 20482 < 2 ^ 64"
    proof (cases "unat first' = unat seq")
      case False
      with run have "unat first' \<in> window_keys (recv_window b)" by auto
      with inv show ?thesis by (auto simp: recv_inv_def window_keys_def)
    qed (use seq in simp)
    let ?b = "b\<lparr>recv_new_packet := True, recv_data := q, first_seq := first', recv_window := w,
      bandwidth_ts := ts, loss_map := smap_erase (loss_map b) seq\<rparr>"
    have res: "recv_on_data seq (f (unat seq)) (of_nat (length (f (unat seq)))) now b =
        Some (if max_seq b < seq then ?b\<lparr>max_seq := seq\<rparr> else ?b, [On_read], 0)"
      using cp eq nf by (simp add: recv_on_data_def Let_def check_recv_window_def l)
    have "recv_inv f ?b"
      using run inv ub unfolding recv_inv_def by auto
    moreover have "queued ?b = queued b @ concat (map f [Suc ?n..<Suc (unat first')])"
      using run succ by (simp add: queued_def upt_conv_Cons del: upt_Suc)
    moreover have "received s0 ?b = insert (unat seq) (received s0 b)"
      using run succ s0 by (auto simp: received_def)
    ultimately show ?thesis
      using run succ s0 unfolding res
      by (cases "max_seq b < seq") (simp_all add: recv_inv_def queued_def received_def)
  next
    case ahead
    then have ne: "first_seq b + 1 \<noteq> seq" using u(2) by auto
    define w where "w = (if smap_find (recv_window b) seq = None
      then smap_set (recv_window b) seq \<lparr>rseq = seq, rdata = f (unat seq)\<rparr> else recv_window b)"
    have inv': "smap_inv (recv_window b)" using inv by (simp add: recv_inv_def)
    have keys: "window_keys w = insert (unat seq) (window_keys (recv_window b))"
    proof (cases "smap_find (recv_window b) seq")
      case (Some seg)
      then have "(seq, seg) \<in> set (recv_window b)" using smap.find_iff [OF inv'] by simp
      then have "unat seq \<in> window_keys (recv_window b)" by (force simp: window_keys_def)
      with Some show ?thesis by (auto simp: w_def)
    qed (simp add: w_def window_keys_set inv')
    have "set w \<subseteq> insert (seq, \<lparr>rseq = seq, rdata = f (unat seq)\<rparr>) (set (recv_window b))"
      using smap.set_pairs_upd [OF inv', of seq] by (auto simp: w_def)
    then have mem: "unat (first_seq b) + 1 < unat (fst p) \<and> unat (fst p) + 20482 < 2 ^ 64
        \<and> rdata (snd p) = f (unat (fst p))" if "p \<in> set w" for p
      using inv that ahead(1) seq by (auto simp: recv_inv_def)
    have "smap_inv w" using inv' by (simp add: w_def smap.inv_upd)
    then have winv: "recv_inv f (b\<lparr>recv_window := w\<rparr>)" using mem first by (simp add: recv_inv_def)
    obtain lm mx where res: "recv_on_data seq (f (unat seq)) (of_nat (length (f (unat seq)))) now b =
        Some (b\<lparr>recv_window := w, loss_map := lm, max_seq := mx\<rparr>, [], 0)"
    proof
      let ?lm = "if max_seq b + 1 < seq then mark_losses (max_seq b + 1) seq now (loss_map b)
        else smap_erase (loss_map b) seq"
      show "recv_on_data seq (f (unat seq)) (of_nat (length (f (unat seq)))) now b =
        Some (b\<lparr>recv_window := w, loss_map := ?lm, max_seq := if max_seq b < seq then seq else max_seq b\<rparr>, [], 0)"
        using ahead cp ne
        by (simp add: recv_on_data_def word_less_nat_alt u Let_def w_def option.case_distrib cong: if_cong)
    qed
    show ?thesis
      unfolding res using winv keys ahead s0 by (auto simp: recv_inv_def queued_def received_def)
  next
    case old
    then have "first_seq b + 1 \<noteq> seq" using u(2) by auto
    with old have res: "recv_on_data seq (f (unat seq)) (of_nat (length (f (unat seq)))) now b =
        Some (b\<lparr>recv_new_packet := True, max_seq := if max_seq b < seq then seq else max_seq b\<rparr>, [], 0)"
      using cp by (simp add: recv_on_data_def word_less_nat_alt u Let_def)
    show ?thesis
      unfolding res using inv old s0 by (auto simp: recv_inv_def queued_def received_def)
  qed
qed

lemma read_loop_split:
  "read_loop q n = (q', out) \<Longrightarrow> concat (map rdata q) = out @ concat (map rdata q')
    \<and> length out = min n (length (concat (map rdata q)))"
proof (induction q n arbitrary: q' out rule: read_loop.induct)
  case (2 seg q n)
  show ?case
  proof (cases "n = 0 \<or> n < length (rdata seg)")
    case True
    with "2.prems" show ?thesis by (auto simp: min_def split: if_splits)
  next
    case False
    obtain q1 out1 where r: "read_loop q (n - length (rdata seg)) = (q1, out1)" by fastforce
    with False "2.prems" have e: "q' = q1" "out = rdata seg @ out1" by (simp_all add: Let_def)
    have ih: "concat (map rdata q) = out1 @ concat (map rdata q1)
        \<and> length out1 = min (n - length (rdata seg)) (length (concat (map rdata q)))"
      by (rule "2.IH" [OF _ _ r]) (use False in simp_all)
    from False obtain k where k: "n = length (rdata seg) + k" by (auto simp: not_less le_iff_add)
    show ?thesis
      using conjunct2 [OF ih] unfolding k by (simp add: e conjunct1 [OF ih, symmetric] min_def)
  qed
qed simp

lemma timer_keeps:
  "recv_window (fst (recv_on_timer now rtc b)) = recv_window b
   \<and> recv_data (fst (recv_on_timer now rtc b)) = recv_data b
   \<and> first_seq (fst (recv_on_timer now rtc b)) = first_seq b"
  by (simp add: recv_on_timer_def check_loss_def set_send_last_ack_ts_def Let_def case_prod_beta)

section \<open>Runs\<close>

text \<open>
  What may happen to a receive buffer between the handshake and the end of the connection: a
  packet of the sender arrives, at any time, in any order, any number of times; the timer
  fires; the application reads. The state also has what was read and the accepted numbers.
\<close>

datatype recv_op = Arrive u64 u64 | Tick u64 u32 | Read "32 word"

fun recv_step :: "(nat \<Rightarrow> byte list) \<Rightarrow> recv_op \<Rightarrow> recv_buffer \<times> byte list \<times> nat set
    \<Rightarrow> (recv_buffer \<times> byte list \<times> nat set) option" where
  "recv_step f (Arrive seq now) (b, out, acc) =
     (case recv_on_data seq (f (unat seq)) (of_nat (length (f (unat seq)))) now b of
        None \<Rightarrow> None
      | Some (b', ev, ret) \<Rightarrow> Some (b', out, if ret = 0 then insert (unat seq) acc else acc))"
| "recv_step f (Tick now rtc) (b, out, acc) = Some (fst (recv_on_timer now rtc b), out, acc)"
| "recv_step f (Read n) (b, out, acc) =
     (let (b', d) = recv_read n b in Some (b', out @ d, acc))"

fun recv_run :: "(nat \<Rightarrow> byte list) \<Rightarrow> recv_op list \<Rightarrow> recv_buffer \<times> byte list \<times> nat set
    \<Rightarrow> (recv_buffer \<times> byte list \<times> nat set) option" where
  "recv_run f [] s = Some s"
| "recv_run f (op # ops) s = (case recv_step f op s of None \<Rightarrow> None | Some s' \<Rightarrow> recv_run f ops s')"

definition op_ok :: "recv_op \<Rightarrow> bool" where
  "op_ok op = (case op of Arrive seq now \<Rightarrow> unat seq + 20482 < 2 ^ 64 | _ \<Rightarrow> True)"

definition run_inv :: "(nat \<Rightarrow> byte list) \<Rightarrow> nat \<Rightarrow> recv_buffer \<times> byte list \<times> nat set \<Rightarrow> bool" where
  "run_inv f s0 s = (case s of (b, out, acc) \<Rightarrow>
     recv_inv f b \<and> s0 \<le> Suc (unat (first_seq b))
     \<and> out @ queued b = concat (map f [s0..<Suc (unat (first_seq b))])
     \<and> received s0 b = {n \<in> acc. s0 \<le> n})"

lemma recv_step_inv:
  assumes "payload_ok f" "op_ok op" "run_inv f s0 s"
  shows "\<exists>s'. recv_step f op s = Some s' \<and> run_inv f s0 s'"
proof -
  obtain b out acc where s: "s = (b, out, acc)" by (cases s)
  show ?thesis
  proof (cases op)
    case (Arrive seq now)
    let ?n = "unat (first_seq b)"
    have i: "recv_inv f b" "s0 \<le> Suc ?n" "out @ queued b = concat (map f [s0..<Suc ?n])"
      "received s0 b = {n \<in> acc. s0 \<le> n}" using assms(3) by (auto simp: run_inv_def s)
    have "unat seq + 20482 < 2 ^ 64" using assms(2) by (simp add: op_ok_def Arrive)
    from recv_on_data_step [OF assms(1) i(1,2) this, of now] obtain b' ev ret where r:
      "recv_on_data seq (f (unat seq)) (of_nat (length (f (unat seq)))) now b = Some (b', ev, ret)"
      "recv_inv f b'" "?n \<le> unat (first_seq b')"
      "queued b' = queued b @ concat (map f [Suc ?n..<Suc (unat (first_seq b'))])"
      "received s0 b' = (if ret = 0 \<and> s0 \<le> unat seq then insert (unat seq) (received s0 b) else received s0 b)"
      by blast
    have "[s0..<Suc (unat (first_seq b'))] = [s0..<Suc ?n] @ [Suc ?n..<Suc (unat (first_seq b'))]"
      using upt_add_eq_append [OF i(2), of "unat (first_seq b') - ?n"] r(3) by simp
    with i r(4) have "out @ queued b' = concat (map f [s0..<Suc (unat (first_seq b'))])"
      by (simp only: append_assoc [symmetric]) (simp only: map_append concat_append)
    with i r show ?thesis by (auto simp: Arrive s run_inv_def)
  next
    case (Tick now rtc)
    with assms(3) timer_keeps [of now rtc b] show ?thesis
      by (auto simp: s run_inv_def recv_inv_def queued_def received_def)
  next
    case (Read n)
    obtain q d where l: "read_loop (recv_data b) (nat (sint n)) = (q, d)" by fastforce
    from read_loop_split [OF l] assms(3) show ?thesis
      by (auto simp: Read s run_inv_def recv_inv_def queued_def received_def recv_read_def l)
  qed
qed

lemma recv_run_inv:
  assumes "payload_ok f" "\<forall>op \<in> set ops. op_ok op" "run_inv f s0 s"
  shows "\<exists>s'. recv_run f ops s = Some s' \<and> run_inv f s0 s'"
  using assms(2,3)
proof (induction ops arbitrary: s)
  case (Cons op ops)
  from recv_step_inv [OF assms(1) _ Cons.prems(2), of op] Cons.prems(1)
  obtain s' where s': "recv_step f op s = Some s'" "run_inv f s0 s'" by auto
  from Cons.IH [OF _ s'(2)] Cons.prems(1) s'(1) show ?case by simp
qed simp

lemma start_inv:
  assumes "1 \<le> s0" "s0 + 20482 < 2 ^ 64"
  shows "run_inv f s0 (set_first_seq (of_nat s0) (recv_reset now), [], {})"
proof -
  have u: "unat (of_nat s0 :: u64) = s0" using assms(2) by (simp add: unat_of_nat)
  then have "unat (of_nat s0 - 1 :: u64) = s0 - 1"
    using assms(1) by (subst unat_sub) (simp_all add: word_le_nat_alt)
  with assms show ?thesis
    by (auto simp: run_inv_def recv_inv_def set_first_seq_def recv_reset_def queued_def
        received_def window_keys_def)
qed

section \<open>Properties\<close>

text \<open>
  C21. Reliable in-order delivery. From the handshake with start number \<open>s0\<close>, whatever arrives,
  in any order, with duplicates and losses, and however the timer and the reads interleave: the
  buffer never fails; the bytes read so far followed by the bytes ready to read are the
  payloads of the numbers \<open>s0\<close> to \<open>first_seq\<close>, each once and in order; all those numbers have been
  accepted; and the number after them has not, so nothing that could be delivered is withheld.
\<close>

theorem rudp_recv_in_order:
  assumes "payload_ok f" and "1 \<le> s0" "s0 + 20482 < 2 ^ 64" and "\<forall>op \<in> set ops. op_ok op"
  shows "\<exists>b out acc. recv_run f ops (set_first_seq (of_nat s0) (recv_reset now), [], {}) = Some (b, out, acc)
    \<and> out @ queued b = concat (map f [s0..<Suc (unat (first_seq b))])
    \<and> {s0..unat (first_seq b)} \<subseteq> acc \<and> Suc (unat (first_seq b)) \<notin> acc"
proof -
  from recv_run_inv [OF assms(1,4) start_inv [OF assms(2,3)]] obtain b out acc where
    r: "recv_run f ops (set_first_seq (of_nat s0) (recv_reset now), [], {}) = Some (b, out, acc)"
    and i: "run_inv f s0 (b, out, acc)" by (metis prod_cases3)
  have inv: "recv_inv f b" using i by (simp add: run_inv_def)
  then have "Suc (unat (first_seq b)) \<notin> received s0 b"
    using inv by (auto simp: received_def window_keys_def recv_inv_def)
  moreover have "received s0 b = {n \<in> acc. s0 \<le> n}" "s0 \<le> Suc (unat (first_seq b))"
    using i by (simp_all add: run_inv_def)
  ultimately have "Suc (unat (first_seq b)) \<notin> acc" by blast
  moreover have "{s0..unat (first_seq b)} \<subseteq> received s0 b" by (auto simp: received_def)
  moreover have "out @ queued b = concat (map f [s0..<Suc (unat (first_seq b))])"
    using i by (simp add: run_inv_def)
  ultimately show ?thesis using r \<open>received s0 b = {n \<in> acc. s0 \<le> n}\<close> by blast
qed

theorem rudp_recv_in_order_witness:
  "\<exists>b out acc. recv_run (\<lambda>s. [of_nat s]) [Arrive 6 0, Arrive 5 1, Read 1]
      (set_first_seq (of_nat 5) (recv_reset 0), [], {}) = Some (b, out, acc)
    \<and> {5..unat (first_seq b)} \<subseteq> acc"
proof -
  have "\<forall>op \<in> set [Arrive 6 0, Arrive 5 1, Read 1]. op_ok op" by (simp add: op_ok_def)
  moreover have "payload_ok (\<lambda>s. [of_nat s])" by (simp add: payload_ok_def MAX_SEGMENT_SIZE_def)
  moreover have "(1 :: nat) \<le> 5" "(5 :: nat) + 20482 < 2 ^ 64" by simp_all
  ultimately show ?thesis
    using rudp_recv_in_order [of "\<lambda>s. [of_nat s]" 5 "[Arrive 6 0, Arrive 5 1, Read 1]" 0] by blast
qed

section \<open>Requests for missing packets\<close>

text \<open>
  The losses ahead of \<open>first_seq\<close> are numbers below the highest one seen that are not in the
  window; everything seen is at most 20480 ahead.
\<close>

definition loss_inv :: "recv_buffer \<Rightarrow> bool" where
  "loss_inv b \<longleftrightarrow> smap_inv (loss_map b) \<and> unat (first_seq b) \<le> unat (max_seq b)
     \<and> unat (max_seq b) \<le> unat (first_seq b) + 20480
     \<and> (\<forall>n \<in> window_keys (recv_window b). n \<le> unat (max_seq b))
     \<and> (\<forall>p \<in> set (loss_map b). unat (first_seq b) < unat (fst p) \<longrightarrow>
          unat (fst p) \<notin> window_keys (recv_window b) \<and> unat (fst p) \<le> unat (max_seq b))"

lemma mark_losses_keys:
  assumes "smap_inv lm" and "unat from + (unat (seq - from)) < 2 ^ 64"
  shows "smap_inv (mark_losses from seq ts lm)"
    and "p \<in> set (mark_losses from seq ts lm) \<Longrightarrow> p \<in> set lm
      \<or> unat from \<le> unat (fst p) \<and> unat (fst p) < unat from + unat (seq - from)"
proof -
  have "smap_inv (fold (\<lambda>k lm. smap_set lm (from + of_nat k) ts) [0..<n] lm)
    \<and> (\<forall>p \<in> set (fold (\<lambda>k lm. smap_set lm (from + of_nat k) ts) [0..<n] lm).
        p \<in> set lm \<or> unat from \<le> unat (fst p) \<and> unat (fst p) < unat from + n)"
    if "unat from + n < 2 ^ 64" for n
    using that
  proof (induction n)
    case (Suc n)
    let ?l = "fold (\<lambda>k lm. smap_set lm (from + of_nat k) ts) [0..<n] lm"
    have "unat (of_nat n :: u64) = n" using Suc.prems by (simp add: unat_of_nat)
    then have u: "unat (from + of_nat n) = unat from + n" using Suc.prems by (simp add: unat_plus)
    have ih: "smap_inv ?l" "\<forall>p \<in> set ?l. p \<in> set lm \<or> unat from \<le> unat (fst p) \<and> unat (fst p) < unat from + n"
      using Suc by simp_all
    show ?case
    proof (intro conjI ballI)
      show "smap_inv (fold (\<lambda>k lm. smap_set lm (from + of_nat k) ts) [0..<Suc n] lm)"
        using ih(1) by (simp add: smap.inv_upd)
      fix p assume "p \<in> set (fold (\<lambda>k lm. smap_set lm (from + of_nat k) ts) [0..<Suc n] lm)"
      then have "p = (from + of_nat n, ts) \<or> p \<in> set ?l"
        using smap.set_pairs_upd [OF ih(1)] by auto
      then show "p \<in> set lm \<or> unat from \<le> unat (fst p) \<and> unat (fst p) < unat from + Suc n"
        using ih(2) u by fastforce
    qed
  qed (use assms(1) in simp)
  from this [OF assms(2)] show "smap_inv (mark_losses from seq ts lm)"
    "p \<in> set (mark_losses from seq ts lm) \<Longrightarrow> p \<in> set lm
      \<or> unat from \<le> unat (fst p) \<and> unat (fst p) < unat from + unat (seq - from)"
    by (auto simp: mark_losses_def)
qed

text \<open>The invariant when the window drains, and when a packet ahead of the gap is stored.\<close>

lemma loss_inv_drained:
  assumes "loss_inv b" and "smap_inv w" "set w \<subseteq> set (recv_window b)"
    and "unat (first_seq b) \<le> unat first'" "unat first' \<le> unat mx" "unat mx \<le> unat first' + 20480"
    and "unat (max_seq b) \<le> unat mx" and "\<forall>p \<in> set lm. p \<in> set (loss_map b)" "smap_inv lm"
    and "recv_window b' = w" "first_seq b' = first'" "max_seq b' = mx" "loss_map b' = lm"
  shows "loss_inv b'"
proof -
  have "window_keys w \<subseteq> window_keys (recv_window b)" using assms(3) by (auto simp: window_keys_def)
  note k = this
  have li: "n \<in> window_keys (recv_window b) \<Longrightarrow> n \<le> unat (max_seq b)"
    "p \<in> set (loss_map b) \<Longrightarrow> unat (first_seq b) < unat (fst p) \<Longrightarrow>
      unat (fst p) \<notin> window_keys (recv_window b) \<and> unat (fst p) \<le> unat (max_seq b)" for n p
    using assms(1) by (simp_all add: loss_inv_def)
  have "n \<le> unat mx" if "n \<in> window_keys w" for n
    using that k li(1) assms(7) by (meson in_mono le_trans)
  moreover have "unat (fst p) \<notin> window_keys w \<and> unat (fst p) \<le> unat mx"
    if p: "p \<in> set lm" "unat first' < unat (fst p)" for p
  proof -
    have "p \<in> set (loss_map b)" "unat (first_seq b) < unat (fst p)" using p assms(4,8) by simp_all
    from li(2) [OF this] k assms(7) show ?thesis by auto
  qed
  moreover note assms(5,6,9)
  ultimately show ?thesis by (simp add: loss_inv_def assms(10-13))
qed

lemma loss_inv_step:
  assumes f: "payload_ok f" and inv: "recv_inv f b" "loss_inv b"
    and seq: "unat seq + 20482 < 2 ^ 64"
    and r: "recv_on_data seq (f (unat seq)) (of_nat (length (f (unat seq)))) now b = Some (b', ev, ret)"
  shows "loss_inv b'"
proof -
  let ?n = "unat (first_seq b)" and ?m = "unat (max_seq b)"
  note cp = copy_payload(1) [OF f, of seq "unat seq"] copy_payload(2) [OF f, of "unat seq"]
  have first: "?n + 20482 < 2 ^ 64" and wi: "smap_inv (recv_window b)" using inv by (simp_all add: recv_inv_def)
  have u: "unat (first_seq b + MAX_SEQ_INTNAL) = ?n + 20480" "unat (first_seq b + 1) = ?n + 1"
    using first by (simp_all add: MAX_SEQ_INTNAL_def unat_plus)
  have li: "smap_inv (loss_map b)" "?n \<le> ?m" "?m \<le> ?n + 20480"
    "\<And>n. n \<in> window_keys (recv_window b) \<Longrightarrow> n \<le> ?m"
    "\<And>p. p \<in> set (loss_map b) \<Longrightarrow> ?n < unat (fst p) \<Longrightarrow>
      unat (fst p) \<notin> window_keys (recv_window b) \<and> unat (fst p) \<le> ?m"
    using inv(2) by (auto simp: loss_inv_def)
  have er: "smap_inv (smap_erase (loss_map b) seq)" "\<forall>p \<in> set (smap_erase (loss_map b) seq). p \<in> set (loss_map b)"
    using li(1) by (simp_all add: smap.inv_del) (simp add: smap_erase_def)
  consider (far) "unat seq > ?n + 20480" | (succ) "unat seq = ?n + 1"
    | (ahead) "?n + 1 < unat seq" "unat seq \<le> ?n + 20480" | (old) "unat seq \<le> ?n" by linarith
  then show ?thesis
  proof cases
    case far
    then have "b' = b" using r by (simp add: recv_on_data_def word_less_nat_alt u)
    with inv show ?thesis by simp
  next
    case succ
    then have eq: "first_seq b + 1 = seq" by (simp only: word_unat_eq_iff u)
    have nf: "\<not> seq > first_seq b + MAX_SEQ_INTNAL" using succ by (simp add: word_less_nat_alt u)
    obtain w first' ts q where l: "check_window_loop (recv_window b) seq (bandwidth_ts b)
      (recv_data b @ [\<lparr>rseq = seq, rdata = f (unat seq)\<rparr>]) = (w, first', ts, q)"
      by (metis prod_cases4)
    have keys: "unat seq < unat (fst p) \<and> rdata (snd p) = f (unat (fst p))" if "p \<in> set (recv_window b)" for p
      using inv that succ by (auto simp: recv_inv_def)
    note run = check_window_loop_run [OF wi keys l]
    have "unat first' = unat seq \<or> unat first' \<in> window_keys (recv_window b)" using run by auto
    with li(4) [of "unat first'"] have fm: "unat first' \<le> max (unat seq) ?m" by auto
    have b': "recv_window b' = w" "first_seq b' = first'" "loss_map b' = smap_erase (loss_map b) seq"
      "max_seq b' = (if max_seq b < seq then seq else max_seq b)"
      using r cp eq nf by (auto simp: recv_on_data_def Let_def check_recv_window_def l)
    show ?thesis
      by (rule loss_inv_drained [OF inv(2) _ _ _ _ _ _ er(2,1) b'(1,2) refl b'(3)])
        (use run li(2,3) succ fm b'(4) in \<open>auto simp: word_less_nat_alt split: if_splits\<close>)
  next
    case ahead
    then have ne: "first_seq b + 1 \<noteq> seq" using u(2) by auto
    have nf: "\<not> seq > first_seq b + MAX_SEQ_INTNAL" "seq > first_seq b + 1"
      using ahead by (simp_all add: word_less_nat_alt u)
    have um: "unat (max_seq b + 1) = ?m + 1" using li(3) first by (simp add: unat_plus)
    let ?w = "if smap_find (recv_window b) seq = None
      then smap_set (recv_window b) seq \<lparr>rseq = seq, rdata = f (unat seq)\<rparr> else recv_window b"
    let ?lm = "if max_seq b + 1 < seq then mark_losses (max_seq b + 1) seq now (loss_map b)
        else smap_erase (loss_map b) seq"
    have b': "recv_window b' = ?w" "first_seq b' = first_seq b" "loss_map b' = ?lm"
      "max_seq b' = (if max_seq b < seq then seq else max_seq b)"
      using r cp ne nf by (auto simp: recv_on_data_def Let_def split: if_splits option.splits)
    have "window_keys ?w \<subseteq> insert (unat seq) (window_keys (recv_window b))"
      by (simp add: window_keys_set wi subset_insertI)
    note wk = this [folded b'(1)]
    show ?thesis
    proof (cases "?m + 1 < unat seq")
      case True
      have d: "unat (max_seq b + 1) + unat (seq - (max_seq b + 1)) = unat seq"
        using True um by (subst unat_sub) (simp_all add: word_le_nat_alt)
      have lt: "max_seq b + 1 < seq" "max_seq b < seq" using True um by (simp_all add: word_less_nat_alt)
      have bd: "unat (max_seq b + 1) + unat (seq - (max_seq b + 1)) < 2 ^ 64" using d seq by simp
      note ml = mark_losses_keys [OF li(1) bd, where ts = now, unfolded d, unfolded um]
      have lm: "loss_map b' = mark_losses (max_seq b + 1) seq now (loss_map b)" "max_seq b' = seq"
        using b' lt by simp_all
      have "unat (fst p) \<notin> window_keys (recv_window b') \<and> unat (fst p) \<le> unat seq"
        if p: "p \<in> set (loss_map b')" "?n < unat (fst p)" for p
      proof -
        from ml(2) [of p] p(1) lm consider "p \<in> set (loss_map b)"
          | "?m + 1 \<le> unat (fst p)" "unat (fst p) < unat seq" by auto
        then show ?thesis
        proof cases
          case 1
          with li(5) p(2) True wk show ?thesis by fastforce
        next
          case 2
          with li(4) wk show ?thesis by fastforce
        qed
      qed
      moreover have "\<forall>n \<in> window_keys (recv_window b'). n \<le> unat seq" using wk li(4) True by fastforce
      ultimately show ?thesis
        using ml(1) lm b'(2) ahead li(2) True by (simp add: loss_inv_def)
    next
      case False
      have lt: "\<not> max_seq b + 1 < seq" using False um by (simp add: word_less_nat_alt)
      have mx: "unat (max_seq b') = max ?m (unat seq)" using b'(4) by (simp add: word_less_nat_alt)
      have "unat (fst p) \<notin> window_keys (recv_window b') \<and> unat (fst p) \<le> unat (max_seq b')"
        if p: "p \<in> set (loss_map b')" "?n < unat (fst p)" for p
      proof -
        have "p \<in> set (loss_map b)" "fst p \<noteq> seq" using p(1) b'(3) lt by (simp_all add: smap_erase_def)
        moreover from this(2) have "unat (fst p) \<noteq> unat seq" by (simp add: word_unat_eq_iff)
        ultimately show ?thesis using li(5) [of p] p(2) wk mx by auto
      qed
      moreover have "\<forall>n \<in> window_keys (recv_window b'). n \<le> unat (max_seq b')" using wk li(4) mx by fastforce
      ultimately show ?thesis
        using b'(2,3) er(1) lt mx ahead li(2,3) by (simp add: loss_inv_def)
    qed
  next
    case old
    then have "first_seq b + 1 \<noteq> seq" using u(2) by auto
    with old li(2) have "b' = b\<lparr>recv_new_packet := True\<rparr>"
      using r cp by (simp add: recv_on_data_def word_less_nat_alt u Let_def)
    with inv(2) show ?thesis by (simp add: loss_inv_def)
  qed
qed

lemma check_loss_loop_sound:
  assumes "check_loss_loop first rtc now lm = (lm', ids)"
  shows "set lm' \<subseteq> set lm" and "smap_inv lm \<Longrightarrow> smap_inv lm'"
    and "i \<in> set ids \<Longrightarrow> \<exists>p \<in> set lm. first < fst p \<and> i = ucast (fst p - first)"
  using assms
proof (induction lm arbitrary: lm' ids)
  case (Cons p lm)
  obtain k ts where p: "p = (k, ts)" by fastforce
  obtain lm1 ids1 where r: "check_loss_loop first rtc now lm = (lm1, ids1)" by fastforce
  {
    case 1
    then show ?case using Cons.IH(1) [OF r] by (auto simp: p r Let_def split: if_splits)
  next
    case 2
    then show ?case using Cons.IH(1) [OF r] Cons.IH(2) [OF _ r] by (fastforce simp: p r Let_def split: if_splits)
  next
    case 3
    then show ?case using Cons.IH(3) [OF _ r] by (auto simp: p r Let_def not_le split: if_splits)
  }
qed auto

lemma timer_loss_inv:
  assumes "loss_inv b"
  shows "loss_inv (fst (recv_on_timer now rtc b))"
proof -
  obtain lm ids where r: "check_loss_loop (first_seq b) rtc now (loss_map b) = (lm, ids)" by fastforce
  have "loss_map (fst (recv_on_timer now rtc b)) = lm" "max_seq (fst (recv_on_timer now rtc b)) = max_seq b"
    by (simp_all add: recv_on_timer_def check_loss_def set_send_last_ack_ts_def r Let_def)
  with assms timer_keeps [of now rtc b] check_loss_loop_sound(1,2) [OF r]
  show ?thesis by (auto simp: loss_inv_def)
qed

definition full_inv :: "(nat \<Rightarrow> byte list) \<Rightarrow> nat \<Rightarrow> recv_buffer \<times> byte list \<times> nat set \<Rightarrow> bool" where
  "full_inv f s0 s \<longleftrightarrow> run_inv f s0 s \<and> loss_inv (fst s)"

lemma recv_step_full:
  assumes "payload_ok f" "op_ok op" "full_inv f s0 s" and "recv_step f op s = Some s'"
  shows "full_inv f s0 s'"
proof -
  obtain b out acc where s: "s = (b, out, acc)" by (cases s)
  have ri: "run_inv f s0 s'"
    using recv_step_inv [OF assms(1,2), of s0 s] assms(3,4) by (simp add: full_inv_def)
  have i: "recv_inv f b" "loss_inv b" using assms(3) by (simp_all add: full_inv_def run_inv_def s)
  have "loss_inv (fst s')"
  proof (cases op)
    case (Arrive seq now)
    with assms(2,4) s show ?thesis
      using loss_inv_step [OF assms(1) i, of seq now]
      by (auto simp: op_ok_def split: option.splits)
  next
    case (Tick now rtc)
    with assms(4) s timer_loss_inv [OF i(2)] show ?thesis by auto
  next
    case (Read n)
    obtain q d where "read_loop (recv_data b) (nat (sint n)) = (q, d)" by fastforce
    with assms(4) s Read have "fst s' = b\<lparr>recv_data := q\<rparr>" by (auto simp: recv_read_def)
    with i(2) show ?thesis by (simp add: loss_inv_def)
  qed
  with ri show ?thesis by (simp add: full_inv_def)
qed

lemma recv_run_full:
  assumes "payload_ok f" "\<forall>op \<in> set ops. op_ok op" "full_inv f s0 s" and "recv_run f ops s = Some s'"
  shows "full_inv f s0 s'"
  using assms(2,3,4)
proof (induction ops arbitrary: s)
  case (Cons op ops)
  then obtain s1 where s1: "recv_step f op s = Some s1" "recv_run f ops s1 = Some s'"
    by (auto split: option.splits)
  have "full_inv f s0 s1" by (rule recv_step_full [OF assms(1) _ _ s1(1)]) (use Cons.prems in simp_all)
  with Cons s1(2) show ?case by simp
qed simp

text \<open>
  Requests for retransmission are right. In every state a receive buffer can reach, each
  number that a NACK of its timer asks for is beyond the delivered ones, was skipped by a later
  packet, and has not been accepted; it is recovered from the 16 bit distance without loss.
\<close>

theorem rudp_nack_requests_missing:
  assumes "payload_ok f" and "1 \<le> s0" "s0 + 20482 < 2 ^ 64" and "\<forall>op \<in> set ops. op_ok op"
    and "recv_run f ops (set_first_seq (of_nat s0) (recv_reset t0), [], {}) = Some (b, out, acc)"
    and "Send_nack base ids \<in> set (snd (recv_on_timer now rtc b))" and "i \<in> set ids"
  shows "base = first_seq b \<and> unat base < unat base + unat i
    \<and> unat base + unat i \<le> unat (max_seq b) \<and> unat base + unat i \<notin> acc"
proof -
  have "loss_inv (set_first_seq (of_nat s0) (recv_reset t0))"
    by (simp add: loss_inv_def set_first_seq_def recv_reset_def window_keys_def)
  with start_inv [OF assms(2,3), of f t0]
  have "full_inv f s0 (set_first_seq (of_nat s0) (recv_reset t0), [], {})" by (simp add: full_inv_def)
  from recv_run_full [OF assms(1,4) this assms(5)]
  have inv: "run_inv f s0 (b, out, acc)" "loss_inv b" by (simp_all add: full_inv_def)
  obtain lm js where r: "check_loss_loop (first_seq b) rtc now (loss_map b) = (lm, js)" by fastforce
  have base: "base = first_seq b" "ids = js"
    using assms(6) by (auto simp: recv_on_timer_def check_loss_def r Let_def split: if_splits)
  from check_loss_loop_sound(3) [OF r, of i] assms(7) base obtain p where
    p: "p \<in> set (loss_map b)" "first_seq b < fst p" "i = ucast (fst p - first_seq b)" by auto
  have lt: "unat (first_seq b) < unat (fst p)" using p(2) by (simp add: word_less_nat_alt)
  with inv(2) p(1) have k: "unat (fst p) \<notin> window_keys (recv_window b)"
    "unat (fst p) \<le> unat (max_seq b)" "unat (max_seq b) \<le> unat (first_seq b) + 20480"
    by (auto simp: loss_inv_def)
  have d: "unat (fst p - first_seq b) = unat (fst p) - unat (first_seq b)"
    using p(2) by (simp add: unat_sub)
  then have "unat i = unat (fst p) - unat (first_seq b)"
    using k lt by (simp add: p(3) unsigned_ucast_eq nat_bits)
  then have sum: "unat base + unat i = unat (fst p)" using lt base by simp
  have "unat (fst p) \<notin> received s0 b" using k(1) lt by (simp add: received_def)
  moreover have "received s0 b = {n \<in> acc. s0 \<le> n}" "s0 \<le> Suc (unat (first_seq b))"
    using inv(1) by (simp_all add: run_inv_def)
  ultimately show ?thesis using lt k(2) base(1) sum by auto
qed

theorem rudp_nack_requests_missing_witness:
  "let b = \<lparr>recv_window = [(7, \<lparr>rseq = 7, rdata = [1]\<rparr>)], recv_data = [], loss_map = [(5, 0), (6, 0)],
      first_seq = 4, max_seq = 7, last_ack_ts = 0, recv_new_packet = False, bandwidth = 0, bandwidth_ts = 0\<rparr>
   in snd (recv_on_timer 100 10 b) = [Send_nack 4 [1, 2]] \<and> unat (4 :: u64) + unat (2 :: u16) \<notin> {7 :: nat}"
proof -
  let ?b = "\<lparr>recv_window = [(7, \<lparr>rseq = 7, rdata = [1]\<rparr>)], recv_data = [], loss_map = [(5, 0), (6, 0)],
      first_seq = 4, max_seq = 7, last_ack_ts = 0, recv_new_packet = False, bandwidth = 0, bandwidth_ts = 0\<rparr>"
  have ev: "snd (recv_on_timer 100 10 ?b) = [Send_nack 4 [1, 2]]"
    by (simp add: recv_on_timer_def check_loss_def Let_def)
  have r: "recv_run (\<lambda>_. [1]) [Arrive 7 0] (set_first_seq (of_nat 5) (recv_reset 0), [], {})
      = Some (?b, [], {7})"
    by (simp add: recv_on_data_def set_first_seq_def recv_reset_def MAX_SEQ_INTNAL_def
        MAX_SEGMENT_SIZE_def copy_segment_def smap_find_def mark_losses_def Let_def upt_rec)
  have "\<forall>op \<in> set [Arrive 7 0]. op_ok op" "payload_ok (\<lambda>_. [1])"
    by (simp_all add: op_ok_def payload_ok_def MAX_SEGMENT_SIZE_def)
  then have "unat (4 :: u64) + unat (2 :: u16) \<notin> {7 :: nat}"
    using rudp_nack_requests_missing [of "\<lambda>_. [1]" 5 "[Arrive 7 0]" 0 ?b "[]" "{7}" 4 "[1, 2]" 100 10 2] r ev
    by simp
  with ev show ?thesis unfolding Let_def by blast
qed

text \<open>
  The size check of \<open>on_data\<close> is incomplete: the size is signed and only compared with the
  maximum, so that for the next expected packet the copy is undefined exactly when the size is
  negative or exceeds the bytes that are there, and every size from the wire with its top bit
  set is of that kind.
\<close>

theorem rudp_on_data_undefined_copy:
  assumes "unat (first_seq b) + 20481 < 2 ^ 64" and "sint sz \<le> int MAX_SEGMENT_SIZE"
  shows "recv_on_data (first_seq b + 1) bytes sz now b = None
    \<longleftrightarrow> sint sz < 0 \<or> length bytes < nat (sint sz)"
proof -
  have "\<not> first_seq b + 1 > first_seq b + MAX_SEQ_INTNAL"
    using assms(1) by (simp add: word_less_nat_alt unat_plus MAX_SEQ_INTNAL_def)
  with assms(2) show ?thesis by (simp add: recv_on_data_def copy_segment_def Let_def)
qed

theorem rudp_on_data_undefined_copy_witness:
  "recv_on_data (first_seq (recv_reset 0) + 1) [1, 2, 3] (- 1) 9 (recv_reset 0) = None"
  using rudp_on_data_undefined_copy [of "recv_reset 0" "- 1" "[1, 2, 3]" 9]
  by (simp add: recv_reset_def)

end
