(* ===== verification/Rudp_Link.thy ===== *)
theory Rudp_Link
  imports Rudp_Send Rudp_Recv "HOL-Library.Sublist"
begin

text \<open>
  A send buffer and a receive buffer joined by a network: the data path of one direction of a
  connection, from \<open>RUDPSocket::send\<close> at one end to \<open>RUDPSocket::recv\<close> at the other. The network
  may lose, delay, reorder and repeat packets, but it does not alter them. The acknowledgements
  and loss reports that reach the sender are arbitrary, so that what is proved here does not rely
  on the way back.
\<close>

section \<open>The link\<close>

record link =
  l_sender :: send_buffer
  l_net :: "(u64 \<times> byte list) list"
  l_recv :: recv_buffer
  l_out :: "byte list"
  l_given :: "byte list"

datatype link_op = L_sender send_op ccc | L_deliver nat u64 | L_tick u64 u32 | L_read "32 word"

fun packets_of :: "send_event list \<Rightarrow> (u64 \<times> byte list) list" where
  "packets_of [] = []"
| "packets_of (Send_data s d # ev) = (s, d) # packets_of ev"
| "packets_of (On_write # ev) = packets_of ev"

fun link_step :: "link_op \<Rightarrow> link \<Rightarrow> link option" where
  "link_step (L_sender x c) l =
     (case send_op_step x c (l_sender l) of (b, _, ev) \<Rightarrow>
        Some (l\<lparr>l_sender := b, l_net := l_net l @ packets_of ev, l_given := l_given l @ op_data x\<rparr>))"
| "link_step (L_deliver i now) l =
     (if i < length (l_net l) then
        (case l_net l ! i of (seq, d) \<Rightarrow>
           case recv_on_data seq d (of_nat (length d)) now (l_recv l) of
             None \<Rightarrow> None
           | Some (b, _, _) \<Rightarrow> Some (l\<lparr>l_recv := b\<rparr>))
      else Some l)"
| "link_step (L_tick now rtc) l = Some (l\<lparr>l_recv := fst (recv_on_timer now rtc (l_recv l))\<rparr>)"
| "link_step (L_read n) l =
     (case recv_read n (l_recv l) of (b, d) \<Rightarrow> Some (l\<lparr>l_recv := b, l_out := l_out l @ d\<rparr>))"

fun link_run :: "link_op list \<Rightarrow> link \<Rightarrow> link option" where
  "link_run [] l = Some l"
| "link_run (x # xs) l = (case link_step x l of None \<Rightarrow> None | Some l \<Rightarrow> link_run xs l)"

text \<open>The start, after the handshake has told the receiver where the numbers begin.\<close>

definition link_start :: "u64 \<Rightarrow> u64 \<Rightarrow> link" where
  "link_start random now =
     (let b = send_reset random now
      in \<lparr>l_sender = b, l_net = [], l_recv = set_first_seq (buffer_seq b) (recv_reset now), l_out = [], l_given = []\<rparr>)"

fun link_data :: "link_op \<Rightarrow> byte list" where
  "link_data (L_sender x c) = op_data x"
| "link_data _ = []"

section \<open>The invariant\<close>

definition chunk_of :: "nat \<Rightarrow> byte list list \<Rightarrow> nat \<Rightarrow> byte list" where
  "chunk_of s0 cs n = (if s0 \<le> n \<and> n < s0 + length cs then cs ! (n - s0) else [])"

definition link_inv :: "nat \<Rightarrow> nat \<Rightarrow> byte list list \<Rightarrow> nat set \<Rightarrow> link \<Rightarrow> bool" where
  "link_inv s0 a cs acc l \<longleftrightarrow> send_inv s0 a cs (l_given l) (l_sender l)
     \<and> (\<forall>p \<in> set (l_net l). \<exists>i < length cs. p = (of_nat (s0 + i), cs ! i))
     \<and> run_inv (chunk_of s0 cs) s0 (l_recv l, l_out l, acc) \<and> acc \<subseteq> {..<s0 + length cs}"

lemma packets_of_set: "(s, d) \<in> set (packets_of ev) \<longleftrightarrow> Send_data s d \<in> set ev"
  by (induction ev rule: packets_of.induct) auto

lemma chunk_of_more: "n < s0 + length cs \<Longrightarrow> chunk_of s0 (cs @ xs) n = chunk_of s0 cs n"
  by (auto simp: chunk_of_def nth_append)

text \<open>More chunks do not disturb the receiver, which has only seen numbers of the old ones.\<close>

lemma run_inv_more:
  assumes "run_inv (chunk_of s0 cs) s0 (b, out, acc)" and "acc \<subseteq> {..<s0 + length cs}"
  shows "run_inv (chunk_of s0 (cs @ xs)) s0 (b, out, acc)"
proof -
  have r: "received s0 b \<subseteq> {..<s0 + length cs}" using assms by (auto simp: run_inv_def)
  have f: "n < s0 + length cs" if "s0 \<le> n" "n \<le> unat (first_seq b)" for n
    using r that by (auto simp: received_def)
  have "chunk_of s0 (cs @ xs) (unat (fst p)) = chunk_of s0 cs (unat (fst p))" if "p \<in> set (recv_window b)" for p
  proof (rule chunk_of_more)
    have "unat (fst p) \<in> received s0 b" using that by (auto simp: received_def window_keys_def)
    with r show "unat (fst p) < s0 + length cs" by auto
  qed
  then have "recv_inv (chunk_of s0 (cs @ xs)) b" using assms(1) by (simp add: run_inv_def recv_inv_def)
  moreover have "map (chunk_of s0 (cs @ xs)) [s0..<Suc (unat (first_seq b))] = map (chunk_of s0 cs) [s0..<Suc (unat (first_seq b))]"
  proof (intro map_cong refl chunk_of_more)
    fix n assume "n \<in> set [s0..<Suc (unat (first_seq b))]"
    then have "s0 \<le> n" "n \<le> unat (first_seq b)" by auto
    then show "n < s0 + length cs" by (rule f)
  qed
  ultimately show ?thesis using assms(1) by (simp only: run_inv_def prod.case)
qed

lemma chunk_of_payload:
  assumes "\<forall>d \<in> set cs. length d \<le> SEND_SEGMENT_SIZE" shows "payload_ok (chunk_of s0 cs)"
  using assms by (auto simp: payload_ok_def chunk_of_def SEND_SEGMENT_SIZE_def MAX_SEGMENT_SIZE_def)

lemma link_step_inv:
  assumes inv: "link_inv s0 a cs acc l" and s0: "s0 + length (l_given l @ link_data x) + 20482 < 2 ^ 64"
  shows "\<exists>l' a' xs acc'. link_step x l = Some l' \<and> link_inv s0 a' (cs @ xs) acc' l'
    \<and> l_given l' = l_given l @ link_data x"
proof -
  note i = inv [unfolded link_inv_def]
  have cs: "\<forall>d \<in> set cs. length d \<le> SEND_SEGMENT_SIZE" "s0 + length cs \<le> s0 + length (l_given l)"
    using i send_inv_count [of s0 a cs "l_given l" "l_sender l"] by (auto simp: send_inv_def)
  show ?thesis
  proof (cases x)
    case (L_sender y c)
    obtain b' c' ev where e: "send_op_step y c (l_sender l) = (b', c', ev)" by (metis prod_cases3)
    have "s0 + length (l_given l @ op_data y) < 2 ^ 64" using s0 L_sender by simp
    from send_op_step_ok [OF conjunct1 [OF i] this e] obtain a' xs where
      s: "sends_on s0 a' cs (l_given l @ op_data y) b' ev xs" by blast
    have "\<exists>i < length (cs @ xs). p = (of_nat (s0 + i), (cs @ xs) ! i)" if "p \<in> set (packets_of ev)" for p
      using s that packets_of_set [of "fst p" "snd p" ev] unfolding sends_on_def events_good_def
      by (metis prod.collapse)
    moreover have "\<exists>i < length (cs @ xs). p = (of_nat (s0 + i), (cs @ xs) ! i)" if "p \<in> set (l_net l)" for p
      using i that by (fastforce simp: nth_append)
    moreover have "acc \<subseteq> {..<s0 + length (cs @ xs)}" using i by auto
    ultimately have "link_inv s0 a' (cs @ xs) acc (l\<lparr>l_sender := b', l_net := l_net l @ packets_of ev,
        l_given := l_given l @ op_data y\<rparr>)"
      using s i run_inv_more [of s0 cs "l_recv l" "l_out l" acc xs] by (auto simp: link_inv_def sends_on_def)
    then show ?thesis using e L_sender by auto
  next
    case (L_deliver k now)
    show ?thesis
    proof (cases "k < length (l_net l)")
      case True
      then obtain j where j: "j < length cs" "l_net l ! k = (of_nat (s0 + j), cs ! j)"
        using i nth_mem [OF True] by blast
      define seq where "seq = (of_nat (s0 + j) :: u64)"
      have "s0 + j < 2 ^ 64" using j(1) cs(2) s0 by simp
      then have u: "unat seq = s0 + j" by (simp add: seq_def unat_of_nat del: of_nat_add)
      have f: "chunk_of s0 cs (unat seq) = cs ! j" using j(1) unfolding u by (simp add: chunk_of_def)
      have "op_ok (Arrive seq now)" using j(1) cs(2) s0 u by (simp add: op_ok_def)
      from recv_step_inv [OF chunk_of_payload [OF cs(1)] this conjunct1 [OF conjunct2 [OF conjunct2 [OF i]]]]
      obtain b' out' acc' where st: "recv_step (chunk_of s0 cs) (Arrive seq now) (l_recv l, l_out l, acc) = Some (b', out', acc')"
        "run_inv (chunk_of s0 cs) s0 (b', out', acc')" by (metis prod_cases3)
      then obtain ev ret where r: "recv_on_data seq (cs ! j) (of_nat (length (cs ! j))) now (l_recv l) = Some (b', ev, ret)"
        "out' = l_out l" "acc' \<subseteq> insert (s0 + j) acc"
        unfolding recv_step.simps u using f [unfolded u] by (auto simp: subset_insertI split: option.splits if_splits)
      have "acc' \<subseteq> {..<s0 + length cs}" using r(3) i j(1) by auto
      then have "link_inv s0 a (cs @ []) acc' (l\<lparr>l_recv := b'\<rparr>)"
        using i st(2) r(2) by (simp add: link_inv_def)
      then show ?thesis using L_deliver True j(2) [folded seq_def] r(1) by (auto simp del: append_Nil2)
    next
      case False
      then show ?thesis using L_deliver inv
        by (intro exI [of _ l] exI [of _ a] exI [of _ "[]"] exI [of _ acc]) simp
    qed
  next
    case (L_tick now rtc)
    have "op_ok (Tick now rtc)" by (simp add: op_ok_def)
    from recv_step_inv [OF chunk_of_payload [OF cs(1)] this conjunct1 [OF conjunct2 [OF conjunct2 [OF i]]]]
    have "run_inv (chunk_of s0 cs) s0 (fst (recv_on_timer now rtc (l_recv l)), l_out l, acc)" by simp
    then have "link_inv s0 a (cs @ []) acc (l\<lparr>l_recv := fst (recv_on_timer now rtc (l_recv l))\<rparr>)"
      using i by (simp add: link_inv_def)
    then show ?thesis using L_tick by (auto simp del: append_Nil2)
  next
    case (L_read n)
    obtain b d where e: "recv_read n (l_recv l) = (b, d)" by force
    have "op_ok (Read n)" by (simp add: op_ok_def)
    from recv_step_inv [OF chunk_of_payload [OF cs(1)] this conjunct1 [OF conjunct2 [OF conjunct2 [OF i]]]]
    have "run_inv (chunk_of s0 cs) s0 (b, l_out l @ d, acc)" by (simp add: e)
    then have "link_inv s0 a (cs @ []) acc (l\<lparr>l_recv := b, l_out := l_out l @ d\<rparr>)"
      using i by (simp add: link_inv_def)
    then show ?thesis using L_read e by (auto simp del: append_Nil2)
  qed
qed

lemma link_run_inv:
  assumes "link_inv s0 a cs acc l" and "s0 + length (l_given l @ concat (map link_data xs)) + 20482 < 2 ^ 64"
  shows "\<exists>l' a' cs' acc'. link_run xs l = Some l' \<and> link_inv s0 a' cs' acc' l'
    \<and> l_given l' = l_given l @ concat (map link_data xs)"
  using assms
proof (induction xs arbitrary: l a cs acc)
  case (Cons x xs)
  have "s0 + length (l_given l @ link_data x) + 20482 < 2 ^ 64" using Cons(3) by simp
  from link_step_inv [OF Cons(2) this] obtain l1 a1 ys acc1 where
    1: "link_step x l = Some l1" "link_inv s0 a1 (cs @ ys) acc1 l1" "l_given l1 = l_given l @ link_data x" by blast
  have "s0 + length (l_given l1 @ concat (map link_data xs)) + 20482 < 2 ^ 64" using Cons(3) 1(3) by simp
  from Cons(1) [OF 1(2) this] 1(1,3) show ?case by auto
qed auto

lemma concat_chunks:
  "k \<le> length cs \<Longrightarrow> concat (map (chunk_of s0 cs) [s0..<s0 + k]) = concat (take k cs)"
proof (induction k)
  case (Suc k)
  then have "concat (map (chunk_of s0 cs) [s0..<s0 + k]) = concat (take k cs)" by simp
  moreover have "chunk_of s0 cs (s0 + k) = cs ! k" using Suc by (simp add: chunk_of_def)
  ultimately show ?case using Suc by (simp add: take_Suc_conv_app_nth)
qed simp

text \<open>
  C4. Reliable transport, end to end. Whatever is sent, acknowledged and reported lost, whatever
  the network drops, delays, reorders and repeats, and however the timers and the reads
  interleave: the receiver never fails, and what the application has read, followed by what it
  could read now, is a prefix of the bytes that were given to the sender.
\<close>

theorem rudp_end_to_end:
  assumes "unat random + length (concat (map link_data xs)) + 20483 < 2 ^ 64"
  shows "\<exists>l. link_run xs (link_start random now) = Some l \<and> l_given l = concat (map link_data xs)
    \<and> prefix (l_out l @ concat (map rdata (recv_data (l_recv l)))) (l_given l)"
proof -
  let ?s = "unat random + 1"
  have b: "?s < 2 ^ 64" using assms by simp
  have n: "(of_nat ?s :: u64) = random + 1" by simp
  have "run_inv (chunk_of ?s []) ?s (set_first_seq (of_nat ?s) (recv_reset now), [], {})"
    by (rule start_inv) (use assms in simp_all)
  then have "link_inv ?s 0 [] {} (link_start random now)"
    using send_inv_reset [OF b, of now] unfolding n
    by (simp add: link_inv_def link_start_def Let_def) (simp add: send_reset_def)
  moreover have "?s + length (l_given (link_start random now) @ concat (map link_data xs)) + 20482 < 2 ^ 64"
    using assms by (simp add: link_start_def Let_def)
  ultimately obtain l a cs acc where l: "link_run xs (link_start random now) = Some l" "link_inv ?s a cs acc l"
    "l_given l = concat (map link_data xs)"
    using link_run_inv [of ?s 0 "[]" "{}" "link_start random now" xs] by (auto simp: link_start_def Let_def)
  let ?n = "unat (first_seq (l_recv l))"
  have i: "?s \<le> Suc ?n" "l_out l @ queued (l_recv l) = concat (map (chunk_of ?s cs) [?s..<Suc ?n])"
    "received ?s (l_recv l) \<subseteq> acc" "acc \<subseteq> {..<?s + length cs}"
    using l(2) by (auto simp: link_inv_def run_inv_def)
  obtain k where k: "Suc ?n = ?s + k" using i(1) le_Suc_ex by blast
  have "k \<le> length cs"
  proof (cases k)
    case (Suc j)
    then have "?n \<in> received ?s (l_recv l)" using k by (simp add: received_def)
    with i(3,4) have "?n < ?s + length cs" by blast
    then show ?thesis using k by simp
  qed simp
  then have "l_out l @ queued (l_recv l) = concat (take k cs)" using i(2) unfolding k by (simp only: concat_chunks)
  moreover have "concat cs @ concat (payloads (send_data (l_sender l))) = l_given l"
    using l(2) by (simp add: link_inv_def send_inv_def)
  then have "concat (take k cs) @ concat (drop k cs) @ concat (payloads (send_data (l_sender l))) = l_given l"
    by (metis append_assoc append_take_drop_id concat_append)
  ultimately have "prefix (l_out l @ concat (map rdata (recv_data (l_recv l)))) (l_given l)"
    unfolding prefix_def queued_def by metis
  with l(1,3) show ?thesis by blast
qed

theorem rudp_end_to_end_witness:
  "\<exists>l. link_run [L_sender (Op_send 5 [1, 2, 3]) (ccc_init 0 0), L_deliver 0 9, L_read 2, L_sender (Op_send 6 [4]) (ccc_init 0 0),
       L_deliver 0 9, L_read 5] (link_start 7 0) = Some l
    \<and> prefix (l_out l @ concat (map rdata (recv_data (l_recv l)))) [1, 2, 3, 4]"
  using rudp_end_to_end [of 7 "[L_sender (Op_send 5 [1, 2, 3]) (ccc_init 0 0), L_deliver 0 9, L_read 2,
      L_sender (Op_send 6 [4]) (ccc_init 0 0), L_deliver 0 9, L_read 5]" 0]
  by (auto simp del: link_run.simps)

end
