(* ===== verification/Bin_Stream.thy ===== *)
theory Bin_Stream
  imports Inno_Prelude
begin

text \<open>
  \<open>common/revolver/base_bin_stream.h\<close> and \<open>.inl\<close>: the byte stream that packets are written to
  and read from. Integers go in network order. The stream is its used bytes and the number of
  bytes read; the capacity, which \<open>resize\<close> doubles as needed, does not show. The host is
  little-endian (\<open>big_endian\<close> is false).
\<close>

section \<open>The stream\<close>

record bstream =
  sbuf :: "byte list"
  rsize :: nat

definition stream_new :: bstream where
  "stream_new = \<lparr>sbuf = [], rsize = 0\<rparr>"

definition stream_rewind :: "bool \<Rightarrow> bstream \<Rightarrow> bstream" where
  "stream_rewind reset s = (if reset then \<lparr>sbuf = [], rsize = 0\<rparr> else s\<lparr>rsize := 0\<rparr>)"

text \<open>The loop of the macro \<open>ENCODE\<close> stores the most significant byte first.\<close>

fun be_bytes :: "nat \<Rightarrow> nat \<Rightarrow> byte list" where
  "be_bytes 0 n = []"
| "be_bytes (Suc k) n = be_bytes k (n div 256) @ [of_nat n]"

definition ENCODE :: "nat \<Rightarrow> nat \<Rightarrow> bstream \<Rightarrow> bstream" where
  "ENCODE k n s = s\<lparr>sbuf := sbuf s @ be_bytes k n\<rparr>"

definition be_value :: "byte list \<Rightarrow> nat" where
  "be_value = foldl (\<lambda>v x. v * 256 + unat x) 0"

text \<open>A read behind the used bytes gives zero and leaves the position.\<close>

definition DECODE :: "nat \<Rightarrow> bstream \<Rightarrow> nat \<times> bstream" where
  "DECODE k s =
     (if length (sbuf s) \<ge> rsize s + k
      then (be_value (take k (drop (rsize s) (sbuf s))), s\<lparr>rsize := rsize s + k\<rparr>)
      else (0, s))"

definition put_u8 :: "8 word \<Rightarrow> bstream \<Rightarrow> bstream" where "put_u8 v = ENCODE 1 (unat v)"
definition put_u16 :: "16 word \<Rightarrow> bstream \<Rightarrow> bstream" where "put_u16 v = ENCODE 2 (unat v)"
definition put_u32 :: "32 word \<Rightarrow> bstream \<Rightarrow> bstream" where "put_u32 v = ENCODE 4 (unat v)"
definition put_u64 :: "64 word \<Rightarrow> bstream \<Rightarrow> bstream" where "put_u64 v = ENCODE 8 (unat v)"

definition get_u8 :: "bstream \<Rightarrow> 8 word \<times> bstream" where
  "get_u8 s = (case DECODE 1 s of (v, s) \<Rightarrow> (of_nat v, s))"
definition get_u16 :: "bstream \<Rightarrow> 16 word \<times> bstream" where
  "get_u16 s = (case DECODE 2 s of (v, s) \<Rightarrow> (of_nat v, s))"
definition get_u32 :: "bstream \<Rightarrow> 32 word \<times> bstream" where
  "get_u32 s = (case DECODE 4 s of (v, s) \<Rightarrow> (of_nat v, s))"
definition get_u64 :: "bstream \<Rightarrow> 64 word \<times> bstream" where
  "get_u64 s = (case DECODE 8 s of (v, s) \<Rightarrow> (of_nat v, s))"

text \<open>\<open>operator<<\<close> for a string and \<open>push_data\<close>: a length and the bytes.\<close>

definition push_data :: "byte list \<Rightarrow> bstream \<Rightarrow> bstream" where
  "push_data d s = (let s = ENCODE 4 (length d) s in s\<lparr>sbuf := sbuf s @ d\<rparr>)"

text \<open>\<open>operator>>\<close> for a string; \<open>None\<close> is the exception it throws.\<close>

definition get_string :: "bstream \<Rightarrow> (byte list \<times> bstream) option" where
  "get_string s =
     (case DECODE 4 s of (n, s) \<Rightarrow>
        if n + rsize s > length (sbuf s) then None
        else if n = 0 then Some ([], s)
        else Some (take n (drop (rsize s) (sbuf s)), s\<lparr>rsize := rsize s + n\<rparr>))"

section \<open>The unread part\<close>

definition unread :: "bstream \<Rightarrow> byte list" where
  "unread s = drop (rsize s) (sbuf s)"

definition stream_wf :: "bstream \<Rightarrow> bool" where
  "stream_wf s \<longleftrightarrow> rsize s \<le> length (sbuf s)"

lemma length_be_bytes [simp]: "length (be_bytes k n) = k"
  by (induction k arbitrary: n) simp_all

lemma be_value_snoc: "be_value (xs @ [x]) = be_value xs * 256 + unat x"
  by (simp add: be_value_def)

lemma be_value_bytes: "be_value (be_bytes k n) = n mod 256 ^ k"
proof (induction k arbitrary: n)
  case 0
  then show ?case by (simp add: be_value_def)
next
  case (Suc k)
  have "unat (of_nat n :: byte) = n mod 256" by (simp add: unat_of_nat)
  moreover have "n mod 256 ^ Suc k = n mod (256 * 256 ^ k)" by simp
  ultimately show ?case
    by (simp only: be_bytes.simps be_value_snoc Suc.IH mod_mult2_eq)
qed

lemma DECODE_encoded:
  assumes "stream_wf s" and "unread s = be_bytes k n @ rest" and "n < 256 ^ k"
  shows "\<exists>s'. DECODE k s = (n, s') \<and> stream_wf s' \<and> unread s' = rest \<and> sbuf s' = sbuf s"
proof -
  have "length (unread s) = length (sbuf s) - rsize s" by (simp add: unread_def)
  then have l: "length (sbuf s) \<ge> rsize s + k"
    using assms(1,2) by (simp add: stream_wf_def)
  have "take k (drop (rsize s) (sbuf s)) = be_bytes k n"
    using assms(2) by (simp add: unread_def)
  moreover have "drop k (drop (rsize s) (sbuf s)) = rest"
    using assms(2) by (simp add: unread_def)
  ultimately show ?thesis
    using l assms(3) by (simp add: DECODE_def be_value_bytes stream_wf_def unread_def add.commute)
qed

section \<open>The interface of a packet format\<close>

text \<open>
  A writer and a reader of a type of values fit together when the reader, on a stream whose
  unread part starts with what the writer appended, returns the value and leaves the rest.
\<close>

locale stream_format =
  fixes put :: "'a \<Rightarrow> bstream \<Rightarrow> bstream"
    and get :: "bstream \<Rightarrow> 'a \<times> bstream"
    and bytes :: "'a \<Rightarrow> byte list"
    and ok :: "'a \<Rightarrow> bool"
  assumes put_bytes: "sbuf (put x s) = sbuf s @ bytes x" "rsize (put x s) = rsize s"
    and get_bytes: "ok x \<Longrightarrow> stream_wf s \<Longrightarrow> unread s = bytes x @ rest \<Longrightarrow>
      fst (get s) = x \<and> stream_wf (snd (get s)) \<and> unread (snd (get s)) = rest"
begin

lemma get_put: "ok x \<Longrightarrow> fst (get (put x stream_new)) = x"
  using get_bytes [of x "put x stream_new" "[]"]
  by (simp add: put_bytes stream_new_def stream_wf_def unread_def)

lemma get_eq:
  assumes "ok x" "stream_wf s" "unread s = bytes x @ rest"
  obtains s' where "get s = (x, s')" "stream_wf s'" "unread s' = rest"
  using get_bytes [OF assms] by (metis prod.collapse)

lemma put_wf: "stream_wf s \<Longrightarrow> stream_wf (put x s)"
  by (simp add: stream_wf_def put_bytes)

end

text \<open>One format after another.\<close>

locale stream_pair = a: stream_format pa ga ba oa + b: stream_format pb gb bb ob
  for pa :: "'a \<Rightarrow> bstream \<Rightarrow> bstream" and ga ba oa
    and pb :: "'b \<Rightarrow> bstream \<Rightarrow> bstream" and gb bb ob
begin

definition putp :: "'a \<times> 'b \<Rightarrow> bstream \<Rightarrow> bstream" where
  "putp xy s = pb (snd xy) (pa (fst xy) s)"

definition getp :: "bstream \<Rightarrow> ('a \<times> 'b) \<times> bstream" where
  "getp s = (let (x, s) = ga s; (y, s) = gb s in ((x, y), s))"

definition bytesp :: "'a \<times> 'b \<Rightarrow> byte list" where
  "bytesp xy = ba (fst xy) @ bb (snd xy)"

definition okp :: "'a \<times> 'b \<Rightarrow> bool" where
  "okp xy \<longleftrightarrow> oa (fst xy) \<and> ob (snd xy)"

sublocale both: stream_format putp getp bytesp okp
proof
  fix xy s rest
  assume ok: "okp xy" and wf: "stream_wf s" and u: "unread s = bytesp xy @ rest"
  obtain x y where [simp]: "xy = (x, y)" by (cases xy)
  from ok u have "oa x" "ob y" "unread s = ba x @ (bb y @ rest)" by (simp_all add: okp_def bytesp_def)
  from a.get_eq [OF this(1) wf this(3)] obtain s1 where
    1: "ga s = (x, s1)" "stream_wf s1" "unread s1 = bb y @ rest" .
  from b.get_eq [OF \<open>ob y\<close> 1(2,3)] obtain s2 where "gb s1 = (y, s2)" "stream_wf s2" "unread s2 = rest" .
  with 1 show "fst (getp s) = xy \<and> stream_wf (snd (getp s)) \<and> unread (snd (getp s)) = rest"
    by (simp add: getp_def)
qed (simp_all add: putp_def bytesp_def a.put_bytes b.put_bytes)

end

text \<open>A record whose fields are written as a tuple.\<close>

locale stream_record = stream_format put get bytes ok
  for put :: "'a \<Rightarrow> bstream \<Rightarrow> bstream" and get bytes ok +
  fixes fields :: "'r \<Rightarrow> 'a" and make :: "'a \<Rightarrow> 'r"
    and pack :: "'r \<Rightarrow> bstream \<Rightarrow> bstream" and unpack :: "bstream \<Rightarrow> 'r \<times> bstream"
  assumes make_fields: "make (fields r) = r" and fields_ok: "ok (fields r)"
    and pack_eq: "pack r s = put (fields r) s"
    and unpack_eq: "unpack s = (make (fst (get s)), snd (get s))"
begin

sublocale rec: stream_format pack unpack "\<lambda>r. bytes (fields r)" "\<lambda>_. True"
proof
  fix r s rest
  assume "stream_wf s" "unread s = bytes (fields r) @ rest"
  from get_bytes [OF fields_ok this] show
    "fst (unpack s) = r \<and> stream_wf (snd (unpack s)) \<and> unread (snd (unpack s)) = rest"
    by (simp add: unpack_eq make_fields)
qed (simp_all add: pack_eq put_bytes)

end

definition u8_bytes :: "8 word \<Rightarrow> byte list" where "u8_bytes v = be_bytes 1 (unat v)"
definition u16_bytes :: "16 word \<Rightarrow> byte list" where "u16_bytes v = be_bytes 2 (unat v)"
definition u32_bytes :: "32 word \<Rightarrow> byte list" where "u32_bytes v = be_bytes 4 (unat v)"
definition u64_bytes :: "64 word \<Rightarrow> byte list" where "u64_bytes v = be_bytes 8 (unat v)"

definition any_ok :: "'a \<Rightarrow> bool" where "any_ok x = True"

lemma any_ok [simp]: "any_ok x"
  by (simp add: any_ok_def)

lemma word_format:
  assumes "stream_wf s" and "unread s = be_bytes k (unat (x :: 'a :: len word)) @ rest"
    and "2 ^ LENGTH('a) = (256 :: nat) ^ k"
  shows "fst (case DECODE k s of (v, s) \<Rightarrow> (of_nat v :: 'a word, s)) = x
    \<and> stream_wf (snd (case DECODE k s of (v, s) \<Rightarrow> (of_nat v :: 'a word, s)))
    \<and> unread (snd (case DECODE k s of (v, s) \<Rightarrow> (of_nat v :: 'a word, s))) = rest"
proof -
  have "unat x < 2 ^ LENGTH('a)" by (rule unsigned_less)
  then have "unat x < 256 ^ k" unfolding assms(3) .
  from DECODE_encoded [OF assms(1,2) this] show ?thesis by auto
qed

interpretation f8: stream_format put_u8 get_u8 u8_bytes any_ok
  unfolding put_u8_def get_u8_def u8_bytes_def
  by unfold_locales (simp_all add: ENCODE_def word_format del: be_bytes.simps One_nat_def)

interpretation f16: stream_format put_u16 get_u16 u16_bytes any_ok
  unfolding put_u16_def get_u16_def u16_bytes_def
  by unfold_locales (simp_all add: ENCODE_def word_format del: be_bytes.simps)

interpretation f32: stream_format put_u32 get_u32 u32_bytes any_ok
  unfolding put_u32_def get_u32_def u32_bytes_def
  by unfold_locales (simp_all add: ENCODE_def word_format del: be_bytes.simps)

interpretation f64: stream_format put_u64 get_u64 u64_bytes any_ok
  unfolding put_u64_def get_u64_def u64_bytes_def
  by unfold_locales (simp_all add: ENCODE_def word_format del: be_bytes.simps)

text \<open>Data pushed with its length is what a string read returns.\<close>

lemma get_pushed_string:
  assumes "stream_wf s" and "unread s = be_bytes 4 (length d) @ d @ rest" and "length d < 2 ^ 32"
  shows "\<exists>s'. get_string s = Some (d, s') \<and> stream_wf s' \<and> unread s' = rest"
proof -
  have "length d < 256 ^ 4" using assms(3) by simp
  from DECODE_encoded [OF assms(1,2) this] obtain s1 where
    1: "DECODE 4 s = (length d, s1)" "stream_wf s1" "unread s1 = d @ rest" by blast
  have "length (unread s1) = length (sbuf s1) - rsize s1" by (simp add: unread_def)
  with 1 have "length d + rsize s1 \<le> length (sbuf s1)" by (simp add: stream_wf_def)
  moreover have "drop (length d) (drop (rsize s1) (sbuf s1)) = rest"
    using 1(3) by (simp add: unread_def)
  moreover have "take (length d) (drop (rsize s1) (sbuf s1)) = d"
    using 1(3) by (simp add: unread_def)
  ultimately show ?thesis
    using 1 by (cases "d = []") (auto simp: get_string_def stream_wf_def unread_def add.commute)
qed

end
