(* ===== verification/Rudp_Packet.thy ===== *)
theory Rudp_Packet
  imports Bin_Stream
begin

text \<open>
  \<open>common/rudp/rudp_packet.h\<close>: the packets of the reliable UDP protocol, one record per class
  with its \<open>Pack\<close> and \<open>UnPack\<close>. Each is shown to be a stream format, by composing the formats
  of its fields.
\<close>

section \<open>Message numbers\<close>

definition RUDP_SYN :: "8 word" where "RUDP_SYN = 0x10"
definition RUDP_SYN2 :: "8 word" where "RUDP_SYN2 = 0x11"
definition RUDP_SYN_ACK :: "8 word" where "RUDP_SYN_ACK = 0x02"
definition RUDP_FIN :: "8 word" where "RUDP_FIN = 0x13"
definition RUDP_FIN2 :: "8 word" where "RUDP_FIN2 = 0x14"
definition RUDP_KEEPALIVE :: "8 word" where "RUDP_KEEPALIVE = 0x15"
definition RUDP_KEEPALIVE_ACK :: "8 word" where "RUDP_KEEPALIVE_ACK = 0x16"
definition RUDP_DATA :: "8 word" where "RUDP_DATA = 0x20"
definition RUDP_DATA_ACK :: "8 word" where "RUDP_DATA_ACK = 0x23"
definition RUDP_DATA_NACK :: "8 word" where "RUDP_DATA_NACK = 0x24"
definition ERROR_SYN_STATE :: "8 word" where "ERROR_SYN_STATE = 0x01"
definition SYSTEM_SYN_ERROR :: "8 word" where "SYSTEM_SYN_ERROR = 0x02"

lemmas rudp_message_defs =
  RUDP_SYN_def RUDP_SYN2_def RUDP_SYN_ACK_def RUDP_FIN_def RUDP_FIN2_def RUDP_KEEPALIVE_def
  RUDP_KEEPALIVE_ACK_def RUDP_DATA_def RUDP_DATA_ACK_def RUDP_DATA_NACK_def

section \<open>Packets\<close>

record head_packet =
  msg_id :: "8 word"
  check_sum :: "16 word"
  remote_rudp_id :: "32 word"

definition head_pack :: "head_packet \<Rightarrow> bstream \<Rightarrow> bstream" where
  "head_pack h s = put_u16 (check_sum h) (put_u32 (remote_rudp_id h) (put_u8 (msg_id h) s))"

definition head_unpack :: "bstream \<Rightarrow> head_packet \<times> bstream" where
  "head_unpack s =
     (let (m, s) = get_u8 s; (r, s) = get_u32 s; (c, s) = get_u16 s
      in (\<lparr>msg_id = m, check_sum = c, remote_rudp_id = r\<rparr>, s))"

record syn_packet =
  syn_version :: "8 word"
  syn_max_segment_size :: "16 word"
  syn_local_rudp_id :: "32 word"
  syn_start_seq :: "64 word"
  syn_local_ts :: "64 word"

definition syn_pack :: "syn_packet \<Rightarrow> bstream \<Rightarrow> bstream" where
  "syn_pack p s = put_u64 (syn_local_ts p) (put_u64 (syn_start_seq p)
     (put_u32 (syn_local_rudp_id p) (put_u16 (syn_max_segment_size p) (put_u8 (syn_version p) s))))"

definition syn_unpack :: "bstream \<Rightarrow> syn_packet \<times> bstream" where
  "syn_unpack s =
     (let (v, s) = get_u8 s; (m, s) = get_u16 s; (i, s) = get_u32 s; (q, s) = get_u64 s;
          (t, s) = get_u64 s
      in (\<lparr>syn_version = v, syn_max_segment_size = m, syn_local_rudp_id = i,
           syn_start_seq = q, syn_local_ts = t\<rparr>, s))"

record syn2_packet =
  syn2_version :: "8 word"
  syn2_result :: "8 word"
  syn2_max_segment_size :: "16 word"
  syn2_local_rudp_id :: "32 word"
  syn2_start_seq :: "64 word"
  syn2_local_ts :: "64 word"
  syn2_remote_ts :: "64 word"

definition syn2_pack :: "syn2_packet \<Rightarrow> bstream \<Rightarrow> bstream" where
  "syn2_pack p s = put_u64 (syn2_remote_ts p) (put_u64 (syn2_local_ts p)
     (put_u64 (syn2_start_seq p) (put_u32 (syn2_local_rudp_id p)
       (put_u16 (syn2_max_segment_size p) (put_u8 (syn2_result p) (put_u8 (syn2_version p) s))))))"

definition syn2_unpack :: "bstream \<Rightarrow> syn2_packet \<times> bstream" where
  "syn2_unpack s =
     (let (v, s) = get_u8 s; (r, s) = get_u8 s; (m, s) = get_u16 s; (i, s) = get_u32 s;
          (q, s) = get_u64 s; (l, s) = get_u64 s; (t, s) = get_u64 s
      in (\<lparr>syn2_version = v, syn2_result = r, syn2_max_segment_size = m, syn2_local_rudp_id = i,
           syn2_start_seq = q, syn2_local_ts = l, syn2_remote_ts = t\<rparr>, s))"

record syn2_ack_packet =
  syn_ack_result :: "8 word"
  syn_ack_remote_ts :: "64 word"

definition syn2_ack_pack :: "syn2_ack_packet \<Rightarrow> bstream \<Rightarrow> bstream" where
  "syn2_ack_pack p s = put_u64 (syn_ack_remote_ts p) (put_u8 (syn_ack_result p) s)"

definition syn2_ack_unpack :: "bstream \<Rightarrow> syn2_ack_packet \<times> bstream" where
  "syn2_ack_unpack s =
     (let (r, s) = get_u8 s; (t, s) = get_u64 s
      in (\<lparr>syn_ack_result = r, syn_ack_remote_ts = t\<rparr>, s))"

record keeplive_packet =
  timestamp :: "64 word"

definition keeplive_pack :: "keeplive_packet \<Rightarrow> bstream \<Rightarrow> bstream" where
  "keeplive_pack p s = put_u64 (timestamp p) s"

definition keeplive_unpack :: "bstream \<Rightarrow> keeplive_packet \<times> bstream" where
  "keeplive_unpack s = (let (t, s) = get_u64 s in (\<lparr>timestamp = t\<rparr>, s))"

record data_packet =
  ack_seq_id :: "64 word"
  cur_seq_id :: "64 word"

definition data_pack :: "data_packet \<Rightarrow> bstream \<Rightarrow> bstream" where
  "data_pack p s = put_u64 (cur_seq_id p) (put_u64 (ack_seq_id p) s)"

definition data_unpack :: "bstream \<Rightarrow> data_packet \<times> bstream" where
  "data_unpack s =
     (let (a, s) = get_u64 s; (c, s) = get_u64 s in (\<lparr>ack_seq_id = a, cur_seq_id = c\<rparr>, s))"

record data_ack_packet =
  data_ack_seq_id :: "64 word"

definition data_ack_pack :: "data_ack_packet \<Rightarrow> bstream \<Rightarrow> bstream" where
  "data_ack_pack p s = put_u64 (data_ack_seq_id p) s"

definition data_ack_unpack :: "bstream \<Rightarrow> data_ack_packet \<times> bstream" where
  "data_ack_unpack s = (let (a, s) = get_u64 s in (\<lparr>data_ack_seq_id = a\<rparr>, s))"

record data_nack_packet =
  base_seq :: "64 word"
  loss_ids :: "16 word list"

definition data_nack_pack :: "data_nack_packet \<Rightarrow> bstream \<Rightarrow> bstream" where
  "data_nack_pack p s =
     (let s = put_u64 (base_seq p) s;
          array_size = of_nat (length (loss_ids p)) :: 16 word;
          s = put_u16 array_size s
      in fold (\<lambda>i s. put_u16 (loss_ids p ! i) s) [0..<unat array_size] s)"

fun get_ids :: "nat \<Rightarrow> bstream \<Rightarrow> 16 word list \<times> bstream" where
  "get_ids 0 s = ([], s)"
| "get_ids (Suc n) s = (let (i, s) = get_u16 s; (is, s) = get_ids n s in (i # is, s))"

definition data_nack_unpack :: "bstream \<Rightarrow> data_nack_packet \<times> bstream" where
  "data_nack_unpack s =
     (let (b, s) = get_u64 s; (n, s) = get_u16 s; (is, s) = get_ids (unat n) s
      in (\<lparr>base_seq = b, loss_ids = is\<rparr>, s))"

section \<open>The packets are stream formats\<close>

interpretation f32_16: stream_pair put_u32 get_u32 u32_bytes any_ok put_u16 get_u16 u16_bytes any_ok ..
interpretation f8_32_16: stream_pair put_u8 get_u8 u8_bytes any_ok
  f32_16.putp f32_16.getp f32_16.bytesp f32_16.okp ..
interpretation f64_64: stream_pair put_u64 get_u64 u64_bytes any_ok put_u64 get_u64 u64_bytes any_ok ..
interpretation f8_64: stream_pair put_u8 get_u8 u8_bytes any_ok put_u64 get_u64 u64_bytes any_ok ..
interpretation f32_64_64: stream_pair put_u32 get_u32 u32_bytes any_ok
  f64_64.putp f64_64.getp f64_64.bytesp f64_64.okp ..
interpretation f16_32_64_64: stream_pair put_u16 get_u16 u16_bytes any_ok
  f32_64_64.putp f32_64_64.getp f32_64_64.bytesp f32_64_64.okp ..
interpretation f_syn: stream_pair put_u8 get_u8 u8_bytes any_ok
  f16_32_64_64.putp f16_32_64_64.getp f16_32_64_64.bytesp f16_32_64_64.okp ..
interpretation f64_64_64: stream_pair put_u64 get_u64 u64_bytes any_ok
  f64_64.putp f64_64.getp f64_64.bytesp f64_64.okp ..
interpretation f32_64_64_64: stream_pair put_u32 get_u32 u32_bytes any_ok
  f64_64_64.putp f64_64_64.getp f64_64_64.bytesp f64_64_64.okp ..
interpretation f16_32_64_64_64: stream_pair put_u16 get_u16 u16_bytes any_ok
  f32_64_64_64.putp f32_64_64_64.getp f32_64_64_64.bytesp f32_64_64_64.okp ..
interpretation f8_16_32_64_64_64: stream_pair put_u8 get_u8 u8_bytes any_ok
  f16_32_64_64_64.putp f16_32_64_64_64.getp f16_32_64_64_64.bytesp f16_32_64_64_64.okp ..
interpretation f_syn2: stream_pair put_u8 get_u8 u8_bytes any_ok
  f8_16_32_64_64_64.putp f8_16_32_64_64_64.getp f8_16_32_64_64_64.bytesp f8_16_32_64_64_64.okp ..

lemmas pair_puts = f32_16.putp_def f8_32_16.putp_def f64_64.putp_def f8_64.putp_def f32_64_64.putp_def
  f16_32_64_64.putp_def f_syn.putp_def f64_64_64.putp_def f32_64_64_64.putp_def
  f16_32_64_64_64.putp_def f8_16_32_64_64_64.putp_def f_syn2.putp_def

lemmas pair_gets = f32_16.getp_def f8_32_16.getp_def f64_64.getp_def f8_64.getp_def f32_64_64.getp_def
  f16_32_64_64.getp_def f_syn.getp_def f64_64_64.getp_def f32_64_64_64.getp_def
  f16_32_64_64_64.getp_def f8_16_32_64_64_64.getp_def f_syn2.getp_def

lemmas pair_oks = f32_16.okp_def f8_32_16.okp_def f64_64.okp_def f8_64.okp_def f32_64_64.okp_def
  f16_32_64_64.okp_def f_syn.okp_def f64_64_64.okp_def f32_64_64_64.okp_def
  f16_32_64_64_64.okp_def f8_16_32_64_64_64.okp_def f_syn2.okp_def

interpretation head: stream_record f8_32_16.putp f8_32_16.getp f8_32_16.bytesp f8_32_16.okp
  "\<lambda>h. (msg_id h, remote_rudp_id h, check_sum h)"
  "\<lambda>(m, r, c). \<lparr>msg_id = m, check_sum = c, remote_rudp_id = r\<rparr>" head_pack head_unpack
  by unfold_locales (simp_all add: head_pack_def head_unpack_def pair_puts pair_gets pair_oks
      case_prod_beta Let_def)

interpretation syn: stream_record f_syn.putp f_syn.getp f_syn.bytesp f_syn.okp
  "\<lambda>p. (syn_version p, syn_max_segment_size p, syn_local_rudp_id p, syn_start_seq p, syn_local_ts p)"
  "\<lambda>(v, m, i, q, t). \<lparr>syn_version = v, syn_max_segment_size = m, syn_local_rudp_id = i,
     syn_start_seq = q, syn_local_ts = t\<rparr>" syn_pack syn_unpack
  by unfold_locales (simp_all add: syn_pack_def syn_unpack_def pair_puts pair_gets pair_oks
      case_prod_beta Let_def)

interpretation syn2: stream_record f_syn2.putp f_syn2.getp f_syn2.bytesp f_syn2.okp
  "\<lambda>p. (syn2_version p, syn2_result p, syn2_max_segment_size p, syn2_local_rudp_id p,
     syn2_start_seq p, syn2_local_ts p, syn2_remote_ts p)"
  "\<lambda>(v, r, m, i, q, l, t). \<lparr>syn2_version = v, syn2_result = r, syn2_max_segment_size = m,
     syn2_local_rudp_id = i, syn2_start_seq = q, syn2_local_ts = l, syn2_remote_ts = t\<rparr>"
  syn2_pack syn2_unpack
  by unfold_locales (simp_all add: syn2_pack_def syn2_unpack_def pair_puts pair_gets pair_oks
      case_prod_beta Let_def)

interpretation syn2_ack: stream_record f8_64.putp f8_64.getp f8_64.bytesp f8_64.okp
  "\<lambda>p. (syn_ack_result p, syn_ack_remote_ts p)"
  "\<lambda>(r, t). \<lparr>syn_ack_result = r, syn_ack_remote_ts = t\<rparr>" syn2_ack_pack syn2_ack_unpack
  by unfold_locales (simp_all add: syn2_ack_pack_def syn2_ack_unpack_def pair_puts pair_gets
      pair_oks case_prod_beta Let_def)

interpretation keeplive: stream_record put_u64 get_u64 u64_bytes any_ok timestamp
  "\<lambda>t. \<lparr>timestamp = t\<rparr>" keeplive_pack keeplive_unpack
  by unfold_locales (simp_all add: keeplive_pack_def keeplive_unpack_def case_prod_beta Let_def)

interpretation data: stream_record f64_64.putp f64_64.getp f64_64.bytesp f64_64.okp
  "\<lambda>p. (ack_seq_id p, cur_seq_id p)" "\<lambda>(a, c). \<lparr>ack_seq_id = a, cur_seq_id = c\<rparr>"
  data_pack data_unpack
  by unfold_locales (simp_all add: data_pack_def data_unpack_def pair_puts pair_gets pair_oks
      case_prod_beta Let_def)

interpretation data_ack: stream_record put_u64 get_u64 u64_bytes any_ok data_ack_seq_id
  "\<lambda>a. \<lparr>data_ack_seq_id = a\<rparr>" data_ack_pack data_ack_unpack
  by unfold_locales (simp_all add: data_ack_pack_def data_ack_unpack_def case_prod_beta Let_def)

text \<open>The list of lost packets in a NACK, for at most 65535 of them.\<close>

definition ids_bytes :: "16 word list \<Rightarrow> byte list" where
  "ids_bytes is = concat (map u16_bytes is)"

lemma fold_put_ids:
  "n \<le> length is \<Longrightarrow> sbuf (fold (\<lambda>i s. put_u16 (is ! i) s) [0..<n] s) = sbuf s @ ids_bytes (take n is)
    \<and> rsize (fold (\<lambda>i s. put_u16 (is ! i) s) [0..<n] s) = rsize s"
  by (induction n) (simp_all add: ids_bytes_def f16.put_bytes take_Suc_conv_app_nth)

lemma get_ids_bytes:
  assumes "stream_wf s" and "unread s = ids_bytes is @ rest"
  shows "fst (get_ids (length is) s) = is \<and> stream_wf (snd (get_ids (length is) s))
    \<and> unread (snd (get_ids (length is) s)) = rest"
  using assms
proof (induction "is" arbitrary: s)
  case (Cons i "is")
  then have "unread s = u16_bytes i @ (ids_bytes is @ rest)" by (simp add: ids_bytes_def)
  from f16.get_eq [OF any_ok Cons.prems(1) this] obtain s1 where
    1: "get_u16 s = (i, s1)" "stream_wf s1" "unread s1 = ids_bytes is @ rest" .
  from Cons.IH [OF 1(2,3)] 1(1) show ?case by (simp add: case_prod_beta Let_def)
qed (simp add: ids_bytes_def)

text \<open>The count written is the length modulo \<open>2^16\<close>, and that many elements follow.\<close>

definition data_nack_bytes :: "data_nack_packet \<Rightarrow> byte list" where
  "data_nack_bytes p = (let n = of_nat (length (loss_ids p)) :: 16 word
     in u64_bytes (base_seq p) @ u16_bytes n @ ids_bytes (take (unat n) (loss_ids p)))"

interpretation data_nack: stream_format data_nack_pack data_nack_unpack data_nack_bytes
  "\<lambda>p. length (loss_ids p) < 65536"
proof
  fix p :: data_nack_packet and s
  have l: "unat (of_nat (length (loss_ids p)) :: 16 word) \<le> length (loss_ids p)"
    by (simp add: unat_of_nat)
  show "rsize (data_nack_pack p s) = rsize s" "sbuf (data_nack_pack p s) = sbuf s @ data_nack_bytes p"
    using fold_put_ids [OF l]
    by (simp_all add: data_nack_pack_def data_nack_bytes_def f16.put_bytes f64.put_bytes Let_def)
  fix rest
  assume small: "length (loss_ids p) < 65536"
  then have n: "unat (of_nat (length (loss_ids p)) :: 16 word) = length (loss_ids p)"
    by (simp add: unat_of_nat)
  assume wf: "stream_wf s" and u: "unread s = data_nack_bytes p @ rest"
  then have "unread s = u64_bytes (base_seq p) @ (u16_bytes (of_nat (length (loss_ids p)))
      @ (ids_bytes (loss_ids p) @ rest))" by (simp add: data_nack_bytes_def n Let_def)
  from f64.get_eq [OF any_ok wf this] obtain s1 where
    1: "get_u64 s = (base_seq p, s1)" "stream_wf s1"
      "unread s1 = u16_bytes (of_nat (length (loss_ids p))) @ (ids_bytes (loss_ids p) @ rest)" .
  from f16.get_eq [OF any_ok 1(2,3)] obtain s2 where
    2: "get_u16 s1 = (of_nat (length (loss_ids p)), s2)" "stream_wf s2"
      "unread s2 = ids_bytes (loss_ids p) @ rest" .
  from get_ids_bytes [OF 2(2,3)] 1(1) 2(1) show
    "fst (data_nack_unpack s) = p \<and> stream_wf (snd (data_nack_unpack s))
      \<and> unread (snd (data_nack_unpack s)) = rest"
    by (simp add: data_nack_unpack_def n case_prod_beta Let_def)
qed

section \<open>Whole messages\<close>

text \<open>
  A message is a header and a body written to a rewound stream; the receiver reads the header,
  picks the body by its number and reads that.
\<close>

text \<open>
  C30. Control messages: for every kind of packet, reading the header and the body from the
  bytes that writing them produced gives both back.
\<close>

theorem rudp_message_roundtrip:
  "(\<exists>s. head_unpack (syn_pack sy (head_pack h stream_new)) = (h, s) \<and> fst (syn_unpack s) = sy)
   \<and> (\<exists>s. head_unpack (syn2_pack sy2 (head_pack h stream_new)) = (h, s) \<and> fst (syn2_unpack s) = sy2)
   \<and> (\<exists>s. head_unpack (syn2_ack_pack sa (head_pack h stream_new)) = (h, s) \<and> fst (syn2_ack_unpack s) = sa)
   \<and> (\<exists>s. head_unpack (keeplive_pack k (head_pack h stream_new)) = (h, s) \<and> fst (keeplive_unpack s) = k)
   \<and> (\<exists>s. head_unpack (data_ack_pack a (head_pack h stream_new)) = (h, s) \<and> fst (data_ack_unpack s) = a)
   \<and> (length (loss_ids n) < 65536 \<longrightarrow>
      (\<exists>s. head_unpack (data_nack_pack n (head_pack h stream_new)) = (h, s) \<and> fst (data_nack_unpack s) = n))"
proof -
  define hs where "hs = head_pack h stream_new"
  have hs: "sbuf hs = f8_32_16.bytesp (msg_id h, remote_rudp_id h, check_sum h)" "rsize hs = 0"
    by (simp_all add: hs_def head.rec.put_bytes stream_new_def)
  have step: "\<exists>s1. head_unpack s = (h, s1) \<and> stream_wf s1 \<and> unread s1 = b"
    if "sbuf s = sbuf hs @ b" "rsize s = rsize hs" for s b
  proof -
    have "stream_wf s" "unread s = f8_32_16.bytesp (msg_id h, remote_rudp_id h, check_sum h) @ b"
      using that by (simp_all add: stream_wf_def unread_def hs)
    from head.rec.get_eq [OF TrueI this] show ?thesis by metis
  qed
  show ?thesis
    unfolding hs_def [symmetric]
    using step [OF syn.rec.put_bytes] step [OF syn2.rec.put_bytes] step [OF syn2_ack.rec.put_bytes]
      step [OF keeplive.rec.put_bytes] step [OF data_ack.rec.put_bytes] step [OF data_nack.put_bytes]
      syn.rec.get_bytes [of _ sy "[]"] syn2.rec.get_bytes [of _ sy2 "[]"]
      syn2_ack.rec.get_bytes [of _ sa "[]"] keeplive.rec.get_bytes [of _ k "[]"]
      data_ack.rec.get_bytes [of _ a "[]"] data_nack.get_bytes [of n _ "[]"]
    by (intro conjI impI) (metis append_Nil2)+
qed

theorem rudp_message_roundtrip_witness:
  "\<exists>s. head_unpack (data_nack_pack \<lparr>base_seq = 5, loss_ids = [1, 3]\<rparr>
      (head_pack \<lparr>msg_id = RUDP_DATA_NACK, check_sum = 9, remote_rudp_id = 2\<rparr> stream_new))
    = (\<lparr>msg_id = RUDP_DATA_NACK, check_sum = 9, remote_rudp_id = 2\<rparr>, s)
    \<and> fst (data_nack_unpack s) = \<lparr>base_seq = 5, loss_ids = [1, 3]\<rparr>"
  using rudp_message_roundtrip [where n = "\<lparr>base_seq = 5, loss_ids = [1, 3]\<rparr>"
      and h = "\<lparr>msg_id = RUDP_DATA_NACK, check_sum = 9, remote_rudp_id = 2\<rparr>"] by simp

text \<open>
  A data message: the header, the sequence numbers and the pushed segment are read back; the
  payload begins at the read position and has the transmitted length.
\<close>

theorem rudp_data_roundtrip:
  assumes "length seg < 2 ^ 32"
  shows "\<exists>s1 s2. head_unpack (push_data seg (data_pack d (head_pack h stream_new))) = (h, s1)
    \<and> data_unpack s1 = (d, s2) \<and> fst (get_u32 s2) = of_nat (length seg)
    \<and> unread (snd (get_u32 s2)) = seg"
proof -
  let ?hb = "f8_32_16.bytesp (msg_id h, remote_rudp_id h, check_sum h)"
  let ?db = "f64_64.bytesp (ack_seq_id d, cur_seq_id d)"
  let ?s = "push_data seg (data_pack d (head_pack h stream_new))"
  have n: "unat (of_nat (length seg) :: 32 word) = length seg" using assms by (simp add: unat_of_nat)
  have "rsize ?s = 0" and "sbuf ?s = ?hb @ (?db @ (be_bytes 4 (length seg) @ seg))"
    by (simp_all add: push_data_def ENCODE_def data.rec.put_bytes head.rec.put_bytes stream_new_def)
  then have "stream_wf ?s" "unread ?s = ?hb @ (?db @ (u32_bytes (of_nat (length seg)) @ seg))"
    by (simp_all add: stream_wf_def unread_def u32_bytes_def n)
  from head.rec.get_eq [OF TrueI this] obtain s1 where
    1: "head_unpack ?s = (h, s1)" "stream_wf s1" "unread s1 = ?db @ (u32_bytes (of_nat (length seg)) @ seg)" .
  from data.rec.get_eq [OF TrueI 1(2,3)] obtain s2 where
    2: "data_unpack s1 = (d, s2)" "stream_wf s2" "unread s2 = u32_bytes (of_nat (length seg)) @ seg" .
  from f32.get_eq [OF any_ok 2(2,3)] obtain s3 where "get_u32 s2 = (of_nat (length seg), s3)" "unread s3 = seg" .
  with 1 2 show ?thesis by simp
qed

theorem rudp_data_roundtrip_witness:
  "\<exists>s1 s2. head_unpack (push_data [7, 8, 9] (data_pack \<lparr>ack_seq_id = 4, cur_seq_id = 6\<rparr>
      (head_pack \<lparr>msg_id = RUDP_DATA, check_sum = 9, remote_rudp_id = 2\<rparr> stream_new)))
      = (\<lparr>msg_id = RUDP_DATA, check_sum = 9, remote_rudp_id = 2\<rparr>, s1)
    \<and> data_unpack s1 = (\<lparr>ack_seq_id = 4, cur_seq_id = 6\<rparr>, s2) \<and> unread (snd (get_u32 s2)) = [7, 8, 9]"
  using rudp_data_roundtrip [of "[7, 8, 9]" "\<lparr>ack_seq_id = 4, cur_seq_id = 6\<rparr>"
      "\<lparr>msg_id = RUDP_DATA, check_sum = 9, remote_rudp_id = 2\<rparr>"] by auto

end
