(* ===== verification/Rudp_Socket.thy ===== *)
theory Rudp_Socket
  imports Rudp_Packet Rudp_Recv Rudp_Send
begin

text \<open>
  \<open>common/rudp/rudp_socket.h\<close> and \<open>.cpp\<close>: one end of a reliable UDP connection, its state machine
  and its timers. Every method takes the socket to the socket; what it does outside (packets,
  timers, callbacks, calls of the socket table) is appended to \<open>sk_out\<close> in the order of the code.
  The environment of a call is the clock, which the code reads more than once but which stands
  still here, the number the reactor gives to a new timer, and the value of \<open>rand ()\<close>. A callback
  that calls the socket again is a later call.
\<close>

section \<open>State\<close>

definition RUDP_IDLE :: u16 where "RUDP_IDLE = 1"
definition RUDP_CONNECTING :: u16 where "RUDP_CONNECTING = 2"
definition RUDP_CONNECTED :: u16 where "RUDP_CONNECTED = 3"
definition RUDP_FIN_STATE :: u16 where "RUDP_FIN_STATE = 4"
definition RUDP_FIN2_STATE :: u16 where "RUDP_FIN2_STATE = 5"
definition RUDP_CLOSE :: u16 where "RUDP_CLOSE = 6"

lemmas rudp_states =
  RUDP_IDLE_def RUDP_CONNECTING_def RUDP_CONNECTED_def RUDP_FIN_STATE_def RUDP_FIN2_STATE_def
  RUDP_CLOSE_def

definition RUDP_SUCCESS :: "32 word" where "RUDP_SUCCESS = 0"
definition RUDP_BIND_FAIL :: "32 word" where "RUDP_BIND_FAIL = 1"
definition RUDP_CONNECT_FAIL :: "32 word" where "RUDP_CONNECT_FAIL = 2"
definition RUDP_SEND_ERROR :: "32 word" where "RUDP_SEND_ERROR = 3"
definition RUDP_SEND_EAGIN :: "32 word" where "RUDP_SEND_EAGIN = 4"

definition RUDP_KEEPLIVE :: "32 word" where "RUDP_KEEPLIVE = 1"
definition RUDP_NAGLE :: "32 word" where "RUDP_NAGLE = 2"
definition RUDP_RECV_BUFF_SIZE :: "32 word" where "RUDP_RECV_BUFF_SIZE = 3"
definition RUDP_SEND_BUFF_SIZE :: "32 word" where "RUDP_SEND_BUFF_SIZE = 4"
definition RUDP_TIMEOUT_COUNT :: "32 word" where "RUDP_TIMEOUT_COUNT = 5"

definition RUDP_VERSION :: byte where "RUDP_VERSION = 1"
definition DEFAULT_KEEPLIVE :: nat where "DEFAULT_KEEPLIVE = 3000"
definition DEFAULT_TIMEOUT_COUNT :: u16 where "DEFAULT_TIMEOUT_COUNT = 40"
definition CONNECT_DELAY :: u32 where "CONNECT_DELAY = 1000"
definition SYN_MAX_COUNT :: byte where "SYN_MAX_COUNT = 20"
definition FIN_MAX_COUNT :: byte where "FIN_MAX_COUNT = 8"
definition TIMER_MIN_DELAY :: u32 where "TIMER_MIN_DELAY = 50"
definition MIN_SEND_BUFFER_SIZE :: "32 word" where "MIN_SEND_BUFFER_SIZE = 4096"
definition INVALID_ADAPTER_INDEX :: byte where "INVALID_ADAPTER_INDEX = 0xff"
definition INVALID_RUDP_HANDLE :: "32 word" where "INVALID_RUDP_HANDLE = - 1"

text \<open>An address is its IP number and its port, the two parts that \<open>operator==\<close> compares.\<close>

type_synonym inet_addr = "32 word \<times> 16 word"

text \<open>\<open>Free_socket\<close> is the call of \<open>free_sockets\<close>, with the peer that the table drops.\<close>

datatype sock_event =
    Udp byte "byte list" inet_addr
  | Set_timer u32
  | Cancel_timer u32
  | Free_socket "32 word" "32 word" inet_addr
  | Delete_peer_index "32 word" inet_addr
  | Output_event "32 word"
  | Input_event "32 word"
  | Close_event "32 word"
  | Exception_event "32 word"

record rudp_socket =
  sk_id :: "32 word"
  sk_index :: byte
  sk_title :: byte
  sk_check_sum :: u16
  sk_remote_id :: "32 word"
  sk_addr :: inet_addr
  sk_ccc :: ccc
  sk_send :: send_buffer
  sk_recv :: recv_buffer
  sk_heart_ts :: u64
  sk_keeplive_intnal :: u16
  sk_keeplive_count :: u32
  sk_timeout_count :: u16
  sk_handler :: bool
  sk_state :: u16
  sk_error :: "32 word"
  sk_timer :: u32
  sk_send_count :: byte
  sk_out :: "sock_event list"

record sock_env =
  env_now :: u64
  env_timer :: u32
  env_random :: u64

definition emit :: "sock_event \<Rightarrow> rudp_socket \<Rightarrow> rudp_socket" where
  "emit e s = s\<lparr>sk_out := sk_out s @ [e]\<rparr>"

section \<open>Timer and state\<close>

definition sock_set_timer :: "sock_env \<Rightarrow> u32 \<Rightarrow> rudp_socket \<Rightarrow> rudp_socket" where
  "sock_set_timer env delay s =
     (if sk_timer s = 0 then (emit (Set_timer delay) s)\<lparr>sk_timer := env_timer env\<rparr> else s)"

definition sock_cancel_timer :: "rudp_socket \<Rightarrow> rudp_socket" where
  "sock_cancel_timer s =
     (if sk_timer s \<noteq> 0 then (emit (Cancel_timer (sk_timer s)) s)\<lparr>sk_timer := 0\<rparr> else s)"

definition sock_reset :: "sock_env \<Rightarrow> rudp_socket \<Rightarrow> rudp_socket" where
  "sock_reset env s =
     (let s = s\<lparr>sk_state := RUDP_IDLE, sk_id := - 1, sk_index := INVALID_ADAPTER_INDEX, sk_title := 0,
                sk_remote_id := INVALID_RUDP_HANDLE, sk_heart_ts := env_now env,
                sk_keeplive_intnal := of_nat DEFAULT_KEEPLIVE, sk_keeplive_count := 0,
                sk_timeout_count := DEFAULT_TIMEOUT_COUNT, sk_handler := False,
                sk_error := RUDP_SUCCESS, sk_send_count := 0\<rparr>;
          s = sock_cancel_timer s
      in s\<lparr>sk_ccc := ccc_reset, sk_send := send_reset (env_random env) (env_now env),
           sk_recv := recv_reset (env_now env), sk_check_sum := 0\<rparr>)"

text \<open>A state is only left for a later one; on \<open>RUDP_CLOSE\<close> the table frees and resets the socket.\<close>

definition set_state :: "sock_env \<Rightarrow> u16 \<Rightarrow> rudp_socket \<Rightarrow> rudp_socket" where
  "set_state env st s =
     (if sk_state s \<ge> st then s
      else
        let s = sock_cancel_timer (s\<lparr>sk_state := st, sk_send_count := 0\<rparr>)
        in if st = RUDP_CLOSE
           then sock_reset env (emit (Free_socket (sk_id s) (sk_remote_id s) (sk_addr s)) s)
           else s)"

section \<open>Sending packets\<close>

text \<open>\<open>strm_.rewind (true)\<close>, the title and the header.\<close>

definition msg_head :: "byte \<Rightarrow> rudp_socket \<Rightarrow> bstream" where
  "msg_head m s = head_pack \<lparr>msg_id = m, check_sum = sk_check_sum s, remote_rudp_id = sk_remote_id s\<rparr>
     (put_u8 (sk_title s) stream_new)"

definition sock_udp :: "bstream \<Rightarrow> rudp_socket \<Rightarrow> rudp_socket" where
  "sock_udp st s = emit (Udp (sk_index s) (sbuf st) (sk_addr s)) s"

definition sock_send_ack :: "u64 \<Rightarrow> rudp_socket \<Rightarrow> rudp_socket" where
  "sock_send_ack seq s =
     (if sk_state s \<noteq> RUDP_CONNECTED \<or> sint (sk_remote_id s) < 0 then s
      else sock_udp (data_ack_pack \<lparr>data_ack_seq_id = seq\<rparr> (msg_head RUDP_DATA_ACK s)) s)"

definition sock_send_nack :: "u64 \<Rightarrow> u16 list \<Rightarrow> rudp_socket \<Rightarrow> rudp_socket" where
  "sock_send_nack base ids s =
     (if sk_state s \<noteq> RUDP_CONNECTED \<or> sint (sk_remote_id s) < 0 then s
      else sock_udp (data_nack_pack \<lparr>base_seq = base, loss_ids = ids\<rparr> (msg_head RUDP_DATA_NACK s)) s)"

definition sock_send_data :: "u64 \<Rightarrow> u64 \<Rightarrow> byte list \<Rightarrow> rudp_socket \<Rightarrow> rudp_socket" where
  "sock_send_data now seq d s =
     (if sk_state s \<noteq> RUDP_CONNECTED \<or> sint (sk_remote_id s) < 0 \<or> d = [] then s
      else
        let body = \<lparr>ack_seq_id = first_seq (sk_recv s), cur_seq_id = seq\<rparr>;
            s = s\<lparr>sk_recv := set_send_last_ack_ts now (sk_recv s)\<rparr>
        in sock_udp (push_data d (data_pack body (msg_head RUDP_DATA s))) s)"

definition send_syn :: "sock_env \<Rightarrow> rudp_socket \<Rightarrow> rudp_socket" where
  "send_syn env s =
     (let head = \<lparr>msg_id = RUDP_SYN, check_sum = sk_check_sum s, remote_rudp_id = INVALID_RUDP_HANDLE\<rparr>;
          syn = \<lparr>syn_version = RUDP_VERSION, syn_max_segment_size = of_nat MAX_SEGMENT_SIZE,
                 syn_local_rudp_id = sk_id s, syn_start_seq = buffer_seq (sk_send s),
                 syn_local_ts = env_now env\<rparr>
      in sock_udp (syn_pack syn (head_pack head (put_u8 (sk_title s) stream_new))) s)"

definition send_syn2 :: "sock_env \<Rightarrow> byte \<Rightarrow> u64 \<Rightarrow> rudp_socket \<Rightarrow> rudp_socket" where
  "send_syn2 env result remote_ts s =
     (let syn2 = \<lparr>syn2_version = RUDP_VERSION, syn2_result = result,
                  syn2_max_segment_size = of_nat MAX_SEGMENT_SIZE, syn2_local_rudp_id = sk_id s,
                  syn2_start_seq = buffer_seq (sk_send s), syn2_local_ts = env_now env,
                  syn2_remote_ts = remote_ts\<rparr>;
          st = syn2_pack syn2 (msg_head RUDP_SYN2 s)
      in (sock_udp st ^^ 3) s)"

definition send_syn_ack :: "byte \<Rightarrow> u64 \<Rightarrow> rudp_socket \<Rightarrow> rudp_socket" where
  "send_syn_ack result remote_ts s =
     sock_udp (syn2_ack_pack \<lparr>syn_ack_result = result, syn_ack_remote_ts = remote_ts\<rparr>
       (msg_head RUDP_SYN_ACK s)) s"

definition send_fin :: "rudp_socket \<Rightarrow> rudp_socket" where
  "send_fin s = sock_udp (msg_head RUDP_FIN s) s"

definition send_fin2 :: "rudp_socket \<Rightarrow> rudp_socket" where
  "send_fin2 s = (sock_udp (msg_head RUDP_FIN2 s) ^^ 3) s"

definition send_keeplive :: "u64 \<Rightarrow> rudp_socket \<Rightarrow> rudp_socket" where
  "send_keeplive now s =
     (sock_udp (keeplive_pack \<lparr>timestamp = now\<rparr> (msg_head RUDP_KEEPALIVE s)) s)\<lparr>sk_heart_ts := now\<rparr>"

definition send_keeplive_ack :: "u64 \<Rightarrow> rudp_socket \<Rightarrow> rudp_socket" where
  "send_keeplive_ack ts s =
     sock_udp (keeplive_pack \<lparr>timestamp = ts\<rparr> (msg_head RUDP_KEEPALIVE_ACK s)) s"

section \<open>Notifications of the buffers\<close>

definition sock_on_write :: "rudp_socket \<Rightarrow> rudp_socket" where
  "sock_on_write s =
     (if sk_state s \<noteq> RUDP_CONNECTED \<or> \<not> sk_handler s then s else emit (Output_event (sk_id s)) s)"

definition sock_on_read :: "rudp_socket \<Rightarrow> rudp_socket" where
  "sock_on_read s =
     (if sk_state s \<noteq> RUDP_CONNECTED \<or> \<not> sk_handler s then s else emit (Input_event (sk_id s)) s)"

definition sock_on_exception :: "rudp_socket \<Rightarrow> rudp_socket" where
  "sock_on_exception s =
     (if sk_state s \<noteq> RUDP_CONNECTED \<or> \<not> sk_handler s then s else emit (Close_event (sk_id s)) s)"

fun send_event_act :: "u64 \<Rightarrow> send_event \<Rightarrow> rudp_socket \<Rightarrow> rudp_socket" where
  "send_event_act now (Send_data seq d) s = sock_send_data now seq d s"
| "send_event_act now On_write s = sock_on_write s"

fun recv_event_act :: "recv_event \<Rightarrow> rudp_socket \<Rightarrow> rudp_socket" where
  "recv_event_act On_read s = sock_on_read s"
| "recv_event_act On_exception s = sock_on_exception s"
| "recv_event_act (Send_ack seq) s = sock_send_ack seq s"
| "recv_event_act (Send_nack base ids) s = sock_send_nack base ids s"

text \<open>A call of the send buffer, with the packets it sends, and one of the receive buffer.\<close>

definition with_send ::
    "u64 \<Rightarrow> (send_buffer \<Rightarrow> ccc \<Rightarrow> send_buffer \<times> ccc \<times> send_event list) \<Rightarrow> rudp_socket \<Rightarrow> rudp_socket" where
  "with_send now f s =
     (case f (sk_send s) (sk_ccc s) of (b, c, ev) \<Rightarrow>
        fold (send_event_act now) ev (s\<lparr>sk_send := b, sk_ccc := c\<rparr>))"

definition with_recv :: "(recv_buffer \<Rightarrow> recv_buffer \<times> recv_event list) \<Rightarrow> rudp_socket \<Rightarrow> rudp_socket" where
  "with_recv f s =
     (case f (sk_recv s) of (b, ev) \<Rightarrow> fold recv_event_act ev (s\<lparr>sk_recv := b\<rparr>))"

section \<open>Calls of the application\<close>

definition sock_open :: "sock_env \<Rightarrow> 32 word \<Rightarrow> rudp_socket \<Rightarrow> rudp_socket" where
  "sock_open env i s = (sock_reset env s)\<lparr>sk_id := i\<rparr>"

definition sock_close :: "sock_env \<Rightarrow> rudp_socket \<Rightarrow> rudp_socket" where
  "sock_close env s =
     (if sk_state s = RUDP_CONNECTING \<or> sk_state s = RUDP_CONNECTED then
        let s = (if sk_handler s then emit (Close_event (sk_id s)) s else s);
            s = send_fin (set_state env RUDP_FIN_STATE s);
            s = sock_set_timer env (rtt (sk_ccc s) + TIMER_MIN_DELAY) s
        in s\<lparr>sk_send_count := sk_send_count s + 1\<rparr>
      else if sk_state s = RUDP_FIN2_STATE then set_state env RUDP_CLOSE s
      else s)"

definition sock_force_close :: "sock_env \<Rightarrow> rudp_socket \<Rightarrow> rudp_socket" where
  "sock_force_close env s =
     (if sk_state s = RUDP_CONNECTING \<or> sk_state s = RUDP_CONNECTED
      then set_state env RUDP_CLOSE ((send_fin ^^ 6) s)
      else if sk_state s = RUDP_FIN2_STATE then set_state env RUDP_CLOSE s
      else s)"

definition sock_bind :: "byte \<Rightarrow> byte \<Rightarrow> rudp_socket \<Rightarrow> rudp_socket \<times> int" where
  "sock_bind index title s =
     (if sk_id s = - 1 \<or> sk_state s \<noteq> RUDP_IDLE then (s\<lparr>sk_error := RUDP_BIND_FAIL\<rparr>, - 1)
      else (s\<lparr>sk_index := index, sk_title := title\<rparr>, 0))"

definition sock_connect :: "sock_env \<Rightarrow> inet_addr \<Rightarrow> rudp_socket \<Rightarrow> rudp_socket \<times> int" where
  "sock_connect env addr s =
     (if sk_id s = INVALID_RUDP_HANDLE \<or> sk_state s \<noteq> RUDP_IDLE \<or> sk_index s = 255
         \<or> sk_remote_id s \<noteq> INVALID_RUDP_HANDLE
      then (s\<lparr>sk_error := RUDP_CONNECT_FAIL\<rparr>, - 1)
      else
        let s = s\<lparr>sk_addr := addr, sk_check_sum := ucast (env_random env mod 65536)\<rparr>;
            s = send_syn env (set_state env RUDP_CONNECTING s);
            s = s\<lparr>sk_ccc := ccc_init (buffer_seq (sk_send s) - 1) (env_now env)\<rparr>;
            s = sock_set_timer env CONNECT_DELAY s
        in (s\<lparr>sk_send_count := sk_send_count s + 1\<rparr>, 0))"

definition sock_setoption :: "32 word \<Rightarrow> 32 word \<Rightarrow> rudp_socket \<Rightarrow> rudp_socket \<times> int" where
  "sock_setoption op v s =
     (if sk_id s = - 1 \<or> sk_state s > RUDP_FIN_STATE then (s, - 1)
      else if op = RUDP_KEEPLIVE then
        (s\<lparr>sk_keeplive_intnal := (if sint v > int DEFAULT_KEEPLIVE then ucast v else of_nat DEFAULT_KEEPLIVE)\<rparr>, 0)
      else if op = RUDP_NAGLE then (s\<lparr>sk_send := (sk_send s)\<lparr>nagle := v \<noteq> 0\<rparr>\<rparr>, 0)
      else if op = RUDP_RECV_BUFF_SIZE then (s, 0)
      else if op = RUDP_SEND_BUFF_SIZE then
        (s\<lparr>sk_send := (sk_send s)\<lparr>buffer_size :=
             (if sint v > sint MIN_SEND_BUFFER_SIZE then v else MIN_SEND_BUFFER_SIZE)\<rparr>\<rparr>, 0)
      else if op = RUDP_TIMEOUT_COUNT then
        (s\<lparr>sk_timeout_count := (if sint v > 2 then ucast v else 2)\<rparr>, 0)
      else (s, - 1))"

text \<open>\<open>data\<close> is the caller's bytes; the size is their number, taken as a 32 bit signed number.\<close>

definition sock_send :: "sock_env \<Rightarrow> byte list \<Rightarrow> rudp_socket \<Rightarrow> rudp_socket \<times> int" where
  "sock_send env d s =
     (if sk_state s \<noteq> RUDP_CONNECTED \<or> d = [] then (s\<lparr>sk_error := RUDP_SEND_ERROR\<rparr>, - 1)
      else
        let s = with_send (env_now env) (buffer_send (env_now env) d) s;
            ret = int (length d)
        in (if ret \<le> 0 then s\<lparr>sk_error := RUDP_SEND_EAGIN\<rparr> else s, ret))"

text \<open>The bytes written to the caller's array, or the error.\<close>

definition sock_recv :: "32 word \<Rightarrow> rudp_socket \<Rightarrow> rudp_socket \<times> byte list option" where
  "sock_recv data_size s =
     (if sk_state s \<noteq> RUDP_CONNECTED \<or> sint data_size \<le> 0 then (s\<lparr>sk_error := RUDP_SEND_ERROR\<rparr>, None)
      else (case recv_read data_size (sk_recv s) of (b, d) \<Rightarrow> (s\<lparr>sk_recv := b\<rparr>, Some d)))"

text \<open>\<open>check_buffer\<close> of the receive buffer is empty, so that the mark for reading does nothing.\<close>

definition sock_register_event :: "u32 \<Rightarrow> rudp_socket \<Rightarrow> rudp_socket" where
  "sock_register_event marks s =
     (if sk_state s \<noteq> RUDP_CONNECTED then s
      else if bit marks 1 then with_send 0 (\<lambda>b c. (b, c, send_check_buffer b)) s
      else s)"

section \<open>Timers\<close>

definition sock_handle_timeout :: "sock_env \<Rightarrow> u32 \<Rightarrow> rudp_socket \<Rightarrow> rudp_socket" where
  "sock_handle_timeout env tid s =
     (if sk_timer s \<noteq> tid then s
      else
        let s = s\<lparr>sk_timer := 0\<rparr> in
        if sk_state s = RUDP_CONNECTING then
          (if sk_send_count s < SYN_MAX_COUNT then
             let s = sock_set_timer env CONNECT_DELAY (send_syn env s)
             in s\<lparr>sk_send_count := sk_send_count s + 1\<rparr>
           else
             let s = set_state env RUDP_FIN2_STATE s
             in if sk_handler s then emit (Exception_event (sk_id s)) s else set_state env RUDP_CLOSE s)
        else if sk_state s = RUDP_FIN_STATE then
          (if sk_send_count s < FIN_MAX_COUNT then
             let s = send_fin s; s = sock_set_timer env (rtt (sk_ccc s) + TIMER_MIN_DELAY) s
             in s\<lparr>sk_send_count := sk_send_count s + 1\<rparr>
           else set_state env RUDP_CLOSE s)
        else s)"

definition sock_heartbeat :: "sock_env \<Rightarrow> rudp_socket \<Rightarrow> rudp_socket" where
  "sock_heartbeat env s =
     (if sk_state s \<noteq> RUDP_CONNECTED then s
      else
        let now = env_now env;
            due = now > sk_heart_ts s + ucast (sk_keeplive_intnal s);
            s = (if due then s\<lparr>sk_keeplive_count := sk_keeplive_count s + 1\<rparr> else s)
        in if due \<and> sk_keeplive_count s > ucast (sk_timeout_count s) then
             (if sk_handler s
              then let s = set_state env RUDP_FIN2_STATE s in emit (Exception_event (sk_id s)) s
              else set_state env RUDP_CLOSE s)
           else
             let s = (if due then send_keeplive now s else s);
                 s = s\<lparr>sk_ccc := ccc_on_timer now (sk_ccc s)\<rparr>;
                 s = with_recv (recv_on_timer now (rtt_var (sk_ccc s))) s
             in with_send now (send_on_timer now) s)"

section \<open>Messages\<close>

definition measured_rtt :: "u64 \<Rightarrow> u64 \<Rightarrow> u32" where
  "measured_rtt now ts = ucast (if now > ts then now - ts else 5)"

text \<open>The acknowledgement goes to the congestion controller first, then to the send buffer.\<close>

definition take_ack :: "sock_env \<Rightarrow> u64 \<Rightarrow> rudp_socket \<Rightarrow> rudp_socket" where
  "take_ack env seq s =
     with_send (env_now env) (send_on_ack (env_now env) seq) (s\<lparr>sk_ccc := ccc_on_ack seq (sk_ccc s)\<rparr>)"

text \<open>\<open>None\<close> is the undefined copy of \<open>recv_on_data\<close>.\<close>

definition process_data :: "sock_env \<Rightarrow> bstream \<Rightarrow> rudp_socket \<Rightarrow> rudp_socket option" where
  "process_data env st s =
     (if sk_state s \<noteq> RUDP_CONNECTED then Some s
      else
        let (d, st) = data_unpack st;
            s = take_ack env (ack_seq_id d) s;
            (n, st) = get_u32 st
        in case recv_on_data (cur_seq_id d) (unread st) n (env_now env) (sk_recv s) of
             None \<Rightarrow> None
           | Some (b, ev, _) \<Rightarrow> Some (fold recv_event_act ev (s\<lparr>sk_recv := b\<rparr>)))"

definition process_data_ack :: "sock_env \<Rightarrow> bstream \<Rightarrow> rudp_socket \<Rightarrow> rudp_socket" where
  "process_data_ack env st s =
     (if sk_state s \<noteq> RUDP_CONNECTED then s
      else take_ack env (data_ack_seq_id (fst (data_ack_unpack st))) s)"

definition process_data_nack :: "sock_env \<Rightarrow> bstream \<Rightarrow> rudp_socket \<Rightarrow> rudp_socket" where
  "process_data_nack env st s =
     (if sk_state s \<noteq> RUDP_CONNECTED then s
      else
        let n = fst (data_nack_unpack st);
            s = with_send (env_now env) (send_on_nack (env_now env) (base_seq n) (loss_ids n)) s;
            s = s\<lparr>sk_ccc := ccc_on_loss (base_seq n) (loss_ids n) (sk_ccc s)\<rparr>
        in take_ack env (base_seq n) s)"

definition process_syn :: "sock_env \<Rightarrow> syn_packet \<Rightarrow> inet_addr \<Rightarrow> rudp_socket \<Rightarrow> rudp_socket" where
  "process_syn env syn addr s =
     (if sk_state s = RUDP_IDLE \<and> sk_id s \<noteq> INVALID_RUDP_HANDLE then
        let s = s\<lparr>sk_recv := set_send_last_ack_ts (env_now env) (set_first_seq (syn_start_seq syn) (sk_recv s)),
                   sk_ccc := ccc_init (buffer_seq (sk_send s) - 1) (env_now env),
                   sk_addr := addr, sk_remote_id := syn_local_rudp_id syn\<rparr>;
            s = set_state env RUDP_CONNECTED (send_syn2 env 0 (syn_local_ts syn) s)
        in send_keeplive (env_now env) s
      else if sk_state s = RUDP_CONNECTING \<or> sk_state s = RUDP_CONNECTED
      then send_syn2 env 0 (syn_local_ts syn) s
      else set_state env RUDP_CLOSE (send_syn2 env ERROR_SYN_STATE (syn_local_ts syn) s))"

definition process_syn2 :: "sock_env \<Rightarrow> bstream \<Rightarrow> inet_addr \<Rightarrow> rudp_socket \<Rightarrow> rudp_socket" where
  "process_syn2 env st addr s =
     (let syn2 = fst (syn2_unpack st) in
      if sk_state s = RUDP_CONNECTING then
        (if syn2_result syn2 \<noteq> 0 then
           (if sk_handler s
            then let s = set_state env RUDP_FIN2_STATE s in emit (Exception_event (sk_id s)) s
            else set_state env RUDP_CLOSE s)
         else
           let now = env_now env;
               s = s\<lparr>sk_recv := set_send_last_ack_ts now (set_first_seq (syn2_start_seq syn2) (sk_recv s)),
                      sk_addr := addr, sk_remote_id := syn2_local_rudp_id syn2,
                      sk_ccc := ccc_set_rtt (measured_rtt now (syn2_remote_ts syn2)) (sk_ccc s)\<rparr>;
               s = send_syn_ack 0 (syn2_local_ts syn2) (set_state env RUDP_CONNECTED s);
               s = (if sk_handler s then emit (Output_event (sk_id s)) s else s)
           in s\<lparr>sk_heart_ts := now\<rparr>)
      else if sk_state s = RUDP_CONNECTED then send_syn_ack 0 (syn2_local_ts syn2) s
      else s)"

definition process_syn_ack :: "sock_env \<Rightarrow> bstream \<Rightarrow> rudp_socket \<Rightarrow> rudp_socket" where
  "process_syn_ack env st s =
     (let s = emit (Delete_peer_index (sk_remote_id s) (sk_addr s)) s in
      if sk_state s \<noteq> RUDP_CONNECTED then s
      else
        let ack = fst (syn2_ack_unpack st);
            s = s\<lparr>sk_ccc := ccc_set_rtt (measured_rtt (env_now env) (syn_ack_remote_ts ack)) (sk_ccc s)\<rparr>
        in if sk_handler s then emit (Output_event (sk_id s)) s else s)"

definition process_fin :: "sock_env \<Rightarrow> rudp_socket \<Rightarrow> rudp_socket" where
  "process_fin env s =
     (let s = send_fin2 s in
      if sk_state s = RUDP_CONNECTING \<or> sk_state s = RUDP_CONNECTED then
        let s = set_state env RUDP_FIN2_STATE s
        in if sk_handler s then emit (Close_event (sk_id s)) s else set_state env RUDP_CLOSE s
      else set_state env RUDP_CLOSE s)"

definition process_fin2 :: "sock_env \<Rightarrow> rudp_socket \<Rightarrow> rudp_socket" where
  "process_fin2 env s =
     (if sk_handler s then emit (Close_event (sk_id s)) s else set_state env RUDP_CLOSE s)"

definition process_keeplive :: "bstream \<Rightarrow> rudp_socket \<Rightarrow> rudp_socket" where
  "process_keeplive st s =
     (if sk_state s \<noteq> RUDP_CONNECTED then s
      else
        let s = s\<lparr>sk_keeplive_count := 0\<rparr>
        in send_keeplive_ack (timestamp (fst (keeplive_unpack st))) s)"

definition process_keeplive_ack :: "sock_env \<Rightarrow> bstream \<Rightarrow> rudp_socket \<Rightarrow> rudp_socket" where
  "process_keeplive_ack env st s =
     (if sk_state s \<noteq> RUDP_CONNECTED then s
      else
        let ts = timestamp (fst (keeplive_unpack st))
        in s\<lparr>sk_keeplive_count := 0,
             sk_ccc := ccc_set_rtt (measured_rtt (env_now env) ts) (sk_ccc s)\<rparr>)"

definition sock_process ::
    "sock_env \<Rightarrow> byte \<Rightarrow> u16 \<Rightarrow> bstream \<Rightarrow> inet_addr \<Rightarrow> rudp_socket \<Rightarrow> rudp_socket option" where
  "sock_process env m csum st addr s =
     (if csum \<noteq> sk_check_sum s then Some s
      else
        let s = s\<lparr>sk_keeplive_count := 0\<rparr>;
            s = (if sk_addr s \<noteq> addr
                 then (emit (Delete_peer_index (sk_remote_id s) (sk_addr s)) s)\<lparr>sk_addr := addr\<rparr> else s)
        in if m = RUDP_DATA then process_data env st s
        else if m = RUDP_DATA_ACK then Some (process_data_ack env st s)
        else if m = RUDP_DATA_NACK then Some (process_data_nack env st s)
        else if m = RUDP_SYN2 then Some (process_syn2 env st addr s)
        else if m = RUDP_SYN_ACK then Some (process_syn_ack env st s)
        else if m = RUDP_FIN then Some (process_fin env s)
        else if m = RUDP_FIN2 then Some (process_fin2 env s)
        else if m = RUDP_KEEPALIVE then Some (process_keeplive st s)
        else if m = RUDP_KEEPALIVE_ACK then Some (process_keeplive_ack env st s)
        else Some s)"

section \<open>What the pieces leave alone\<close>

text \<open>The control part of a socket: everything but the buffers, the clock fields and the output.\<close>

definition control :: "rudp_socket \<Rightarrow> (u16 \<times> 32 word \<times> 32 word \<times> bool) \<times> (u32 \<times> byte \<times> u16) \<times> u32 \<times> u16" where
  "control s = ((sk_state s, sk_id s, sk_remote_id s, sk_handler s), (sk_timer s, sk_send_count s, sk_check_sum s),
     sk_keeplive_count s, sk_timeout_count s)"

lemma control_sel:
  "control s = control t \<Longrightarrow> sk_state s = sk_state t \<and> sk_id s = sk_id t \<and> sk_remote_id s = sk_remote_id t
     \<and> sk_handler s = sk_handler t \<and> sk_timer s = sk_timer t \<and> sk_send_count s = sk_send_count t
     \<and> sk_check_sum s = sk_check_sum t
     \<and> sk_keeplive_count s = sk_keeplive_count t \<and> sk_timeout_count s = sk_timeout_count t"
  by (simp add: control_def)

lemma control_emit [simp]: "control (emit e s) = control s"
  by (simp add: control_def emit_def)

lemma control_udp [simp]: "control (sock_udp st s) = control s" "control ((sock_udp st ^^ n) s) = control s"
  by (simp add: sock_udp_def) (induction n, simp_all add: sock_udp_def)

lemma control_sends [simp]:
  "control (send_syn env s) = control s" "control (send_syn2 env r t s) = control s"
  "control (send_syn_ack r t s) = control s" "control (send_fin s) = control s"
  "control (send_fin2 s) = control s" "control (send_keeplive_ack t s) = control s"
  "control (send_keeplive t s) = control s"
  by (simp_all add: send_syn_def send_syn2_def send_syn_ack_def send_fin_def send_fin2_def
      send_keeplive_ack_def send_keeplive_def Let_def)
    (simp add: control_def sock_udp_def emit_def)

lemma control_fins [simp]: "control ((send_fin ^^ n) s) = control s"
  by (induction n) simp_all

lemma control_notify [simp]:
  "control (sock_on_write s) = control s" "control (sock_on_read s) = control s"
  "control (sock_on_exception s) = control s" "control (sock_send_ack q s) = control s"
  "control (sock_send_nack q ids s) = control s" "control (sock_send_data now q d s) = control s"
  by (simp_all add: sock_on_write_def sock_on_read_def sock_on_exception_def sock_send_ack_def
      sock_send_nack_def sock_send_data_def Let_def)
    (simp add: control_def)

lemma control_events [simp]:
  "control (fold (send_event_act now) ev s) = control s" "control (fold recv_event_act ev' s) = control s"
proof -
  have "control (send_event_act now e s) = control s" for e s by (cases e) simp_all
  then show "control (fold (send_event_act now) ev s) = control s" by (induction ev arbitrary: s) simp_all
  have "control (recv_event_act e s) = control s" for e s by (cases e) simp_all
  then show "control (fold recv_event_act ev' s) = control s" by (induction ev' arbitrary: s) simp_all
qed

lemma control_update [simp]:
  "control (s\<lparr>sk_send := b\<rparr>) = control s" "control (s\<lparr>sk_recv := r\<rparr>) = control s"
  "control (s\<lparr>sk_ccc := c\<rparr>) = control s" "control (s\<lparr>sk_heart_ts := t\<rparr>) = control s"
  "control (s\<lparr>sk_addr := a\<rparr>) = control s" "control (s\<lparr>sk_error := e\<rparr>) = control s"
  "control (s\<lparr>sk_index := i\<rparr>) = control s" "control (s\<lparr>sk_title := i\<rparr>) = control s"
  "control (s\<lparr>sk_keeplive_intnal := k\<rparr>) = control s"
  by (simp_all add: control_def)

lemma control_buffers [simp]:
  "control (with_send now f s) = control s" "control (with_recv g s) = control s"
  "control (take_ack env q s) = control s"
  by (simp_all add: with_send_def with_recv_def take_ack_def case_prod_beta)

text \<open>Output only grows.\<close>

definition outs :: "rudp_socket \<Rightarrow> rudp_socket \<Rightarrow> bool" where
  "outs s s' \<longleftrightarrow> (\<exists>es. sk_out s' = sk_out s @ es)"

lemma outs_trans: "outs s t \<Longrightarrow> outs t u \<Longrightarrow> outs s u"
  by (auto simp: outs_def)

lemma outs_set: "outs s s' \<Longrightarrow> e \<in> set (sk_out s) \<Longrightarrow> e \<in> set (sk_out s')"
  by (auto simp: outs_def)

section \<open>The state machine\<close>

lemma state_cancel [simp]: "sk_state (sock_cancel_timer s) = sk_state s"
  "sk_id (sock_cancel_timer s) = sk_id s" "sk_handler (sock_cancel_timer s) = sk_handler s"
  "sk_timer (sock_cancel_timer s) = 0" "sk_send_count (sock_cancel_timer s) = sk_send_count s"
  "sk_remote_id (sock_cancel_timer s) = sk_remote_id s" "sk_addr (sock_cancel_timer s) = sk_addr s"
  by (simp_all add: sock_cancel_timer_def emit_def)

lemma state_set_timer [simp]: "sk_state (sock_set_timer env d s) = sk_state s"
  "sk_id (sock_set_timer env d s) = sk_id s" "sk_handler (sock_set_timer env d s) = sk_handler s"
  "sk_send_count (sock_set_timer env d s) = sk_send_count s"
  by (simp_all add: sock_set_timer_def emit_def)

lemma state_reset [simp]: "sk_state (sock_reset env s) = RUDP_IDLE" "sk_id (sock_reset env s) = - 1"
  by (simp_all add: sock_reset_def Let_def)

lemma state_set_state:
  "sk_state (set_state env st s) =
     (if sk_state s \<ge> st then sk_state s else if st = RUDP_CLOSE then RUDP_IDLE else st)"
  by (simp add: set_state_def Let_def)

text \<open>A close frees the socket in the table.\<close>

definition freed :: "rudp_socket \<Rightarrow> rudp_socket \<Rightarrow> bool" where
  "freed s s' \<longleftrightarrow> (\<exists>r a. Free_socket (sk_id s) r a \<in> set (sk_out s'))"

lemma reset_out: "set (sk_out s) \<subseteq> set (sk_out (sock_reset env s))"
  by (auto simp: sock_reset_def Let_def sock_cancel_timer_def emit_def)

lemma set_state_close_freed:
  assumes "sk_state s < RUDP_CLOSE" shows "freed s (set_state env RUDP_CLOSE s)"
proof -
  let ?s = "sock_cancel_timer (s\<lparr>sk_state := RUDP_CLOSE, sk_send_count := 0\<rparr>)"
  have "Free_socket (sk_id s) (sk_remote_id s) (sk_addr s)
      \<in> set (sk_out (emit (Free_socket (sk_id ?s) (sk_remote_id ?s) (sk_addr ?s)) ?s))"
    by (simp add: emit_def)
  with reset_out have "Free_socket (sk_id s) (sk_remote_id s) (sk_addr s)
      \<in> set (sk_out (set_state env RUDP_CLOSE s))"
    using assms by (auto simp: set_state_def Let_def)
  then show ?thesis unfolding freed_def by blast
qed

datatype sock_op =
    S_open "32 word" | S_handler bool | S_check_sum u16 | S_bind byte byte | S_connect inet_addr
  | S_close | S_force_close | S_option "32 word" "32 word" | S_send "byte list" | S_recv "32 word"
  | S_register u32 | S_timeout u32 | S_heartbeat | S_message byte u16 bstream inet_addr
  | S_syn syn_packet inet_addr

fun sock_step :: "sock_env \<Rightarrow> sock_op \<Rightarrow> rudp_socket \<Rightarrow> rudp_socket option" where
  "sock_step env (S_open i) s = Some (sock_open env i s)"
| "sock_step env (S_handler h) s = Some (s\<lparr>sk_handler := h\<rparr>)"
| "sock_step env (S_check_sum c) s = Some (s\<lparr>sk_check_sum := c\<rparr>)"
| "sock_step env (S_bind i t) s = Some (fst (sock_bind i t s))"
| "sock_step env (S_connect a) s = Some (fst (sock_connect env a s))"
| "sock_step env S_close s = Some (sock_close env s)"
| "sock_step env S_force_close s = Some (sock_force_close env s)"
| "sock_step env (S_option op v) s = Some (fst (sock_setoption op v s))"
| "sock_step env (S_send d) s = Some (fst (sock_send env d s))"
| "sock_step env (S_recv n) s = Some (fst (sock_recv n s))"
| "sock_step env (S_register m) s = Some (sock_register_event m s)"
| "sock_step env (S_timeout t) s = Some (sock_handle_timeout env t s)"
| "sock_step env S_heartbeat s = Some (sock_heartbeat env s)"
| "sock_step env (S_message m c st a) s = sock_process env m c st a s"
| "sock_step env (S_syn syn a) s = Some (process_syn env syn a s)"

text \<open>The protocol's state machine: the moves that each call may make, staying aside.\<close>

fun conn_moves :: "sock_op \<Rightarrow> (u16 \<times> u16) list" where
  "conn_moves (S_connect a) = [(RUDP_IDLE, RUDP_CONNECTING)]"
| "conn_moves (S_syn syn a) = [(RUDP_IDLE, RUDP_CONNECTED), (RUDP_FIN_STATE, RUDP_IDLE), (RUDP_FIN2_STATE, RUDP_IDLE)]"
| "conn_moves S_close = [(RUDP_CONNECTING, RUDP_FIN_STATE), (RUDP_CONNECTED, RUDP_FIN_STATE), (RUDP_FIN2_STATE, RUDP_IDLE)]"
| "conn_moves S_force_close = [(RUDP_CONNECTING, RUDP_IDLE), (RUDP_CONNECTED, RUDP_IDLE), (RUDP_FIN2_STATE, RUDP_IDLE)]"
| "conn_moves (S_timeout t) = [(RUDP_CONNECTING, RUDP_FIN2_STATE), (RUDP_CONNECTING, RUDP_IDLE), (RUDP_FIN_STATE, RUDP_IDLE)]"
| "conn_moves S_heartbeat = [(RUDP_CONNECTED, RUDP_FIN2_STATE), (RUDP_CONNECTED, RUDP_IDLE)]"
| "conn_moves (S_message m c st a) =
     (if m = RUDP_SYN2
      then [(RUDP_CONNECTING, RUDP_CONNECTED), (RUDP_CONNECTING, RUDP_FIN2_STATE), (RUDP_CONNECTING, RUDP_IDLE)]
      else if m = RUDP_FIN
      then [(RUDP_CONNECTING, RUDP_FIN2_STATE), (RUDP_CONNECTED, RUDP_FIN2_STATE), (RUDP_CONNECTING, RUDP_IDLE),
            (RUDP_CONNECTED, RUDP_IDLE), (RUDP_FIN_STATE, RUDP_IDLE), (RUDP_FIN2_STATE, RUDP_IDLE)]
      else if m = RUDP_FIN2
      then [(RUDP_CONNECTING, RUDP_IDLE), (RUDP_CONNECTED, RUDP_IDLE), (RUDP_FIN_STATE, RUDP_IDLE), (RUDP_FIN2_STATE, RUDP_IDLE)]
      else [])"
| "conn_moves _ = []"

definition sock_state_ok :: "rudp_socket \<Rightarrow> bool" where
  "sock_state_ok s \<longleftrightarrow> sk_state s \<in> {RUDP_IDLE, RUDP_CONNECTING, RUDP_CONNECTED, RUDP_FIN_STATE, RUDP_FIN2_STATE}"

text \<open>One step: the state stays or makes an allowed move, and a move to idle frees the socket.\<close>

definition step_ok :: "sock_op \<Rightarrow> rudp_socket \<Rightarrow> rudp_socket \<Rightarrow> bool" where
  "step_ok op s s' \<longleftrightarrow>
     sk_state s' = sk_state s
     \<or> (sk_state s, sk_state s') \<in> set (conn_moves op) \<and> (sk_state s' = RUDP_IDLE \<longrightarrow> freed s s')"

lemma step_ok_control: "control s' = control s \<Longrightarrow> step_ok op s s'"
  by (simp add: step_ok_def control_def)

lemma states_distinct [simp]:
  "RUDP_CONNECTING \<noteq> RUDP_IDLE" "RUDP_CONNECTED \<noteq> RUDP_IDLE" "RUDP_FIN_STATE \<noteq> RUDP_IDLE" "RUDP_FIN2_STATE \<noteq> RUDP_IDLE"
  "RUDP_CONNECTED \<noteq> RUDP_CONNECTING" "RUDP_FIN_STATE \<noteq> RUDP_CONNECTING" "RUDP_FIN2_STATE \<noteq> RUDP_CONNECTING"
  "RUDP_FIN_STATE \<noteq> RUDP_CONNECTED" "RUDP_FIN2_STATE \<noteq> RUDP_CONNECTED" "RUDP_FIN2_STATE \<noteq> RUDP_FIN_STATE"
  "RUDP_CLOSE \<noteq> RUDP_IDLE" "RUDP_CLOSE \<noteq> RUDP_CONNECTED" "RUDP_CLOSE \<noteq> RUDP_CONNECTING" "RUDP_CLOSE \<noteq> RUDP_FIN_STATE"
  "RUDP_CLOSE \<noteq> RUDP_FIN2_STATE"
  by (simp_all add: rudp_states)

declare states_distinct [symmetric, simp]

lemma freed_emit: "freed s s' \<Longrightarrow> freed s (emit e s')"
  by (auto simp: freed_def emit_def)

lemma freed_control: "control s = control t \<Longrightarrow> freed s s' = freed t s'"
  by (simp add: freed_def control_def)


text \<open>The ways a handler changes the state, each as a move.\<close>

lemma move_close:
  assumes "control t = control s" and "(sk_state s, RUDP_IDLE) \<in> set (conn_moves op) \<or> sk_state s = RUDP_IDLE" and "sock_state_ok s"
  shows "step_ok op s (set_state env RUDP_CLOSE t)"
proof -
  have "sk_state t < RUDP_CLOSE" using assms control_sel [OF assms(1)] by (auto simp: sock_state_ok_def rudp_states)
  from set_state_close_freed [OF this] have "freed s (set_state env RUDP_CLOSE t)"
    using freed_control [OF assms(1)] by simp
  moreover have "sk_state (set_state env RUDP_CLOSE t) = RUDP_IDLE"
    using \<open>sk_state t < RUDP_CLOSE\<close> by (simp add: state_set_state not_le [THEN iffD2])
  ultimately show ?thesis using assms(2) by (auto simp: step_ok_def)
qed

lemma state_step [simp]: "sk_state t < st \<Longrightarrow> st \<noteq> RUDP_CLOSE \<Longrightarrow> sk_state (set_state env st t) = st"
  by (simp add: state_set_state not_le [THEN iffD2])

lemma id_step [simp]: "st \<noteq> RUDP_CLOSE \<Longrightarrow> sk_id (set_state env st t) = sk_id t"
  "st \<noteq> RUDP_CLOSE \<Longrightarrow> sk_handler (set_state env st t) = sk_handler t"
  by (simp_all add: set_state_def Let_def)

lemma move_close2:
  assumes "control t = control s" and "sk_state s < st" "st < RUDP_CLOSE"
    and "(sk_state s, RUDP_IDLE) \<in> set (conn_moves op)"
  shows "step_ok op s (set_state env RUDP_CLOSE (set_state env st t))"
proof -
  have c: "st \<noteq> RUDP_CLOSE" "sk_state t = sk_state s" "sk_id t = sk_id s"
    using assms control_sel [OF assms(1)] by auto
  have l: "sk_state (set_state env st t) < RUDP_CLOSE" using c assms(2,3) by simp
  from set_state_close_freed [OF this] have "freed s (set_state env RUDP_CLOSE (set_state env st t))"
    using c by (simp add: freed_def)
  moreover have "sk_state (set_state env RUDP_CLOSE (set_state env st t)) = RUDP_IDLE"
    using l by (subst state_set_state) (simp add: not_le [THEN iffD2])
  ultimately show ?thesis using assms(4) by (simp add: step_ok_def)
qed

lemma state_emit [simp]: "sk_state (emit e s) = sk_state s" "sk_id (emit e s) = sk_id s"
  "sk_handler (emit e s) = sk_handler s"
  by (simp_all add: emit_def)

lemma move_to:
  assumes "sk_state s' = st" and "(sk_state s, st) \<in> set (conn_moves op)" and "st \<noteq> RUDP_IDLE"
  shows "step_ok op s s'"
  using assms by (simp add: step_ok_def)

lemma control_state: "control s = control t \<Longrightarrow> sk_state s = sk_state t"
  by (simp add: control_def)

lemma state_sends [simp]:
  "sk_state (send_syn env s) = sk_state s" "sk_state (send_syn2 env r t s) = sk_state s"
  "sk_state (send_syn_ack r t s) = sk_state s" "sk_state (send_fin s) = sk_state s"
  "sk_state (send_fin2 s) = sk_state s" "sk_state (send_keeplive_ack t s) = sk_state s"
  "sk_state (send_keeplive t s) = sk_state s" "sk_handler (send_fin2 s) = sk_handler s"
  "sk_state (with_send now f s) = sk_state s" "sk_state (with_recv g s) = sk_state s"
  "sk_state (take_ack env q s) = sk_state s"
  "sk_state (fold recv_event_act ev' s) = sk_state s"
  using control_sel [OF control_sends(5) [of s]]
  by (auto intro!: control_state)

lemma states_less [simp]: "RUDP_IDLE < RUDP_CONNECTING" "RUDP_IDLE < RUDP_CONNECTED"
  "RUDP_CONNECTING < RUDP_CONNECTED" "RUDP_CONNECTING < RUDP_FIN_STATE" "RUDP_CONNECTED < RUDP_FIN_STATE"
  "RUDP_CONNECTING < RUDP_FIN2_STATE" "RUDP_CONNECTED < RUDP_FIN2_STATE" "RUDP_FIN2_STATE < RUDP_CLOSE"
  by (simp_all add: rudp_states)

lemma connect_step: "step_ok (S_connect a) s (fst (sock_connect env a s))"
proof (cases "sk_state s = RUDP_IDLE")
  case True
  have "sk_state (fst (sock_connect env a s)) = sk_state s \<or> sk_state (fst (sock_connect env a s)) = RUDP_CONNECTING"
    using True by (auto simp: sock_connect_def Let_def)
  with True show ?thesis by (auto simp: step_ok_def)
qed (simp add: sock_connect_def step_ok_def)

lemma close_step:
  assumes "sock_state_ok s" shows "step_ok S_close s (sock_close env s)"
proof -
  consider (a) "sk_state s = RUDP_CONNECTING \<or> sk_state s = RUDP_CONNECTED" | (b) "sk_state s = RUDP_FIN2_STATE"
    | (c) "sk_state s \<noteq> RUDP_CONNECTING" "sk_state s \<noteq> RUDP_CONNECTED" "sk_state s \<noteq> RUDP_FIN2_STATE" by blast
  then show ?thesis
  proof cases
    case a
    then have "sk_state (sock_close env s) = RUDP_FIN_STATE" by (auto simp: sock_close_def Let_def)
    then show ?thesis using a by (auto intro!: move_to)
  next
    case b
    then show ?thesis using assms by (simp add: sock_close_def move_close)
  qed (simp add: sock_close_def step_ok_def)
qed

lemma force_close_step:
  assumes "sock_state_ok s" shows "step_ok S_force_close s (sock_force_close env s)"
proof -
  have "step_ok S_force_close s (set_state env RUDP_CLOSE ((send_fin ^^ 6) s))"
    if "sk_state s = RUDP_CONNECTING \<or> sk_state s = RUDP_CONNECTED"
    using that assms by (intro move_close) auto
  moreover have "step_ok S_force_close s (set_state env RUDP_CLOSE s)" if "sk_state s = RUDP_FIN2_STATE"
    using that assms by (intro move_close) auto
  ultimately show ?thesis by (simp add: sock_force_close_def step_ok_control)
qed

lemma timeout_step:
  assumes ok: "sock_state_ok s" shows "step_ok (S_timeout t) s (sock_handle_timeout env t s)"
proof -
  let ?t = "s\<lparr>sk_timer := 0\<rparr>"
  consider (x) "sk_timer s \<noteq> t" | (a) "sk_timer s = t" "sk_state s = RUDP_CONNECTING" | (b) "sk_timer s = t" "sk_state s = RUDP_FIN_STATE"
    | (c) "sk_state s \<noteq> RUDP_CONNECTING" "sk_state s \<noteq> RUDP_FIN_STATE" by blast
  then show ?thesis
  proof cases
    case a
    show ?thesis
    proof (cases "sk_send_count s < SYN_MAX_COUNT")
      case True
      with a show ?thesis by (simp add: sock_handle_timeout_def Let_def step_ok_def)
    next
      case False
      show ?thesis
      proof (cases "sk_handler s")
        case True
        with a False show ?thesis
          by (intro move_to [of _ RUDP_FIN2_STATE]) (simp_all add: sock_handle_timeout_def Let_def)
      next
        case h: False
        have "step_ok (S_timeout t) ?t (set_state env RUDP_CLOSE (set_state env RUDP_FIN2_STATE ?t))"
          using a by (intro move_close2) simp_all
        with a False h show ?thesis
          by (simp add: sock_handle_timeout_def Let_def step_ok_def freed_def)
      qed
    qed
  next
    case b
    show ?thesis
    proof (cases "sk_send_count s < FIN_MAX_COUNT")
      case True
      with b show ?thesis by (simp add: sock_handle_timeout_def Let_def step_ok_def)
    next
      case False
      have "step_ok (S_timeout t) ?t (set_state env RUDP_CLOSE ?t)"
        using b ok by (intro move_close) (simp_all add: sock_state_ok_def)
      with b False show ?thesis
        by (simp add: sock_handle_timeout_def Let_def step_ok_def freed_def)
    qed
  qed (simp_all add: sock_handle_timeout_def Let_def step_ok_def)
qed

lemma heartbeat_step:
  assumes ok: "sock_state_ok s" shows "step_ok S_heartbeat s (sock_heartbeat env s)"
proof (cases "sk_state s = RUDP_CONNECTED")
  case c: True
  let ?due = "env_now env > sk_heart_ts s + ucast (sk_keeplive_intnal s)"
  let ?t = "s\<lparr>sk_keeplive_count := sk_keeplive_count s + 1\<rparr>"
  show ?thesis
  proof (cases "?due \<and> sk_keeplive_count s + 1 > ucast (sk_timeout_count s)")
    case True
    show ?thesis
    proof (cases "sk_handler s")
      case h: True
      then show ?thesis using c True
        by (intro move_to [of _ RUDP_FIN2_STATE]) (simp_all add: sock_heartbeat_def Let_def)
    next
      case h: False
      have "step_ok S_heartbeat ?t (set_state env RUDP_CLOSE ?t)"
        using c ok by (intro move_close) (simp_all add: sock_state_ok_def)
      with c True h show ?thesis by (simp add: sock_heartbeat_def Let_def step_ok_def freed_def)
    qed
  next
    case False
    with c have "sk_state (sock_heartbeat env s) = sk_state s"
      by (cases ?due) (simp_all add: sock_heartbeat_def Let_def)
    then show ?thesis by (simp add: step_ok_def)
  qed
qed (simp add: sock_heartbeat_def step_ok_def)


lemma syn_step:
  assumes "sock_state_ok s" shows "step_ok (S_syn syn a) s (process_syn env syn a s)"
proof -
  consider (a) "sk_state s = RUDP_IDLE \<and> sk_id s \<noteq> INVALID_RUDP_HANDLE"
    | (b) "sk_state s = RUDP_CONNECTING \<or> sk_state s = RUDP_CONNECTED"
    | (c) "\<not> (sk_state s = RUDP_IDLE \<and> sk_id s \<noteq> INVALID_RUDP_HANDLE)"
        "\<not> (sk_state s = RUDP_CONNECTING \<or> sk_state s = RUDP_CONNECTED)" by blast
  then show ?thesis
  proof cases
    case a
    then show ?thesis
      by (intro move_to [of _ RUDP_CONNECTED]) (simp_all add: process_syn_def Let_def)
  next
    case b
    then have "process_syn env syn a s = send_syn2 env 0 (syn_local_ts syn) s" by (auto simp: process_syn_def)
    then show ?thesis by (simp add: step_ok_control)
  next
    case c
    then have "step_ok (S_syn syn a) s (set_state env RUDP_CLOSE (send_syn2 env ERROR_SYN_STATE (syn_local_ts syn) s))"
      using assms by (intro move_close) (auto simp: sock_state_ok_def)
    then show ?thesis unfolding process_syn_def if_not_P [OF c(1)] if_not_P [OF c(2)] .
  qed
qed

lemma process_states:
  assumes ok: "sock_state_ok s"
  shows "step_ok (S_message RUDP_SYN2 c st a) s (process_syn2 env st a' s)"
    and "step_ok (S_message RUDP_FIN c st a) s (process_fin env s)"
    and "step_ok (S_message RUDP_FIN2 c st a) s (process_fin2 env s)"
proof -
  have m: "RUDP_FIN \<noteq> RUDP_SYN2" "RUDP_FIN2 \<noteq> RUDP_SYN2" "RUDP_FIN2 \<noteq> RUDP_FIN" by (simp_all add: rudp_message_defs)
  show "step_ok (S_message RUDP_SYN2 c st a) s (process_syn2 env st a' s)"
  proof (cases "sk_state s = RUDP_CONNECTING")
    case c: True
    show ?thesis
    proof (cases "syn2_result (fst (syn2_unpack st)) \<noteq> 0")
      case r: True
      show ?thesis
      proof (cases "sk_handler s")
        case True
        with c r show ?thesis
          by (intro move_to [of _ RUDP_FIN2_STATE]) (simp_all add: process_syn2_def Let_def)
      next
        case False
        with c r ok show ?thesis by (simp add: process_syn2_def Let_def move_close)
      qed
    next
      case False
      with c show ?thesis
        by (intro move_to [of _ RUDP_CONNECTED]) (simp_all add: process_syn2_def Let_def)
    qed
  qed (simp add: process_syn2_def Let_def step_ok_def)
  show "step_ok (S_message RUDP_FIN c st a) s (process_fin env s)"
  proof (cases "sk_state s = RUDP_CONNECTING \<or> sk_state s = RUDP_CONNECTED")
    case c: True
    show ?thesis
    proof (cases "sk_handler s")
      case True
      have "sk_state (process_fin env s) = RUDP_FIN2_STATE"
        using c True by (auto simp: process_fin_def Let_def)
      then show ?thesis using c m by (intro move_to) auto
    next
      case False
      have "step_ok (S_message RUDP_FIN c st a) s (set_state env RUDP_CLOSE (set_state env RUDP_FIN2_STATE (send_fin2 s)))"
        using c m by (intro move_close2) auto
      with c False show ?thesis by (auto simp: process_fin_def Let_def)
    qed
  next
    case False
    then have "step_ok (S_message RUDP_FIN c st a) s (set_state env RUDP_CLOSE (send_fin2 s))"
      using ok m by (intro move_close) (auto simp: sock_state_ok_def)
    with False show ?thesis by (simp add: process_fin_def Let_def)
  qed
  show "step_ok (S_message RUDP_FIN2 c st a) s (process_fin2 env s)"
  proof (cases "sk_handler s")
    case False
    have "step_ok (S_message RUDP_FIN2 c st a) s (set_state env RUDP_CLOSE s)"
      using ok m by (intro move_close) (auto simp: sock_state_ok_def)
    with False show ?thesis by (simp add: process_fin2_def)
  qed (simp add: process_fin2_def step_ok_control)
qed

lemma process_other_states:
  "process_data env st s = Some s' \<Longrightarrow> sk_state s' = sk_state s"
  "sk_state (process_data_ack env st s) = sk_state s" "sk_state (process_data_nack env st s) = sk_state s"
  "sk_state (process_syn_ack env st s) = sk_state s" "sk_state (process_keeplive st s) = sk_state s"
  "sk_state (process_keeplive_ack env st s) = sk_state s"
  by (auto simp: process_data_def process_data_ack_def process_data_nack_def process_syn_ack_def
      process_keeplive_def process_keeplive_ack_def Let_def case_prod_beta split: if_splits option.splits)

lemma step_ok_change:
  assumes "step_ok op t s'" and "sk_state t = sk_state s" "sk_id t = sk_id s" shows "step_ok op s s'"
  using assms by (simp add: step_ok_def freed_def)

lemma message_step:
  assumes ok: "sock_state_ok s" and "sock_process env m c st a s = Some s'"
  shows "step_ok (S_message m c st a) s s'"
proof (cases "c = sk_check_sum s")
  case True
  let ?s = "s\<lparr>sk_keeplive_count := 0\<rparr>"
  let ?t = "if sk_addr ?s \<noteq> a
                 then (emit (Delete_peer_index (sk_remote_id ?s) (sk_addr ?s)) ?s)\<lparr>sk_addr := a\<rparr> else ?s"
  have t: "sk_state ?t = sk_state s" "sk_id ?t = sk_id s" "sock_state_ok ?t"
    using ok by (simp_all add: sock_state_ok_def)
  define t where "t = ?t"
  have e: "(if m = RUDP_DATA then process_data env st t
        else if m = RUDP_DATA_ACK then Some (process_data_ack env st t)
        else if m = RUDP_DATA_NACK then Some (process_data_nack env st t)
        else if m = RUDP_SYN2 then Some (process_syn2 env st a t)
        else if m = RUDP_SYN_ACK then Some (process_syn_ack env st t)
        else if m = RUDP_FIN then Some (process_fin env t)
        else if m = RUDP_FIN2 then Some (process_fin2 env t)
        else if m = RUDP_KEEPALIVE then Some (process_keeplive st t)
        else if m = RUDP_KEEPALIVE_ACK then Some (process_keeplive_ack env st t)
        else Some t) = Some s'"
    using assms(2) True unfolding sock_process_def Let_def t_def by simp
  have "(m = RUDP_SYN2 \<and> s' = process_syn2 env st a t) \<or> (m = RUDP_FIN \<and> s' = process_fin env t)
      \<or> (m = RUDP_FIN2 \<and> s' = process_fin2 env t) \<or> sk_state s' = sk_state t"
  proof (cases "m = RUDP_DATA")
    case True
    then show ?thesis using e process_other_states(1) [of env st t s'] by simp
  next
    case False
    then show ?thesis using e process_other_states(2-)
      by (simp only: if_False option.inject split: if_splits) blast+
  qed
  then have "step_ok (S_message m c st a) t s'"
  proof (elim disjE conjE)
    assume m: "m = RUDP_SYN2" and s': "s' = process_syn2 env st a t"
    show ?thesis unfolding m s' by (rule process_states(1) [OF t(3), folded t_def])
  next
    assume m: "m = RUDP_FIN" and s': "s' = process_fin env t"
    show ?thesis unfolding m s' by (rule process_states(2) [OF t(3), folded t_def])
  next
    assume m: "m = RUDP_FIN2" and s': "s' = process_fin2 env t"
    show ?thesis unfolding m s' by (rule process_states(3) [OF t(3), folded t_def])
  next
    assume "sk_state s' = sk_state t"
    then show ?thesis by (simp add: step_ok_def)
  qed
  then show ?thesis by (rule step_ok_change) (use t in \<open>simp_all add: t_def\<close>)
next
  case False
  then show ?thesis using assms(2) by (simp add: sock_process_def step_ok_def)
qed


section \<open>A fresh socket\<close>

text \<open>The constructor; the buffers construct themselves with their \<open>reset\<close>.\<close>

definition sock_new :: "sock_env \<Rightarrow> rudp_socket" where
  "sock_new env =
     \<lparr>sk_id = - 1, sk_index = INVALID_ADAPTER_INDEX, sk_title = 0, sk_check_sum = 0,
      sk_remote_id = INVALID_RUDP_HANDLE, sk_addr = (0, 0), sk_ccc = ccc_reset,
      sk_send = send_reset (env_random env) (env_now env), sk_recv = recv_reset (env_now env),
      sk_heart_ts = env_now env, sk_keeplive_intnal = of_nat DEFAULT_KEEPLIVE, sk_keeplive_count = 0,
      sk_timeout_count = DEFAULT_TIMEOUT_COUNT, sk_handler = False, sk_state = RUDP_IDLE,
      sk_error = RUDP_SUCCESS, sk_timer = 0, sk_send_count = 0, sk_out = []\<rparr>"

definition env0 :: sock_env where
  "env0 = \<lparr>env_now = 1000, env_timer = 77, env_random = 5\<rparr>"

definition idle_sock :: "32 word \<Rightarrow> rudp_socket" where
  "idle_sock i = fst (sock_bind 0 0 (sock_open env0 i (sock_new env0)))"

lemma idle_sock_sel:
  "i \<noteq> - 1 \<Longrightarrow> sk_state (idle_sock i) = RUDP_IDLE" "i \<noteq> - 1 \<Longrightarrow> sk_id (idle_sock i) = i"
  "i \<noteq> - 1 \<Longrightarrow> sk_index (idle_sock i) = 0" "i \<noteq> - 1 \<Longrightarrow> sk_title (idle_sock i) = 0"
  "i \<noteq> - 1 \<Longrightarrow> sk_remote_id (idle_sock i) = INVALID_RUDP_HANDLE"
  "i \<noteq> - 1 \<Longrightarrow> sk_send (idle_sock i) = send_reset 5 1000" "i \<noteq> - 1 \<Longrightarrow> \<not> sk_handler (idle_sock i)"
  "i \<noteq> - 1 \<Longrightarrow> sk_timer (idle_sock i) = 0" "i \<noteq> - 1 \<Longrightarrow> sk_out (idle_sock i) = []"
  "i \<noteq> - 1 \<Longrightarrow> sk_recv (idle_sock i) = recv_reset 1000"
  by (simp_all add: idle_sock_def sock_bind_def sock_open_def sock_reset_def sock_new_def env0_def
      sock_cancel_timer_def Let_def)


section \<open>Bounded retries\<close>

text \<open>The timer of the socket fires, again and again, and nothing arrives.\<close>

fun timeouts :: "sock_env list \<Rightarrow> rudp_socket \<Rightarrow> rudp_socket" where
  "timeouts [] s = s"
| "timeouts (env # envs) s = timeouts envs (sock_handle_timeout env (sk_timer s) s)"

fun is_udp :: "sock_event \<Rightarrow> bool" where
  "is_udp (Udp i d a) = True"
| "is_udp _ = False"

definition packets :: "rudp_socket \<Rightarrow> nat" where
  "packets s = length (filter is_udp (sk_out s))"

lemma packets_emit: "packets (emit e s) = packets s + (if is_udp e then 1 else 0)"
  by (simp add: packets_def emit_def)

lemma packets_udp [simp]: "packets (sock_udp st s) = packets s + 1"
  by (simp add: sock_udp_def packets_emit)

lemma packets_update [simp]:
  "packets (s\<lparr>sk_timer := t\<rparr>) = packets s" "packets (s\<lparr>sk_send_count := n\<rparr>) = packets s"
  "packets (s\<lparr>sk_ccc := c\<rparr>) = packets s" "packets (s\<lparr>sk_addr := a, sk_check_sum := k\<rparr>) = packets s"
  "packets (s\<lparr>sk_state := st\<rparr>) = packets s"
  by (simp_all add: packets_def)

lemma packets_timer [simp]: "packets (sock_set_timer env d s) = packets s" "packets (sock_cancel_timer s) = packets s"
  by (simp_all add: sock_set_timer_def sock_cancel_timer_def packets_emit)

lemma packets_sends [simp]: "packets (send_syn env s) = packets s + 1" "packets (send_fin s) = packets s + 1"
  by (simp_all add: send_syn_def send_fin_def Let_def)

lemma packets_set_state [simp]: "st \<noteq> RUDP_CLOSE \<Longrightarrow> packets (set_state env st s) = packets s"
  by (simp add: set_state_def Let_def)

lemma set_state_count [simp]:
  "sk_state s < st \<Longrightarrow> st \<noteq> RUDP_CLOSE \<Longrightarrow> sk_send_count (set_state env st s) = 0"
  by (simp add: set_state_def Let_def not_le [THEN iffD2])

lemma count_step: "unat (n :: byte) < 255 \<Longrightarrow> unat (n + 1) = unat n + 1"
  by (simp add: unat_word_ariths(1))

lemma sends_sel [simp]:
  "sk_send_count (send_syn env s) = sk_send_count s" "sk_send_count (send_fin s) = sk_send_count s"
  "sk_handler (send_syn env s) = sk_handler s" "sk_handler (send_fin s) = sk_handler s"
  "sk_id (send_syn env s) = sk_id s" "sk_id (send_fin s) = sk_id s"
  using control_sel [OF control_sends(1) [of env s]] control_sel [OF control_sends(4) [of s]] by simp_all

lemma syn_retry:
  assumes "sk_state s = RUDP_CONNECTING" and "unat (sk_send_count s) + length envs \<le> 20"
  shows "sk_state (timeouts envs s) = RUDP_CONNECTING
    \<and> unat (sk_send_count (timeouts envs s)) = unat (sk_send_count s) + length envs
    \<and> packets (timeouts envs s) = packets s + length envs
    \<and> sk_handler (timeouts envs s) = sk_handler s \<and> sk_id (timeouts envs s) = sk_id s"
  using assms
proof (induction envs arbitrary: s)
  case (Cons env envs)
  let ?s = "sock_handle_timeout env (sk_timer s) s"
  have c: "sk_send_count s < SYN_MAX_COUNT" "unat (sk_send_count s + 1) = unat (sk_send_count s) + 1"
    using Cons(3) by (simp_all add: SYN_MAX_COUNT_def word_less_nat_alt count_step)
  then have "sk_state ?s = RUDP_CONNECTING" "unat (sk_send_count ?s) = unat (sk_send_count s) + 1"
    "packets ?s = packets s + 1" "sk_handler ?s = sk_handler s" "sk_id ?s = sk_id s"
    using Cons(2) by (simp_all add: sock_handle_timeout_def Let_def)
  with Cons(1) [of ?s] Cons(3) show ?case by simp
qed simp

lemma fin_retry:
  assumes "sk_state s = RUDP_FIN_STATE" and "unat (sk_send_count s) + length envs \<le> 8"
  shows "sk_state (timeouts envs s) = RUDP_FIN_STATE
    \<and> unat (sk_send_count (timeouts envs s)) = unat (sk_send_count s) + length envs
    \<and> packets (timeouts envs s) = packets s + length envs \<and> sk_id (timeouts envs s) = sk_id s"
  using assms
proof (induction envs arbitrary: s)
  case (Cons env envs)
  let ?s = "sock_handle_timeout env (sk_timer s) s"
  have c: "sk_send_count s < FIN_MAX_COUNT" "unat (sk_send_count s + 1) = unat (sk_send_count s) + 1"
    using Cons(3) by (simp_all add: FIN_MAX_COUNT_def word_less_nat_alt count_step)
  then have "sk_state ?s = RUDP_FIN_STATE" "unat (sk_send_count ?s) = unat (sk_send_count s) + 1"
    "packets ?s = packets s + 1" "sk_id ?s = sk_id s"
    using Cons(2) by (simp_all add: sock_handle_timeout_def Let_def)
  with Cons(1) [of ?s] Cons(3) show ?case by simp
qed simp

lemma timeouts_snoc: "timeouts (envs @ [env]) s = sock_handle_timeout env (sk_timer (timeouts envs s)) (timeouts envs s)"
  by (induction envs arbitrary: s) simp_all





section \<open>Loss of the peer\<close>

text \<open>The heartbeat of the socket table, again and again, and nothing arrives.\<close>

fun heartbeats :: "sock_env list \<Rightarrow> rudp_socket \<Rightarrow> rudp_socket" where
  "heartbeats [] s = s"
| "heartbeats (env # envs) s = heartbeats envs (sock_heartbeat env s)"

text \<open>The times are more than the keep-alive interval apart.\<close>

fun spaced :: "u64 \<Rightarrow> u64 \<Rightarrow> sock_env list \<Rightarrow> bool" where
  "spaced ts k [] = True"
| "spaced ts k (env # envs) = (env_now env > ts + k \<and> spaced (env_now env) k envs)"

definition beat_part :: "rudp_socket \<Rightarrow> u64 \<times> u16" where
  "beat_part s = (sk_heart_ts s, sk_keeplive_intnal s)"

lemma beat_part_udp [simp]: "beat_part (sock_udp st s) = beat_part s"
  by (simp add: sock_udp_def beat_part_def emit_def)

lemma beat_part_events [simp]:
  "beat_part (fold (send_event_act now) ev s) = beat_part s" "beat_part (fold recv_event_act ev' s) = beat_part s"
proof -
  have u: "beat_part (s\<lparr>sk_recv := r\<rparr>) = beat_part s" "beat_part (emit x s) = beat_part s" for s r x
    by (simp_all add: beat_part_def emit_def)
  have "beat_part (send_event_act now e s) = beat_part s" for e s
    by (cases e) (simp_all add: sock_send_data_def sock_on_write_def Let_def u)
  then show "beat_part (fold (send_event_act now) ev s) = beat_part s" by (induction ev arbitrary: s) simp_all
  have "beat_part (recv_event_act e s) = beat_part s" for e s
    by (cases e) (simp_all add: sock_on_read_def sock_on_exception_def sock_send_ack_def sock_send_nack_def u)
  then show "beat_part (fold recv_event_act ev' s) = beat_part s" by (induction ev' arbitrary: s) simp_all
qed

lemma beat_part_update [simp]:
  "beat_part (s\<lparr>sk_send := b\<rparr>) = beat_part s" "beat_part (s\<lparr>sk_recv := r\<rparr>) = beat_part s"
  "beat_part (s\<lparr>sk_ccc := c\<rparr>) = beat_part s" "beat_part (s\<lparr>sk_keeplive_count := n\<rparr>) = beat_part s"
  by (simp_all add: beat_part_def)

lemma beat_part_buffers [simp]: "beat_part (with_send now f s) = beat_part s" "beat_part (with_recv g s) = beat_part s"
  by (simp_all add: with_send_def with_recv_def case_prod_beta)

lemma heartbeat_alive:
  assumes "sk_state s = RUDP_CONNECTED" and "env_now env > sk_heart_ts s + ucast (sk_keeplive_intnal s)"
    and "unat (sk_keeplive_count s) < unat (sk_timeout_count s)"
  shows "sk_state (sock_heartbeat env s) = RUDP_CONNECTED \<and> sk_heart_ts (sock_heartbeat env s) = env_now env
    \<and> sk_keeplive_intnal (sock_heartbeat env s) = sk_keeplive_intnal s
    \<and> unat (sk_keeplive_count (sock_heartbeat env s)) = unat (sk_keeplive_count s) + 1
    \<and> sk_timeout_count (sock_heartbeat env s) = sk_timeout_count s
    \<and> sk_id (sock_heartbeat env s) = sk_id s \<and> sk_handler (sock_heartbeat env s) = sk_handler s"
proof -
  let ?s = "s\<lparr>sk_keeplive_count := sk_keeplive_count s + 1\<rparr>"
  have l: "unat (sk_timeout_count s) < 65536" by (rule unat_u16_less)
  have c: "unat (sk_keeplive_count s + 1) = unat (sk_keeplive_count s) + 1"
    using assms(3) l by (simp add: unat_word_ariths(1))
  have n: "\<not> sk_keeplive_count s + 1 > ucast (sk_timeout_count s)"
    unfolding word_less_nat_alt c using assms(3) l by (simp add: unsigned_ucast_eq nat_bits)
  define t where "t = send_keeplive (env_now env) ?s"
  define u where "u = with_recv (recv_on_timer (env_now env) (rtt_var (ccc_on_timer (env_now env) (sk_ccc t))))
      (t\<lparr>sk_ccc := ccc_on_timer (env_now env) (sk_ccc t)\<rparr>)"
  have e: "sock_heartbeat env s = with_send (env_now env) (send_on_timer (env_now env)) u"
    using assms(1,2) n by (simp add: sock_heartbeat_def Let_def t_def u_def)
  have ct: "control t = control ?s" by (simp add: t_def)
  have bt: "beat_part t = (env_now env, sk_keeplive_intnal s)"
    by (simp add: t_def send_keeplive_def beat_part_def sock_udp_def emit_def)
  have "control (sock_heartbeat env s) = control ?s" using ct by (simp add: e u_def)
  moreover have "beat_part (sock_heartbeat env s) = (env_now env, sk_keeplive_intnal s)"
    using bt by (simp add: e u_def)
  ultimately show ?thesis using control_sel [of "sock_heartbeat env s" ?s] assms(1) c
    by (simp add: beat_part_def)
qed

lemma heartbeats_alive:
  assumes "sk_state s = RUDP_CONNECTED" and "spaced (sk_heart_ts s) (ucast (sk_keeplive_intnal s)) envs"
    and "unat (sk_keeplive_count s) + length envs \<le> unat (sk_timeout_count s)"
  shows "sk_state (heartbeats envs s) = RUDP_CONNECTED
    \<and> sk_heart_ts (heartbeats envs s) = (if envs = [] then sk_heart_ts s else env_now (last envs))
    \<and> sk_keeplive_intnal (heartbeats envs s) = sk_keeplive_intnal s
    \<and> unat (sk_keeplive_count (heartbeats envs s)) = unat (sk_keeplive_count s) + length envs
    \<and> sk_timeout_count (heartbeats envs s) = sk_timeout_count s
    \<and> sk_id (heartbeats envs s) = sk_id s \<and> sk_handler (heartbeats envs s) = sk_handler s"
  using assms
proof (induction envs arbitrary: s)
  case (Cons env envs)
  have h: "env_now env > sk_heart_ts s + ucast (sk_keeplive_intnal s)"
    "unat (sk_keeplive_count s) < unat (sk_timeout_count s)" using Cons(3,4) by simp_all
  note a = heartbeat_alive [OF Cons(2) h]
  have "spaced (sk_heart_ts (sock_heartbeat env s)) (ucast (sk_keeplive_intnal (sock_heartbeat env s))) envs"
    using a Cons(3) by simp
  with Cons(1) [of "sock_heartbeat env s"] a Cons(4) show ?case by simp
qed simp

lemma heartbeats_snoc: "heartbeats (envs @ [env]) s = sock_heartbeat env (heartbeats envs s)"
  by (induction envs arbitrary: s) simp_all

lemma spaced_snoc:
  "spaced ts k (envs @ [env]) \<longleftrightarrow> spaced ts k envs \<and> env_now env > (if envs = [] then ts else env_now (last envs)) + k"
  by (induction envs arbitrary: ts) auto

lemma spaced_take: "spaced ts k envs \<Longrightarrow> spaced ts k (take n envs)"
proof (induction envs arbitrary: ts n)
  case (Cons env envs)
  then show ?case by (cases n) simp_all
qed simp

text \<open>
  A dead peer is noticed. While nothing arrives on a connected socket, it stays connected for
  \<open>timeout_count\<close> keep-alive intervals and no longer: the next one tells the event handler and
  waits for its close, or frees the socket when there is none.
\<close>

theorem rudp_dead_peer:
  assumes "sk_state s = RUDP_CONNECTED" and "sk_keeplive_count s = 0"
    and "length envs = unat (sk_timeout_count s)"
    and "spaced (sk_heart_ts s) (ucast (sk_keeplive_intnal s)) (envs @ [e])"
  shows "(\<forall>n \<le> length envs. sk_state (heartbeats (take n envs) s) = RUDP_CONNECTED)
    \<and> (let s' = heartbeats (envs @ [e]) s in
        if sk_handler s then sk_state s' = RUDP_FIN2_STATE \<and> Exception_event (sk_id s) \<in> set (sk_out s')
        else sk_state s' = RUDP_IDLE \<and> (\<exists>r p. Free_socket (sk_id s) r p \<in> set (sk_out s')))"
proof -
  have sp: "spaced (sk_heart_ts s) (ucast (sk_keeplive_intnal s)) (take n envs)" for n
    using assms(4) by (simp add: spaced_snoc spaced_take)
  have "sk_state (heartbeats (take n envs) s) = RUDP_CONNECTED" if "n \<le> length envs" for n
    using heartbeats_alive [OF assms(1) sp [of n]] assms(2,3) that by simp
  moreover have "let s' = heartbeats (envs @ [e]) s in
        if sk_handler s then sk_state s' = RUDP_FIN2_STATE \<and> Exception_event (sk_id s) \<in> set (sk_out s')
        else sk_state s' = RUDP_IDLE \<and> (\<exists>r p. Free_socket (sk_id s) r p \<in> set (sk_out s'))"
  proof -
    let ?t = "heartbeats envs s"
    have t: "sk_state ?t = RUDP_CONNECTED" "unat (sk_keeplive_count ?t) = unat (sk_timeout_count ?t)"
      "env_now e > sk_heart_ts ?t + ucast (sk_keeplive_intnal ?t)" "sk_id ?t = sk_id s" "sk_handler ?t = sk_handler s"
      using heartbeats_alive [OF assms(1), of envs] assms(2-4) by (auto simp: spaced_snoc)
    have l: "unat (sk_timeout_count ?t) < 65536" by (rule unat_u16_less)
    have c: "sk_keeplive_count ?t + 1 > ucast (sk_timeout_count ?t)"
      using t(2) l by (simp add: word_less_nat_alt unat_word_ariths(1) unsigned_ucast_eq nat_bits)
    let ?u = "?t\<lparr>sk_keeplive_count := sk_keeplive_count ?t + 1\<rparr>"
    have e: "heartbeats (envs @ [e]) s
        = (if sk_handler s then emit (Exception_event (sk_id s)) (set_state e RUDP_FIN2_STATE ?u) else set_state e RUDP_CLOSE ?u)"
      using t c by (simp add: heartbeats_snoc sock_heartbeat_def Let_def)
    have "freed ?u (set_state e RUDP_CLOSE ?u)" by (rule set_state_close_freed) (simp add: t rudp_states)
    moreover have "sk_state (set_state e RUDP_CLOSE ?u) = RUDP_IDLE"
      using t by (subst state_set_state) (simp add: rudp_states)
    ultimately show ?thesis unfolding e Let_def using t by (simp add: freed_def) (simp add: emit_def)
  qed
  ultimately show ?thesis by blast
qed

theorem rudp_dead_peer_witness:
  "sk_state (heartbeats ([env0\<lparr>env_now := 9000\<rparr>, env0\<lparr>env_now := 18000\<rparr>] @ [env0\<lparr>env_now := 27000\<rparr>])
     ((idle_sock 3)\<lparr>sk_state := RUDP_CONNECTED, sk_timeout_count := 2, sk_keeplive_count := 0,
        sk_heart_ts := 1000, sk_keeplive_intnal := 3000\<rparr>)) = RUDP_IDLE"
proof -
  have "\<not> sk_handler (idle_sock 3)" by (rule idle_sock_sel) simp
  then show ?thesis
    using rudp_dead_peer [of "(idle_sock 3)\<lparr>sk_state := RUDP_CONNECTED, sk_timeout_count := 2, sk_keeplive_count := 0,
        sk_heart_ts := 1000, sk_keeplive_intnal := 3000\<rparr>" "[env0\<lparr>env_now := 9000\<rparr>, env0\<lparr>env_now := 18000\<rparr>]"
        "env0\<lparr>env_now := 27000\<rparr>"]
    by (simp add: Let_def)
qed

text \<open>
  A socket with an event handler that has sent FIN does not finish when the answer arrives: it
  reports a close and stays in \<open>RUDP_FIN_STATE\<close>, and the close that the handler makes in return
  changes nothing, so that only the timer frees it.
\<close>

theorem rudp_fin2_ignored:
  assumes "sk_state s = RUDP_FIN_STATE" and "sk_handler s"
  shows "sk_state (process_fin2 env s) = RUDP_FIN_STATE
    \<and> sk_out (process_fin2 env s) = sk_out s @ [Close_event (sk_id s)]
    \<and> sock_close env (process_fin2 env s) = process_fin2 env s"
  using assms by (simp add: process_fin2_def sock_close_def emit_def)

theorem rudp_fin2_ignored_witness:
  "sk_state (process_fin2 env0 ((idle_sock 3)\<lparr>sk_state := RUDP_FIN_STATE, sk_handler := True\<rparr>)) = RUDP_FIN_STATE"
  using rudp_fin2_ignored [of "(idle_sock 3)\<lparr>sk_state := RUDP_FIN_STATE, sk_handler := True\<rparr>" env0] by simp

section \<open>The handshake\<close>

text \<open>A datagram as the receiver sees it, after the adapter's user has read the title byte.\<close>

definition arrived :: "byte list \<Rightarrow> bstream" where
  "arrived bytes = snd (get_u8 \<lparr>sbuf = bytes, rsize = 0\<rparr>)"

lemma read_message:
  assumes "rsize m = 0" and "sbuf m = sbuf (head_pack h (put_u8 t stream_new)) @ b"
  obtains s where "head_unpack (arrived (sbuf m)) = (h, s)" "stream_wf s" "unread s = b"
proof -
  have "sbuf m = u8_bytes t @ (f8_32_16.bytesp (msg_id h, remote_rudp_id h, check_sum h) @ b)"
    using assms(2) by (simp add: head.rec.put_bytes f8.put_bytes stream_new_def)
  then have "stream_wf \<lparr>sbuf = sbuf m, rsize = 0\<rparr>"
    "unread \<lparr>sbuf = sbuf m, rsize = 0\<rparr> = u8_bytes t @ (f8_32_16.bytesp (msg_id h, remote_rudp_id h, check_sum h) @ b)"
    by (simp_all add: stream_wf_def unread_def)
  from f8.get_eq [OF any_ok this] obtain s1 where s1: "get_u8 \<lparr>sbuf = sbuf m, rsize = 0\<rparr> = (t, s1)"
    "stream_wf s1" "unread s1 = f8_32_16.bytesp (msg_id h, remote_rudp_id h, check_sum h) @ b" .
  from head.rec.get_eq [OF TrueI s1(2,3)] obtain s where "head_unpack s1 = (h, s)" "stream_wf s" "unread s = b" .
  with s1(1) that show ?thesis by (simp add: arrived_def)
qed

lemma read_syn:
  obtains s where "head_unpack (arrived (sbuf (syn_pack p (head_pack h (put_u8 t stream_new))))) = (h, s)"
    "fst (syn_unpack s) = p"
proof -
  let ?m = "syn_pack p (head_pack h (put_u8 t stream_new))"
  have "rsize ?m = 0" by (simp add: syn.rec.put_bytes head.rec.put_bytes f8.put_bytes stream_new_def)
  from read_message [OF this syn.rec.put_bytes(1)] obtain s where
    s: "head_unpack (arrived (sbuf ?m)) = (h, s)" "stream_wf s" "unread s = f_syn.bytesp
        (syn_version p, syn_max_segment_size p, syn_local_rudp_id p, syn_start_seq p, syn_local_ts p)" .
  from syn.rec.get_bytes [OF TrueI s(2), of p "[]"] s(3) have "fst (syn_unpack s) = p" by simp
  with s(1) that show ?thesis by blast
qed

lemma read_syn2:
  obtains s where "head_unpack (arrived (sbuf (syn2_pack p (head_pack h (put_u8 t stream_new))))) = (h, s)"
    "fst (syn2_unpack s) = p"
proof -
  let ?m = "syn2_pack p (head_pack h (put_u8 t stream_new))"
  have "rsize ?m = 0" by (simp add: syn2.rec.put_bytes head.rec.put_bytes f8.put_bytes stream_new_def)
  from read_message [OF this syn2.rec.put_bytes(1)] obtain s where
    s: "head_unpack (arrived (sbuf ?m)) = (h, s)" "stream_wf s" "unread s = f_syn2.bytesp
        (syn2_version p, syn2_result p, syn2_max_segment_size p, syn2_local_rudp_id p,
     syn2_start_seq p, syn2_local_ts p, syn2_remote_ts p)" .
  from syn2.rec.get_bytes [OF TrueI s(2), of p "[]"] s(3) have "fst (syn2_unpack s) = p" by simp
  with s(1) that show ?thesis by blast
qed

text \<open>The connection part of a socket: who talks to whom, and the numbering.\<close>

definition link_part :: "rudp_socket \<Rightarrow> (32 word \<times> 32 word \<times> u16 \<times> inet_addr) \<times> u64 \<times> u64" where
  "link_part s = ((sk_id s, sk_remote_id s, sk_check_sum s, sk_addr s), buffer_seq (sk_send s), first_seq (sk_recv s))"

lemma link_part_emit [simp]: "link_part (emit e s) = link_part s"
  by (simp add: link_part_def emit_def)

lemma link_part_udp [simp]: "link_part (sock_udp st s) = link_part s" "link_part ((sock_udp st ^^ n) s) = link_part s"
  by (simp add: sock_udp_def) (induction n, simp_all add: sock_udp_def)

lemma link_part_update [simp]:
  "link_part (s\<lparr>sk_ccc := c\<rparr>) = link_part s" "link_part (s\<lparr>sk_heart_ts := t\<rparr>) = link_part s"
  "link_part (s\<lparr>sk_send_count := n\<rparr>) = link_part s" "link_part (s\<lparr>sk_keeplive_count := k\<rparr>) = link_part s"
  "link_part (s\<lparr>sk_timer := m\<rparr>) = link_part s" "link_part (s\<lparr>sk_state := x\<rparr>) = link_part s"
  by (simp_all add: link_part_def)

lemma link_part_sends [simp]:
  "link_part (send_syn env s) = link_part s" "link_part (send_syn2 env r t s) = link_part s"
  "link_part (send_syn_ack r t s) = link_part s" "link_part (send_keeplive u s) = link_part s"
  by (simp_all add: send_syn_def send_syn2_def send_syn_ack_def send_keeplive_def Let_def)

lemma link_part_timer [simp]: "link_part (sock_set_timer env d s) = link_part s" "link_part (sock_cancel_timer s) = link_part s"
  by (simp_all add: sock_set_timer_def sock_cancel_timer_def)

lemma link_part_state [simp]: "st \<noteq> RUDP_CLOSE \<Longrightarrow> link_part (set_state env st s) = link_part s"
  by (simp add: set_state_def Let_def)

lemma out_update [simp]:
  "sk_out (sock_udp st s) = sk_out s @ [Udp (sk_index s) (sbuf st) (sk_addr s)]"
  by (simp add: sock_udp_def emit_def)

lemma out_keep:
  "e \<in> set (sk_out s) \<Longrightarrow> e \<in> set (sk_out (sock_set_timer env d s))"
  "e \<in> set (sk_out s) \<Longrightarrow> e \<in> set (sk_out (sock_cancel_timer s))"
  by (simp_all add: sock_set_timer_def sock_cancel_timer_def emit_def)

lemma out_state: "st \<noteq> RUDP_CLOSE \<Longrightarrow> e \<in> set (sk_out s) \<Longrightarrow> e \<in> set (sk_out (set_state env st s))"
  by (simp add: set_state_def Let_def out_keep)

lemma index_state [simp]: "st \<noteq> RUDP_CLOSE \<Longrightarrow> sk_index (set_state env st s) = sk_index s"
  "st \<noteq> RUDP_CLOSE \<Longrightarrow> sk_title (set_state env st s) = sk_title s"
  "st \<noteq> RUDP_CLOSE \<Longrightarrow> sk_addr (set_state env st s) = sk_addr s"
  "st \<noteq> RUDP_CLOSE \<Longrightarrow> sk_check_sum (set_state env st s) = sk_check_sum s"
  "st \<noteq> RUDP_CLOSE \<Longrightarrow> sk_send (set_state env st s) = sk_send s"
  by (simp_all add: set_state_def Let_def sock_cancel_timer_def emit_def)

lemma connect_syn:
  assumes "sock_connect env addr A = (A1, 0)"
  obtains head syn where
    "Udp (sk_index A) (sbuf (syn_pack syn (head_pack head (put_u8 (sk_title A) stream_new)))) addr \<in> set (sk_out A1)"
    "msg_id head = RUDP_SYN" "remote_rudp_id head = INVALID_RUDP_HANDLE" "check_sum head = sk_check_sum A1"
    "syn_local_rudp_id syn = sk_id A" "syn_start_seq syn = buffer_seq (sk_send A)"
    "sk_state A1 = RUDP_CONNECTING" "sk_id A1 = sk_id A" "sk_addr A1 = addr" "buffer_seq (sk_send A1) = buffer_seq (sk_send A)"
proof -
  let ?A = "A\<lparr>sk_addr := addr, sk_check_sum := ucast (env_random env mod 65536)\<rparr>"
  let ?B = "set_state env RUDP_CONNECTING ?A"
  have idle: "sk_state A = RUDP_IDLE" using assms by (auto simp: sock_connect_def split: if_splits)
  have e: "A1 = (sock_set_timer env CONNECT_DELAY ((send_syn env ?B)
      \<lparr>sk_ccc := ccc_init (buffer_seq (sk_send (send_syn env ?B)) - 1) (env_now env)\<rparr>))
      \<lparr>sk_send_count := sk_send_count (send_syn env ?B) + 1\<rparr>"
    using assms by (auto simp: sock_connect_def Let_def split: if_splits)
  let ?head = "\<lparr>msg_id = RUDP_SYN, check_sum = sk_check_sum ?B, remote_rudp_id = INVALID_RUDP_HANDLE\<rparr>"
  let ?syn = "\<lparr>syn_version = RUDP_VERSION, syn_max_segment_size = of_nat MAX_SEGMENT_SIZE,
                 syn_local_rudp_id = sk_id ?B, syn_start_seq = buffer_seq (sk_send ?B),
                 syn_local_ts = env_now env\<rparr>"
  have l: "link_part A1 = link_part ?A" by (simp add: e)
  have "Udp (sk_index A) (sbuf (syn_pack ?syn (head_pack ?head (put_u8 (sk_title A) stream_new)))) addr
      \<in> set (sk_out (send_syn env ?B))"
    by (simp add: send_syn_def Let_def)
  then have "Udp (sk_index A) (sbuf (syn_pack ?syn (head_pack ?head (put_u8 (sk_title A) stream_new)))) addr \<in> set (sk_out A1)"
    unfolding e by (simp add: out_keep)
  then show ?thesis
    by (rule that) (use l idle in \<open>simp_all add: link_part_def\<close>, simp add: e idle)
qed

lemma accept_syn2:
  assumes "sk_state B = RUDP_IDLE" and "sk_id B \<noteq> INVALID_RUDP_HANDLE"
  obtains head syn2 where
    "Udp (sk_index B) (sbuf (syn2_pack syn2 (head_pack head (put_u8 (sk_title B) stream_new)))) addr
       \<in> set (sk_out (process_syn env syn addr B))"
    "msg_id head = RUDP_SYN2" "remote_rudp_id head = syn_local_rudp_id syn" "check_sum head = sk_check_sum B"
    "syn2_result syn2 = 0" "syn2_local_rudp_id syn2 = sk_id B" "syn2_start_seq syn2 = buffer_seq (sk_send B)"
    "sk_state (process_syn env syn addr B) = RUDP_CONNECTED"
    "link_part (process_syn env syn addr B) = ((sk_id B, syn_local_rudp_id syn, sk_check_sum B, addr),
       buffer_seq (sk_send B), syn_start_seq syn - 1)"
proof -
  let ?s = "B\<lparr>sk_recv := set_send_last_ack_ts (env_now env) (set_first_seq (syn_start_seq syn) (sk_recv B)),
                   sk_ccc := ccc_init (buffer_seq (sk_send B) - 1) (env_now env),
                   sk_addr := addr, sk_remote_id := syn_local_rudp_id syn\<rparr>"
  have e: "process_syn env syn addr B
      = send_keeplive (env_now env) (set_state env RUDP_CONNECTED (send_syn2 env 0 (syn_local_ts syn) ?s))"
    using assms by (simp add: process_syn_def Let_def)
  let ?head = "\<lparr>msg_id = RUDP_SYN2, check_sum = sk_check_sum B, remote_rudp_id = syn_local_rudp_id syn\<rparr>"
  let ?syn2 = "\<lparr>syn2_version = RUDP_VERSION, syn2_result = 0, syn2_max_segment_size = of_nat MAX_SEGMENT_SIZE,
      syn2_local_rudp_id = sk_id B, syn2_start_seq = buffer_seq (sk_send B), syn2_local_ts = env_now env,
      syn2_remote_ts = syn_local_ts syn\<rparr>"
  have "Udp (sk_index B) (sbuf (syn2_pack ?syn2 (head_pack ?head (put_u8 (sk_title B) stream_new)))) addr
      \<in> set (sk_out (send_syn2 env 0 (syn_local_ts syn) ?s))"
    by (simp add: send_syn2_def Let_def msg_head_def numeral_3_eq_3)
  then have "Udp (sk_index B) (sbuf (syn2_pack ?syn2 (head_pack ?head (put_u8 (sk_title B) stream_new)))) addr
      \<in> set (sk_out (set_state env RUDP_CONNECTED (send_syn2 env 0 (syn_local_ts syn) ?s)))"
    by (intro out_state) simp_all
  then have h1: "Udp (sk_index B) (sbuf (syn2_pack ?syn2 (head_pack ?head (put_u8 (sk_title B) stream_new)))) addr
      \<in> set (sk_out (process_syn env syn addr B))"
    unfolding e by (simp add: send_keeplive_def)
  have h2: "sk_state (process_syn env syn addr B) = RUDP_CONNECTED" unfolding e by (simp add: assms)
  have h3: "link_part (process_syn env syn addr B) = ((sk_id B, syn_local_rudp_id syn, sk_check_sum B, addr),
       buffer_seq (sk_send B), syn_start_seq syn - 1)"
    unfolding e by (simp, simp add: link_part_def set_send_last_ack_ts_def set_first_seq_def)
  show ?thesis by (rule that [OF h1 _ _ _ _ _ _ h2 h3]) (simp_all only: head_packet.simps syn2_packet.simps)
qed

text \<open>
  C25. The handshake. A connecting socket and a listening one that gets its SYN (with the check sum
  of its header, as the socket table sets it) exchange the packets as they are on the wire and
  are then both connected; each knows the other's number, both use one check sum, and each
  expects exactly the sequence number with which the other will start to send.
\<close>

theorem rudp_handshake:
  assumes "sock_connect envA addrB A = (A1, 0)" and "sk_state B = RUDP_IDLE" and "sk_id B \<noteq> INVALID_RUDP_HANDLE"
  shows "\<exists>syn_bytes head st. Udp (sk_index A) syn_bytes addrB \<in> set (sk_out A1)
    \<and> head_unpack (arrived syn_bytes) = (head, st) \<and> msg_id head = RUDP_SYN
    \<and> remote_rudp_id head = INVALID_RUDP_HANDLE
    \<and> (let B1 = process_syn envB (fst (syn_unpack st)) addrA (B\<lparr>sk_check_sum := check_sum head\<rparr>) in
        sk_state B1 = RUDP_CONNECTED \<and> sk_remote_id B1 = sk_id A \<and> sk_addr B1 = addrA
        \<and> (\<exists>syn2_bytes head2 st2. Udp (sk_index B) syn2_bytes addrA \<in> set (sk_out B1)
            \<and> head_unpack (arrived syn2_bytes) = (head2, st2) \<and> remote_rudp_id head2 = sk_id A
            \<and> (\<exists>A2. sock_process envA2 (msg_id head2) (check_sum head2) st2 addrB A1 = Some A2
                \<and> sk_state A2 = RUDP_CONNECTED \<and> sk_remote_id A2 = sk_id B \<and> sk_check_sum A2 = sk_check_sum B1
                \<and> first_seq (sk_recv B1) + 1 = buffer_seq (sk_send A2)
                \<and> first_seq (sk_recv A2) + 1 = buffer_seq (sk_send B1))))"
proof -
  from connect_syn [OF assms(1)] obtain head syn where a:
    "Udp (sk_index A) (sbuf (syn_pack syn (head_pack head (put_u8 (sk_title A) stream_new)))) addrB \<in> set (sk_out A1)"
    "msg_id head = RUDP_SYN" "remote_rudp_id head = INVALID_RUDP_HANDLE" "check_sum head = sk_check_sum A1"
    "syn_local_rudp_id syn = sk_id A" "syn_start_seq syn = buffer_seq (sk_send A)"
    "sk_state A1 = RUDP_CONNECTING" "sk_id A1 = sk_id A" "sk_addr A1 = addrB" "buffer_seq (sk_send A1) = buffer_seq (sk_send A)" .
  obtain st where st: "head_unpack (arrived (sbuf (syn_pack syn (head_pack head (put_u8 (sk_title A) stream_new))))) = (head, st)"
    "fst (syn_unpack st) = syn" by (rule read_syn)
  let ?B = "B\<lparr>sk_check_sum := check_sum head\<rparr>"
  let ?B1 = "process_syn envB syn addrA ?B"
  have "sk_state ?B = RUDP_IDLE" "sk_id ?B \<noteq> INVALID_RUDP_HANDLE" using assms by simp_all
  from accept_syn2 [OF this, where env = envB and syn = syn and addr = addrA] obtain head2 syn2 where b0:
    "Udp (sk_index ?B) (sbuf (syn2_pack syn2 (head_pack head2 (put_u8 (sk_title ?B) stream_new)))) addrA \<in> set (sk_out ?B1)"
    "msg_id head2 = RUDP_SYN2" "remote_rudp_id head2 = syn_local_rudp_id syn" "check_sum head2 = sk_check_sum ?B"
    "syn2_result syn2 = 0" "syn2_local_rudp_id syn2 = sk_id ?B" "syn2_start_seq syn2 = buffer_seq (sk_send ?B)"
    "sk_state ?B1 = RUDP_CONNECTED"
    "link_part ?B1 = ((sk_id ?B, syn_local_rudp_id syn, sk_check_sum ?B, addrA), buffer_seq (sk_send ?B), syn_start_seq syn - 1)" .
  then have b:
    "Udp (sk_index B) (sbuf (syn2_pack syn2 (head_pack head2 (put_u8 (sk_title B) stream_new)))) addrA \<in> set (sk_out ?B1)"
    "msg_id head2 = RUDP_SYN2" "remote_rudp_id head2 = syn_local_rudp_id syn" "check_sum head2 = check_sum head"
    "syn2_result syn2 = 0" "syn2_local_rudp_id syn2 = sk_id B" "syn2_start_seq syn2 = buffer_seq (sk_send B)"
    "sk_state ?B1 = RUDP_CONNECTED"
    "link_part ?B1 = ((sk_id B, syn_local_rudp_id syn, check_sum head, addrA), buffer_seq (sk_send B), syn_start_seq syn - 1)"
    by simp_all
  obtain st2 where st2: "head_unpack (arrived (sbuf (syn2_pack syn2 (head_pack head2 (put_u8 (sk_title B) stream_new))))) = (head2, st2)"
    "fst (syn2_unpack st2) = syn2" by (rule read_syn2)
  let ?A1 = "A1\<lparr>sk_keeplive_count := 0\<rparr>"
  let ?A2 = "process_syn2 envA2 st2 addrB ?A1"
  have p: "sock_process envA2 (msg_id head2) (check_sum head2) st2 addrB A1 = Some ?A2"
    using a b(2,4) by (simp add: sock_process_def rudp_message_defs Let_def)
  let ?C = "?A1\<lparr>sk_recv := set_send_last_ack_ts (env_now envA2) (set_first_seq (syn2_start_seq syn2) (sk_recv ?A1)),
                      sk_addr := addrB, sk_remote_id := syn2_local_rudp_id syn2,
                      sk_ccc := ccc_set_rtt (measured_rtt (env_now envA2) (syn2_remote_ts syn2)) (sk_ccc ?A1)\<rparr>"
  have "link_part ?A2 = link_part ?C" "sk_state ?A2 = RUDP_CONNECTED"
    using a(7) b(5) st2(2) by (simp_all add: process_syn2_def Let_def)
  then have A2: "sk_remote_id ?A2 = sk_id B" "sk_check_sum ?A2 = sk_check_sum A1" "buffer_seq (sk_send ?A2) = buffer_seq (sk_send A)"
    "first_seq (sk_recv ?A2) = buffer_seq (sk_send B) - 1" "sk_state ?A2 = RUDP_CONNECTED"
    using a(10) b(6,7) by (simp_all add: link_part_def set_send_last_ack_ts_def set_first_seq_def)
  have B1: "sk_remote_id ?B1 = sk_id A" "sk_check_sum ?B1 = sk_check_sum A1" "sk_addr ?B1 = addrA"
    "buffer_seq (sk_send ?B1) = buffer_seq (sk_send B)" "first_seq (sk_recv ?B1) = buffer_seq (sk_send A) - 1"
    using b(9) a(4-6) by (simp_all add: link_part_def)
  show ?thesis
  proof (intro exI conjI)
    show "let B1 = process_syn envB (fst (syn_unpack st)) addrA ?B in
        sk_state B1 = RUDP_CONNECTED \<and> sk_remote_id B1 = sk_id A \<and> sk_addr B1 = addrA
        \<and> (\<exists>syn2_bytes head2 st2. Udp (sk_index B) syn2_bytes addrA \<in> set (sk_out B1)
            \<and> head_unpack (arrived syn2_bytes) = (head2, st2) \<and> remote_rudp_id head2 = sk_id A
            \<and> (\<exists>A2. sock_process envA2 (msg_id head2) (check_sum head2) st2 addrB A1 = Some A2
                \<and> sk_state A2 = RUDP_CONNECTED \<and> sk_remote_id A2 = sk_id B \<and> sk_check_sum A2 = sk_check_sum B1
                \<and> first_seq (sk_recv B1) + 1 = buffer_seq (sk_send A2)
                \<and> first_seq (sk_recv A2) + 1 = buffer_seq (sk_send B1)))"
      unfolding st(2) Let_def using A2 B1 b(1,3,8) st2(1) p a(5) by auto
  qed (rule a(1-3) st(1))+
qed

theorem rudp_handshake_witness:
  "\<exists>syn_bytes head st. Udp 0 syn_bytes (7, 9) \<in> set (sk_out (fst (sock_connect env0 (7, 9) (idle_sock 3))))
    \<and> head_unpack (arrived syn_bytes) = (head, st)
    \<and> sk_state (process_syn env0 (fst (syn_unpack st)) (8, 5) ((idle_sock 4)\<lparr>sk_check_sum := check_sum head\<rparr>)) = RUDP_CONNECTED"
proof -
  let ?A = "fst (sock_connect env0 (7, 9) (idle_sock 3))"
  have a: "sock_connect env0 (7, 9) (idle_sock 3) = (?A, 0)"
    by (simp add: sock_connect_def idle_sock_sel Let_def INVALID_RUDP_HANDLE_def)
  have b: "sk_state (idle_sock 4) = RUDP_IDLE" "sk_id (idle_sock 4) \<noteq> INVALID_RUDP_HANDLE" "sk_index (idle_sock 3) = 0"
    by (simp_all add: idle_sock_sel INVALID_RUDP_HANDLE_def)
  have "\<exists>syn_bytes head st. Udp (sk_index (idle_sock 3)) syn_bytes (7, 9) \<in> set (sk_out ?A)
    \<and> head_unpack (arrived syn_bytes) = (head, st)
    \<and> sk_state (process_syn env0 (fst (syn_unpack st)) (8, 5) ((idle_sock 4)\<lparr>sk_check_sum := check_sum head\<rparr>)) = RUDP_CONNECTED"
    using rudp_handshake [OF a b(1,2), of env0 "(8, 5)" env0] unfolding Let_def by blast
  then show ?thesis using b(3) by simp
qed

end
