(* ===== verification/Spec2Isabelle.thy ===== *)
theory Spec2Isabelle
  imports Mtr_Log Log_Write Log_Recover Read_View_Properties Lock_Update Sync_Rw Rem_Convert Recv_Properties Fut_Properties Rudp_Link Rudp_Socket
begin

text \<open>
  A verification development for the InnoDB sources of this repository and the reliable UDP library
  beside them.

  The program. The storage engine (\<open>*.cc\<close>, \<open>*.h\<close>, \<open>*.inl\<close> in the root of \<open>src\<close>) is InnoDB typed
  in anew, with its comments. Data pages are changed inside of mini-transactions, which append redo
  records to a log; the log goes through a buffer to groups of files and is bounded by checkpoints;
  transactions take locks on records and tables for writing and locking reads, and read views for
  consistent reads; purge removes the old versions that no view needs. \<open>common/\<close> holds a network
  framework, of which \<open>common/rudp\<close> is a connection oriented protocol over UDP.

  The theories, bottom up, with the code they translate.

  \<^item> \<open>Inno_Prelude\<close>: machine types, a byte addressed memory, rewrite rules for words. \<open>Codec\<close>: the
    locale \<open>codec\<close> of a fixed-position encoding (a writer, a size, a reader and their laws),
    \<open>codec_pair\<close> of two in a row, \<open>codec_via\<close> of a change of representation; \<open>Mach_Data\<close>
    interprets them on the functions of \<open>mach0data.cc\<close>, integers in 1 to 8 bytes, compressed and
    much compressed integers, and the parsers that stop at the end of a buffer.
  \<^item> \<open>Ut_Byte\<close> (\<open>ut0byte\<close>): the 64 bit integer \<open>dulint\<close> as a pair, alignment, single bits. Its
    arithmetic is not in the repository; the records \<open>dulint_api\<close>, \<open>lsn_api\<close> and \<open>trx_api\<close> are the
    functions the code calls, with their documented laws as \<open>..._ok\<close> predicates and instances
    (\<open>dulint_ref\<close>, \<open>lsn_ref\<close>, \<open>trx_ref\<close>) for the witnesses. \<open>Ut_Rnd\<close> (\<open>ut0rnd.cc\<close>): random numbers
    and folding; the generator is injective and the unrolled \<open>ut_fold_binary\<close> is the plain fold.
  \<^item> \<open>Dyn_Array\<close> (\<open>dyn0dyn\<close>) and \<open>Mtr_Log\<close> (\<open>mtr0log\<close>, \<open>mtr0mtr\<close>, the addressing of
    \<open>buf0buf.inl\<close>): the growing array that holds a mini-transaction's log is an append-only byte
    string, and a redo record, parsed and applied, makes the change that was logged.
  \<^item> \<open>Log_Block\<close> (\<open>log0log.inl\<close>), \<open>Log_Group\<close> and \<open>Log_Write\<close> (\<open>log0log.cc\<close>): the fields and the
    checksum of a log block, where an lsn stands in the files of a group, the write of the buffer
    across file ends and round the group, and reading it back.
  \<^item> \<open>Log_Checkpoint\<close> and \<open>Log_Recover\<close> (\<open>log0log.cc\<close>, \<open>log0recv.cc\<close>): the checkpoint block with
    its two checksums, its write to every group as a step relation \<open>cp_step\<close> of issued, torn and
    completed writes, the invariant \<open>cp_ok\<close>, and what recovery finds at any moment.
  \<^item> \<open>Recv_Scan\<close> and \<open>Recv_Properties\<close> (\<open>log0recv.cc\<close>): the scan of log blocks, the parsing buffer, the
    parser of records, with the parsers of the bodies as the argument \<open>body\<close> and their promise
    \<open>parser_stays\<close>, the table of page addresses, the application to a page, and the scan for backups.
    Locals that the code reads before it sets them (\<open>old_lsn\<close>, \<open>junk\<close>) are arguments.
  \<^item> \<open>Data_Tuple\<close> (\<open>data0type\<close>, \<open>data0data\<close>): types, fields and tuples. \<open>Rem_Rec\<close> and \<open>Rem_Convert\<close>
    (\<open>rem0rec\<close>): the bytes of a physical record, its header fields and field ends in the short and the long
    form, the conversion from a tuple, hashing and checking.
  \<^item> \<open>Fut_Lst\<close>, \<open>Fut_Rep\<close>, \<open>Fut_Properties\<close> (\<open>fut0lst\<close>, \<open>fut0fut\<close>): two-way lists of nodes in
    pages of the buffer pool, every write of a field with its redo record. A page is looked up among
    the pool's blocks; its read from the disk, its latch and its fix count are not in the model.
    \<open>flst_rep\<close> relates a base node and its pages to a list of addresses, \<open>runs\<close> and \<open>redo\<close> say that
    the records written repeat the writes.
  \<^item> \<open>Read_View\<close>, \<open>Read_View_Inv\<close>, \<open>Read_View_Properties\<close> (\<open>read0read\<close>, \<open>trx0trx.cc\<close>,
    \<open>trx0sys.inl\<close>, \<open>trx0purge.cc\<close>, \<open>row0vers.cc\<close>): the list of transactions, views and the purge
    view under \<open>kernel_mutex\<close>; \<open>trx_step\<close> lets every part between two releases of the mutex
    interleave. \<open>core\<close> is what a view sees without its creator's changes; the invariant orders the
    views by it.
  \<^item> \<open>Lock_Sys\<close>, \<open>Lock_Table\<close>, \<open>Lock_Update\<close> (\<open>lock0lock.cc\<close>): record locks, table locks, deadlock
    search, and what page changes do to locks. The queue of a record is the list of the locks on
    its page in the order of the hash chain, a lock's bitmap a byte list. \<open>Lock_Safety\<close>,
    \<open>Lock_Release\<close>, \<open>Lock_Trx\<close> and \<open>Lock_Reach\<close> show that all operations keep \<open>lock_inv\<close> (what is
    granted is compatible, what waits has a reason) and \<open>trx_ok\<close> (the transactions' lists);
    \<open>Lock_Properties\<close> states what follows for the reachable states.
  \<^item> \<open>Sync_Rw\<close> (\<open>sync0rw.cc\<close>): the reader-writer latch with its mutex and its functions; \<open>rw_reach\<close> is
    the part of its interface that works, with the threads that hold the latch as ghosts.
  \<^item> \<open>Bin_Stream\<close> and \<open>Rudp_Packet\<close> (\<open>base_bin_stream\<close>, \<open>rudp_packet.h\<close>): the locales
    \<open>stream_format\<close> and \<open>stream_record\<close>, interpreted on every packet, give their round trips.
    \<open>Std_Map\<close>: \<open>std::map\<close> as a sorted list. \<open>Rudp_Recv\<close>, \<open>Rudp_Ccc\<close>, \<open>Rudp_Send\<close>: the two windows
    and the congestion control of a connection. \<open>Rudp_Link\<close> joins a sender and a receiver by a
    network that loses, repeats and reorders. \<open>Rudp_Socket\<close> is the state machine of a connection
    with its timers; its calls of the outside are the list \<open>out\<close> of a state.

  Conventions. \<open>ulint\<close> is a 64 bit word and wraps; pointers of the log and page code are natural
  numbers into a memory \<open>ptr \<Rightarrow> byte\<close>; objects in lists (locks, transactions, views) are known by
  numbers that stand for their addresses. A failing \<open>ut_a\<close> and undefined behaviour are \<open>None\<close>, or a
  named constructor where the code tells cases apart. Latches are not in the states of the other parts: a function that
  runs under a mutex is one step, one that releases it is cut there. Where a line of the source does
  not compile (\<open>trx_id = ...\<close> for \<open>trx->id = ...\<close>, a comma for a semicolon), it is read as it is
  meant, and reported; where it compiles it is translated as it stands, also when it is wrong.

  Bounds and fuel. Numbers that the code counts up (lsns, transaction ids, checkpoint numbers) stay
  below \<open>2 ^ 63\<close> in the hypotheses. Loops are structural recursions or have a measure, apart from
  the reader of a log segment, which is total for the geometry it is called with, the parser of
  recovery, which is shown to return, and the deadlock search, whose recursion carries the code's own
  bound of steps.

  What the properties say, by part. Log: the bytes of the log land where recovery reads them and come
  back; a changed byte is detected; a crash at any moment of a checkpoint leaves a usable one; recovery's parser ends inside its
  buffer, and a backup accepts what was written. Records: a tuple stored as a record reads back. Redo:
  replaying a record repeats the change. File lists: the operations are those of a list, and their
  log repeats them. Transactions: reads are repeatable and see committed data,
  purge is safe. Locks: granted locks are compatible, no wakeup is lost, every request is answered,
  no deadlock is missed, a commit leaves no lock behind, a deleted record's locks go to its heir.
  RUDP: data arrives complete and in order, windows stay bounded, losses are resent, a handshake
  connects, a close and a dead peer end the connection. Properties of kind \<open>error\<close> prove where the
  code departs from what it means to do.

  Not modelled. B-trees, pages and cursors, file spaces, buffer replacement, undo pages, the
  dictionary, the insert buffer, row operations and the SQL layer: they work on latched pages through
  interfaces that the sources only partly have (several files do not compile, and functions they
  call are missing). The record body parsers
  that \<open>log0recv.cc\<close> calls belong to these modules, as do its batch application, resets and archives. Of the latches
  only the reader-writer latch is modelled; mutexes, threads, events and IO are the environment. Of the transaction system, rollback, signals and
  two-phase details of the undo logs are left out; of the log, archiving and the waiting of threads;
  of RUDP, the socket table and the threads. Generated and vendored code (the SQL scanner, minilzo,
  aes, rapidjson) and the tools beside the engine are left out.
\<close>

end
